(* ===== verification/Prelude.thy ===== *)
theory Prelude
  imports Complex_Main "HOL-Library.Word" "HOL-Library.Multiset" "HOL-Library.Monad_Syntax"
begin

text \<open>
  Shared ground of the development: the machine integers and time constants of
  \<^verbatim>\<open>core/support/definitions.h\<close>, the model of \<^verbatim>\<open>utility_assert\<close> and
  \<^verbatim>\<open>utility_panic\<close> (\<^verbatim>\<open>utility/utility.h\<close>), and the generic lemmas on lists,
  maps and words that the component theories use.

  A routine that can abort returns an \<open>option\<close>: \<open>None\<close> is the process abort of
  \<^verbatim>\<open>utility_handleError\<close>, reached through a failed \<^verbatim>\<open>utility_assert\<close> (the DEBUG build
  is modelled, in which assertions are compiled in) or through \<^verbatim>\<open>utility_panic\<close>. A
  theorem that a routine returns \<open>Some\<close> therefore also says that its assertions hold,
  so that the build without assertions computes the same result.
\<close>

unbundle bit_operations_syntax

subsection \<open>Collections of facts\<close>

named_theorems model_defs \<open>defining equations of the one-step operations\<close>
named_theorems wf_intros \<open>introduction rules: an operation keeps a well-formedness invariant\<close>
named_theorems frame_simps \<open>fields an operation leaves alone\<close>

subsection \<open>Machine integers and simulation time\<close>

type_synonym u16 = "16 word"
type_synonym byte = "8 word"
type_synonym u32 = "32 word"
type_synonym u64 = "64 word"
type_synonym simtime = "64 word"
type_synonym emutime = "64 word"

abbreviation G_MAXUINT64 :: u64 where "G_MAXUINT64 \<equiv> - 1"

definition SIMTIME_INVALID :: simtime where "SIMTIME_INVALID = G_MAXUINT64"
definition SIMTIME_MAX :: simtime where "SIMTIME_MAX = G_MAXUINT64 - 1"
definition SIMTIME_ONE_MICROSECOND :: simtime where "SIMTIME_ONE_MICROSECOND = 1000"
definition SIMTIME_ONE_MILLISECOND :: simtime where "SIMTIME_ONE_MILLISECOND = 1000000"
definition SIMTIME_ONE_SECOND :: simtime where "SIMTIME_ONE_SECOND = 1000000000"
definition EMULATED_TIME_OFFSET :: emutime where
  "EMULATED_TIME_OFFSET = 946684800 * SIMTIME_ONE_SECOND"
definition EMULATED_TIME_TO_SIMULATED_TIME :: "emutime \<Rightarrow> simtime" where
  "EMULATED_TIME_TO_SIMULATED_TIME t = t - EMULATED_TIME_OFFSET"
definition CONFIG_PIPE_BUFFER_SIZE :: nat where "CONFIG_PIPE_BUFFER_SIZE = 65536"
definition CONFIG_HEADER_SIZE_UDPIPETH :: u32 where "CONFIG_HEADER_SIZE_UDPIPETH = 42"
definition CONFIG_HEADER_SIZE_TCPIPETH :: u32 where "CONFIG_HEADER_SIZE_TCPIPETH = 66"
definition CONFIG_MTU :: u64 where "CONFIG_MTU = 1500"

subsection \<open>Assertions\<close>

definition utility_assert :: "bool \<Rightarrow> unit option" where
  "utility_assert b = (if b then Some () else None)"

abbreviation (input) utility_panic :: "'a option" where "utility_panic \<equiv> None"

lemma utility_assert_simps [simp]:
  "utility_assert True = Some ()"
  "utility_assert False = None"
  by (simp_all add: utility_assert_def)

lemma utility_assert_eq_Some [simp]: "utility_assert b = Some u \<longleftrightarrow> b"
  by (simp add: utility_assert_def)

lemma utility_assert_eq_None [simp]: "utility_assert b = None \<longleftrightarrow> \<not> b"
  by (simp add: utility_assert_def)

lemma bind_assert_eq_Some [simp]:
  "utility_assert b \<bind> f = Some r \<longleftrightarrow> b \<and> f () = Some r"
  by (simp add: utility_assert_def)

lemma bind_assert_True [simp]: "b \<Longrightarrow> utility_assert b \<bind> f = f ()"
  by (simp add: utility_assert_def)

subsection \<open>Bits of a word\<close>

lemma xor_eq_0_iff: "a XOR b = 0 \<longleftrightarrow> a = (b :: 'a::len word)"
  by (auto simp: bit_eq_iff bit_xor_iff)

subsection \<open>Signed reading of a word\<close>

lemma sint_small: "unat (w :: 'a::len word) < 2 ^ (LENGTH('a) - 1) \<Longrightarrow> sint w = int (unat w)"
proof -
  assume "unat w < 2 ^ (LENGTH('a) - 1)"
  then have "int (unat w) < int (2 ^ (LENGTH('a) - 1))" by (simp only: of_nat_less_iff)
  then have "uint w < 2 ^ (LENGTH('a) - 1)" by simp
  then have "sint w = uint w"
    unfolding sint_uint by (intro signed_take_bit_int_eq_self) (simp_all add: order_trans [of _ 0])
  then show ?thesis by simp
qed

subsection \<open>Swapping two list entries\<close>

definition swap_list :: "'a list \<Rightarrow> nat \<Rightarrow> nat \<Rightarrow> 'a list" where
  "swap_list xs i j = xs[i := xs ! j, j := xs ! i]"

lemma length_swap_list [simp]: "length (swap_list xs i j) = length xs"
  by (simp add: swap_list_def)

lemma nth_swap_list:
  "i < length xs \<Longrightarrow> j < length xs \<Longrightarrow> k < length xs \<Longrightarrow>
   swap_list xs i j ! k = (if k = j then xs ! i else if k = i then xs ! j else xs ! k)"
  by (simp add: swap_list_def nth_list_update)

lemma mset_swap_list [simp]:
  "i < length xs \<Longrightarrow> j < length xs \<Longrightarrow> mset (swap_list xs i j) = mset xs"
  by (simp add: swap_list_def mset_swap)

lemma set_swap_list [simp]:
  "i < length xs \<Longrightarrow> j < length xs \<Longrightarrow> set (swap_list xs i j) = set xs"
  by (metis mset_swap_list set_mset_mset)

lemma distinct_swap_list [simp]:
  "i < length xs \<Longrightarrow> j < length xs \<Longrightarrow> distinct (swap_list xs i j) = distinct xs"
  by (simp add: swap_list_def)

lemma butlast_swap_last:
  assumes "xs \<noteq> []"
  shows "mset (butlast (swap_list xs 0 (length xs - 1))) = mset xs - {#xs ! 0#}"
proof -
  let ?ys = "swap_list xs 0 (length xs - 1)"
  have ne: "?ys \<noteq> []" using assms by (metis length_0_conv length_swap_list)
  have "last ?ys = xs ! 0"
    using assms ne by (simp add: last_conv_nth nth_swap_list)
  then have "mset xs = mset (butlast ?ys) + {#xs ! 0#}"
    using append_butlast_last_id [OF ne] assms
    by (metis diff_less length_greater_0_conv less_one mset_append mset_single_iff_right
        mset_swap_list mset.simps(2) add_mset_add_single)
  then show ?thesis by simp
qed

lemma set_mset_remove:
  assumes "distinct xs" and "mset ys = mset xs - {#x#}"
  shows "set ys = set xs - {x}"
proof -
  have "mset ys = mset (remove1 x xs)" using assms(2) by simp
  then have "set ys = set (remove1 x xs)" by (rule mset_eq_setD)
  with assms(1) show ?thesis by (simp add: set_remove1_eq)
qed

lemma Min_insert_Min:
  assumes "finite A" and "finite B" and "A \<noteq> {}"
  shows "Min (insert (Min A) B) = Min (A \<union> B)"
  using assms by (cases "B = {}") (simp_all add: Min_Un)

lemma map_upd_ex:
  "(\<exists>k v. (m(a \<mapsto> b)) k = Some v \<and> P v) \<longleftrightarrow> P b \<or> (\<exists>k v. k \<noteq> a \<and> m k = Some v \<and> P v)"
  by auto

lemma map_ex_split:
  "(\<exists>k v. m k = Some v \<and> P v) \<longleftrightarrow> (\<exists>v. m a = Some v \<and> P v) \<or> (\<exists>k v. k \<noteq> a \<and> m k = Some v \<and> P v)"
  by (metis (full_types))

subsection \<open>Doubles\<close>

text \<open>
  A finite \<^verbatim>\<open>double\<close> is modelled by its exact rational value. Converting an integer rounds it
  to 53 significant bits, to the nearest value and to the even one on a tie.
\<close>

fun bit_length :: "nat \<Rightarrow> nat" where
  "bit_length n = (if n = 0 then 0 else Suc (bit_length (n div 2)))"

declare bit_length.simps [simp del]

text \<open>
  \<open>round_sig n sticky\<close> rounds \<open>n\<close>, or a value strictly between \<open>n\<close> and \<open>n + 1\<close> where \<open>sticky\<close>
  holds, to 53 significant bits. With \<open>sticky\<close> it is only used where \<open>n\<close> itself has more bits.
\<close>

definition round_sig :: "nat \<Rightarrow> bool \<Rightarrow> nat" where
  "round_sig n sticky =
     (if n < 2 ^ 53 then n
      else let k = bit_length n - 53; q = n div 2 ^ k; r = n mod 2 ^ k; half = 2 ^ (k - 1)
           in (if r > half \<or> r = half \<and> (sticky \<or> odd q) then q + 1 else q) * 2 ^ k)"

definition double_of_nat :: "nat \<Rightarrow> rat" where
  "double_of_nat n = of_nat (round_sig n False)"

lemma round_sig_exact: "n < 2 ^ 53 \<Longrightarrow> round_sig n sticky = n"
  by (simp add: round_sig_def)

lemma double_of_nat_exact: "n < 2 ^ 53 \<Longrightarrow> double_of_nat n = of_nat n"
  by (simp add: double_of_nat_def round_sig_exact)

lemma bit_length_bounds: "0 < n \<Longrightarrow> 2 ^ (bit_length n - 1) \<le> n \<and> n < 2 ^ bit_length n"
proof (induction n rule: bit_length.induct)
  case (1 n)
  show ?case
  proof (cases "n div 2 = 0")
    case True
    then have "n = 1" using 1 by simp
    then show ?thesis by (simp add: bit_length.simps)
  next
    case False
    let ?k = "bit_length (n div 2)"
    have b: "2 ^ (?k - 1) \<le> n div 2" "n div 2 < 2 ^ ?k" using 1 False by auto
    have "0 < ?k" using False by (simp add: bit_length.simps [of "n div 2"])
    then obtain j where j: "?k = Suc j" by (cases ?k) auto
    have "bit_length n = Suc (Suc j)" using 1 j by (simp add: bit_length.simps [of n])
    moreover have "2 * 2 ^ j \<le> n" "n < 4 * 2 ^ j" using b j by auto
    ultimately show ?thesis by simp
  qed
qed

lemma bit_length_le: "n < 2 ^ m \<Longrightarrow> bit_length n \<le> m"
proof (cases "n = 0")
  case False
  assume "n < 2 ^ m"
  then have "(2::nat) ^ (bit_length n - 1) < 2 ^ m"
    using bit_length_bounds [of n] False le_less_trans by blast
  then have "bit_length n - 1 < m" by (simp only: power_strict_increasing_iff)
  then show ?thesis by simp
qed (simp add: bit_length.simps)

text \<open>Rounding never crosses a power of two.\<close>

lemma round_sig_le:
  assumes "n < 2 ^ m"
  shows "round_sig n sticky \<le> 2 ^ m"
proof (cases "n < 2 ^ 53")
  case True
  then show ?thesis using assms by (simp add: round_sig_exact)
next
  case False
  let ?k = "bit_length n - 53"
  have n0: "0 < n" using False by (cases n) auto
  have l: "\<not> bit_length n \<le> 53"
    using bit_length_bounds [of n] n0 False
    by (meson le_less_trans less_le_trans linorder_not_le one_le_numeral power_increasing)
  have k: "2 ^ 53 * 2 ^ ?k = (2::nat) ^ bit_length n" using l by (simp only: power_add [symmetric]) simp
  have "n < 2 ^ 53 * 2 ^ ?k" unfolding k using bit_length_bounds [OF n0] by simp
  then have "n div 2 ^ ?k < 2 ^ 53" by (rule less_mult_imp_div_less)
  then have q: "n div 2 ^ ?k + 1 \<le> 2 ^ 53" by simp
  have "round_sig n sticky \<le> (n div 2 ^ ?k + 1) * 2 ^ ?k"
    using False by (simp add: round_sig_def Let_def)
  also have "\<dots> \<le> 2 ^ 53 * 2 ^ ?k" using q by (rule mult_le_mono1)
  also have "\<dots> = 2 ^ bit_length n" by (rule k)
  also have "\<dots> \<le> 2 ^ m" using bit_length_le [OF assms] by (simp add: power_increasing)
  finally show ?thesis .
qed

text \<open>
  The quotient \<open>n / d\<close> rounded to a double, and the square root of an integer rounded to a double
  (IEEE 754 requires both to be correctly rounded): the exact value is scaled by a power of two so
  that its integer part has more than 53 bits, and rounded with the sticky bit.
\<close>

fun isqrt :: "nat \<Rightarrow> nat" where
  "isqrt n = (if n = 0 then 0
              else let r = 2 * isqrt (n div 4) in if (r + 1) * (r + 1) \<le> n then r + 1 else r)"

declare isqrt.simps [simp del]

definition double_div :: "nat \<Rightarrow> nat \<Rightarrow> nat \<times> nat" where
  "double_div n d =
     (let s = 53 + bit_length d
      in (round_sig (n * 2 ^ s div d) (n * 2 ^ s mod d \<noteq> 0), 2 ^ s))"

definition double_sqrt :: "nat \<Rightarrow> nat \<times> nat" where
  "double_sqrt n =
     (let r = isqrt (n * 2 ^ 128) in (round_sig r (r * r \<noteq> n * 2 ^ 128), 2 ^ 64))"

lemma isqrt_bounds: "isqrt n * isqrt n \<le> n \<and> n < (isqrt n + 1) * (isqrt n + 1)"
proof (induction n rule: isqrt.induct)
  case (1 n)
  show ?case
  proof (cases "n = 0")
    case False
    define q where "q = isqrt (n div 4)"
    have q: "q * q \<le> n div 4" "n div 4 < (q + 1) * (q + 1)" using 1 [OF False] by (simp_all add: q_def)
    have a: "4 * (q * q) \<le> n" using q(1) by simp
    have b: "n < 4 * ((q + 1) * (q + 1))" using q(2) by (simp add: div_less_iff_less_mult)
    have s: "isqrt n = (if (2 * q + 1) * (2 * q + 1) \<le> n then 2 * q + 1 else 2 * q)"
      using False by (simp add: isqrt.simps [of n] q_def Let_def)
    show ?thesis using a b unfolding s by (auto simp: algebra_simps)
  qed (simp add: isqrt.simps)
qed

section \<open>Arithmetic of machine words\<close>

lemma add_no_wrap:
  fixes a b :: "'a::len word"
  assumes "unat a + unat b < 2 ^ LENGTH('a)"
  shows "unat (a + b) = unat a + unat b"
  using assms by (simp add: unat_word_ariths)

end
