(* ===== verification/Priority_Queue.thy ===== *)
theory Priority_Queue
  imports Prelude
begin

text \<open>
  \<^verbatim>\<open>utility/priority_queue.c\<close>: the binary heap with an index map that holds the pending
  events of every host and the sockets of the FIFO queuing discipline.

  A queue is a record with the fields of \<^verbatim>\<open>struct _PriorityQueue\<close>. \<open>pq_heap\<close> is the live part
  \<^verbatim>\<open>heap[0 .. size-1]\<close> of the array, so that \<^verbatim>\<open>size\<close> is its length; \<open>pq_addr\<close> is the
  address of the array in units of \<^verbatim>\<open>gpointer\<close>, so that the entry pointer
  \<^verbatim>\<open>q->heap + i\<close> stored in the index map is \<open>pq_addr q + i\<close>. \<^verbatim>\<open>g_renew\<close>
  belongs to GLib and may move the array; the address it returns is the argument
  \<open>renew\<close> (old address, new capacity) of the operations that resize. The comparison
  function is the argument \<open>cmp\<close>, with \<^verbatim>\<open>compareData\<close> already applied. The list of
  entries handed to \<^verbatim>\<open>freeFunc\<close> is the second result of \<open>priorityqueue_clear\<close>.
  Array indices are natural numbers: a queue would need more than two billion entries
  before the code's \<^verbatim>\<open>guint\<close> indices wrap.
\<close>

section \<open>Model\<close>

definition INITIAL_SIZE :: nat where "INITIAL_SIZE = 100"

record 'a pqueue =
  pq_heap :: "'a list"
  pq_addr :: nat
  pq_map :: "'a \<rightharpoonup> nat"
  pq_heapSize :: nat
  pq_hasFree :: bool

type_synonym 'a compare_func = "'a \<Rightarrow> 'a \<Rightarrow> int"
type_synonym renew_func = "nat \<Rightarrow> nat \<Rightarrow> nat"

definition priorityqueue_new :: "nat \<Rightarrow> bool \<Rightarrow> 'a pqueue" where
  "priorityqueue_new addr hasFree =
     \<lparr>pq_heap = [], pq_addr = addr, pq_map = Map.empty, pq_heapSize = INITIAL_SIZE,
      pq_hasFree = hasFree\<rparr>"

definition priorityqueue_clear :: "'a pqueue \<Rightarrow> 'a pqueue \<times> 'a list" where
  "priorityqueue_clear q =
     (q\<lparr>pq_heap := [], pq_map := Map.empty\<rparr>, if pq_hasFree q then pq_heap q else [])"

text \<open>After \<open>priorityqueue_free\<close> the queue is gone; what is left is the list of entries freed.\<close>

definition priorityqueue_free :: "'a pqueue \<Rightarrow> 'a list" where
  "priorityqueue_free q = snd (priorityqueue_clear q)"

definition priorityqueue_getLength :: "'a pqueue \<Rightarrow> nat" where
  "priorityqueue_getLength q = length (pq_heap q)"

definition priorityqueue_isEmpty :: "'a pqueue \<Rightarrow> bool" where
  "priorityqueue_isEmpty q \<longleftrightarrow> length (pq_heap q) = 0"

text \<open>The loop of \<open>_priorityqueue_refresh_map\<close>, from index \<open>i\<close> on.\<close>

fun refresh_from :: "nat \<Rightarrow> nat \<Rightarrow> 'a list \<Rightarrow> ('a \<rightharpoonup> nat) \<Rightarrow> ('a \<rightharpoonup> nat)" where
  "refresh_from addr i [] m = m"
| "refresh_from addr i (x # xs) m = refresh_from addr (Suc i) xs (m(x \<mapsto> addr + i))"

definition priorityqueue_refresh_map :: "'a pqueue \<Rightarrow> 'a pqueue" where
  "priorityqueue_refresh_map q =
     q\<lparr>pq_map := refresh_from (pq_addr q) 0 (pq_heap q) Map.empty\<rparr>"

definition priorityqueue_swap_entries :: "'a pqueue \<Rightarrow> nat \<Rightarrow> nat \<Rightarrow> 'a pqueue" where
  "priorityqueue_swap_entries q i j =
     (let pi = pq_heap q ! i; pj = pq_heap q ! j
      in q\<lparr>pq_heap := (pq_heap q)[i := pj, j := pi],
           pq_map := (pq_map q)(pi \<mapsto> pq_addr q + j, pj \<mapsto> pq_addr q + i)\<rparr>)"

definition priorityqueue_entry_smaller :: "'a compare_func \<Rightarrow> 'a pqueue \<Rightarrow> nat \<Rightarrow> nat \<Rightarrow> bool" where
  "priorityqueue_entry_smaller cmp q i j \<longleftrightarrow> cmp (pq_heap q ! i) (pq_heap q ! j) < 0"

fun priorityqueue_heapify_up :: "'a compare_func \<Rightarrow> 'a pqueue \<Rightarrow> nat \<Rightarrow> 'a pqueue \<times> nat" where
  "priorityqueue_heapify_up cmp q index =
     (if index > 0 \<and> priorityqueue_entry_smaller cmp q index ((index - 1) div 2)
      then priorityqueue_heapify_up cmp
             (priorityqueue_swap_entries q index ((index - 1) div 2)) ((index - 1) div 2)
      else (q, index))"

declare priorityqueue_heapify_up.simps [simp del]

text \<open>The child that \<open>_priorityqueue_heapify_down\<close> compares \<open>index\<close> with.\<close>

definition smaller_child :: "'a compare_func \<Rightarrow> 'a pqueue \<Rightarrow> nat \<Rightarrow> nat" where
  "smaller_child cmp q index =
     (let child = 2 * index + 1
      in if child + 1 < length (pq_heap q) \<and> priorityqueue_entry_smaller cmp q (child + 1) child
         then child + 1 else child)"

lemma length_heap_swap_entries [simp]:
  "length (pq_heap (priorityqueue_swap_entries q i j)) = length (pq_heap q)"
  by (simp add: priorityqueue_swap_entries_def Let_def)

lemma smaller_child_cases:
  "smaller_child cmp q i = 2 * i + 1 \<or> smaller_child cmp q i = 2 * i + 2"
  by (simp add: smaller_child_def Let_def)

lemma smaller_child_less:
  "2 * i + 1 < length (pq_heap q) \<Longrightarrow> smaller_child cmp q i < length (pq_heap q)"
  by (simp add: smaller_child_def Let_def)

function priorityqueue_heapify_down :: "'a compare_func \<Rightarrow> 'a pqueue \<Rightarrow> nat \<Rightarrow> 'a pqueue \<times> nat" where
  "priorityqueue_heapify_down cmp q index =
     (if 2 * index + 1 < length (pq_heap q) then
        (let child = smaller_child cmp q index
         in if priorityqueue_entry_smaller cmp q child index
            then priorityqueue_heapify_down cmp (priorityqueue_swap_entries q index child) child
            else (q, index))
      else (q, index))"
  by pat_completeness auto
termination
proof (relation "measure (\<lambda>(cmp, q, i). length (pq_heap q) - i)", goal_cases)
  case 1
  show ?case by simp
next
  case (2 cmp q i c)
  then show ?case
    using smaller_child_cases [of cmp q i] smaller_child_less [of i q cmp] by auto
qed

declare priorityqueue_heapify_down.simps [simp del]

text \<open>The resize block shared by \<open>priorityqueue_push\<close> (doubling) and \<open>priorityqueue_pop\<close> (halving).\<close>

definition priorityqueue_resize :: "renew_func \<Rightarrow> nat \<Rightarrow> 'a pqueue \<Rightarrow> 'a pqueue" where
  "priorityqueue_resize renew heapSize q =
     (let oldheap = pq_addr q;
          q' = q\<lparr>pq_heapSize := heapSize, pq_addr := renew oldheap heapSize\<rparr>
      in if pq_addr q' \<noteq> oldheap then priorityqueue_refresh_map q' else q')"

definition priorityqueue_grow :: "renew_func \<Rightarrow> 'a pqueue \<Rightarrow> 'a pqueue" where
  "priorityqueue_grow renew q =
     (if length (pq_heap q) \<ge> pq_heapSize q
      then priorityqueue_resize renew (pq_heapSize q * 2) q else q)"

definition priorityqueue_push ::
  "'a compare_func \<Rightarrow> renew_func \<Rightarrow> 'a pqueue \<Rightarrow> 'a \<Rightarrow> 'a pqueue \<times> bool" where
  "priorityqueue_push cmp renew q0 data =
     (let q = priorityqueue_grow renew q0
      in case pq_map q data of
           Some oldentry \<Rightarrow>
             (let oldindex = oldentry - pq_addr q;
                  (q', i) = priorityqueue_heapify_down cmp q oldindex
              in (fst (priorityqueue_heapify_up cmp q' i), False))
         | None \<Rightarrow>
             (let index = length (pq_heap q);
                  q' = q\<lparr>pq_heap := pq_heap q @ [data],
                         pq_map := (pq_map q)(data \<mapsto> pq_addr q + index)\<rparr>
              in (fst (priorityqueue_heapify_up cmp q' index), True)))"

definition priorityqueue_peek :: "'a pqueue \<Rightarrow> 'a option" where
  "priorityqueue_peek q = (if length (pq_heap q) > 0 then Some (pq_heap q ! 0) else None)"

definition priorityqueue_find :: "'a pqueue \<Rightarrow> 'a \<Rightarrow> 'a option" where
  "priorityqueue_find q data =
     (case pq_map q data of None \<Rightarrow> None | Some entry \<Rightarrow> Some (pq_heap q ! (entry - pq_addr q)))"

definition priorityqueue_pop ::
  "'a compare_func \<Rightarrow> renew_func \<Rightarrow> 'a pqueue \<Rightarrow> 'a pqueue \<times> 'a option" where
  "priorityqueue_pop cmp renew q0 =
     (if length (pq_heap q0) > 0 then
        (let data = pq_heap q0 ! 0;
             q1 = priorityqueue_swap_entries q0 0 (length (pq_heap q0) - 1);
             q2 = q1\<lparr>pq_map := (pq_map q1)(data := None), pq_heap := butlast (pq_heap q1)\<rparr>;
             q3 = fst (priorityqueue_heapify_down cmp q2 0)
         in (if pq_heapSize q3 > INITIAL_SIZE \<and> length (pq_heap q3) * 4 < pq_heapSize q3
             then priorityqueue_resize renew (pq_heapSize q3 div 2) q3 else q3,
             Some data))
      else (q0, None))"


section \<open>Representation invariant: the array fits and the index map is exact\<close>

definition index_map :: "nat \<Rightarrow> 'a list \<Rightarrow> ('a \<rightharpoonup> nat)" where
  "index_map addr xs x = map_option (\<lambda>i. addr + i) (map_of (zip xs [0..<length xs]) x)"

definition pq_rep :: "'a pqueue \<Rightarrow> bool" where
  "pq_rep q \<longleftrightarrow> distinct (pq_heap q) \<and>
     pq_map q = index_map (pq_addr q) (pq_heap q) \<and>
     length (pq_heap q) \<le> pq_heapSize q \<and>
     (\<exists>k. pq_heapSize q = INITIAL_SIZE * 2 ^ k)"

lemma index_map_nth:
  assumes "distinct xs" and "i < length xs"
  shows "index_map addr xs (xs ! i) = Some (addr + i)"
proof -
  have "map_of (zip xs [0..<length xs]) (xs ! i) = Some i"
    using assms by (subst map_of_zip_nth) auto
  then show ?thesis by (simp add: index_map_def)
qed

lemma index_map_None: "x \<notin> set xs \<Longrightarrow> index_map addr xs x = None"
proof -
  assume "x \<notin> set xs"
  then have "x \<notin> dom (map_of (zip xs [0..<length xs]))"
    by (simp add: dom_map_of_zip)
  then show ?thesis by (auto simp: index_map_def)
qed

lemma index_mapI:
  assumes "distinct xs"
    and "\<And>i. i < length xs \<Longrightarrow> m (xs ! i) = Some (addr + i)"
    and "\<And>x. x \<notin> set xs \<Longrightarrow> m x = None"
  shows "m = index_map addr xs"
proof
  fix x
  show "m x = index_map addr xs x"
  proof (cases "x \<in> set xs")
    case True
    then obtain i where "i < length xs" "x = xs ! i" by (auto simp: in_set_conv_nth)
    with assms(1,2) show ?thesis by (simp add: index_map_nth)
  next
    case False
    with assms(3) show ?thesis by (simp add: index_map_None)
  qed
qed

lemma index_map_Some:
  assumes "distinct xs" and "index_map addr xs x = Some e"
  obtains i where "i < length xs" "x = xs ! i" "e = addr + i"
proof -
  have "x \<in> set xs" using assms(2) by (metis index_map_None option.distinct(1))
  then obtain i where i: "i < length xs" "x = xs ! i" by (auto simp: in_set_conv_nth)
  with assms have "e = addr + i" by (simp add: index_map_nth)
  with i that show thesis by blast
qed

lemma index_map_dom: "distinct xs \<Longrightarrow> index_map addr xs x = None \<longleftrightarrow> x \<notin> set xs"
  by (metis in_set_conv_nth index_map_None index_map_nth option.distinct(1))

lemma refresh_from_notin: "x \<notin> set xs \<Longrightarrow> refresh_from addr i xs m x = m x"
  by (induction addr i xs m rule: refresh_from.induct) auto

lemma refresh_from_nth:
  "distinct xs \<Longrightarrow> j < length xs \<Longrightarrow> refresh_from addr i xs m (xs ! j) = Some (addr + (i + j))"
proof (induction addr i xs m arbitrary: j rule: refresh_from.induct)
  case (2 addr i x xs m)
  show ?case
  proof (cases j)
    case 0
    with 2 show ?thesis by (simp add: refresh_from_notin)
  next
    case (Suc j')
    with 2 have "refresh_from addr (Suc i) xs (m(x \<mapsto> addr + i)) (xs ! j') =
        Some (addr + (Suc i + j'))"
      by (simp del: fun_upd_apply)
    with Suc show ?thesis by simp
  qed
qed simp

lemma refresh_from_index_map:
  "distinct xs \<Longrightarrow> refresh_from addr 0 xs Map.empty = index_map addr xs"
  by (rule index_mapI) (auto simp: refresh_from_nth refresh_from_notin)

lemma swap_entries_fields [frame_simps, simp]:
  "pq_addr (priorityqueue_swap_entries q i j) = pq_addr q"
  "pq_heapSize (priorityqueue_swap_entries q i j) = pq_heapSize q"
  "pq_hasFree (priorityqueue_swap_entries q i j) = pq_hasFree q"
  "pq_heap (priorityqueue_swap_entries q i j) = swap_list (pq_heap q) i j"
  by (simp_all add: priorityqueue_swap_entries_def Let_def swap_list_def)

lemma pq_rep_swap_entries [wf_intros]:
  assumes rep: "pq_rep q" and "i < length (pq_heap q)" and "j < length (pq_heap q)"
  shows "pq_rep (priorityqueue_swap_entries q i j)"
proof -
  let ?xs = "pq_heap q" and ?q' = "priorityqueue_swap_entries q i j"
  have d: "distinct ?xs" and m: "pq_map q = index_map (pq_addr q) ?xs"
    using rep by (auto simp: pq_rep_def)
  have "pq_map ?q' = index_map (pq_addr q) (pq_heap ?q')"
  proof (rule index_mapI)
    fix k
    assume "k < length (pq_heap ?q')"
    then show "pq_map ?q' (pq_heap ?q' ! k) = Some (pq_addr q + k)"
      using assms(2,3) d
      by (auto simp: priorityqueue_swap_entries_def Let_def nth_swap_list m index_map_nth
          nth_eq_iff_index_eq simp flip: swap_list_def)
  next
    fix x
    assume "x \<notin> set (pq_heap ?q')"
    with assms(2,3) have "x \<notin> set ?xs" by simp
    moreover from this assms(2,3) have "x \<noteq> ?xs ! i" "x \<noteq> ?xs ! j" by auto
    ultimately show "pq_map ?q' x = None"
      by (simp add: priorityqueue_swap_entries_def Let_def m index_map_None)
  qed (use assms(2,3) d in simp)
  with rep assms(2,3) show ?thesis by (auto simp: pq_rep_def)
qed

lemma pq_rep_resize [wf_intros]:
  assumes "pq_rep q" and "length (pq_heap q) \<le> n" and "\<exists>k. n = INITIAL_SIZE * 2 ^ k"
  shows "pq_rep (priorityqueue_resize renew n q)"
  using assms
  by (auto simp: pq_rep_def priorityqueue_resize_def priorityqueue_refresh_map_def Let_def
      refresh_from_index_map)

lemma resize_heap [frame_simps, simp]:
  "pq_heap (priorityqueue_resize renew n q) = pq_heap q"
  "pq_hasFree (priorityqueue_resize renew n q) = pq_hasFree q"
  "pq_heapSize (priorityqueue_resize renew n q) = n"
  by (simp_all add: priorityqueue_resize_def priorityqueue_refresh_map_def Let_def)

text \<open>
  Both sifting loops only ever swap entries within the array: the result is a
  rearrangement of the same queue, with the index map kept exact.
\<close>

definition pq_shuffled :: "'a pqueue \<Rightarrow> 'a pqueue \<Rightarrow> bool" where
  "pq_shuffled q q' \<longleftrightarrow> mset (pq_heap q') = mset (pq_heap q) \<and> pq_addr q' = pq_addr q \<and>
     pq_heapSize q' = pq_heapSize q \<and> pq_hasFree q' = pq_hasFree q \<and> (pq_rep q \<longrightarrow> pq_rep q')"

lemma pq_shuffled_refl [simp]: "pq_shuffled q q"
  by (simp add: pq_shuffled_def)

lemma pq_shuffled_trans: "pq_shuffled q q' \<Longrightarrow> pq_shuffled q' q'' \<Longrightarrow> pq_shuffled q q''"
  by (simp add: pq_shuffled_def)

lemma pq_shuffled_swap:
  "i < length (pq_heap q) \<Longrightarrow> j < length (pq_heap q) \<Longrightarrow>
   pq_shuffled q (priorityqueue_swap_entries q i j)"
  by (simp add: pq_shuffled_def pq_rep_swap_entries)

lemma pq_shuffled_length: "pq_shuffled q q' \<Longrightarrow> length (pq_heap q') = length (pq_heap q)"
  by (metis pq_shuffled_def size_mset)

lemma pq_shuffled_set: "pq_shuffled q q' \<Longrightarrow> set (pq_heap q') = set (pq_heap q)"
  by (metis pq_shuffled_def set_mset_mset)

lemma heapify_up_shuffles:
  "i < length (pq_heap q) \<Longrightarrow> pq_shuffled q (fst (priorityqueue_heapify_up cmp q i))"
proof (induction cmp q i rule: priorityqueue_heapify_up.induct)
  case (1 cmp q i)
  let ?p = "(i - 1) div 2"
  show ?case
  proof (cases "i > 0 \<and> priorityqueue_entry_smaller cmp q i ?p")
    case True
    have "?p < length (pq_heap q)" using "1.prems" by linarith
    then have "pq_shuffled (priorityqueue_swap_entries q i ?p)
        (fst (priorityqueue_heapify_up cmp (priorityqueue_swap_entries q i ?p) ?p))"
      using "1.IH" True by simp
    with pq_shuffled_swap [OF "1.prems" \<open>?p < length (pq_heap q)\<close>] show ?thesis
      using True priorityqueue_heapify_up.simps [of cmp q i] by (metis pq_shuffled_trans)
  next
    case False
    then show ?thesis using priorityqueue_heapify_up.simps [of cmp q i] by auto
  qed
qed

lemma heapify_down_shuffles:
  "i < length (pq_heap q) \<Longrightarrow> pq_shuffled q (fst (priorityqueue_heapify_down cmp q i)) \<and>
     snd (priorityqueue_heapify_down cmp q i) < length (pq_heap q)"
proof (induction cmp q i rule: priorityqueue_heapify_down.induct)
  case (1 cmp q i)
  let ?c = "smaller_child cmp q i" and ?s = "priorityqueue_swap_entries q i (smaller_child cmp q i)"
  show ?case
  proof (cases "2 * i + 1 < length (pq_heap q) \<and> priorityqueue_entry_smaller cmp q ?c i")
    case True
    then have c: "?c < length (pq_heap q)" by (simp add: smaller_child_less)
    have "pq_shuffled ?s (fst (priorityqueue_heapify_down cmp ?s ?c)) \<and>
        snd (priorityqueue_heapify_down cmp ?s ?c) < length (pq_heap q)"
      using "1.IH" True c by simp
    with pq_shuffled_swap [OF "1.prems" c] show ?thesis
      using True priorityqueue_heapify_down.simps [of cmp q i]
      by (auto simp: Let_def intro: pq_shuffled_trans)
  next
    case False
    then show ?thesis
      using priorityqueue_heapify_down.simps [of cmp q i] "1.prems" by (auto simp: Let_def)
  qed
qed

section \<open>Heap order\<close>

text \<open>
  The contract between the queue and a comparison function: \<open>le\<close> is a total preorder
  and the sign of \<open>cmp\<close> agrees with it. Both the strict comparison of events and the
  one of sockets, which answers \<open>-1\<close> on a tie, satisfy it.
\<close>

locale pq_order =
  fixes cmp :: "'a compare_func" and le :: "'a \<Rightarrow> 'a \<Rightarrow> bool"
  assumes le_refl: "le x x"
    and le_trans: "le x y \<Longrightarrow> le y z \<Longrightarrow> le x z"
    and cmp_neg: "cmp x y < 0 \<Longrightarrow> le x y"
    and cmp_nonneg: "\<not> cmp x y < 0 \<Longrightarrow> le y x"

abbreviation parent :: "nat \<Rightarrow> nat" where "parent i \<equiv> (i - 1) div 2"

definition heap_ordered :: "('a \<Rightarrow> 'a \<Rightarrow> bool) \<Rightarrow> 'a list \<Rightarrow> bool" where
  "heap_ordered le xs \<longleftrightarrow> (\<forall>i. 0 < i \<and> i < length xs \<longrightarrow> le (xs ! parent i) (xs ! i))"

text \<open>
  \<open>heap_hole le xs k\<close>: the list is heap ordered except possibly between position \<open>k\<close>
  and its parent and children, and the children of \<open>k\<close> are not below its parent.
\<close>

definition heap_hole :: "('a \<Rightarrow> 'a \<Rightarrow> bool) \<Rightarrow> 'a list \<Rightarrow> nat \<Rightarrow> bool" where
  "heap_hole le xs k \<longleftrightarrow>
     (\<forall>i. 0 < i \<and> i < length xs \<and> i \<noteq> k \<and> parent i \<noteq> k \<longrightarrow> le (xs ! parent i) (xs ! i)) \<and>
     (\<forall>i. 0 < i \<and> i < length xs \<and> parent i = k \<and> 0 < k \<longrightarrow> le (xs ! parent k) (xs ! i))"

definition children_ok :: "('a \<Rightarrow> 'a \<Rightarrow> bool) \<Rightarrow> 'a list \<Rightarrow> nat \<Rightarrow> bool" where
  "children_ok le xs k \<longleftrightarrow> (\<forall>i. 0 < i \<and> i < length xs \<and> parent i = k \<longrightarrow> le (xs ! k) (xs ! i))"

definition parent_ok :: "('a \<Rightarrow> 'a \<Rightarrow> bool) \<Rightarrow> 'a list \<Rightarrow> nat \<Rightarrow> bool" where
  "parent_ok le xs k \<longleftrightarrow> (0 < k \<and> k < length xs \<longrightarrow> le (xs ! parent k) (xs ! k))"

lemma heap_ordered_from_hole:
  "heap_hole le xs k \<Longrightarrow> children_ok le xs k \<Longrightarrow> parent_ok le xs k \<Longrightarrow> heap_ordered le xs"
  unfolding heap_ordered_def heap_hole_def children_ok_def parent_ok_def by metis

lemma parent_less: "0 < i \<Longrightarrow> parent i < i"
  by linarith

lemma parent_eq_iff: "0 < i \<Longrightarrow> parent i = k \<longleftrightarrow> i = 2 * k + 1 \<or> i = 2 * k + 2"
  by auto


context pq_order begin

lemma heap_hole_swap_up:
  assumes hole: "heap_hole le xs k" and ch: "children_ok le xs k"
    and k: "0 < k" "k < length xs" and sm: "le (xs ! k) (xs ! parent k)"
  shows "heap_hole le (swap_list xs k (parent k)) (parent k) \<and>
         children_ok le (swap_list xs k (parent k)) (parent k)"
proof -
  let ?p = "parent k" and ?ys = "swap_list xs k (parent k)"
  have p: "?p < k" "?p < length xs" using k by linarith+
  have nth: "?ys ! i = (if i = ?p then xs ! k else if i = k then xs ! ?p else xs ! i)"
    if "i < length xs" for i using that k p by (simp add: nth_swap_list)
  have ord: "le (xs ! parent i) (xs ! i)" if "0 < i" "i < length xs" "i \<noteq> k" for i
    using hole ch that unfolding heap_hole_def children_ok_def by metis
  have skip: "le (xs ! ?p) (xs ! i)" if "0 < i" "i < length xs" "parent i = k" for i
    using hole that k unfolding heap_hole_def by metis
  have up: "le (?ys ! parent i) (?ys ! i)"
    if "0 < i" "i < length xs" "i \<noteq> ?p" "parent i \<noteq> ?p" for i
    using that ord [of i] skip [of i] k p parent_less [of i] nth [of i] nth [of "parent i"]
    by (auto split: if_splits)
  have side: "le (xs ! k) (?ys ! i)" if "0 < i" "i < length xs" "parent i = ?p" for i
    using that ord [of i] sm k p nth [of i] le_trans [OF sm] by (auto split: if_splits)
  have top: "le (xs ! parent ?p) (?ys ! i)"
    if "0 < i" "i < length xs" "parent i = ?p" "0 < ?p" for i
  proof -
    have pp: "le (xs ! parent ?p) (xs ! ?p)" using ord [of ?p] that p by simp
    show ?thesis
    proof (cases "i = k")
      case True
      then show ?thesis using pp nth [of i] that p by simp
    next
      case False
      then have "le (xs ! ?p) (xs ! i)" using ord [of i] that by simp
      with pp have "le (xs ! parent ?p) (xs ! i)" by (rule le_trans)
      moreover have "i \<noteq> ?p" using parent_less [of i] that by auto
      ultimately show ?thesis using nth [of i] that False by simp
    qed
  qed
  have ptop: "?ys ! parent ?p = xs ! parent ?p" if "0 < ?p"
    using that k p parent_less [OF that] nth [of "parent ?p"] by auto
  have "heap_hole le ?ys ?p"
    unfolding heap_hole_def length_swap_list
  proof (intro conjI allI impI; elim conjE)
    fix i
    assume "0 < i" "i < length xs" "parent i = ?p" "0 < ?p"
    then show "le (?ys ! parent ?p) (?ys ! i)" unfolding ptop [OF \<open>0 < ?p\<close>] by (rule top)
  qed (rule up)
  moreover have "children_ok le ?ys ?p"
    using side nth [OF p(2)] by (simp add: children_ok_def)
  ultimately show ?thesis ..
qed

lemma heap_hole_swap_down:
  assumes hole: "heap_hole le xs k" and c: "0 < c" "c < length xs" "parent c = k"
    and sm: "le (xs ! c) (xs ! k)"
    and least: "\<And>i. 0 < i \<Longrightarrow> i < length xs \<Longrightarrow> parent i = k \<Longrightarrow> le (xs ! c) (xs ! i)"
  shows "heap_hole le (swap_list xs k c) c \<and> parent_ok le (swap_list xs k c) c"
proof -
  let ?ys = "swap_list xs k c"
  have k: "k < c" "k < length xs" using c by linarith+
  have nth: "?ys ! i = (if i = c then xs ! k else if i = k then xs ! c else xs ! i)"
    if "i < length xs" for i using that k c by (simp add: nth_swap_list)
  have ord: "le (xs ! parent i) (xs ! i)"
    if "0 < i" "i < length xs" "i \<noteq> k" "parent i \<noteq> k" for i
    using hole that unfolding heap_hole_def by metis
  have skip: "le (xs ! parent k) (xs ! c)" if "0 < k"
    using hole that c unfolding heap_hole_def by metis
  have up: "le (?ys ! parent i) (?ys ! i)"
    if "0 < i" "i < length xs" "i \<noteq> c" "parent i \<noteq> c" for i
    using that ord [of i] skip k c least [of i] parent_less [of i] nth [of i] nth [of "parent i"]
    by (auto split: if_splits)
  have below: "le (xs ! c) (xs ! i)" if "0 < i" "i < length xs" "parent i = c" for i
    using ord [of i] that k c parent_less [of i] by auto
  have nxt: "?ys ! i = xs ! i" if "0 < i" "i < length xs" "parent i = c" for i
    using that nth [of i] k parent_less [of i] by auto
  have "heap_hole le ?ys c"
    unfolding heap_hole_def length_swap_list
  proof (intro conjI allI impI; elim conjE)
    fix i
    assume i: "0 < i" "i < length xs" "parent i = c"
    have "?ys ! parent c = xs ! c" using nth [of k] k c by simp
    with below [OF i] nxt [OF i] show "le (?ys ! parent c) (?ys ! i)" by simp
  qed (rule up)
  moreover have "parent_ok le ?ys c"
    using c k sm nth [of c] nth [of k] by (auto simp: parent_ok_def)
  ultimately show ?thesis ..
qed

lemma smaller_child_least:
  assumes "2 * k + 1 < length (pq_heap q)"
    and "0 < i" "i < length (pq_heap q)" "parent i = k"
  shows "le (pq_heap q ! smaller_child cmp q k) (pq_heap q ! i)"
proof -
  have "i = 2 * k + 1 \<or> i = 2 * k + 2" using parent_eq_iff assms(2,4) by blast
  then show ?thesis
    using assms le_refl cmp_neg cmp_nonneg
    by (auto simp: smaller_child_def priorityqueue_entry_smaller_def Let_def)
qed

lemma heapify_up_ordered:
  "i < length (pq_heap q) \<Longrightarrow> heap_hole le (pq_heap q) i \<Longrightarrow> children_ok le (pq_heap q) i \<Longrightarrow>
   heap_ordered le (pq_heap (fst (priorityqueue_heapify_up cmp q i)))"
proof (induction c \<equiv> cmp q i rule: priorityqueue_heapify_up.induct)
  case (1 q i)
  note unfold = priorityqueue_heapify_up.simps [of cmp q i]
  show ?case
  proof (cases "i > 0 \<and> priorityqueue_entry_smaller cmp q i (parent i)")
    case True
    then have sm: "le (pq_heap q ! i) (pq_heap q ! parent i)"
      by (auto simp: priorityqueue_entry_smaller_def intro: cmp_neg)
    have "parent i < length (pq_heap q)" using "1.prems" by linarith
    moreover note heap_hole_swap_up [OF "1.prems"(2,3) _ "1.prems"(1) sm]
    ultimately show ?thesis using True unfold "1.hyps" by simp
  next
    case False
    then have "parent_ok le (pq_heap q) i"
      by (auto simp: parent_ok_def priorityqueue_entry_smaller_def intro: cmp_nonneg)
    with False unfold "1.prems" show ?thesis by (auto intro: heap_ordered_from_hole)
  qed
qed

lemma heapify_down_hole:
  "i < length (pq_heap q) \<Longrightarrow> heap_hole le (pq_heap q) i \<Longrightarrow>
   priorityqueue_heapify_down cmp q i = (q', k) \<Longrightarrow>
   heap_hole le (pq_heap q') k \<and> children_ok le (pq_heap q') k \<and>
   (parent_ok le (pq_heap q) i \<longrightarrow> parent_ok le (pq_heap q') k)"
proof (induction c \<equiv> cmp q i rule: priorityqueue_heapify_down.induct)
  case (1 q i)
  let ?c = "smaller_child cmp q i" and ?xs = "pq_heap q"
  note unfold = priorityqueue_heapify_down.simps [of cmp q i]
  show ?case
  proof (cases "2 * i + 1 < length ?xs")
    case inside: True
    have c: "0 < ?c" "?c < length ?xs" "parent ?c = i"
      using smaller_child_cases [of cmp q i] smaller_child_less [OF inside, of cmp] by auto
    note least = smaller_child_least [OF inside]
    show ?thesis
    proof (cases "priorityqueue_entry_smaller cmp q ?c i")
      case True
      then have "le (?xs ! ?c) (?xs ! i)"
        by (auto simp: priorityqueue_entry_smaller_def intro: cmp_neg)
      from heap_hole_swap_down [OF "1.prems"(2) c this least]
      have "heap_hole le (swap_list ?xs i ?c) ?c \<and> parent_ok le (swap_list ?xs i ?c) ?c" .
      then show ?thesis using True inside unfold "1.hyps" "1.prems"(3) c by (simp add: Let_def)
    next
      case False
      then have "le (?xs ! i) (?xs ! ?c)"
        by (auto simp: priorityqueue_entry_smaller_def intro: cmp_nonneg)
      then have "children_ok le ?xs i"
        unfolding children_ok_def using least le_trans by blast
      with False inside unfold "1.prems" show ?thesis by (auto simp: Let_def)
    qed
  next
    case False
    then have "children_ok le ?xs i" unfolding children_ok_def using parent_eq_iff by fastforce
    with False unfold "1.prems" show ?thesis by (auto simp: Let_def)
  qed
qed

lemma heap_ordered_root_least:
  assumes "heap_ordered le xs" and "i < length xs"
  shows "le (xs ! 0) (xs ! i)"
  using assms(2)
proof (induction i rule: less_induct)
  case (less i)
  show ?case
  proof (cases "i = 0")
    case True
    then show ?thesis by (simp add: le_refl)
  next
    case False
    then have "le (xs ! 0) (xs ! parent i)" using less by (simp add: parent_less)
    moreover have "le (xs ! parent i) (xs ! i)"
      using assms(1) less.prems False by (simp add: heap_ordered_def)
    ultimately show ?thesis by (rule le_trans)
  qed
qed

end


section \<open>The operations keep the invariant and implement a priority queue\<close>

definition pq_inv :: "('a \<Rightarrow> 'a \<Rightarrow> bool) \<Rightarrow> 'a pqueue \<Rightarrow> bool" where
  "pq_inv le q \<longleftrightarrow> pq_rep q \<and> heap_ordered le (pq_heap q)"

lemma pq_rep_new [wf_intros]: "pq_rep (priorityqueue_new addr hasFree)"
  by (auto simp: pq_rep_def priorityqueue_new_def index_map_def fun_eq_iff intro: exI [of _ 0])

lemma pq_inv_new [wf_intros]: "pq_inv le (priorityqueue_new addr hasFree)"
  by (simp add: pq_inv_def pq_rep_new heap_ordered_def) (simp add: priorityqueue_new_def)

lemma pq_rep_clear [wf_intros]: "pq_rep q \<Longrightarrow> pq_rep (fst (priorityqueue_clear q))"
  by (auto simp: pq_rep_def priorityqueue_clear_def index_map_def fun_eq_iff)

lemma find_iff: "pq_rep q \<Longrightarrow> priorityqueue_find q x = (if x \<in> set (pq_heap q) then Some x else None)"
  by (auto simp: priorityqueue_find_def pq_rep_def index_map_dom split: option.splits
      elim!: index_map_Some)

text \<open>The resize step of a push: afterwards there is room for one more entry.\<close>

lemma push_room:
  assumes "pq_rep q"
  shows "pq_rep (priorityqueue_grow renew q)"
    and "pq_heap (priorityqueue_grow renew q) = pq_heap q"
    and "length (pq_heap q) < pq_heapSize (priorityqueue_grow renew q)"
proof -
  obtain k where k: "pq_heapSize q = INITIAL_SIZE * 2 ^ k" and len: "length (pq_heap q) \<le> pq_heapSize q"
    using assms(1) by (auto simp: pq_rep_def)
  then have "pq_heapSize q * 2 = INITIAL_SIZE * 2 ^ Suc k" by simp
  then have "\<exists>j. pq_heapSize q * 2 = INITIAL_SIZE * 2 ^ j" by blast
  with assms(1) len show "pq_rep (priorityqueue_grow renew q)"
    by (auto simp: priorityqueue_grow_def intro: pq_rep_resize)
  show "pq_heap (priorityqueue_grow renew q) = pq_heap q" by (simp add: priorityqueue_grow_def)
  show "length (pq_heap q) < pq_heapSize (priorityqueue_grow renew q)"
    using k len by (auto simp: priorityqueue_grow_def INITIAL_SIZE_def)
qed

lemma pq_rep_append:
  assumes "pq_rep q" and "x \<notin> set (pq_heap q)" and "length (pq_heap q) < pq_heapSize q"
  shows "pq_rep (q\<lparr>pq_heap := pq_heap q @ [x],
                   pq_map := (pq_map q)(x \<mapsto> pq_addr q + length (pq_heap q))\<rparr>)"
proof -
  have "(pq_map q)(x \<mapsto> pq_addr q + length (pq_heap q)) = index_map (pq_addr q) (pq_heap q @ [x])"
    using assms(1,2)
    by (intro index_mapI) (auto simp: pq_rep_def nth_append index_map_nth index_map_None less_Suc_eq)
  with assms show ?thesis by (auto simp: pq_rep_def)
qed

lemma heap_hole_append:
  assumes "heap_ordered le xs"
  shows "heap_hole le (xs @ [x]) (length xs)"
  unfolding heap_hole_def
proof (intro conjI allI impI; elim conjE)
  fix i
  assume i: "0 < i" "i < length (xs @ [x])"
  {
    assume "i \<noteq> length xs"
    with i have "i < length xs" "parent i < length xs" by auto
    with assms i show "le ((xs @ [x]) ! parent i) ((xs @ [x]) ! i)"
      by (simp add: heap_ordered_def nth_append)
  next
    assume "parent i = length xs"
    with parent_less [OF i(1)] i(2) have False by simp
    then show "le ((xs @ [x]) ! parent (length xs)) ((xs @ [x]) ! i)" ..
  }
qed

lemma children_ok_append: "children_ok le (xs @ [x]) (length xs)"
  by (auto simp: children_ok_def)

text \<open>
  Where the priority of one entry \<open>d\<close> has changed, the old order \<open>le'\<close> and the new
  one agree on all other entries and the array has a hole at \<open>d\<close>.
\<close>

definition reprioritised :: "('a \<Rightarrow> 'a \<Rightarrow> bool) \<Rightarrow> ('a \<Rightarrow> 'a \<Rightarrow> bool) \<Rightarrow> 'a \<Rightarrow> bool" where
  "reprioritised le' le d \<longleftrightarrow> (\<forall>x y z. le' x y \<longrightarrow> le' y z \<longrightarrow> le' x z) \<and>
     (\<forall>x y. x \<noteq> d \<and> y \<noteq> d \<and> le' x y \<longrightarrow> le x y)"

lemma heap_hole_reprioritised:
  assumes "heap_ordered le' xs" and "distinct xs" and "k < length xs"
    and "reprioritised le' le (xs ! k)"
  shows "heap_hole le xs k"
  unfolding heap_hole_def
proof (intro conjI allI impI; elim conjE)
  have old: "le' (xs ! parent i) (xs ! i)" if "0 < i" "i < length xs" for i
    using assms(1) that by (simp add: heap_ordered_def)
  have keep: "le (xs ! i) (xs ! j)"
    if "le' (xs ! i) (xs ! j)" "i \<noteq> k" "j \<noteq> k" "i < length xs" "j < length xs" for i j
    using assms(2-4) that by (auto simp: reprioritised_def nth_eq_iff_index_eq)
  fix i
  assume i: "0 < i" "i < length xs"
  {
    assume "i \<noteq> k" "parent i \<noteq> k"
    then show "le (xs ! parent i) (xs ! i)"
      using old [OF i] keep [of "parent i" i] i parent_less [of i] by simp
  next
    assume "parent i = k" "0 < k"
    then have "le' (xs ! parent k) (xs ! i)"
      using old [OF i] old [of k] assms(3,4) unfolding reprioritised_def by blast
    then show "le (xs ! parent k) (xs ! i)"
      using keep [of "parent k" i] i \<open>parent i = k\<close> \<open>0 < k\<close> parent_less [of i] parent_less [of k]
      by fastforce
  }
qed

lemma pq_rep_butlast:
  assumes rep: "pq_rep q" and ne: "pq_heap q \<noteq> []"
  shows "pq_rep (q\<lparr>pq_map := (pq_map q)(last (pq_heap q) := None), pq_heap := butlast (pq_heap q)\<rparr>)"
proof -
  let ?xs = "butlast (pq_heap q)" and ?x = "last (pq_heap q)"
  have split: "pq_heap q = ?xs @ [?x]" using ne by simp
  have d: "distinct (?xs @ [?x])" and m: "pq_map q = index_map (pq_addr q) (?xs @ [?x])"
    using rep split by (simp_all add: pq_rep_def)
  have "(pq_map q)(?x := None) = index_map (pq_addr q) ?xs"
  proof (rule index_mapI)
    fix i
    assume i: "i < length ?xs"
    then have "?xs ! i \<noteq> ?x" using d by (metis distinct_append disjoint_iff list.set_intros(1) nth_mem)
    moreover have "index_map (pq_addr q) (?xs @ [?x]) (?xs ! i) = Some (pq_addr q + i)"
      using index_map_nth [OF d, of i] i by (simp add: nth_append)
    ultimately show "((pq_map q)(?x := None)) (?xs ! i) = Some (pq_addr q + i)" using m by simp
  next
    fix y
    assume "y \<notin> set ?xs"
    then show "((pq_map q)(?x := None)) y = None"
      using m by (cases "y = ?x") (auto intro: index_map_None)
  qed (use d in simp)
  moreover have "length ?xs \<le> pq_heapSize q" using rep by (auto simp: pq_rep_def)
  ultimately show ?thesis using rep d by (simp add: pq_rep_def)
qed


context pq_order begin

lemma push_new:
  assumes inv: "pq_inv le q" and new: "x \<notin> set (pq_heap q)"
    and push: "priorityqueue_push cmp renew q x = (q', b)"
  shows "b" and "pq_inv le q'" and "mset (pq_heap q') = add_mset x (mset (pq_heap q))"
proof -
  let ?g = "priorityqueue_grow renew q"
  let ?a = "?g\<lparr>pq_heap := pq_heap ?g @ [x],
                pq_map := (pq_map ?g)(x \<mapsto> pq_addr ?g + length (pq_heap ?g))\<rparr>"
  have rep: "pq_rep q" and ord: "heap_ordered le (pq_heap q)"
    using inv by (simp_all add: pq_inv_def)
  note g = push_room [OF rep, of renew]
  have "pq_map ?g x = None"
    using g(1,2) new by (simp add: pq_rep_def index_map_None)
  then have res: "q' = fst (priorityqueue_heapify_up cmp ?a (length (pq_heap q)))" and "b"
    using push g(2) by (auto simp: priorityqueue_push_def Let_def)
  then show b by simp
  have "pq_rep ?a" using pq_rep_append [OF g(1)] g new by simp
  moreover have sh: "pq_shuffled ?a q'" using res g(2) by (simp add: heapify_up_shuffles)
  ultimately have "pq_rep q'" by (simp add: pq_shuffled_def)
  moreover have "heap_ordered le (pq_heap q')"
    unfolding res using g(2) heap_hole_append [OF ord] children_ok_append
    by (intro heapify_up_ordered) simp_all
  ultimately show "pq_inv le q'" by (simp add: pq_inv_def)
  show "mset (pq_heap q') = add_mset x (mset (pq_heap q))"
    using sh g(2) by (simp add: pq_shuffled_def)
qed

text \<open>
  Pushing an entry that is already queued restores the heap after the entry's priority has
  changed: sift down, then up from where it ended.
\<close>

lemma push_existing:
  assumes rep: "pq_rep q" and old: "heap_ordered le' (pq_heap q)" "reprioritised le' le x"
    and mem: "x \<in> set (pq_heap q)"
    and push: "priorityqueue_push cmp renew q x = (q', b)"
  shows "\<not> b" and "pq_inv le q'" and "mset (pq_heap q') = mset (pq_heap q)"
proof -
  let ?g = "priorityqueue_grow renew q"
  note g = push_room [OF rep, of renew]
  obtain k where k: "k < length (pq_heap q)" "x = pq_heap q ! k"
    using mem by (auto simp: in_set_conv_nth)
  have d: "distinct (pq_heap q)" using rep by (simp add: pq_rep_def)
  have "pq_map ?g x = Some (pq_addr ?g + k)"
    using g(1,2) k by (simp add: pq_rep_def index_map_nth)
  moreover obtain q1 j where down: "priorityqueue_heapify_down cmp ?g k = (q1, j)"
    by (cases "priorityqueue_heapify_down cmp ?g k")
  ultimately have res: "q' = fst (priorityqueue_heapify_up cmp q1 j)" and "\<not> b"
    using push by (auto simp: priorityqueue_push_def Let_def)
  then show "\<not> b" by simp
  have sh1: "pq_shuffled ?g q1" and j: "j < length (pq_heap q1)"
    using heapify_down_shuffles [of k ?g cmp] down k(1) g(2) by (auto simp: pq_shuffled_length)
  have sh: "pq_shuffled ?g q'"
    unfolding res using sh1 heapify_up_shuffles [OF j] by (rule pq_shuffled_trans)
  have "heap_hole le (pq_heap ?g) k"
    using heap_hole_reprioritised [OF old(1) d k(1)] old(2) k(2) g(2) by simp
  then have "heap_hole le (pq_heap q1) j \<and> children_ok le (pq_heap q1) j"
    using heapify_down_hole [OF _ _ down] k(1) g(2) by simp
  then have "heap_ordered le (pq_heap q')" unfolding res using heapify_up_ordered [OF j] by blast
  with sh g(1) show "pq_inv le q'" by (simp add: pq_inv_def pq_shuffled_def)
  show "mset (pq_heap q') = mset (pq_heap q)" using sh g(2) by (simp add: pq_shuffled_def)
qed

lemma peek_least:
  assumes "pq_inv le q" and "priorityqueue_peek q = Some x"
  shows "x \<in> set (pq_heap q)" and "y \<in> set (pq_heap q) \<Longrightarrow> le x y"
  using assms heap_ordered_root_least [of "pq_heap q"]
  by (auto simp: priorityqueue_peek_def pq_inv_def in_set_conv_nth split: if_splits)

end

lemma peek_None_iff: "priorityqueue_peek q = None \<longleftrightarrow> pq_heap q = []"
  by (simp add: priorityqueue_peek_def)

lemma pop_eq_peek: "snd (priorityqueue_pop cmp renew q) = priorityqueue_peek q"
  by (simp add: priorityqueue_pop_def priorityqueue_peek_def Let_def)

lemma pop_empty: "pq_heap q = [] \<Longrightarrow> priorityqueue_pop cmp renew q = (q, None)"
  by (simp add: priorityqueue_pop_def)


text \<open>The state of a pop once the root has been moved to the end and cut off.\<close>

definition pop_cut :: "'a pqueue \<Rightarrow> 'a pqueue" where
  "pop_cut q =
     (let q1 = priorityqueue_swap_entries q 0 (length (pq_heap q) - 1)
      in q1\<lparr>pq_map := (pq_map q1)(pq_heap q ! 0 := None), pq_heap := butlast (pq_heap q1)\<rparr>)"

lemma pop_cut_heap:
  "pq_heap q \<noteq> [] \<Longrightarrow> mset (pq_heap (pop_cut q)) = mset (pq_heap q) - {#pq_heap q ! 0#}"
  using butlast_swap_last [of "pq_heap q"] by (simp add: pop_cut_def Let_def)

lemma pq_rep_pop_cut:
  assumes "pq_rep q" and ne: "pq_heap q \<noteq> []"
  shows "pq_rep (pop_cut q)"
proof -
  let ?n = "length (pq_heap q) - 1" and ?q1 = "priorityqueue_swap_entries q 0 (length (pq_heap q) - 1)"
  have n: "?n < length (pq_heap q)" using ne by simp
  have ne1: "pq_heap ?q1 \<noteq> []" using ne by (metis length_0_conv length_heap_swap_entries)
  have "last (pq_heap ?q1) = pq_heap q ! 0"
    using ne n ne1 by (simp add: last_conv_nth nth_swap_list)
  moreover have "pq_rep ?q1" using assms n by (simp add: pq_rep_swap_entries)
  ultimately show ?thesis using pq_rep_butlast [of ?q1] ne1 by (simp add: pop_cut_def Let_def)
qed

lemma heap_hole_pop_cut:
  assumes "heap_ordered le (pq_heap q)" and ne: "pq_heap q \<noteq> []"
  shows "heap_hole le (pq_heap (pop_cut q)) 0"
proof -
  let ?xs = "pq_heap q" and ?ys = "pq_heap (pop_cut q)"
  have len: "length ?ys = length ?xs - 1" by (simp add: pop_cut_def Let_def)
  have nth: "?ys ! i = ?xs ! i" if "0 < i" "i < length ?ys" for i
    using that len ne by (simp add: pop_cut_def Let_def nth_butlast nth_swap_list)
  show ?thesis
    unfolding heap_hole_def
  proof (intro conjI allI impI; elim conjE)
    fix i
    assume i: "0 < i" "i < length ?ys" "parent i \<noteq> 0"
    then have "0 < parent i" "parent i < length ?ys" using parent_less [of i] by linarith+
    then show "le (?ys ! parent i) (?ys ! i)"
      using nth i len assms(1) by (simp add: heap_ordered_def)
  qed simp
qed

lemma pop_unfold:
  "pq_heap q \<noteq> [] \<Longrightarrow> fst (priorityqueue_pop cmp renew q) =
     (let q3 = fst (priorityqueue_heapify_down cmp (pop_cut q) 0)
      in if pq_heapSize q3 > INITIAL_SIZE \<and> length (pq_heap q3) * 4 < pq_heapSize q3
         then priorityqueue_resize renew (pq_heapSize q3 div 2) q3 else q3)"
  by (simp add: priorityqueue_pop_def pop_cut_def Let_def)

lemma heapify_down_root_shuffles: "pq_shuffled q (fst (priorityqueue_heapify_down cmp q 0))"
proof (cases "pq_heap q")
  case Nil
  then show ?thesis by (simp add: priorityqueue_heapify_down.simps)
next
  case Cons
  then show ?thesis by (simp add: heapify_down_shuffles)
qed

lemma pq_rep_shrink:
  assumes "pq_rep q"
  shows "pq_rep (if pq_heapSize q > INITIAL_SIZE \<and> length (pq_heap q) * 4 < pq_heapSize q
           then priorityqueue_resize renew (pq_heapSize q div 2) q else q)"
proof (cases "pq_heapSize q > INITIAL_SIZE \<and> length (pq_heap q) * 4 < pq_heapSize q")
  case True
  obtain k where k: "pq_heapSize q = INITIAL_SIZE * 2 ^ k" using assms by (auto simp: pq_rep_def)
  with True have "k \<noteq> 0" by (auto intro: ccontr)
  then obtain j where "k = Suc j" by (cases k) auto
  with k have "pq_heapSize q div 2 = INITIAL_SIZE * 2 ^ j" by simp
  then have "\<exists>j. pq_heapSize q div 2 = INITIAL_SIZE * 2 ^ j" ..
  then show ?thesis using True assms by (auto intro: pq_rep_resize)
qed (use assms in auto)

lemma pop_heap:
  assumes "pq_rep q" and "pq_heap q \<noteq> []"
  shows "mset (pq_heap (fst (priorityqueue_pop cmp renew q))) = mset (pq_heap q) - {#pq_heap q ! 0#}"
    and "pq_rep (fst (priorityqueue_pop cmp renew q))"
proof -
  let ?q3 = "fst (priorityqueue_heapify_down cmp (pop_cut q) 0)"
  have sh: "pq_shuffled (pop_cut q) ?q3" by (rule heapify_down_root_shuffles)
  then have "mset (pq_heap ?q3) = mset (pq_heap q) - {#pq_heap q ! 0#}"
    using assms(2) by (simp add: pq_shuffled_def pop_cut_heap)
  then show "mset (pq_heap (fst (priorityqueue_pop cmp renew q))) = mset (pq_heap q) - {#pq_heap q ! 0#}"
    using pop_unfold [OF assms(2)] by (simp add: Let_def)
  have "pq_rep ?q3" using sh pq_rep_pop_cut [OF assms] by (simp add: pq_shuffled_def)
  then show "pq_rep (fst (priorityqueue_pop cmp renew q))"
    unfolding pop_unfold [OF assms(2)] Let_def by (rule pq_rep_shrink)
qed

context pq_order begin

lemma heapify_down_root:
  assumes "heap_hole le (pq_heap q) 0"
  shows "heap_ordered le (pq_heap (fst (priorityqueue_heapify_down cmp q 0)))"
proof (cases "pq_heap q")
  case Nil
  then show ?thesis by (simp add: priorityqueue_heapify_down.simps heap_ordered_def)
next
  case Cons
  obtain q' k where down: "priorityqueue_heapify_down cmp q 0 = (q', k)"
    by (cases "priorityqueue_heapify_down cmp q 0")
  have "parent_ok le (pq_heap q) 0" by (simp add: parent_ok_def)
  then show ?thesis
    using heapify_down_hole [OF _ assms down] Cons heap_ordered_from_hole down by fastforce
qed

lemma pop_correct:
  assumes inv: "pq_inv le q" and pop: "priorityqueue_pop cmp renew q = (q', Some x)"
  shows "pq_inv le q'" and "x \<in> set (pq_heap q)" and "\<And>y. y \<in> set (pq_heap q) \<Longrightarrow> le x y"
    and "mset (pq_heap q') = mset (pq_heap q) - {#x#}" and "distinct (pq_heap q)"
proof -
  have ne: "pq_heap q \<noteq> []" using pop by (auto simp: pop_empty)
  have q': "q' = fst (priorityqueue_pop cmp renew q)" and pk: "priorityqueue_peek q = Some x"
    using pop pop_eq_peek [of cmp renew q] by simp_all
  have x: "x = pq_heap q ! 0" using pk by (simp add: priorityqueue_peek_def split: if_splits)
  have rep: "pq_rep q" using inv by (simp add: pq_inv_def)
  show "x \<in> set (pq_heap q)" "\<And>y. y \<in> set (pq_heap q) \<Longrightarrow> le x y"
    using peek_least [OF inv pk] by auto
  show "mset (pq_heap q') = mset (pq_heap q) - {#x#}" unfolding q' x by (rule pop_heap [OF rep ne])
  show "distinct (pq_heap q)" using rep by (simp add: pq_rep_def)
  have "heap_ordered le (pq_heap q')"
    using heapify_down_root [OF heap_hole_pop_cut [OF _ ne]] inv pop_unfold [OF ne]
    by (simp add: q' Let_def pq_inv_def)
  then show "pq_inv le q'" using pop_heap(2) [OF rep ne] by (simp add: pq_inv_def q')
qed

lemma pop_SomeE:
  assumes "pq_inv le q" and "pq_heap q \<noteq> []"
  obtains q' x where "priorityqueue_pop cmp renew q = (q', Some x)"
  using assms that
  by (cases "priorityqueue_pop cmp renew q") (auto simp: priorityqueue_pop_def Let_def)

end

end
