(* ===== verification/Work.thy ===== *)
theory Work
  imports Priority_Queue "HOL-Library.Product_Lexorder"
begin

text \<open>
  \<^verbatim>\<open>core/work/task.c\<close> and \<^verbatim>\<open>core/work/event.c\<close>: reference-counted tasks, events and
  the order in which events are executed.

  Pointers are natural numbers with \<^verbatim>\<open>NULL\<close> as \<open>0\<close>; live tasks are kept in a store
  indexed by their pointers, so that two events can share one task. A use of a task that
  was freed (a failed \<^verbatim>\<open>MAGIC_ASSERT\<close>) is the abort \<open>None\<close>. The store also records, in
  order, the pointers handed to the free callbacks. Hosts are named by their identifiers
  (\<^verbatim>\<open>params.id\<close>), which are unique across hosts and are all that \<^verbatim>\<open>host_compare\<close> reads.
  An event is a record with its own address \<open>ev_ptr\<close>, which is what the index map of a
  priority queue (\<^verbatim>\<open>g_direct_hash\<close>) tells events apart by; the allocator's address is an
  argument of \<open>event_new\<close>.
\<close>

type_synonym gpointer = nat
abbreviation (input) NULL :: gpointer where "NULL \<equiv> 0"
type_synonym hostid = u32

section \<open>Tasks\<close>

record task =
  task_callback :: gpointer
  task_object :: gpointer
  task_argument :: gpointer
  task_objectFree :: gpointer
  task_argumentFree :: gpointer
  task_referenceCount :: int

record task_store =
  ts_live :: "gpointer \<rightharpoonup> task"
  ts_freed :: "gpointer list"

definition task_new ::
  "task_store \<Rightarrow> gpointer \<Rightarrow> gpointer \<Rightarrow> gpointer \<Rightarrow> gpointer \<Rightarrow> gpointer \<Rightarrow> gpointer \<Rightarrow> task_store option" where
  "task_new st p callback callbackObject callbackArgument objectFree argumentFree = do {
     utility_assert (callback \<noteq> NULL);
     Some (st\<lparr>ts_live := (ts_live st)(p \<mapsto>
       \<lparr>task_callback = callback, task_object = callbackObject, task_argument = callbackArgument,
        task_objectFree = objectFree, task_argumentFree = argumentFree,
        task_referenceCount = 1\<rparr>)\<rparr>)
   }"

definition task_free_calls :: "task \<Rightarrow> gpointer list" where
  "task_free_calls t =
     (if task_objectFree t \<noteq> NULL \<and> task_object t \<noteq> NULL then [task_object t] else []) @
     (if task_argumentFree t \<noteq> NULL \<and> task_argument t \<noteq> NULL then [task_argument t] else [])"

definition task_free :: "task_store \<Rightarrow> gpointer \<Rightarrow> task \<Rightarrow> task_store" where
  "task_free st p t =
     st\<lparr>ts_live := (ts_live st)(p := None), ts_freed := ts_freed st @ task_free_calls t\<rparr>"

definition task_ref :: "task_store \<Rightarrow> gpointer \<Rightarrow> task_store option" where
  "task_ref st p = do {
     t \<leftarrow> ts_live st p;
     Some (st\<lparr>ts_live := (ts_live st)(p \<mapsto> t\<lparr>task_referenceCount := task_referenceCount t + 1\<rparr>)\<rparr>)
   }"

definition task_unref :: "task_store \<Rightarrow> gpointer \<Rightarrow> task_store option" where
  "task_unref st p = do {
     t \<leftarrow> ts_live st p;
     let t' = t\<lparr>task_referenceCount := task_referenceCount t - 1\<rparr>;
     Some (if task_referenceCount t' \<le> 0 then task_free st p t'
           else st\<lparr>ts_live := (ts_live st)(p \<mapsto> t')\<rparr>)
   }"

text \<open>
  The callback of a task is code of other components; \<open>call\<close> stands for calling
  the function behind a function pointer with the host, the object and the argument.
\<close>

definition task_execute ::
  "(gpointer \<Rightarrow> hostid \<Rightarrow> gpointer \<Rightarrow> gpointer \<Rightarrow> 's \<Rightarrow> 's) \<Rightarrow> task_store \<Rightarrow> gpointer \<Rightarrow> hostid \<Rightarrow> 's \<Rightarrow> 's option" where
  "task_execute call st p host s = do {
     t \<leftarrow> ts_live st p;
     Some (call (task_callback t) host (task_object t) (task_argument t) s)
   }"

section \<open>Events\<close>

record event =
  ev_ptr :: gpointer
  ev_srcHost :: hostid
  ev_dstHost :: hostid
  ev_task :: gpointer
  ev_time :: simtime
  ev_srcHostEventID :: u64
  ev_referenceCount :: int

text \<open>
  \<open>host_getNewEventID\<close> hands out the counter's value and increments it; the counter of the
  source host is passed in and returned.
\<close>

definition host_getNewEventID :: "u64 \<Rightarrow> u64 \<times> u64" where
  "host_getNewEventID counter = (counter, counter + 1)"

definition event_new ::
  "task_store \<Rightarrow> u64 \<Rightarrow> gpointer \<Rightarrow> gpointer \<Rightarrow> simtime \<Rightarrow> hostid \<Rightarrow> hostid \<Rightarrow> (event \<times> u64 \<times> task_store) option" where
  "event_new st counter p task time srcHost dstHost = do {
     utility_assert (task \<noteq> NULL);
     st' \<leftarrow> task_ref st task;
     let (eventID, counter') = host_getNewEventID counter;
     Some (\<lparr>ev_ptr = p, ev_srcHost = srcHost, ev_dstHost = dstHost, ev_task = task, ev_time = time,
            ev_srcHostEventID = eventID, ev_referenceCount = 1\<rparr>, counter', st')
   }"

definition event_ref :: "event \<Rightarrow> event" where
  "event_ref e = e\<lparr>ev_referenceCount := ev_referenceCount e + 1\<rparr>"

definition event_unref :: "task_store \<Rightarrow> event \<Rightarrow> (event option \<times> task_store) option" where
  "event_unref st e =
     (let e' = e\<lparr>ev_referenceCount := ev_referenceCount e - 1\<rparr>
      in if ev_referenceCount e' \<le> 0
         then do { st' \<leftarrow> task_unref st (ev_task e'); Some (None, st') }
         else Some (Some e', st))"

definition event_getTime :: "event \<Rightarrow> simtime" where "event_getTime e = ev_time e"
definition event_getHost :: "event \<Rightarrow> hostid" where "event_getHost e = ev_dstHost e"
definition event_setTime :: "event \<Rightarrow> simtime \<Rightarrow> event" where "event_setTime e t = e\<lparr>ev_time := t\<rparr>"

definition host_compare :: "hostid \<Rightarrow> hostid \<Rightarrow> int" where
  "host_compare a b = (if a > b then 1 else if a < b then - 1 else 0)"

definition event_compare :: "event \<Rightarrow> event \<Rightarrow> int" where
  "event_compare a b =
     (if ev_time a > ev_time b then 1
      else if ev_time a < ev_time b then - 1
      else let cmpresult = host_compare (ev_dstHost a) (ev_dstHost b)
           in if cmpresult > 0 then 1 else if cmpresult < 0 then - 1
              else let cmpresult = host_compare (ev_srcHost a) (ev_srcHost b)
                   in if cmpresult > 0 then 1 else if cmpresult < 0 then - 1
                      else if ev_srcHostEventID a > ev_srcHostEventID b then 1
                      else if ev_srcHostEventID a < ev_srcHostEventID b then - 1
                      else 0)"

section \<open>The order of events\<close>

text \<open>The lexicographic key that \<open>event_compare\<close> compares by.\<close>

definition event_key :: "event \<Rightarrow> simtime \<times> hostid \<times> hostid \<times> u64" where
  "event_key e = (ev_time e, ev_dstHost e, ev_srcHost e, ev_srcHostEventID e)"

definition event_le :: "event \<Rightarrow> event \<Rightarrow> bool" where
  "event_le a b \<longleftrightarrow> event_compare a b \<le> 0"

lemma event_le_key: "event_le a b \<longleftrightarrow> event_key a \<le> event_key b"
  by (auto simp: event_le_def event_compare_def host_compare_def Let_def event_key_def less_eq_prod_simp)

lemma event_compare_neg: "event_compare a b < 0 \<longleftrightarrow> event_key a < event_key b"
  by (auto simp: event_compare_def host_compare_def Let_def event_key_def less_prod_simp)

lemma event_compare_zero: "event_compare a b = 0 \<longleftrightarrow> event_key a = event_key b"
  by (auto simp: event_compare_def host_compare_def Let_def event_key_def)

lemma event_le_refl: "event_le a a"
  by (simp add: event_le_key)

lemma event_le_trans: "event_le a b \<Longrightarrow> event_le b c \<Longrightarrow> event_le a c"
  by (simp add: event_le_key)

lemma event_le_total: "event_le a b \<or> event_le b a"
  by (simp add: event_le_key linear)

lemma event_le_antisym: "event_le a b \<Longrightarrow> event_le b a \<Longrightarrow> event_key a = event_key b"
  by (simp add: event_le_key)

lemma event_le_time: "event_le a b \<Longrightarrow> ev_time a \<le> ev_time b"
  by (auto simp: event_le_key event_key_def less_eq_prod_simp)

interpretation evq: pq_order event_compare event_le
proof
  show "event_le x x" for x by (rule event_le_refl)
  show "event_le x y \<Longrightarrow> event_le y z \<Longrightarrow> event_le x z" for x y z by (rule event_le_trans)
  show "event_compare x y < 0 \<Longrightarrow> event_le x y" for x y by (simp add: event_le_def)
  show "\<not> event_compare x y < 0 \<Longrightarrow> event_le y x" for x y by (simp add: event_compare_neg event_le_key)
qed

end
