(* ===== verification/Address.thy ===== *)
theory Address
  imports Prelude
begin

text \<open>
  \<^verbatim>\<open>routing/address.c\<close>: the reference-counted network address of an interface, with its IP
  address in network order and the strings made from it. The decimal conversions of
  \<^verbatim>\<open>printf\<close> and the \<^verbatim>\<open>inet_ntop\<close> and \<^verbatim>\<open>inet_pton\<close> of the C library are defined first; on a
  little-endian machine the first byte of a dotted address is the low byte of the word.
\<close>

section \<open>Decimal strings and dotted addresses\<close>

type_synonym in_addr = u32
type_synonym in_port = u16

definition digit :: "nat \<Rightarrow> char" where
  "digit d = char_of (48 + d)"

fun dec_nat :: "nat \<Rightarrow> string" where
  "dec_nat n = (if n < 10 then [digit n] else dec_nat (n div 10) @ [digit (n mod 10)])"

declare dec_nat.simps [simp del]

definition dec_int :: "int \<Rightarrow> string" where
  "dec_int i = (if i < 0 then CHR ''-'' # dec_nat (nat (- i)) else dec_nat (nat i))"

definition isdigit :: "char \<Rightarrow> bool" where
  "isdigit c = (48 \<le> (of_char c :: nat) \<and> (of_char c :: nat) < 58)"

fun split_dots :: "string \<Rightarrow> string list" where
  "split_dots [] = [[]]"
| "split_dots (c # cs) =
     (if c = CHR ''.'' then [] # split_dots cs
      else case split_dots cs of [] \<Rightarrow> [[c]] | w # ws \<Rightarrow> (c # w) # ws)"

definition digits_value :: "string \<Rightarrow> nat" where
  "digits_value w = foldl (\<lambda>v c. 10 * v + (of_char c - 48)) 0 w"

text \<open>One octet of \<^verbatim>\<open>inet_pton\<close>: decimal digits, at most 255, without a leading zero.\<close>

definition octet :: "string \<Rightarrow> nat option" where
  "octet w = (if w \<noteq> [] \<and> list_all isdigit w \<and> (hd w = CHR ''0'' \<longrightarrow> length w = 1) \<and> digits_value w \<le> 255
              then Some (digits_value w) else None)"

definition ip_byte :: "in_addr \<Rightarrow> nat \<Rightarrow> nat" where
  "ip_byte ip i = unat (drop_bit (8 * i) ip AND 255)"

definition inet_ntop :: "in_addr \<Rightarrow> string" where
  "inet_ntop ip = dec_nat (ip_byte ip 0) @ ''.'' @ dec_nat (ip_byte ip 1) @ ''.'' @
                  dec_nat (ip_byte ip 2) @ ''.'' @ dec_nat (ip_byte ip 3)"

definition inet_pton :: "string \<Rightarrow> in_addr option" where
  "inet_pton s =
     (case map octet (split_dots s) of
        [Some a, Some b, Some c, Some d] \<Rightarrow> Some (of_nat (a + 2 ^ 8 * b + 2 ^ 16 * c + 2 ^ 24 * d))
      | _ \<Rightarrow> None)"

definition INADDR_NONE :: in_addr where "INADDR_NONE = - 1"

definition htonl :: "u32 \<Rightarrow> u32" where
  "htonl w = push_bit 24 w OR push_bit 16 (take_bit 8 (drop_bit 8 w)) OR
             push_bit 8 (take_bit 8 (drop_bit 16 w)) OR drop_bit 24 w"

abbreviation ntohl :: "u32 \<Rightarrow> u32" where "ntohl \<equiv> htonl"

definition ntohs :: "u16 \<Rightarrow> u16" where
  "ntohs w = push_bit 8 w OR drop_bit 8 w"

section \<open>Addresses\<close>

record address =
  ad_ip :: u32
  ad_mac :: u32
  ad_ipString :: string
  ad_name :: string
  ad_idString :: string
  ad_referenceCount :: int
  ad_isLocal :: bool
  ad_hostID :: u32

definition address_ipToNewString :: "in_addr \<Rightarrow> string" where
  "address_ipToNewString ip = inet_ntop ip"

definition address_stringToIP :: "string \<Rightarrow> in_addr" where
  "address_stringToIP ipString = (case inet_pton ipString of Some ip \<Rightarrow> ip | None \<Rightarrow> INADDR_NONE)"

definition address_new :: "u32 \<Rightarrow> u32 \<Rightarrow> u32 \<Rightarrow> string \<Rightarrow> bool \<Rightarrow> address" where
  "address_new hostID mac ip name isLocal =
     \<lparr>ad_ip = ip, ad_mac = mac, ad_ipString = address_ipToNewString ip, ad_name = name,
      ad_idString = name @ ''-'' @ address_ipToNewString ip @ '' ('' @
                    (if isLocal then ''lo'' else ''eth'') @ '',mac='' @ dec_int (sint mac) @ '')'',
      ad_referenceCount = 1, ad_isLocal = isLocal, ad_hostID = hostID\<rparr>"

definition address_getID :: "address \<Rightarrow> u32" where "address_getID a = ad_hostID a"

definition address_ref :: "address \<Rightarrow> address" where
  "address_ref a = a\<lparr>ad_referenceCount := ad_referenceCount a + 1\<rparr>"

text \<open>\<open>None\<close> is the freed address.\<close>

definition address_unref :: "address \<Rightarrow> address option" where
  "address_unref a =
     (let a' = a\<lparr>ad_referenceCount := ad_referenceCount a - 1\<rparr>
      in if ad_referenceCount a' \<le> 0 then None else Some a')"

definition address_isLocal :: "address \<Rightarrow> bool" where "address_isLocal a = ad_isLocal a"

definition address_isEqual :: "address option \<Rightarrow> address option \<Rightarrow> bool" where
  "address_isEqual a b =
     (case (a, b) of
        (None, None) \<Rightarrow> True
      | (Some x, Some y) \<Rightarrow> ad_ip x = ad_ip y
      | _ \<Rightarrow> False)"

definition address_toHostIP :: "address \<Rightarrow> u32" where "address_toHostIP a = ntohl (ad_ip a)"
definition address_toHostIPString :: "address \<Rightarrow> string" where "address_toHostIPString a = ad_ipString a"
definition address_toNetworkIP :: "address \<Rightarrow> u32" where "address_toNetworkIP a = ad_ip a"
definition address_toHostName :: "address \<Rightarrow> string" where "address_toHostName a = ad_name a"
definition address_toString :: "address \<Rightarrow> string" where "address_toString a = ad_idString a"

section \<open>Printing and parsing are inverse\<close>

lemma of_char_digit: "d < 10 \<Longrightarrow> of_char (digit d) = 48 + d"
  by (simp add: digit_def)

lemma isdigit_digit: "d < 10 \<Longrightarrow> isdigit (digit d)"
  by (simp add: isdigit_def of_char_digit)

lemma dec_nat_not_Nil: "dec_nat n \<noteq> []"
  by (simp add: dec_nat.simps [of n])

lemma dec_nat_isdigit: "list_all isdigit (dec_nat n)"
proof (induction n rule: dec_nat.induct)
  case (1 n)
  then show ?case
    by (cases "n < 10") (simp_all add: dec_nat.simps [of n] isdigit_digit)
qed

lemma dec_nat_value: "digits_value (dec_nat n) = n"
proof (induction n rule: dec_nat.induct)
  case (1 n)
  show ?case
  proof (cases "n < 10")
    case True
    then show ?thesis by (simp add: dec_nat.simps [of n] digits_value_def of_char_digit)
  next
    case False
    then have "digits_value (dec_nat n) = 10 * digits_value (dec_nat (n div 10)) + n mod 10"
      by (simp add: dec_nat.simps [of n] digits_value_def of_char_digit)
    then show ?thesis using 1 [OF False] by simp
  qed
qed

lemma digit_eq_0:
  assumes "d < 10"
  shows "digit d = CHR ''0'' \<longleftrightarrow> d = 0"
proof
  assume "digit d = CHR ''0''"
  then have "of_char (digit d) = (of_char CHR ''0'' :: nat)" by simp
  then show "d = 0" using assms by (simp add: of_char_digit)
qed (simp add: digit_def char_of_def bit_0)

lemma dec_nat_hd: "0 < n \<Longrightarrow> hd (dec_nat n) \<noteq> CHR ''0''"
proof (induction n rule: dec_nat.induct)
  case (1 n)
  then show ?case
    by (cases "n < 10") (simp_all add: dec_nat.simps [of n] digit_eq_0 dec_nat_not_Nil)
qed

lemma octet_dec_nat: "n \<le> 255 \<Longrightarrow> octet (dec_nat n) = Some n"
proof (cases "n = 0")
  case True
  then show ?thesis by (simp add: octet_def dec_nat.simps digits_value_def digit_def isdigit_def)
next
  case False
  assume "n \<le> 255"
  then show ?thesis
    using False dec_nat_not_Nil [of n] dec_nat_isdigit [of n] dec_nat_hd [of n]
    by (simp add: octet_def dec_nat_value)
qed

lemma split_dots_not_Nil: "split_dots s \<noteq> []"
  by (induction s) (auto split: list.split)

lemma split_dots_digits: "list_all isdigit w \<Longrightarrow> split_dots w = [w]"
proof (induction w)
  case (Cons c w)
  then have "c \<noteq> CHR ''.''" by (auto simp: isdigit_def)
  then show ?case using Cons by simp
qed simp

lemma split_dots_append:
  "list_all isdigit w \<Longrightarrow> split_dots (w @ CHR ''.'' # s) = w # split_dots s"
proof (induction w)
  case (Cons c w)
  then have "c \<noteq> CHR ''.''" by (auto simp: isdigit_def)
  then show ?case using Cons by simp
qed simp

lemma ip_byte_le: "ip_byte ip i \<le> 255"
proof -
  have "drop_bit (8 * i) ip AND 255 \<le> 255" by (rule word_and_le1)
  then show ?thesis by (simp add: ip_byte_def word_le_nat_alt)
qed

lemma ip_byte_eq: "ip_byte ip i = unat ip div 2 ^ (8 * i) mod 2 ^ 8"
proof -
  have "drop_bit (8 * i) ip AND 255 = take_bit 8 (drop_bit (8 * i) ip)"
    by (simp add: take_bit_eq_mask mask_eq_exp_minus_1)
  then have "ip_byte ip i = take_bit 8 (drop_bit (8 * i) (unat ip))"
    by (simp only: ip_byte_def unsigned_take_bit_eq unat_drop_bit_eq)
  then show ?thesis by (simp only: drop_bit_eq_div take_bit_eq_mod)
qed

lemma bytes_sum:
  fixes n :: nat
  assumes "n < 2 ^ 32"
  shows "n mod 256 + 256 * (n div 256 mod 256) + 65536 * (n div 65536 mod 256)
         + 16777216 * (n div 16777216 mod 256) = n"
proof -
  have "n mod 256 + 256 * (n div 256) = n" by simp
  moreover have "n div 256 mod 256 + 256 * (n div 256 div 256) = n div 256" by simp
  moreover have "n div 65536 mod 256 + 256 * (n div 65536 div 256) = n div 65536" by simp
  moreover have "n div 256 div 256 = n div 65536" "n div 65536 div 256 = n div 16777216"
    by (simp_all only: div_mult2_eq [symmetric] numeral_times_numeral [symmetric]) simp_all
  moreover have "n div 16777216 mod 256 = n div 16777216" using assms by simp
  ultimately show ?thesis by linarith
qed

lemma inet_pton_ntop: "inet_pton (inet_ntop ip) = Some ip"
proof -
  have "split_dots (inet_ntop ip) =
    [dec_nat (ip_byte ip 0), dec_nat (ip_byte ip 1), dec_nat (ip_byte ip 2), dec_nat (ip_byte ip 3)]"
    by (simp add: inet_ntop_def split_dots_append split_dots_digits dec_nat_isdigit)
  moreover have "ip_byte ip 0 + 2 ^ 8 * ip_byte ip 1 + 2 ^ 16 * ip_byte ip 2 + 2 ^ 24 * ip_byte ip 3
                 = unat ip"
    using bytes_sum [of "unat ip"] unsigned_less [of ip, where 'a = nat] by (simp add: ip_byte_eq)
  ultimately show ?thesis
    by (simp add: inet_pton_def octet_dec_nat ip_byte_le del: of_nat_add of_nat_mult)
qed

lemma bit_htonl:
  "n < 32 \<Longrightarrow> bit (htonl w) n =
     bit w (if n < 8 then n + 24 else if n < 16 then n + 8 else if n < 24 then n - 8 else n - 24)"
  by (auto simp: htonl_def bit_or_iff bit_push_bit_iff bit_take_bit_iff bit_drop_bit_eq add.commute
      dest: bit_imp_le_length)

lemma htonl_htonl: "htonl (htonl w) = w"
proof (rule bit_word_eqI)
  fix n assume "n < LENGTH(32)"
  then consider "n < 8" | "8 \<le> n" "n < 16" | "16 \<le> n" "n < 24" | "24 \<le> n" "n < 32" by fastforce
  then show "bit (htonl (htonl w)) n = bit w n" by cases (auto simp: bit_htonl)
qed

text \<open>C26: the dotted string kept for an address is read back by \<^verbatim>\<open>address_stringToIP\<close> as the
  address's own IP, for every IP, and the host-order IP converts back to the network-order one.\<close>

theorem address_string_roundtrip:
  "address_stringToIP (address_toHostIPString (address_new hostID mac ip name isLocal)) = ip \<and>
   htonl (address_toHostIP (address_new hostID mac ip name isLocal)) =
     address_toNetworkIP (address_new hostID mac ip name isLocal)"
  by (simp add: address_stringToIP_def address_toHostIPString_def address_new_def
      address_ipToNewString_def inet_pton_ntop address_toHostIP_def address_toNetworkIP_def htonl_htonl)

end
