(* ===== verification/Packet.thy ===== *)
theory Packet
  imports Work Address
begin

text \<open>
  \<^verbatim>\<open>routing/payload.c\<close> and \<^verbatim>\<open>routing/packet.c\<close>: packets with their headers and delivery
  status, and the reference-counted payloads that copies of a packet share across hosts.

  Live packets and payloads are kept in a store indexed by their pointers; using a pointer that is
  not in the store (a failed \<^verbatim>\<open>MAGIC_ASSERT\<close>) is the abort \<open>None\<close>. The mutex of a payload is the
  field \<open>pl_locked\<close>; taking a mutex that is never released again hangs, also \<open>None\<close>.
  What \<^verbatim>\<open>process_readPtr\<close> and \<^verbatim>\<open>process_writePtr\<close> do with a process's memory is code of
  another component: their results are arguments. Addresses of new objects are the arguments
  \<open>p\<close>. \<open>tracing\<close> says whether \<^verbatim>\<open>worker_isFiltered(LOGLEVEL_TRACE)\<close> is false.
\<close>

section \<open>Payloads\<close>


record payload =
  pl_locked :: bool
  pl_referenceCount :: u32
  pl_data :: "byte list"
  pl_length :: u64

datatype ProtocolType = PNONE | PLOCAL | PTCP | PUDP

record local_header =
  lh_flags :: u32
  lh_sourceDescriptorHandle :: int
  lh_destinationDescriptorHandle :: int
  lh_port :: in_port

record udp_header =
  uh_flags :: u32
  uh_sourceIP :: in_addr
  uh_sourcePort :: in_port
  uh_destinationIP :: in_addr
  uh_destinationPort :: in_port

record tcp_header =
  th_flags :: u32
  th_sourceIP :: in_addr
  th_sourcePort :: in_port
  th_destinationIP :: in_addr
  th_destinationPort :: in_port
  th_sequence :: u32
  th_acknowledgment :: u32
  th_selectiveACKs :: "int list"
  th_window :: u32
  th_timestampValue :: simtime
  th_timestampEcho :: simtime

datatype packet_header = HLocal local_header | HUDP udp_header | HTCP tcp_header

record packet =
  pk_referenceCount :: u32
  pk_hostID :: u32
  pk_packetID :: u64
  pk_protocol :: ProtocolType
  pk_header :: "packet_header option"
  pk_payload :: gpointer
  pk_priority :: rat
  pk_allStatus :: u32
  pk_orderedStatus :: "u32 list"

record net_store =
  ns_packets :: "gpointer \<rightharpoonup> packet"
  ns_payloads :: "gpointer \<rightharpoonup> payload"

definition payload_get :: "net_store \<Rightarrow> gpointer \<Rightarrow> payload option" where
  "payload_get st p = do { pl \<leftarrow> ns_payloads st p; utility_assert (\<not> pl_locked pl); Some pl }"

definition payload_put :: "net_store \<Rightarrow> gpointer \<Rightarrow> payload \<Rightarrow> net_store" where
  "payload_put st p pl = st\<lparr>ns_payloads := (ns_payloads st)(p \<mapsto> pl)\<rparr>"

text \<open>
  \<open>readPtr\<close> is the memory read from the process, or \<open>None\<close> where the read fails; then no payload
  is made and the result is \<^verbatim>\<open>NULL\<close>.
\<close>

definition payload_new ::
  "net_store \<Rightarrow> gpointer \<Rightarrow> gpointer \<Rightarrow> u64 \<Rightarrow> (nat \<Rightarrow> byte list option) \<Rightarrow> net_store \<times> gpointer" where
  "payload_new st p data dataLength readPtr =
     (if data \<noteq> NULL \<and> dataLength > 0
      then case readPtr (unat dataLength) of
             None \<Rightarrow> (st, NULL)
           | Some bytes \<Rightarrow>
               (payload_put st p \<lparr>pl_locked = False, pl_referenceCount = 1, pl_data = bytes,
                                  pl_length = dataLength\<rparr>, p)
      else (payload_put st p \<lparr>pl_locked = False, pl_referenceCount = 1, pl_data = [],
                              pl_length = 0\<rparr>, p))"

definition payload_ref :: "net_store \<Rightarrow> gpointer \<Rightarrow> net_store option" where
  "payload_ref st p = do {
     pl \<leftarrow> payload_get st p;
     Some (payload_put st p (pl\<lparr>pl_referenceCount := pl_referenceCount pl + 1\<rparr>))
   }"

definition payload_unref :: "net_store \<Rightarrow> gpointer \<Rightarrow> net_store option" where
  "payload_unref st p = do {
     pl \<leftarrow> payload_get st p;
     let pl' = pl\<lparr>pl_referenceCount := pl_referenceCount pl - 1\<rparr>;
     Some (if pl_referenceCount pl' = 0 then st\<lparr>ns_payloads := (ns_payloads st)(p := None)\<rparr>
           else payload_put st p pl')
   }"

definition payload_getLength :: "net_store \<Rightarrow> gpointer \<Rightarrow> u64 option" where
  "payload_getLength st p = do { pl \<leftarrow> payload_get st p; Some (pl_length pl) }"

text \<open>
  \<open>writePtr bytes\<close> is the error number of writing \<open>bytes\<close> to the process. On an error the code
  returns before it unlocks the payload.
\<close>

definition payload_getData ::
  "net_store \<Rightarrow> gpointer \<Rightarrow> u64 \<Rightarrow> u64 \<Rightarrow> (byte list \<Rightarrow> nat) \<Rightarrow> (net_store \<times> int \<times> byte list) option" where
  "payload_getData st p offset destBufferLength writePtr = do {
     pl \<leftarrow> payload_get st p;
     utility_assert (offset \<le> pl_length pl);
     let targetLength = pl_length pl - offset;
     let copyLength = min targetLength destBufferLength;
     let bytes = (if 0 < sint copyLength then take (unat copyLength) (drop (unat offset) (pl_data pl)) else []);
     if 0 < sint copyLength \<and> writePtr bytes \<noteq> 0
     then Some (payload_put st p (pl\<lparr>pl_locked := True\<rparr>), - int (writePtr bytes), [])
     else Some (st, sint copyLength, bytes)
   }"

definition payload_getDataShadow ::
  "net_store \<Rightarrow> gpointer \<Rightarrow> u64 \<Rightarrow> u64 \<Rightarrow> (u64 \<times> byte list) option" where
  "payload_getDataShadow st p offset destBufferLength = do {
     pl \<leftarrow> payload_get st p;
     utility_assert (offset \<le> pl_length pl);
     let targetLength = pl_length pl - offset;
     let copyLength = min targetLength destBufferLength;
     Some (copyLength, take (unat copyLength) (drop (unat offset) (pl_data pl)))
   }"

section \<open>Packets\<close>

definition PDS_NONE :: u32 where "PDS_NONE = 0"
definition PDS_SND_CREATED :: u32 where "PDS_SND_CREATED = push_bit 1 1"
definition PDS_SND_TCP_ENQUEUE_THROTTLED :: u32 where "PDS_SND_TCP_ENQUEUE_THROTTLED = push_bit 2 1"
definition PDS_SND_TCP_ENQUEUE_RETRANSMIT :: u32 where "PDS_SND_TCP_ENQUEUE_RETRANSMIT = push_bit 3 1"
definition PDS_SND_TCP_DEQUEUE_RETRANSMIT :: u32 where "PDS_SND_TCP_DEQUEUE_RETRANSMIT = push_bit 4 1"
definition PDS_SND_TCP_RETRANSMITTED :: u32 where "PDS_SND_TCP_RETRANSMITTED = push_bit 5 1"
definition PDS_SND_SOCKET_BUFFERED :: u32 where "PDS_SND_SOCKET_BUFFERED = push_bit 6 1"
definition PDS_SND_INTERFACE_SENT :: u32 where "PDS_SND_INTERFACE_SENT = push_bit 7 1"
definition PDS_INET_SENT :: u32 where "PDS_INET_SENT = push_bit 8 1"
definition PDS_INET_DROPPED :: u32 where "PDS_INET_DROPPED = push_bit 9 1"
definition PDS_ROUTER_ENQUEUED :: u32 where "PDS_ROUTER_ENQUEUED = push_bit 10 1"
definition PDS_ROUTER_DEQUEUED :: u32 where "PDS_ROUTER_DEQUEUED = push_bit 11 1"
definition PDS_ROUTER_DROPPED :: u32 where "PDS_ROUTER_DROPPED = push_bit 12 1"
definition PDS_RCV_INTERFACE_RECEIVED :: u32 where "PDS_RCV_INTERFACE_RECEIVED = push_bit 13 1"
definition PDS_RCV_INTERFACE_DROPPED :: u32 where "PDS_RCV_INTERFACE_DROPPED = push_bit 14 1"
definition PDS_RCV_SOCKET_PROCESSED :: u32 where "PDS_RCV_SOCKET_PROCESSED = push_bit 15 1"
definition PDS_RCV_SOCKET_DROPPED :: u32 where "PDS_RCV_SOCKET_DROPPED = push_bit 16 1"
definition PDS_RCV_TCP_ENQUEUE_UNORDERED :: u32 where "PDS_RCV_TCP_ENQUEUE_UNORDERED = push_bit 17 1"
definition PDS_RCV_SOCKET_BUFFERED :: u32 where "PDS_RCV_SOCKET_BUFFERED = push_bit 18 1"
definition PDS_RCV_SOCKET_DELIVERED :: u32 where "PDS_RCV_SOCKET_DELIVERED = push_bit 19 1"
definition PDS_DESTROYED :: u32 where "PDS_DESTROYED = push_bit 20 1"

definition PTCP_NONE :: u32 where "PTCP_NONE = 0"
definition PTCP_RST :: u32 where "PTCP_RST = push_bit 1 1"
definition PTCP_SYN :: u32 where "PTCP_SYN = push_bit 2 1"
definition PTCP_ACK :: u32 where "PTCP_ACK = push_bit 3 1"
definition PTCP_SACK :: u32 where "PTCP_SACK = push_bit 4 1"
definition PTCP_FIN :: u32 where "PTCP_FIN = push_bit 5 1"
definition PTCP_DUPACK :: u32 where "PTCP_DUPACK = push_bit 6 1"

definition protocol_toString :: "ProtocolType \<Rightarrow> string" where
  "protocol_toString type =
     (case type of PLOCAL \<Rightarrow> ''LOCAL'' | PUDP \<Rightarrow> ''UDP'' | PTCP \<Rightarrow> ''TCP'' | _ \<Rightarrow> ''UNKNOWN'')"

definition packet_put :: "net_store \<Rightarrow> gpointer \<Rightarrow> packet \<Rightarrow> net_store" where
  "packet_put st p pk = st\<lparr>ns_packets := (ns_packets st)(p \<mapsto> pk)\<rparr>"

definition host_getNewPacketID :: "u64 \<Rightarrow> u64 \<times> u64" where
  "host_getNewPacketID counter = (counter, counter + 1)"

definition packet_new :: "net_store \<Rightarrow> gpointer \<Rightarrow> u32 \<Rightarrow> u64 \<Rightarrow> net_store \<times> u64" where
  "packet_new st p hostID counter =
     (let (packetID, counter') = host_getNewPacketID counter
      in (packet_put st p \<lparr>pk_referenceCount = 1, pk_hostID = hostID, pk_packetID = packetID,
            pk_protocol = PNONE, pk_header = None, pk_payload = NULL, pk_priority = 0,
            pk_allStatus = 0, pk_orderedStatus = []\<rparr>, counter'))"

text \<open>The counter is a \<^verbatim>\<open>gdouble\<close> that holds a natural number.\<close>

definition host_getNextPacketPriority :: "nat \<Rightarrow> rat \<times> nat" where
  "host_getNextPacketPriority counter = (let c = round_sig (counter + 1) False in (of_nat c, c))"

definition packet_setPayload ::
  "net_store \<Rightarrow> gpointer \<Rightarrow> gpointer \<Rightarrow> gpointer \<Rightarrow> u64 \<Rightarrow> (nat \<Rightarrow> byte list option) \<Rightarrow> nat \<Rightarrow> (net_store \<times> nat) option" where
  "packet_setPayload st p newPayload payload payloadLength readPtr priorityCounter = do {
     pk \<leftarrow> ns_packets st p;
     utility_assert (payload \<noteq> NULL);
     utility_assert (pk_payload pk = NULL);
     let (st', pl) = payload_new st newPayload payload payloadLength readPtr;
     let (priority, counter') = host_getNextPacketPriority priorityCounter;
     Some (packet_put st' p (pk\<lparr>pk_payload := pl, pk_priority := priority\<rparr>), counter')
   }"

definition packet_copy :: "net_store \<Rightarrow> gpointer \<Rightarrow> gpointer \<Rightarrow> net_store option" where
  "packet_copy st p copy = do {
     pk \<leftarrow> ns_packets st p;
     st' \<leftarrow> (if pk_payload pk \<noteq> NULL then payload_ref st (pk_payload pk) else Some st);
     utility_assert (pk_header pk \<noteq> None \<longrightarrow> pk_protocol pk \<noteq> PNONE);
     Some (packet_put st' copy (pk\<lparr>pk_referenceCount := 1,
             pk_priority := if pk_payload pk \<noteq> NULL then pk_priority pk else 0\<rparr>))
   }"

definition packet_free :: "net_store \<Rightarrow> gpointer \<Rightarrow> packet \<Rightarrow> net_store option" where
  "packet_free st p pk = do {
     utility_assert (pk_protocol pk = PTCP \<longrightarrow> pk_header pk \<noteq> None);
     st' \<leftarrow> (if pk_payload pk \<noteq> NULL then payload_unref st (pk_payload pk) else Some st);
     Some (st'\<lparr>ns_packets := (ns_packets st')(p := None)\<rparr>)
   }"

definition packet_deliveryStatusToAscii :: "u32 \<Rightarrow> string" where
  "packet_deliveryStatusToAscii status =
     (if status = PDS_NONE then ''NONE''
      else if status = PDS_SND_CREATED then ''SND_CREATED''
      else if status = PDS_SND_TCP_ENQUEUE_THROTTLED then ''SND_TCP_ENQUEUE_THROTTLED''
      else if status = PDS_SND_TCP_ENQUEUE_RETRANSMIT then ''SND_TCP_ENQUEUE_RETRANSMIT''
      else if status = PDS_SND_TCP_DEQUEUE_RETRANSMIT then ''SND_TCP_DEQUEUE_RETRANSMIT''
      else if status = PDS_SND_TCP_RETRANSMITTED then ''SND_TCP_RETRANSMITTED''
      else if status = PDS_SND_SOCKET_BUFFERED then ''SND_SOCKET_BUFFERED''
      else if status = PDS_SND_INTERFACE_SENT then ''SND_INTERFACE_SENT''
      else if status = PDS_INET_SENT then ''INET_SENT''
      else if status = PDS_INET_DROPPED then ''INET_DROPPED''
      else if status = PDS_ROUTER_ENQUEUED then ''ROUTER_ENQUEUED''
      else if status = PDS_ROUTER_DEQUEUED then ''ROUTER_DEQUEUED''
      else if status = PDS_ROUTER_DROPPED then ''ROUTER_DROPPED''
      else if status = PDS_RCV_INTERFACE_RECEIVED then ''RCV_INTERFACE_RECEIVED''
      else if status = PDS_RCV_INTERFACE_DROPPED then ''RCV_INTERFACE_DROPPED''
      else if status = PDS_RCV_SOCKET_PROCESSED then ''RCV_SOCKET_PROCESSED''
      else if status = PDS_RCV_SOCKET_DROPPED then ''RCV_SOCKET_DROPPED''
      else if status = PDS_RCV_TCP_ENQUEUE_UNORDERED then ''RCV_TCP_ENQUEUE_UNORDERED''
      else if status = PDS_RCV_SOCKET_BUFFERED then ''RCV_SOCKET_BUFFERED''
      else if status = PDS_RCV_SOCKET_DELIVERED then ''RCV_SOCKET_DELIVERED''
      else if status = PDS_DESTROYED then ''PDS_DESTROYED''
      else ''UKNOWN'')"

text \<open>
  The loop of \<^verbatim>\<open>packet_toString\<close> over the selective acknowledgements prints ranges; its variables
  \<^verbatim>\<open>firstSack\<close> and \<^verbatim>\<open>lastSack\<close> are carried along, \<open>-1\<close> meaning unset.
\<close>

fun sack_loop :: "int list \<Rightarrow> int \<Rightarrow> int \<Rightarrow> string \<times> int \<times> int" where
  "sack_loop [] firstSack lastSack = ([], firstSack, lastSack)"
| "sack_loop (seq # rest) firstSack lastSack =
     (if firstSack = - 1 then sack_loop rest seq lastSack
      else if lastSack = - 1 \<or> seq = lastSack + 1 then sack_loop rest firstSack seq
      else let (s, f, l) = sack_loop rest seq (- 1)
           in (dec_int firstSack @ ''-'' @ dec_int lastSack @ '' '' @ s, f, l))"

definition sack_string :: "int list \<Rightarrow> string" where
  "sack_string selectiveACKs =
     (let (s, firstSack, lastSack) = sack_loop selectiveACKs (- 1) (- 1)
      in s @ (if firstSack \<noteq> - 1
              then dec_int firstSack @ (if lastSack \<noteq> - 1 then ''-'' @ dec_int lastSack else [])
              else ''NA''))"

definition flags_string :: "u32 \<Rightarrow> string" where
  "flags_string flags =
     (if flags AND PTCP_NONE = 0
      then '' header='' @ (if flags AND PTCP_RST \<noteq> 0 then ''RST'' else []) @
           (if flags AND PTCP_SYN \<noteq> 0 then ''SYN'' else []) @
           (if flags AND PTCP_FIN \<noteq> 0 then ''FIN'' else []) @
           (if flags AND PTCP_ACK \<noteq> 0 then ''ACK'' else []) @
           (if flags AND PTCP_DUPACK \<noteq> 0 then ''DUPACK'' else [])
      else [])"

definition dec_word :: "'a::len word \<Rightarrow> string" where
  "dec_word w = dec_nat (unat w)"

definition endpoints_string :: "in_addr \<Rightarrow> in_port \<Rightarrow> in_addr \<Rightarrow> in_port \<Rightarrow> string" where
  "endpoints_string sourceIP sourcePort destinationIP destinationPort =
     address_ipToNewString sourceIP @ '':'' @ dec_word (ntohs sourcePort) @ '' -> '' @
     address_ipToNewString destinationIP @ '':'' @ dec_word (ntohs destinationPort)"

definition header_string :: "ProtocolType \<Rightarrow> packet_header option \<Rightarrow> u32 \<Rightarrow> string option" where
  "header_string protocol header payloadLength =
     (case (protocol, header) of
        (PLOCAL, Some (HLocal h)) \<Rightarrow>
          Some (dec_int (lh_sourceDescriptorHandle h) @ '' -> '' @
                dec_int (lh_destinationDescriptorHandle h) @ '' bytes='' @ dec_word payloadLength)
      | (PUDP, Some (HUDP h)) \<Rightarrow>
          Some (endpoints_string (uh_sourceIP h) (uh_sourcePort h) (uh_destinationIP h) (uh_destinationPort h)
                @ '' bytes='' @ dec_word payloadLength)
      | (PTCP, Some (HTCP h)) \<Rightarrow>
          Some (endpoints_string (th_sourceIP h) (th_sourcePort h) (th_destinationIP h) (th_destinationPort h)
                @ '' seq='' @ dec_word (th_sequence h) @ '' ack='' @ dec_word (th_acknowledgment h)
                @ '' sack='' @ sack_string (th_selectiveACKs h)
                @ '' window='' @ dec_word (th_window h) @ '' bytes='' @ dec_word payloadLength
                @ flags_string (th_flags h) @ '' tsval='' @ dec_word (th_timestampValue h)
                @ '' tsechoreply='' @ dec_word (th_timestampEcho h))
      | _ \<Rightarrow> None)"

text \<open>The status loop pops every entry from the head of the queue and pushes it back at the tail.\<close>

fun status_loop :: "nat \<Rightarrow> u32 list \<Rightarrow> string \<times> u32 list" where
  "status_loop 0 q = ([], q)"
| "status_loop (Suc n) [] = ([], [])"
| "status_loop (Suc n) (status # q) =
     (let (s, q') = status_loop n (q @ [status])
      in (packet_deliveryStatusToAscii status @ (if n > 0 then '','' else []) @ s, q'))"

definition packet_getPayloadLength :: "net_store \<Rightarrow> gpointer \<Rightarrow> u32 option" where
  "packet_getPayloadLength st p = do {
     pk \<leftarrow> ns_packets st p;
     if pk_payload pk \<noteq> NULL then do { len \<leftarrow> payload_getLength st (pk_payload pk); Some (ucast len) }
     else Some 0
   }"

definition packet_toString :: "net_store \<Rightarrow> gpointer \<Rightarrow> (string \<times> net_store) option" where
  "packet_toString st p = do {
     pk \<leftarrow> ns_packets st p;
     payloadLength \<leftarrow> packet_getPayloadLength st p;
     body \<leftarrow> header_string (pk_protocol pk) (pk_header pk) payloadLength;
     let statusLength = length (pk_orderedStatus pk);
     let (s, q) = status_loop statusLength (pk_orderedStatus pk);
     Some (''packetID='' @ dec_word (pk_hostID pk) @ '':'' @ dec_word (pk_packetID pk) @ '' '' @ body @
           (if statusLength > 0 then '' status='' else []) @ s,
           packet_put st p (pk\<lparr>pk_orderedStatus := q\<rparr>))
   }"

definition packet_addDeliveryStatus :: "bool \<Rightarrow> net_store \<Rightarrow> gpointer \<Rightarrow> u32 \<Rightarrow> net_store option" where
  "packet_addDeliveryStatus tracing st p status = do {
     pk \<leftarrow> ns_packets st p;
     let st1 = packet_put st p (pk\<lparr>pk_allStatus := pk_allStatus pk OR status\<rparr>);
     if tracing
     then do {
       let st2 = packet_put st1 p (pk\<lparr>pk_allStatus := pk_allStatus pk OR status,
                                      pk_orderedStatus := pk_orderedStatus pk @ [status]\<rparr>);
       (packetStr, st3) \<leftarrow> packet_toString st2 p;
       Some st3
     }
     else Some st1
   }"

definition packet_ref :: "net_store \<Rightarrow> gpointer \<Rightarrow> net_store option" where
  "packet_ref st p = do {
     pk \<leftarrow> ns_packets st p;
     Some (packet_put st p (pk\<lparr>pk_referenceCount := pk_referenceCount pk + 1\<rparr>))
   }"

definition packet_unref :: "bool \<Rightarrow> net_store \<Rightarrow> gpointer \<Rightarrow> net_store option" where
  "packet_unref tracing st p = do {
     pk \<leftarrow> ns_packets st p;
     let pk' = pk\<lparr>pk_referenceCount := pk_referenceCount pk - 1\<rparr>;
     let st' = packet_put st p pk';
     if pk_referenceCount pk' = 0
     then do { st'' \<leftarrow> packet_addDeliveryStatus tracing st' p PDS_DESTROYED;
               pk'' \<leftarrow> ns_packets st'' p;
               packet_free st'' p pk'' }
     else Some st'
   }"

definition packet_setPriority :: "net_store \<Rightarrow> gpointer \<Rightarrow> rat \<Rightarrow> net_store option" where
  "packet_setPriority st p v = do { pk \<leftarrow> ns_packets st p; Some (packet_put st p (pk\<lparr>pk_priority := v\<rparr>)) }"

definition packet_getTCPHeader :: "net_store \<Rightarrow> gpointer \<Rightarrow> tcp_header option" where
  "packet_getTCPHeader st p = do {
     pk \<leftarrow> ns_packets st p;
     utility_assert (pk_protocol pk = PTCP);
     case pk_header pk of Some (HTCP h) \<Rightarrow> Some h | _ \<Rightarrow> None
   }"

definition packet_compareTCPSequence :: "net_store \<Rightarrow> gpointer \<Rightarrow> gpointer \<Rightarrow> int option" where
  "packet_compareTCPSequence st p1 p2 = do {
     h1 \<leftarrow> packet_getTCPHeader st p1;
     h2 \<leftarrow> packet_getTCPHeader st p2;
     let sequence1 = th_sequence h1;
     let sequence2 = th_sequence h2;
     Some (if sequence1 < sequence2 then - 1 else if sequence1 > sequence2 then 1 else 0)
   }"

definition packet_setLocal ::
  "net_store \<Rightarrow> gpointer \<Rightarrow> u32 \<Rightarrow> int \<Rightarrow> int \<Rightarrow> in_port \<Rightarrow> net_store option" where
  "packet_setLocal st p flags sourceDescriptorHandle destinationDescriptorHandle port = do {
     pk \<leftarrow> ns_packets st p;
     utility_assert (pk_header pk = None \<and> pk_protocol pk = PNONE);
     utility_assert (port > 0);
     Some (packet_put st p (pk\<lparr>pk_header := Some (HLocal
         \<lparr>lh_flags = flags, lh_sourceDescriptorHandle = sourceDescriptorHandle,
          lh_destinationDescriptorHandle = destinationDescriptorHandle, lh_port = port\<rparr>),
       pk_protocol := PLOCAL\<rparr>))
   }"

definition packet_setUDP ::
  "net_store \<Rightarrow> gpointer \<Rightarrow> u32 \<Rightarrow> in_addr \<Rightarrow> in_port \<Rightarrow> in_addr \<Rightarrow> in_port \<Rightarrow> net_store option" where
  "packet_setUDP st p flags sourceIP sourcePort destinationIP destinationPort = do {
     pk \<leftarrow> ns_packets st p;
     utility_assert (pk_header pk = None \<and> pk_protocol pk = PNONE);
     utility_assert (sourceIP \<noteq> 0 \<and> sourcePort \<noteq> 0 \<and> destinationIP \<noteq> 0 \<and> destinationPort \<noteq> 0);
     Some (packet_put st p (pk\<lparr>pk_header := Some (HUDP
         \<lparr>uh_flags = flags, uh_sourceIP = sourceIP, uh_sourcePort = sourcePort,
          uh_destinationIP = destinationIP, uh_destinationPort = destinationPort\<rparr>),
       pk_protocol := PUDP\<rparr>))
   }"

definition packet_setTCP ::
  "net_store \<Rightarrow> gpointer \<Rightarrow> u32 \<Rightarrow> in_addr \<Rightarrow> in_port \<Rightarrow> in_addr \<Rightarrow> in_port \<Rightarrow> u32 \<Rightarrow> net_store option" where
  "packet_setTCP st p flags sourceIP sourcePort destinationIP destinationPort sequence = do {
     pk \<leftarrow> ns_packets st p;
     utility_assert (pk_header pk = None \<and> pk_protocol pk = PNONE);
     utility_assert (sourceIP \<noteq> 0 \<and> sourcePort \<noteq> 0 \<and> destinationIP \<noteq> 0 \<and> destinationPort \<noteq> 0);
     Some (packet_put st p (pk\<lparr>pk_header := Some (HTCP
         \<lparr>th_flags = flags, th_sourceIP = sourceIP, th_sourcePort = sourcePort,
          th_destinationIP = destinationIP, th_destinationPort = destinationPort,
          th_sequence = sequence, th_acknowledgment = 0, th_selectiveACKs = [], th_window = 0,
          th_timestampValue = 0, th_timestampEcho = 0\<rparr>),
       pk_protocol := PTCP\<rparr>))
   }"

definition packet_updateTCP ::
  "net_store \<Rightarrow> gpointer \<Rightarrow> u32 \<Rightarrow> int list \<Rightarrow> u32 \<Rightarrow> simtime \<Rightarrow> simtime \<Rightarrow> net_store option" where
  "packet_updateTCP st p acknowledgement selectiveACKs window timestampValue timestampEcho = do {
     pk \<leftarrow> ns_packets st p;
     header \<leftarrow> packet_getTCPHeader st p;
     let header1 = (if selectiveACKs \<noteq> []
                    then header\<lparr>th_flags := th_flags header OR PTCP_SACK, th_selectiveACKs := selectiveACKs\<rparr>
                    else header);
     Some (packet_put st p (pk\<lparr>pk_header := Some (HTCP (header1\<lparr>th_acknowledgment := acknowledgement,
       th_window := window, th_timestampValue := timestampValue, th_timestampEcho := timestampEcho\<rparr>))\<rparr>))
   }"

definition packet_getPriority :: "net_store \<Rightarrow> gpointer \<Rightarrow> rat option" where
  "packet_getPriority st p = map_option pk_priority (ns_packets st p)"

definition packet_getHeaderSize :: "net_store \<Rightarrow> gpointer \<Rightarrow> u32 option" where
  "packet_getHeaderSize st p = do {
     pk \<leftarrow> ns_packets st p;
     Some (if pk_protocol pk = PUDP then CONFIG_HEADER_SIZE_UDPIPETH
           else if pk_protocol pk = PTCP then CONFIG_HEADER_SIZE_TCPIPETH else 0)
   }"

text \<open>\<^verbatim>\<open>htonl(INADDR_LOOPBACK)\<close> on a little-endian machine: the bytes of 127.0.0.1 in network order.\<close>

definition LOOPBACK_IP :: in_addr where "LOOPBACK_IP = 0x0100007F"

definition packet_getDestinationIP :: "net_store \<Rightarrow> gpointer \<Rightarrow> in_addr option" where
  "packet_getDestinationIP st p = do {
     pk \<leftarrow> ns_packets st p;
     case (pk_protocol pk, pk_header pk) of
       (PLOCAL, _) \<Rightarrow> Some LOOPBACK_IP
     | (PUDP, Some (HUDP h)) \<Rightarrow> Some (uh_destinationIP h)
     | (PTCP, Some (HTCP h)) \<Rightarrow> Some (th_destinationIP h)
     | _ \<Rightarrow> None
   }"

definition packet_getDestinationPort :: "net_store \<Rightarrow> gpointer \<Rightarrow> in_port option" where
  "packet_getDestinationPort st p = do {
     pk \<leftarrow> ns_packets st p;
     case (pk_protocol pk, pk_header pk) of
       (PLOCAL, Some (HLocal h)) \<Rightarrow> Some (lh_port h)
     | (PUDP, Some (HUDP h)) \<Rightarrow> Some (uh_destinationPort h)
     | (PTCP, Some (HTCP h)) \<Rightarrow> Some (th_destinationPort h)
     | _ \<Rightarrow> None
   }"

definition packet_getSourceIP :: "net_store \<Rightarrow> gpointer \<Rightarrow> in_addr option" where
  "packet_getSourceIP st p = do {
     pk \<leftarrow> ns_packets st p;
     case (pk_protocol pk, pk_header pk) of
       (PLOCAL, _) \<Rightarrow> Some LOOPBACK_IP
     | (PUDP, Some (HUDP h)) \<Rightarrow> Some (uh_sourceIP h)
     | (PTCP, Some (HTCP h)) \<Rightarrow> Some (th_sourceIP h)
     | _ \<Rightarrow> None
   }"

definition packet_getSourcePort :: "net_store \<Rightarrow> gpointer \<Rightarrow> in_port option" where
  "packet_getSourcePort st p = do {
     pk \<leftarrow> ns_packets st p;
     case (pk_protocol pk, pk_header pk) of
       (PLOCAL, Some (HLocal h)) \<Rightarrow> Some (lh_port h)
     | (PUDP, Some (HUDP h)) \<Rightarrow> Some (uh_sourcePort h)
     | (PTCP, Some (HTCP h)) \<Rightarrow> Some (th_sourcePort h)
     | _ \<Rightarrow> None
   }"

definition packet_getProtocol :: "net_store \<Rightarrow> gpointer \<Rightarrow> ProtocolType option" where
  "packet_getProtocol st p = map_option pk_protocol (ns_packets st p)"

definition packet_copyPayload ::
  "net_store \<Rightarrow> gpointer \<Rightarrow> u64 \<Rightarrow> u64 \<Rightarrow> (byte list \<Rightarrow> nat) \<Rightarrow> (net_store \<times> int \<times> byte list) option" where
  "packet_copyPayload st p payloadOffset bufferLength writePtr = do {
     pk \<leftarrow> ns_packets st p;
     if pk_payload pk \<noteq> NULL then payload_getData st (pk_payload pk) payloadOffset bufferLength writePtr
     else Some (st, 0, [])
   }"

definition packet_copyPayloadShadow :: "net_store \<Rightarrow> gpointer \<Rightarrow> u64 \<Rightarrow> u64 \<Rightarrow> (u32 \<times> byte list) option" where
  "packet_copyPayloadShadow st p payloadOffset bufferLength = do {
     pk \<leftarrow> ns_packets st p;
     if pk_payload pk \<noteq> NULL
     then do { (n, bytes) \<leftarrow> payload_getDataShadow st (pk_payload pk) payloadOffset bufferLength;
               Some (ucast n, bytes) }
     else Some (0, [])
   }"

definition packet_copyTCPSelectiveACKs :: "net_store \<Rightarrow> gpointer \<Rightarrow> int list option" where
  "packet_copyTCPSelectiveACKs st p = do { h \<leftarrow> packet_getTCPHeader st p; Some (th_selectiveACKs h) }"

definition packet_getDeliveryStatus :: "net_store \<Rightarrow> gpointer \<Rightarrow> u32 option" where
  "packet_getDeliveryStatus st p = map_option pk_allStatus (ns_packets st p)"

section \<open>The store invariant\<close>

text \<open>
  \<open>payload_users st q\<close> are the live packets that point to the payload \<open>q\<close>. In a well-formed store
  the reference count of a payload is the number of its users, no live payload is without a user
  and no packet points to a freed payload; the header of a packet is the one of its protocol.
\<close>

fun header_ok :: "ProtocolType \<Rightarrow> packet_header option \<Rightarrow> bool" where
  "header_ok PNONE None = True"
| "header_ok PLOCAL (Some (HLocal h)) = True"
| "header_ok PUDP (Some (HUDP h)) = True"
| "header_ok PTCP (Some (HTCP h)) = True"
| "header_ok _ _ = False"

definition payload_users :: "net_store \<Rightarrow> gpointer \<Rightarrow> gpointer set" where
  "payload_users st q = {p. \<exists>pk. ns_packets st p = Some pk \<and> pk_payload pk = q}"

definition packet_ok :: "net_store \<Rightarrow> packet \<Rightarrow> bool" where
  "packet_ok st pk \<longleftrightarrow> header_ok (pk_protocol pk) (pk_header pk) \<and> pk_referenceCount pk \<noteq> 0 \<and>
     (pk_payload pk \<noteq> NULL \<longrightarrow> ns_payloads st (pk_payload pk) \<noteq> None)"

definition payload_ok :: "net_store \<Rightarrow> gpointer \<Rightarrow> payload \<Rightarrow> bool" where
  "payload_ok st q pl \<longleftrightarrow> \<not> pl_locked pl \<and> length (pl_data pl) = unat (pl_length pl) \<and>
     unat (pl_referenceCount pl) = card (payload_users st q) \<and> payload_users st q \<noteq> {}"

definition net_ok :: "net_store \<Rightarrow> bool" where
  "net_ok st \<longleftrightarrow> finite (dom (ns_packets st)) \<and> ns_packets st NULL = None \<and> ns_payloads st NULL = None \<and>
     (\<forall>p pk. ns_packets st p = Some pk \<longrightarrow> packet_ok st pk) \<and>
     (\<forall>q pl. ns_payloads st q = Some pl \<longrightarrow> payload_ok st q pl)"

lemma packet_put_simps [simp]:
  "ns_packets (packet_put st p pk) = (ns_packets st)(p \<mapsto> pk)"
  "ns_payloads (packet_put st p pk) = ns_payloads st"
  by (simp_all add: packet_put_def)

lemma payload_put_simps [simp]:
  "ns_packets (payload_put st q pl) = ns_packets st"
  "ns_payloads (payload_put st q pl) = (ns_payloads st)(q \<mapsto> pl)"
  by (simp_all add: payload_put_def)

lemma packet_put_twice [simp]: "packet_put (packet_put st p a) p b = packet_put st p b"
  by (simp add: packet_put_def)

lemma payload_users_cong: "ns_packets st' = ns_packets st \<Longrightarrow> payload_users st' = payload_users st"
  by (simp add: payload_users_def fun_eq_iff)

lemma payload_users_put:
  "payload_users (packet_put st p pk) q =
     (if pk_payload pk = q then insert p (payload_users st q) else payload_users st q - {p})"
  by (auto simp: payload_users_def)

lemma payload_users_delete:
  "payload_users (st\<lparr>ns_packets := (ns_packets st)(p := None)\<rparr>) q = payload_users st q - {p}"
  by (auto simp: payload_users_def)

lemma in_payload_users: "ns_packets st p = Some pk \<Longrightarrow> p \<in> payload_users st q \<longleftrightarrow> pk_payload pk = q"
  by (simp add: payload_users_def)

lemma finite_payload_users: "net_ok st \<Longrightarrow> finite (payload_users st q)"
  by (rule finite_subset [of _ "dom (ns_packets st)"]) (auto simp: payload_users_def net_ok_def)

lemma net_okD:
  assumes "net_ok st"
  shows "ns_packets st p = Some pk \<Longrightarrow> packet_ok st pk"
    and "ns_payloads st q = Some pl \<Longrightarrow> payload_ok st q pl"
    and "ns_packets st p = Some pk \<Longrightarrow> p \<noteq> NULL"
  using assms unfolding net_ok_def by (blast, blast, metis option.distinct(1))

text \<open>Changing a packet without touching its payload pointer keeps the store well-formed.\<close>

lemma payload_users_put_same:
  "ns_packets st p = Some pk \<Longrightarrow> pk_payload pk' = pk_payload pk \<Longrightarrow>
   payload_users (packet_put st p pk') = payload_users st"
  by (rule ext) (auto simp: payload_users_def)

lemma net_ok_put [wf_intros]:
  assumes ok: "net_ok st" and p: "ns_packets st p = Some pk"
    and same: "pk_payload pk' = pk_payload pk"
    and new: "header_ok (pk_protocol pk') (pk_header pk')" "pk_referenceCount pk' \<noteq> 0"
  shows "net_ok (packet_put st p pk')"
proof -
  have "packet_ok st pk" using ok p by (rule net_okD)
  then have "packet_ok st pk'" using same new by (simp add: packet_ok_def)
  moreover have "packet_ok (packet_put st p pk') = packet_ok st"
    by (simp add: packet_ok_def fun_eq_iff)
  moreover have "payload_ok (packet_put st p pk') = payload_ok st"
    by (simp add: payload_ok_def fun_eq_iff payload_users_put_same [OF p same])
  ultimately show ?thesis using ok net_okD(3) [OF ok p] by (auto simp: net_ok_def)
qed

lemma payload_get_ok: "net_ok st \<Longrightarrow> ns_payloads st q = Some pl \<Longrightarrow> payload_get st q = Some pl"
  using net_okD(2) by (simp add: payload_get_def payload_ok_def)

lemma packet_payload_live:
  assumes "net_ok st" and "ns_packets st p = Some pk" and "pk_payload pk \<noteq> NULL"
  obtains pl where "ns_payloads st (pk_payload pk) = Some pl" "payload_get st (pk_payload pk) = Some pl"
    "payload_ok st (pk_payload pk) pl"
proof -
  obtain pl where "ns_payloads st (pk_payload pk) = Some pl"
    using net_okD(1) [OF assms(1,2)] assms(3) by (auto simp: packet_ok_def)
  then show ?thesis using that payload_get_ok net_okD(2) assms(1) by blast
qed

subsection \<open>Printing\<close>

lemma status_loop_rotates: "status_loop (length q) (q @ r) = (fst (status_loop (length q) (q @ r)), r @ q)"
proof (induction q arbitrary: r)
  case (Cons a q)
  have "snd (status_loop (length q) (q @ r @ [a])) = (r @ [a]) @ q"
    using Cons [of "r @ [a]"] by (metis snd_conv)
  then show ?case by (simp add: case_prod_unfold Let_def)
qed simp

lemma status_loop_queue: "snd (status_loop (length q) q) = q"
  using status_loop_rotates [of q "[]"] by (metis append_Nil append_Nil2 snd_conv)

definition payload_readable :: "net_store \<Rightarrow> packet \<Rightarrow> bool" where
  "payload_readable st pk \<longleftrightarrow> (pk_payload pk \<noteq> NULL \<longrightarrow> (\<exists>pl. payload_get st (pk_payload pk) = Some pl))"

lemma payload_readable_ok: "net_ok st \<Longrightarrow> ns_packets st p = Some pk \<Longrightarrow> payload_readable st pk"
  unfolding payload_readable_def by (blast elim: packet_payload_live)

lemma payload_readable_put [simp]: "payload_readable (packet_put st p pk') = payload_readable st"
  by (simp add: payload_readable_def payload_get_def fun_eq_iff)

lemma packet_getPayloadLength_ok:
  assumes "payload_readable st pk" and "ns_packets st p = Some pk"
  shows "\<exists>n. packet_getPayloadLength st p = Some n"
  using assms by (auto simp: packet_getPayloadLength_def payload_getLength_def payload_readable_def)

lemma header_string_ok: "header_ok pr h \<Longrightarrow> pr \<noteq> PNONE \<Longrightarrow> \<exists>s. header_string pr h n = Some s"
  by (cases "(pr, h)" rule: header_ok.cases) (auto simp: header_string_def)

text \<open>Printing a packet with a protocol succeeds and leaves the store as it was.\<close>

lemma packet_toString_ok:
  assumes "payload_readable st pk" and "header_ok (pk_protocol pk) (pk_header pk)"
    and "ns_packets st p = Some pk" and "pk_protocol pk \<noteq> PNONE"
  shows "\<exists>s. packet_toString st p = Some (s, st)"
proof -
  obtain n where n: "packet_getPayloadLength st p = Some n"
    using packet_getPayloadLength_ok [OF assms(1,3)] by blast
  obtain b where b: "header_string (pk_protocol pk) (pk_header pk) n = Some b"
    using header_string_ok assms(2,4) by blast
  have "packet_put st p (pk\<lparr>pk_orderedStatus := pk_orderedStatus pk\<rparr>) = st"
    using assms(3) by (simp add: packet_put_def fun_upd_idem)
  then show ?thesis using assms(3) n b
    by (simp add: packet_toString_def Let_def case_prod_unfold status_loop_queue)
qed

definition printable :: "bool \<Rightarrow> packet \<Rightarrow> bool" where
  "printable tracing pk \<longleftrightarrow> (tracing \<longrightarrow> pk_protocol pk \<noteq> PNONE)"

definition add_status :: "bool \<Rightarrow> u32 \<Rightarrow> packet \<Rightarrow> packet" where
  "add_status tracing status pk =
     pk\<lparr>pk_allStatus := pk_allStatus pk OR status,
        pk_orderedStatus := if tracing then pk_orderedStatus pk @ [status] else pk_orderedStatus pk\<rparr>"

lemma add_status_simps [simp]:
  "pk_referenceCount (add_status tr s pk) = pk_referenceCount pk"
  "pk_protocol (add_status tr s pk) = pk_protocol pk"
  "pk_header (add_status tr s pk) = pk_header pk"
  "pk_payload (add_status tr s pk) = pk_payload pk"
  "pk_allStatus (add_status tr s pk) = pk_allStatus pk OR s"
  "printable tr' (add_status tr s pk) = printable tr' pk"
  by (simp_all add: add_status_def printable_def)

lemma payload_readable_add_status [simp]:
  "payload_readable st (add_status tr s pk) = payload_readable st pk"
  by (simp add: payload_readable_def)

lemma packet_addDeliveryStatus_raw:
  assumes "payload_readable st pk" and "header_ok (pk_protocol pk) (pk_header pk)"
    and p: "ns_packets st p = Some pk" and "printable tracing pk"
  shows "packet_addDeliveryStatus tracing st p status = Some (packet_put st p (add_status tracing status pk))"
proof (cases tracing)
  case True
  let ?st = "packet_put st p (add_status True status pk)"
  obtain str where "packet_toString ?st p = Some (str, ?st)"
    using packet_toString_ok [of ?st "add_status True status pk" p] assms True by (auto simp: printable_def)
  then show ?thesis using p True by (simp add: packet_addDeliveryStatus_def add_status_def Let_def)
qed (simp add: p packet_addDeliveryStatus_def add_status_def Let_def)

lemma packet_addDeliveryStatus_ok:
  assumes ok: "net_ok st" and p: "ns_packets st p = Some pk" and "printable tracing pk"
  shows "packet_addDeliveryStatus tracing st p status = Some (packet_put st p (add_status tracing status pk))"
    and "net_ok (packet_put st p (add_status tracing status pk))"
proof -
  have pok: "header_ok (pk_protocol pk) (pk_header pk)" "pk_referenceCount pk \<noteq> 0"
    using net_okD(1) [OF ok p] by (simp_all add: packet_ok_def)
  then show "net_ok (packet_put st p (add_status tracing status pk))"
    using net_ok_put [OF ok p] by simp
  show "packet_addDeliveryStatus tracing st p status = Some (packet_put st p (add_status tracing status pk))"
    using payload_readable_ok [OF ok p] pok(1) p assms(3) by (rule packet_addDeliveryStatus_raw)
qed

end
