(* ===== verification/Packet_Lifecycle.thy ===== *)
theory Packet_Lifecycle
  imports Packet
begin

text \<open>
  The life of packets and payloads: every operation of \<^verbatim>\<open>routing/packet.c\<close> on a live packet keeps
  the store well-formed, so that payloads shared by the copies of a packet are freed exactly when
  the last copy goes; the bytes of a payload read piecewise are the bytes written into it.
\<close>

section \<open>Single operations\<close>

lemma word_inc_unat: "unat (w :: u32) + 1 < 2 ^ 32 \<Longrightarrow> unat (w + 1) = unat w + 1"
  by (simp add: unat_word_ariths)

lemma word_dec_unat: "(w :: u32) \<noteq> 0 \<Longrightarrow> unat (w - 1) = unat w - 1"
  by (rule unat_minus_one)

text \<open>Giving a payload one more user, or taking one away.\<close>

lemma net_ok_packet_new:
  assumes ok: "net_ok st" and p: "ns_packets st p = None" "p \<noteq> NULL"
    and pk: "header_ok (pk_protocol pk) (pk_header pk)" "pk_referenceCount pk \<noteq> 0" "pk_payload pk = NULL"
  shows "net_ok (packet_put st p pk)"
proof -
  have "packet_ok (packet_put st p pk) = packet_ok st" by (simp add: packet_ok_def fun_eq_iff)
  moreover have "packet_ok st pk" using pk by (simp add: packet_ok_def)
  moreover have "payload_users (packet_put st p pk) q = payload_users st q" if "q \<noteq> NULL" for q
    using that p pk by (auto simp: payload_users_def)
  then have "payload_ok (packet_put st p pk) q pl = payload_ok st q pl" if "q \<noteq> NULL" for q pl
    using that by (simp add: payload_ok_def)
  ultimately show ?thesis using ok p unfolding net_ok_def
    by (auto simp del: One_nat_def) (metis not_gr_zero option.distinct(1))
qed

lemma net_ok_share:
  assumes ok: "net_ok st" and p: "ns_packets st p = None" "p \<noteq> NULL"
    and pk: "header_ok (pk_protocol pk) (pk_header pk)" "pk_referenceCount pk \<noteq> 0"
    and pl: "ns_payloads st (pk_payload pk) = Some pl"
    and small: "unat (pl_referenceCount pl) + 1 < 2 ^ 32"
  shows "net_ok (packet_put (payload_put st (pk_payload pk) (pl\<lparr>pl_referenceCount := pl_referenceCount pl + 1\<rparr>)) p pk)"
    (is "net_ok ?st'")
proof -
  have plok: "payload_ok st (pk_payload pk) pl" using net_okD(2) [OF ok pl] .
  have users: "payload_users ?st' q = (if q = pk_payload pk then insert p (payload_users st q) else payload_users st q)" for q
    using p by (auto simp: payload_users_def)
  have fresh: "p \<notin> payload_users st q" for q using p by (simp add: payload_users_def)
  have A: "payload_ok ?st' q pl'" if "ns_payloads ?st' q = Some pl'" for q pl'
  proof (cases "q = pk_payload pk")
    case True
    then have "pl' = pl\<lparr>pl_referenceCount := pl_referenceCount pl + 1\<rparr>" using that by simp
    then show ?thesis using plok small fresh finite_payload_users [OF ok] True
      by (simp add: payload_ok_def users word_inc_unat)
  next
    case False
    then show ?thesis using that net_okD(2) [OF ok] by (simp add: payload_ok_def users)
  qed
  have B: "packet_ok ?st' pk'" if "ns_packets ?st' p' = Some pk'" for p' pk'
    using that pk pl net_okD(1) [OF ok] by (auto simp: packet_ok_def split: if_splits)
  have "pk_payload pk \<noteq> NULL" using pl ok unfolding net_ok_def by (metis option.distinct(1))
  then show ?thesis unfolding net_ok_def using ok p A B by (simp add: net_ok_def)
qed

text \<open>The store after a packet is freed.\<close>

definition payload_drop :: "net_store \<Rightarrow> gpointer \<Rightarrow> gpointer \<rightharpoonup> payload" where
  "payload_drop st q =
     (case ns_payloads st q of
        None \<Rightarrow> ns_payloads st
      | Some pl \<Rightarrow> (ns_payloads st)(q := if pl_referenceCount pl = 1 then None
                                      else Some (pl\<lparr>pl_referenceCount := pl_referenceCount pl - 1\<rparr>)))"

lemma packet_free_eq:
  assumes ok: "net_ok st" and p: "ns_packets st p = Some pk0"
    and pk: "pk_payload pk = pk_payload pk0" "header_ok (pk_protocol pk) (pk_header pk)"
  shows "packet_free st p pk =
     Some \<lparr>ns_packets = (ns_packets st)(p := None), ns_payloads = payload_drop st (pk_payload pk0)\<rparr>"
proof -
  have h: "pk_protocol pk = PTCP \<longrightarrow> pk_header pk \<noteq> None" using pk(2) by (cases "pk_header pk") auto
  show ?thesis
  proof (cases "pk_payload pk0 = NULL")
    case True
    moreover have "ns_payloads st NULL = None" using ok by (simp add: net_ok_def)
    ultimately show ?thesis using h pk by (simp add: packet_free_def payload_drop_def)
  next
    case False
    obtain pl where "ns_payloads st (pk_payload pk0) = Some pl"
      "payload_get st (pk_payload pk0) = Some pl" using packet_payload_live [OF ok p False] .
    then show ?thesis using h pk False
      by (simp add: packet_free_def payload_drop_def payload_unref_def payload_put_def Let_def)
  qed
qed

lemma net_ok_free:
  assumes ok: "net_ok st" and p: "ns_packets st p = Some pk"
  shows "net_ok \<lparr>ns_packets = (ns_packets st)(p := None), ns_payloads = payload_drop st (pk_payload pk)\<rparr>"
    (is "net_ok ?st'")
proof -
  let ?q = "pk_payload pk"
  have users: "payload_users ?st' q = payload_users st q - {p}" for q
    by (auto simp: payload_users_def)
  have pl_ok: "payload_ok st q pl" if "ns_payloads st q = Some pl" for q pl using net_okD(2) [OF ok that] .
  have A: "payload_ok ?st' q pl'" if q: "ns_payloads ?st' q = Some pl'" for q pl'
  proof (cases "q = ?q \<and> ns_payloads st q \<noteq> None")
    case True
    then obtain pl where pl: "ns_payloads st q = Some pl" by blast
    have pl': "pl' = pl\<lparr>pl_referenceCount := pl_referenceCount pl - 1\<rparr>" "pl_referenceCount pl \<noteq> 1"
      using q True pl by (auto simp: payload_drop_def split: if_splits)
    have inp: "p \<in> payload_users st q" using p True by (simp add: in_payload_users)
    have c: "unat (pl_referenceCount pl) = card (payload_users st q)" using pl_ok [OF pl] by (simp add: payload_ok_def)
    have "card (payload_users st q) \<noteq> 1" using pl'(2) c by (metis unat_1 word_unat_eq_iff)
    then have ne: "payload_users st q - {p} \<noteq> {}" using inp by (metis card_1_singleton_iff insert_Diff_single insert_absorb One_nat_def)
    have "0 < card (payload_users st q)" using inp finite_payload_users [OF ok] by (auto simp: card_gt_0_iff)
    then have "pl_referenceCount pl \<noteq> 0" using c by auto
    then show ?thesis using pl' pl_ok [OF pl] inp ne finite_payload_users [OF ok]
      by (simp add: payload_ok_def users word_dec_unat)
  next
    case False
    then have "ns_payloads st q = Some pl'"
      using q by (auto simp: payload_drop_def split: option.splits if_splits)
    moreover from this have "q \<noteq> ?q" using False by blast
    then have "p \<notin> payload_users st q" using p by (simp add: in_payload_users)
    ultimately show ?thesis using pl_ok by (simp add: payload_ok_def users)
  qed
  have B: "packet_ok ?st' pk'" if p': "ns_packets ?st' p' = Some pk'" for p' pk'
  proof -
    have live: "ns_packets st p' = Some pk'" "p' \<noteq> p" using p' by (auto split: if_splits)
    have "ns_payloads ?st' (pk_payload pk') \<noteq> None" if np: "pk_payload pk' \<noteq> NULL"
    proof -
      obtain pl where pl: "ns_payloads st (pk_payload pk') = Some pl"
        using packet_payload_live [OF ok live(1) np] .
      show ?thesis
      proof (cases "pk_payload pk' = ?q")
        case True
        then have "{p, p'} \<subseteq> payload_users st ?q" using p live by (simp add: in_payload_users)
        then have "card {p, p'} \<le> unat (pl_referenceCount pl)"
          using pl_ok [OF pl] True card_mono [OF finite_payload_users [OF ok]] by (simp add: payload_ok_def)
        then have "pl_referenceCount pl \<noteq> 1" using live(2) by auto
        then show ?thesis using pl True by (simp add: payload_drop_def)
      qed (use pl in \<open>auto simp: payload_drop_def split: option.splits\<close>)
    qed
    then show ?thesis using net_okD(1) [OF ok live(1)] by (simp add: packet_ok_def)
  qed
  show ?thesis unfolding net_ok_def using ok A B
    by (auto simp: net_ok_def payload_drop_def split: option.splits)
qed

lemma packet_ref_ok:
  assumes "net_ok st" and "ns_packets st p = Some pk" and "unat (pk_referenceCount pk) + 1 < 2 ^ 32"
  shows "packet_ref st p = Some (packet_put st p (pk\<lparr>pk_referenceCount := pk_referenceCount pk + 1\<rparr>))"
    and "net_ok (packet_put st p (pk\<lparr>pk_referenceCount := pk_referenceCount pk + 1\<rparr>))"
proof -
  show "packet_ref st p = Some (packet_put st p (pk\<lparr>pk_referenceCount := pk_referenceCount pk + 1\<rparr>))"
    using assms(2) by (simp add: packet_ref_def)
  have "pk_referenceCount pk + 1 \<noteq> 0" using word_inc_unat [OF assms(3)] by auto
  then show "net_ok (packet_put st p (pk\<lparr>pk_referenceCount := pk_referenceCount pk + 1\<rparr>))"
    using assms(1,2) net_okD(1) [OF assms(1,2)] by (intro net_ok_put) (simp_all add: packet_ok_def)
qed

lemma packet_unref_keep:
  assumes "net_ok st" and "ns_packets st p = Some pk" and "pk_referenceCount pk \<noteq> 1"
  shows "packet_unref tracing st p = Some (packet_put st p (pk\<lparr>pk_referenceCount := pk_referenceCount pk - 1\<rparr>))"
    and "net_ok (packet_put st p (pk\<lparr>pk_referenceCount := pk_referenceCount pk - 1\<rparr>))"
proof -
  have "pk_referenceCount pk - 1 \<noteq> 0" using assms(3) by simp
  then show "packet_unref tracing st p = Some (packet_put st p (pk\<lparr>pk_referenceCount := pk_referenceCount pk - 1\<rparr>))"
    "net_ok (packet_put st p (pk\<lparr>pk_referenceCount := pk_referenceCount pk - 1\<rparr>))"
    using assms(1,2) net_okD(1) [OF assms(1,2)]
    by (simp_all add: packet_unref_def Let_def) (intro net_ok_put, simp_all add: packet_ok_def)
qed

lemma packet_unref_last:
  assumes ok: "net_ok st" and p: "ns_packets st p = Some pk" and one: "pk_referenceCount pk = 1"
    and pr: "printable tracing pk"
  shows "packet_unref tracing st p =
     Some \<lparr>ns_packets = (ns_packets st)(p := None), ns_payloads = payload_drop st (pk_payload pk)\<rparr>"
proof -
  define pk' where "pk' = pk\<lparr>pk_referenceCount := 0\<rparr>"
  define pk'' where "pk'' = add_status tracing PDS_DESTROYED pk'"
  have h: "header_ok (pk_protocol pk) (pk_header pk)" using net_okD(1) [OF ok p] by (simp add: packet_ok_def)
  have pk': "payload_readable st pk'" "header_ok (pk_protocol pk') (pk_header pk')" "printable tracing pk'"
    using payload_readable_ok [OF ok p] h pr by (simp_all add: pk'_def payload_readable_def printable_def)
  then have s: "packet_addDeliveryStatus tracing (packet_put st p pk') p PDS_DESTROYED = Some (packet_put st p pk'')"
    unfolding pk''_def using packet_addDeliveryStatus_raw [of "packet_put st p pk'" pk'] by simp
  have same: "packet_free (packet_put st p x) p x = packet_free st p x" for x
    by (cases "ns_payloads st (pk_payload x)")
      (simp_all add: packet_free_def payload_unref_def payload_get_def payload_put_def packet_put_def Let_def)
  have "packet_free st p pk'' =
      Some \<lparr>ns_packets = (ns_packets st)(p := None), ns_payloads = payload_drop st (pk_payload pk)\<rparr>"
    by (rule packet_free_eq [OF ok p]) (use h in \<open>simp_all add: pk''_def pk'_def\<close>)
  then show ?thesis using p one s same by (simp add: packet_unref_def Let_def pk'_def)
qed

lemma payload_drop_ok:
  "net_ok st \<Longrightarrow> ns_packets st p = Some pk \<Longrightarrow> q \<noteq> pk_payload pk \<Longrightarrow>
   payload_drop st (pk_payload pk) q = ns_payloads st q"
  by (simp add: payload_drop_def split: option.split)

lemma packet_unref_ok:
  assumes ok: "net_ok st" and p: "ns_packets st p = Some pk" and pr: "printable tracing pk"
  obtains st' where "packet_unref tracing st p = Some st'" "net_ok st'"
    "\<And>p'. p' \<noteq> p \<Longrightarrow> ns_packets st' p' = ns_packets st p'"
    "ns_packets st' p = (if pk_referenceCount pk = 1 then None
                         else Some (pk\<lparr>pk_referenceCount := pk_referenceCount pk - 1\<rparr>))"
    "\<And>q pl'. ns_payloads st' q = Some pl' \<Longrightarrow>
        \<exists>pl. ns_payloads st q = Some pl \<and> pl_data pl' = pl_data pl \<and> pl_length pl' = pl_length pl"
proof (cases "pk_referenceCount pk = 1")
  case True
  let ?st' = "\<lparr>ns_packets = (ns_packets st)(p := None), ns_payloads = payload_drop st (pk_payload pk)\<rparr>"
  have "\<exists>pl. ns_payloads st q = Some pl \<and> pl_data pl' = pl_data pl \<and> pl_length pl' = pl_length pl"
    if "ns_payloads ?st' q = Some pl'" for q pl'
    using that by (auto simp: payload_drop_def split: option.splits if_splits)
  then show ?thesis
    using that [of ?st'] packet_unref_last [OF ok p True pr] net_ok_free [OF ok p] True by simp
next
  case False
  then show ?thesis using that [OF packet_unref_keep [OF ok p False]] by simp
qed

lemma packet_copy_eq:
  assumes ok: "net_ok st" and p: "ns_packets st p = Some pk"
  shows "packet_copy st p copy =
     Some (packet_put
       (case ns_payloads st (pk_payload pk) of None \<Rightarrow> st
        | Some pl \<Rightarrow> payload_put st (pk_payload pk) (pl\<lparr>pl_referenceCount := pl_referenceCount pl + 1\<rparr>))
       copy (pk\<lparr>pk_referenceCount := 1, pk_priority := if pk_payload pk \<noteq> NULL then pk_priority pk else 0\<rparr>))"
proof -
  have h: "pk_header pk \<noteq> None \<longrightarrow> pk_protocol pk \<noteq> PNONE"
    using net_okD(1) [OF ok p] by (cases "pk_header pk") (auto simp: packet_ok_def)
  show ?thesis
  proof (cases "pk_payload pk = NULL")
    case True
    then show ?thesis using ok p h by (simp add: packet_copy_def net_ok_def)
  next
    case False
    obtain pl where "ns_payloads st (pk_payload pk) = Some pl" "payload_get st (pk_payload pk) = Some pl"
      using packet_payload_live [OF ok p False] .
    then show ?thesis using p h False by (simp add: packet_copy_def payload_ref_def)
  qed
qed

definition share_room :: "net_store \<Rightarrow> packet \<Rightarrow> bool" where
  "share_room st pk \<longleftrightarrow>
     (\<forall>pl. ns_payloads st (pk_payload pk) = Some pl \<longrightarrow> unat (pl_referenceCount pl) + 1 < 2 ^ 32)"

lemma packet_copy_ok:
  assumes ok: "net_ok st" and p: "ns_packets st p = Some pk"
    and c: "ns_packets st copy = None" "copy \<noteq> NULL" and room: "share_room st pk"
    and st': "packet_copy st p copy = Some st'"
  shows "net_ok st'"
proof -
  let ?pk = "pk\<lparr>pk_referenceCount := 1, pk_priority := if pk_payload pk \<noteq> NULL then pk_priority pk else 0\<rparr>"
  have h: "header_ok (pk_protocol pk) (pk_header pk)" using net_okD(1) [OF ok p] by (simp add: packet_ok_def)
  show ?thesis
  proof (cases "ns_payloads st (pk_payload pk)")
    case None
    then have "pk_payload pk = NULL" using net_okD(1) [OF ok p] by (auto simp: packet_ok_def)
    then show ?thesis
      using st' None packet_copy_eq [OF ok p] h net_ok_packet_new [OF ok c, of ?pk] by auto
  next
    case (Some pl)
    then have "st' = packet_put (payload_put st (pk_payload pk) (pl\<lparr>pl_referenceCount := pl_referenceCount pl + 1\<rparr>)) copy ?pk"
      using st' packet_copy_eq [OF ok p] by simp
    then show ?thesis
      using net_ok_share [OF ok c, of ?pk pl] h Some room by (simp add: share_room_def)
  qed
qed

lemma net_ok_attach:
  assumes ok: "net_ok st" and p: "ns_packets st p = Some pk" and pk: "pk_payload pk = NULL"
    and q: "ns_payloads st q = None" "q \<noteq> NULL"
    and pl: "\<not> pl_locked pl" "pl_referenceCount pl = 1" "length (pl_data pl) = unat (pl_length pl)"
  shows "net_ok (packet_put (payload_put st q pl) p (pk\<lparr>pk_payload := q, pk_priority := v\<rparr>))" (is "net_ok ?st'")
proof -
  have none: "payload_users st q = {}"
  proof -
    have False if "p' \<in> payload_users st q" for p'
      using that net_okD(1) [OF ok] q by (force simp: payload_users_def packet_ok_def)
    then show ?thesis by blast
  qed
  have users: "payload_users ?st' q' = (if q' = q then {p} else payload_users st q')" if "q' \<noteq> NULL" for q'
    using that p pk q none by (auto simp: payload_users_def)
  have A: "payload_ok ?st' q' pl'" if "ns_payloads ?st' q' = Some pl'" for q' pl'
  proof -
    have "ns_payloads st NULL = None" using ok by (simp add: net_ok_def)
    then have n0: "q' \<noteq> NULL" using that q(2) by (cases "q' = NULL") auto
    show ?thesis using that pl users [OF n0] net_okD(2) [OF ok, of q' pl']
      by (simp add: payload_ok_def split: if_splits)
  qed
  have B: "packet_ok ?st' pk'" if "ns_packets ?st' p' = Some pk'" for p' pk'
    using that net_okD(1) [OF ok] p by (force simp: packet_ok_def split: if_splits)
  show ?thesis unfolding net_ok_def using ok p q A B net_okD(3) [OF ok p] by (simp add: net_ok_def)
qed

definition read_law :: "(nat \<Rightarrow> byte list option) \<Rightarrow> bool" where
  "read_law readPtr \<longleftrightarrow> (\<forall>n bytes. readPtr n = Some bytes \<longrightarrow> length bytes = n)"

lemma packet_setPayload_ok:
  assumes ok: "net_ok st" and q: "ns_payloads st q = None" "q \<noteq> NULL" and rd: "read_law readPtr"
    and st': "packet_setPayload st p q data len readPtr c = Some (st', c')"
  shows "net_ok st'"
proof -
  obtain pk where p: "ns_packets st p = Some pk" and d: "data \<noteq> NULL" "pk_payload pk = NULL"
    using st' by (auto simp: packet_setPayload_def bind_eq_Some_conv)
  show ?thesis
  proof (cases "len > 0 \<and> readPtr (unat len) = None")
    case True
    then have "st' = packet_put st p (pk\<lparr>pk_payload := NULL, pk_priority := fst (host_getNextPacketPriority c)\<rparr>)"
      using st' p d by (simp add: packet_setPayload_def payload_new_def case_prod_unfold Let_def)
    then show ?thesis using net_ok_put [OF ok p] net_okD(1) [OF ok p] d by (simp add: packet_ok_def)
  next
    case False
    define bytes where "bytes = (if len > 0 then the (readPtr (unat len)) else [])"
    have "length bytes = unat len"
      using False rd by (cases "len = 0") (auto simp: bytes_def read_law_def word_neq_0_conv)
    moreover have "st' = packet_put (payload_put st q
        \<lparr>pl_locked = False, pl_referenceCount = 1, pl_data = bytes, pl_length = len\<rparr>) p
        (pk\<lparr>pk_payload := q, pk_priority := fst (host_getNextPacketPriority c)\<rparr>)"
      using False st' p d
      by (cases "len = 0") (auto simp: packet_setPayload_def payload_new_def bytes_def case_prod_unfold
          word_neq_0_conv Let_def)
    ultimately show ?thesis using net_ok_attach [OF ok p d(2) q] by simp
  qed
qed

section \<open>Histories\<close>

text \<open>
  What the hosts do with packets, one call at a time. A new object is at a fresh address, a packet
  whose last reference goes while tracing has its protocol set, reading the payload from a process
  gives as many bytes as asked for, writing it to the process succeeds, and reference counts stay
  within their 32 bits.
\<close>

inductive net_step :: "bool \<Rightarrow> net_store \<Rightarrow> net_store \<Rightarrow> bool" for tracing where
  new: "ns_packets st p = None \<Longrightarrow> p \<noteq> NULL \<Longrightarrow>
        net_step tracing st (fst (packet_new st p hostID counter))"
| set_payload: "ns_payloads st q = None \<Longrightarrow> q \<noteq> NULL \<Longrightarrow> read_law readPtr \<Longrightarrow>
        packet_setPayload st p q data len readPtr c = Some (st', c') \<Longrightarrow> net_step tracing st st'"
| copy: "ns_packets st p = Some pk \<Longrightarrow> ns_packets st c = None \<Longrightarrow> c \<noteq> NULL \<Longrightarrow> share_room st pk \<Longrightarrow>
        packet_copy st p c = Some st' \<Longrightarrow> net_step tracing st st'"
| ref: "ns_packets st p = Some pk \<Longrightarrow> unat (pk_referenceCount pk) + 1 < 2 ^ 32 \<Longrightarrow>
        packet_ref st p = Some st' \<Longrightarrow> net_step tracing st st'"
| unref: "ns_packets st p = Some pk \<Longrightarrow> printable tracing pk \<Longrightarrow>
        packet_unref tracing st p = Some st' \<Longrightarrow> net_step tracing st st'"
| status: "ns_packets st p = Some pk \<Longrightarrow> printable tracing pk \<Longrightarrow>
        packet_addDeliveryStatus tracing st p s = Some st' \<Longrightarrow> net_step tracing st st'"
| set_priority: "packet_setPriority st p v = Some st' \<Longrightarrow> net_step tracing st st'"
| set_local: "packet_setLocal st p fl sd dd port = Some st' \<Longrightarrow> net_step tracing st st'"
| set_udp: "packet_setUDP st p fl sip sp dip dp = Some st' \<Longrightarrow> net_step tracing st st'"
| set_tcp: "packet_setTCP st p fl sip sp dip dp sq = Some st' \<Longrightarrow> net_step tracing st st'"
| update_tcp: "packet_updateTCP st p a sacks w tv te = Some st' \<Longrightarrow> net_step tracing st st'"
| deliver: "packet_copyPayload st p off len (\<lambda>_. 0) = Some (st', n, bytes) \<Longrightarrow> net_step tracing st st'"

abbreviation net_steps :: "bool \<Rightarrow> net_store \<Rightarrow> net_store \<Rightarrow> bool" where
  "net_steps tracing \<equiv> (net_step tracing)\<^sup>*\<^sup>*"

definition net_empty :: net_store where
  "net_empty = \<lparr>ns_packets = Map.empty, ns_payloads = Map.empty\<rparr>"

lemma net_ok_empty: "net_ok net_empty"
  by (simp add: net_ok_def net_empty_def)

lemmas packet_setter_defs = packet_setPriority_def packet_setLocal_def packet_setUDP_def
  packet_setTCP_def packet_updateTCP_def packet_getTCPHeader_def bind_eq_Some_conv Let_def

text \<open>Giving a packet a header of its protocol, or a priority, keeps the store well-formed.\<close>

lemma net_ok_header:
  assumes "net_ok st" and "ns_packets st p = Some pk"
  shows "header_ok pr h \<Longrightarrow> net_ok (packet_put st p (pk\<lparr>pk_header := h, pk_protocol := pr\<rparr>))"
    and "header_ok (pk_protocol pk) h \<Longrightarrow> net_ok (packet_put st p (pk\<lparr>pk_header := h\<rparr>))"
    and "net_ok (packet_put st p (pk\<lparr>pk_priority := v\<rparr>))"
  using net_okD(1) [OF assms] net_ok_put [OF assms] by (simp_all add: packet_ok_def)

lemma packet_updateTCP_SomeE:
  assumes "packet_updateTCP st p a sacks w tv te = Some st'"
  obtains pk h h' where "ns_packets st p = Some pk" "pk_protocol pk = PTCP" "pk_header pk = Some (HTCP h)"
    "st' = packet_put st p (pk\<lparr>pk_header := Some (HTCP h')\<rparr>)"
proof -
  obtain pk h where h: "ns_packets st p = Some pk" "packet_getTCPHeader st p = Some h"
    using assms unfolding packet_updateTCP_def by (auto simp: bind_eq_Some_conv)
  have t: "pk_protocol pk = PTCP" "pk_header pk = Some (HTCP h)"
    using h by (auto simp: packet_getTCPHeader_def split: option.splits packet_header.splits)
  from assms obtain h' where "st' = packet_put st p (pk\<lparr>pk_header := Some (HTCP h')\<rparr>)"
    unfolding packet_updateTCP_def Let_def h bind.bind_lunit option.inject by blast
  with h(1) t show ?thesis by (rule that)
qed

lemma copyPayload_store:
  "packet_copyPayload st p off len (\<lambda>_. 0) = Some (st', n, bytes) \<Longrightarrow> st' = st"
  by (auto simp: packet_copyPayload_def payload_getData_def bind_eq_Some_conv Let_def split: if_splits)

lemma net_ok_step: "net_step tracing st st' \<Longrightarrow> net_ok st \<Longrightarrow> net_ok st'"
proof (induction rule: net_step.induct)
  case (new st p hostID counter)
  then show ?case by (simp add: packet_new_def host_getNewPacketID_def net_ok_packet_new)
next
  case (set_payload st q readPtr p data len c st' c')
  then show ?case using packet_setPayload_ok by blast
next
  case (copy st p pk c st')
  then show ?case using packet_copy_ok by blast
next
  case (ref st p pk st')
  then show ?case using packet_ref_ok [of st p pk] by simp
next
  case (unref st p pk st')
  then show ?case using packet_unref_ok [of st p pk tracing] by (metis option.inject)
next
  case (status st p pk s st')
  then show ?case using packet_addDeliveryStatus_ok [of st p pk tracing s] by simp
next
  case (set_priority st p v st')
  then show ?case by (auto simp: packet_setter_defs net_ok_header)
next
  case (set_local st p fl sd dd port st')
  then show ?case by (auto simp: packet_setter_defs net_ok_header)
next
  case (set_udp st p fl sip sp dip dp st')
  then show ?case by (auto simp: packet_setter_defs net_ok_header)
next
  case (set_tcp st p fl sip sp dip dp sq st')
  then show ?case by (auto simp: packet_setter_defs net_ok_header)
next
  case (update_tcp st p a sacks w tv te st')
  from update_tcp.hyps show ?case
    by (rule packet_updateTCP_SomeE) (simp add: net_ok_header update_tcp.prems)
next
  case (deliver st p off len st' n bytes)
  then show ?case using copyPayload_store by blast
qed

lemma net_ok_steps: "net_steps tracing st st' \<Longrightarrow> net_ok st \<Longrightarrow> net_ok st'"
  by (induction rule: rtranclp_induct) (simp_all add: net_ok_step)

subsection \<open>A sample store\<close>

text \<open>Packet 1 carries the payload 9 with five bytes and is addressed by UDP; packet 2 is fresh.\<close>

definition sample_read :: "nat \<Rightarrow> byte list option" where
  "sample_read n = Some (map of_nat [0..<n])"

definition sample_new :: "net_store \<Rightarrow> gpointer \<Rightarrow> net_store" where
  "sample_new st p = fst (packet_new st p 7 0)"

definition sample_udp :: "net_store \<Rightarrow> gpointer \<Rightarrow> net_store" where
  "sample_udp st p = the (packet_setUDP st p 0 0x0100000B 80 0x0200000B 443)"

definition sample_store :: net_store where
  "sample_store = sample_udp (sample_new
     (fst (the (packet_setPayload (sample_udp (sample_new net_empty 1) 1) 1 9 4096 5 sample_read 0))) 2) 2"

lemma sample_read_law: "read_law sample_read"
  by (simp add: read_law_def sample_read_def)

lemmas sample_defs = sample_store_def sample_udp_def sample_new_def sample_read_def net_empty_def
  packet_new_def host_getNewPacketID_def packet_setUDP_def packet_setPayload_def payload_new_def
  host_getNextPacketPriority_def payload_put_def packet_put_def round_sig_def Let_def

lemma sample_net_steps: "net_steps tracing net_empty sample_store"
proof -
  let ?s1 = "sample_new net_empty 1"
  let ?s2 = "sample_udp ?s1 1"
  let ?s3 = "fst (the (packet_setPayload ?s2 1 9 4096 5 sample_read 0))"
  let ?s4 = "sample_new ?s3 2"
  have 1: "net_step tracing net_empty ?s1"
    unfolding sample_new_def by (rule net_step.new) (simp_all add: net_empty_def)
  have 2: "net_step tracing ?s1 ?s2"
    by (rule net_step.set_udp [of _ 1 0 "0x0100000B" 80 "0x0200000B" 443]) (simp add: sample_defs)
  have 3: "net_step tracing ?s2 ?s3"
    by (rule net_step.set_payload [where q = 9 and readPtr = sample_read and p = 1 and data = 4096
          and len = 5 and c = 0 and c' = 1]) (simp_all add: sample_read_law, simp_all add: sample_defs)
  have 4: "net_step tracing ?s3 ?s4"
    unfolding sample_new_def by (rule net_step.new) (simp_all add: sample_defs)
  have 5: "net_step tracing ?s4 sample_store"
    unfolding sample_store_def
    by (rule net_step.set_udp [of _ 2 0 "0x0100000B" 80 "0x0200000B" 443]) (simp add: sample_defs)
  show ?thesis using 1 2 3 4 5 by (meson converse_rtranclp_into_rtranclp rtranclp.rtrancl_refl)
qed

section \<open>Properties\<close>


text \<open>Copying a packet and dropping the copy gives back the very same store, so that neither a
  reference nor a byte is gained or lost, whether the packet carries a payload or not.\<close>

lemma packet_copy_unref_roundtrip:
  assumes "net_steps tracing net_empty st"
    and "ns_packets st p = Some pk" and "ns_packets st c = None" and "c \<noteq> NULL"
    and "share_room st pk" and "printable tracing pk"
  shows "do { st' \<leftarrow> packet_copy st p c; packet_unref tracing st' c } = Some st"
proof -
  have ok: "net_ok st" using net_ok_steps [OF assms(1) net_ok_empty] .
  define pk' where "pk' = pk\<lparr>pk_referenceCount := 1,
      pk_priority := if pk_payload pk \<noteq> NULL then pk_priority pk else 0\<rparr>"
  define st' where "st' = packet_put
      (case ns_payloads st (pk_payload pk) of None \<Rightarrow> st
       | Some pl \<Rightarrow> payload_put st (pk_payload pk) (pl\<lparr>pl_referenceCount := pl_referenceCount pl + 1\<rparr>)) c pk'"
  have copy: "packet_copy st p c = Some st'"
    unfolding packet_copy_eq [OF ok assms(2)] st'_def pk'_def ..
  have pks: "ns_packets st' = (ns_packets st)(c \<mapsto> pk')" by (simp add: st'_def split: option.split)
  have "net_ok st'" using packet_copy_ok [OF ok assms(2-5) copy] .
  then have "packet_unref tracing st' c =
     Some \<lparr>ns_packets = (ns_packets st')(c := None), ns_payloads = payload_drop st' (pk_payload pk')\<rparr>"
    by (rule packet_unref_last) (use pks assms(6) in \<open>simp_all add: pk'_def printable_def\<close>)
  moreover have "(ns_packets st')(c := None) = ns_packets st" using pks assms(3) by auto
  moreover have "payload_drop st' (pk_payload pk') = ns_payloads st"
  proof (cases "ns_payloads st (pk_payload pk)")
    case (Some pl)
    have "pl_referenceCount pl \<noteq> 0"
      using net_okD(2) [OF ok Some] finite_payload_users [OF ok] by (auto simp: payload_ok_def)
    then show ?thesis using Some by (auto simp: payload_drop_def st'_def pk'_def fun_upd_idem)
  qed (simp add: payload_drop_def st'_def pk'_def)
  ultimately show ?thesis using copy by simp
qed

lemma payload_getDataShadow_eq:
  assumes "payload_get st q = Some pl" and "offset \<le> pl_length pl" and "length (pl_data pl) = unat (pl_length pl)"
  shows "payload_getDataShadow st q offset n =
     Some (min (pl_length pl - offset) n, take (unat n) (drop (unat offset) (pl_data pl)))"
proof -
  have "unat (min (pl_length pl - offset) n) = min (unat (pl_length pl) - unat offset) (unat n)"
    using assms(2) by (simp add: min_def unat_sub word_le_nat_alt)
  then have "take (unat (min (pl_length pl - offset) n)) (drop (unat offset) (pl_data pl))
             = take (unat n) (drop (unat offset) (pl_data pl))"
    using assms(3) by (simp add: min_def)
  then show ?thesis using assms by (simp add: payload_getDataShadow_def Let_def)
qed

lemma packet_copyPayloadShadow_eq:
  assumes ok: "net_ok st" and p: "ns_packets st p = Some pk"
    and pl: "ns_payloads st (pk_payload pk) = Some pl" and off: "offset \<le> pl_length pl"
  shows "packet_copyPayloadShadow st p offset n =
     Some (ucast (min (pl_length pl - offset) n), take (unat n) (drop (unat offset) (pl_data pl)))"
proof -
  have "pk_payload pk \<noteq> NULL" using ok pl unfolding net_ok_def by (metis option.distinct(1))
  moreover have "length (pl_data pl) = unat (pl_length pl)" using net_okD(2) [OF ok pl] by (simp add: payload_ok_def)
  ultimately show ?thesis
    using p payload_getDataShadow_eq [OF payload_get_ok [OF ok pl] off, of n]
    by (simp add: packet_copyPayloadShadow_def)
qed

lemma packet_setPayload_eq:
  assumes "ns_packets st p = Some pk" and "pk_payload pk = NULL" and "data \<noteq> NULL" and "0 < len"
    and "readPtr (unat len) = Some bytes"
  shows "packet_setPayload st p q data len readPtr c =
     Some (packet_put (payload_put st q
             \<lparr>pl_locked = False, pl_referenceCount = 1, pl_data = bytes, pl_length = len\<rparr>) p
             (pk\<lparr>pk_payload := q, pk_priority := fst (host_getNextPacketPriority c)\<rparr>),
           snd (host_getNextPacketPriority c))"
  using assms by (simp add: packet_setPayload_def payload_new_def case_prod_unfold Let_def)

text \<open>C24: the bytes a sender puts into a packet are the bytes the receiver reads from the copy
  made for it, at every offset, also after the sender has dropped its own packet.\<close>

theorem packet_delivery_roundtrip:
  assumes steps: "net_steps tracing net_empty st" and rd: "read_law readPtr"
    and p: "ns_packets st p = Some pk" "pk_payload pk = NULL" "printable tracing pk"
    and q: "ns_payloads st q = None" "q \<noteq> NULL"
    and c: "ns_packets st c = None" "c \<noteq> NULL"
    and data: "data \<noteq> NULL" "0 < len" "readPtr (unat len) = Some bytes" and off: "offset \<le> len"
  shows "do { (st1, priority) \<leftarrow> packet_setPayload st p q data len readPtr counter;
              st2 \<leftarrow> packet_copy st1 p c;
              st3 \<leftarrow> packet_unref tracing st2 p;
              packet_copyPayloadShadow st3 c offset n }
         = Some (ucast (min (len - offset) n), take (unat n) (drop (unat offset) bytes))"
proof -
  have ok: "net_ok st" using net_ok_steps [OF steps net_ok_empty] .
  define pl where "pl = \<lparr>pl_locked = False, pl_referenceCount = 1, pl_data = bytes, pl_length = len\<rparr>"
  define pk1 where "pk1 = pk\<lparr>pk_payload := q, pk_priority := fst (host_getNextPacketPriority counter)\<rparr>"
  define st1 where "st1 = packet_put (payload_put st q pl) p pk1"
  have s1: "packet_setPayload st p q data len readPtr counter = Some (st1, snd (host_getNextPacketPriority counter))"
    unfolding st1_def pk1_def pl_def by (rule packet_setPayload_eq [where readPtr = readPtr, OF p(1,2) data])
  have ok1: "net_ok st1" using packet_setPayload_ok [OF ok q rd s1] .
  have live1: "ns_packets st1 p = Some pk1" "ns_payloads st1 (pk_payload pk1) = Some pl"
    "ns_packets st1 c = None"
    using p c by (auto simp: st1_def pk1_def)
  have room: "share_room st1 pk1" using live1 by (simp add: share_room_def pl_def)
  obtain st2 where s2: "packet_copy st1 p c = Some st2" using packet_copy_eq [OF ok1 live1(1)] by blast
  have ok2: "net_ok st2" using packet_copy_ok [OF ok1 live1(1,3) c(2) room s2] .
  have pc: "p \<noteq> c" using p c by auto
  have st2: "ns_packets st2 p = Some pk1" "\<exists>pk2. ns_packets st2 c = Some pk2 \<and> pk_payload pk2 = q"
    "ns_payloads st2 q = Some (pl\<lparr>pl_referenceCount := 2\<rparr>)"
    using s2 packet_copy_eq [OF ok1 live1(1)] live1 pc by (auto simp: pk1_def pl_def)
  obtain pk2 where c2: "ns_packets st2 c = Some pk2" "pk_payload pk2 = q" using st2(2) by blast
  have pr1: "printable tracing pk1" using p(3) by (simp add: pk1_def printable_def)
  obtain st3 where s3: "packet_unref tracing st2 p = Some st3" and ok3: "net_ok st3"
    and keep: "ns_packets st3 c = ns_packets st2 c"
    and same: "\<And>q' pl'. ns_payloads st3 q' = Some pl' \<Longrightarrow>
        \<exists>pl. ns_payloads st2 q' = Some pl \<and> pl_data pl' = pl_data pl \<and> pl_length pl' = pl_length pl"
    using packet_unref_ok [OF ok2 st2(1) pr1] pc by metis
  have c3: "ns_packets st3 c = Some pk2" using keep c2 by simp
  obtain pl3 where pl3: "ns_payloads st3 (pk_payload pk2) = Some pl3"
    using packet_payload_live [OF ok3 c3] c2 q(2) by blast
  then have "pl_data pl3 = bytes" "pl_length pl3 = len"
    using same [of q pl3] c2 st2(3) by (auto simp: pl_def)
  then have "packet_copyPayloadShadow st3 c offset n =
      Some (ucast (min (len - offset) n), take (unat n) (drop (unat offset) bytes))"
    using packet_copyPayloadShadow_eq [OF ok3 c3 pl3] off by simp
  then show ?thesis using s1 s2 s3 by simp
qed

text \<open>C25: when writing a payload to the receiving process fails, \<^verbatim>\<open>payload_getData\<close> returns the
  error with the payload still locked: the next attempt to measure, read or copy the payload through
  the packet hangs, and so does dropping the last reference to the packet.\<close>

theorem payload_write_error_blocks:
  assumes "net_steps tracing net_empty st"
    and "ns_packets st p = Some pk" and "pk_payload pk \<noteq> NULL" and "pk_referenceCount pk = 1"
    and "packet_copyPayload st p offset n writePtr = Some (st', err, bytes)" and "err < 0"
    and "unat n < 2 ^ 63"
  shows "packet_getPayloadLength st' p = None \<and> packet_copyPayload st' p offset n writePtr = None \<and>
         packet_copy st' p c = None \<and> packet_unref False st' p = None"
proof -
  have ok: "net_ok st" using net_ok_steps [OF assms(1) net_ok_empty] .
  obtain pl where pl: "payload_get st (pk_payload pk) = Some pl"
    using packet_payload_live [OF ok assms(2,3)] .
  have "unat (min (pl_length pl - offset) n) < 2 ^ 63"
    using assms(7) by (meson le_less_trans min.cobounded2 word_le_nat_alt)
  then have "0 \<le> sint (min (pl_length pl - offset) n)" by (simp add: sint_small)
  then have "st' = payload_put st (pk_payload pk) (pl\<lparr>pl_locked := True\<rparr>)"
    using assms(2,3,5,6) pl by (auto simp: packet_copyPayload_def payload_getData_def Let_def split: if_splits)
  then have g: "payload_get st' (pk_payload pk) = None" and p: "ns_packets st' p = Some pk"
    using assms(2) by (simp_all add: payload_get_def)
  have g': "payload_get (packet_put st' p x) (pk_payload pk) = None" for x
    using g by (simp add: payload_get_def)
  have "packet_unref False st' p = None"
    using p assms(3,4) g' by (simp add: packet_unref_def packet_addDeliveryStatus_def packet_free_def
        payload_unref_def Let_def utility_assert_def)
  then show ?thesis using p g assms(3)
    by (simp add: packet_getPayloadLength_def payload_getLength_def packet_copyPayload_def
        payload_getData_def packet_copy_def payload_ref_def)
qed

lemma sack_loop_run:
  "0 \<le> f \<Longrightarrow> f \<le> l \<Longrightarrow> l \<le> b \<Longrightarrow> sack_loop [l + 1..b] f l = ([], f, b)"
proof (induction "nat (b - l)" arbitrary: l)
  case 0
  then show ?case by simp
next
  case (Suc n)
  then have "[l + 1..b] = (l + 1) # [l + 1 + 1..b]" by (intro upto_rec1) simp
  then show ?case using Suc.hyps(1) [of "l + 1"] Suc.hyps(2) Suc.prems by simp
qed

text \<open>The text of a packet shows selective acknowledgements as ranges, but two separate
  acknowledgements are printed as the whole range between them: the traces cannot tell the two apart.\<close>

lemma sack_string_merges_gaps:
  assumes "0 \<le> a" and "a < b"
  shows "sack_string [a, b] = sack_string [a..b]"
proof -
  have "[a..b] = a # (a + 1) # [a + 1 + 1..b]" using assms(2) by (simp add: upto_rec1)
  then have "sack_loop [a..b] (- 1) (- 1) = ([], a, b)"
    using sack_loop_run [of a "a + 1" b] assms by simp
  moreover have "sack_loop [a, b] (- 1) (- 1) = ([], a, b)" using assms by simp
  ultimately show ?thesis by (simp add: sack_string_def)
qed

section \<open>Witnesses\<close>


text \<open>The packet and the payload of the sample store.\<close>

definition sample_packet :: packet where
  "sample_packet = the (ns_packets sample_store 1)"

lemma sample_live: "ns_packets sample_store 1 = Some sample_packet"
  unfolding sample_packet_def by (simp add: sample_defs)

lemma sample_packet_fields:
  "pk_payload sample_packet = 9" "pk_protocol sample_packet = PUDP" "pk_referenceCount sample_packet = 1"
  by (simp_all add: sample_packet_def sample_defs)

theorem packet_delivery_roundtrip_witness:
  "do { (st1, priority) \<leftarrow> packet_setPayload sample_store 2 10 4096 6 sample_read 1;
        st2 \<leftarrow> packet_copy st1 2 3;
        st3 \<leftarrow> packet_unref True st2 2;
        packet_copyPayloadShadow st3 3 2 3 } = Some (3, [2, 3, 4])"
proof -
  define pk where "pk = the (ns_packets sample_store 2)"
  have p: "ns_packets sample_store 2 = Some pk" "pk_payload pk = NULL" "printable True pk"
    by (simp_all add: pk_def printable_def sample_defs)
  have q: "ns_payloads sample_store 10 = None" "ns_packets sample_store 3 = None" by (simp_all add: sample_defs)
  have r: "sample_read (unat (6 :: u64)) = Some (map of_nat [0..<6])" by (simp add: sample_read_def)
  have b: "take (unat (3 :: u64)) (drop (unat (2 :: u64)) (map of_nat [0..<6])) = ([2, 3, 4] :: byte list)"
    by (simp add: upt_rec)
  have m: "ucast (min (6 - 2) (3 :: u64)) = (3 :: u32)" by simp
  show ?thesis
    using packet_delivery_roundtrip [OF sample_net_steps sample_read_law p q(1) _ q(2) _ _ _ r, of 4096 2 1 3]
    unfolding b m by simp
qed

theorem payload_write_error_blocks_witness:
  "\<exists>st'. packet_copyPayload sample_store 1 0 5 (\<lambda>_. 14) = Some (st', - 14, []) \<and>
         packet_getPayloadLength st' 1 = None \<and> packet_copyPayload st' 1 0 5 (\<lambda>_. 14) = None \<and>
         packet_copy st' 1 3 = None \<and> packet_unref False st' 1 = None"
proof -
  have n: "pk_payload sample_packet \<noteq> NULL" by (simp add: sample_packet_fields)
  obtain st' where "packet_copyPayload sample_store 1 0 5 (\<lambda>_. 14) = Some (st', - 14, [])"
    by (simp add: packet_copyPayload_def sample_live sample_packet_fields payload_getData_def payload_get_def
        sample_defs)
  with payload_write_error_blocks [OF sample_net_steps [of False] sample_live n sample_packet_fields(3) this]
  show ?thesis by auto
qed

end
