(* ===== verification/Router_Queues.thy ===== *)
theory Router_Queues
  imports Packet_Lifecycle
begin

text \<open>
  The queue managers of the upstream router: \<^verbatim>\<open>routing/router_queue_single.c\<close>,
  \<^verbatim>\<open>routing/router_queue_static.c\<close> and \<^verbatim>\<open>routing/router_queue_codel.c\<close>, and the table of
  function pointers (\<^verbatim>\<open>QueueManagerHooks\<close>) through which the router calls them.

  The \<^verbatim>\<open>void*\<close> that the router holds is the type \<open>queue_manager\<close> with one constructor for each
  implementation; a hook applied to the state of another implementation is an abort. \<open>now\<close> is
  \<^verbatim>\<open>worker_getCurrentTime()\<close>. The interface is the locale \<open>queue_hooks_laws\<close>.
\<close>

section \<open>Data\<close>

datatype CoDelMode = CODEL_MODE_STORE | CODEL_MODE_DROP

record codel_entry =
  ce_packet :: gpointer
  ce_enqueueTS :: simtime

record qm_codel =
  qc_entries :: "codel_entry list"
  qc_totalSize :: u64
  qc_mode :: CoDelMode
  qc_intervalExpireTS :: simtime
  qc_nextDropTS :: simtime
  qc_dropCount :: u32
  qc_dropCountLast :: u32

record qm_single =
  qs_currentPacket :: gpointer

record qm_static =
  qt_packets :: "gpointer list"
  qt_totalSize :: u64

datatype queue_manager = QSingle qm_single | QStatic qm_static | QCoDel qm_codel

definition STATIC_PARAM_MAXSIZE :: u64 where "STATIC_PARAM_MAXSIZE = 1024000"
definition CODEL_PARAM_QUEUE_SIZE_LIMIT :: nat where "CODEL_PARAM_QUEUE_SIZE_LIMIT = 2 ^ 32 - 1"
definition CODEL_PARAM_TARGET_DELAY_SIMTIME :: simtime where
  "CODEL_PARAM_TARGET_DELAY_SIMTIME = 10 * SIMTIME_ONE_MILLISECOND"
definition CODEL_PARAM_INTERVAL_SIMTIME :: simtime where
  "CODEL_PARAM_INTERVAL_SIMTIME = 100 * SIMTIME_ONE_MILLISECOND"

text \<open>The length of a packet on the wire is added up in 32 bits, in the code and here.\<close>

definition routerqueue_getPacketLength :: "net_store \<Rightarrow> gpointer \<Rightarrow> u64 option" where
  "routerqueue_getPacketLength st p = do {
     payload \<leftarrow> packet_getPayloadLength st p;
     header \<leftarrow> packet_getHeaderSize st p;
     Some (ucast (payload + header))
   }"

fun unref_all :: "bool \<Rightarrow> net_store \<Rightarrow> gpointer list \<Rightarrow> net_store option" where
  "unref_all tracing st [] = Some st"
| "unref_all tracing st (p # ps) = do { st' \<leftarrow> packet_unref tracing st p; unref_all tracing st' ps }"

section \<open>The single-packet queue\<close>

definition routerqueuesingle_new :: qm_single where
  "routerqueuesingle_new = \<lparr>qs_currentPacket = NULL\<rparr>"

definition routerqueuesingle_free :: "bool \<Rightarrow> net_store \<Rightarrow> qm_single \<Rightarrow> net_store option" where
  "routerqueuesingle_free tracing st q =
     (if qs_currentPacket q \<noteq> NULL then packet_unref tracing st (qs_currentPacket q) else Some st)"

definition routerqueuesingle_enqueue ::
  "net_store \<Rightarrow> qm_single \<Rightarrow> gpointer \<Rightarrow> (qm_single \<times> net_store \<times> bool) option" where
  "routerqueuesingle_enqueue st q packet =
     (if qs_currentPacket q = NULL
      then do { st' \<leftarrow> packet_ref st packet; Some (q\<lparr>qs_currentPacket := packet\<rparr>, st', True) }
      else Some (q, st, False))"

definition routerqueuesingle_dequeue :: "qm_single \<Rightarrow> qm_single \<times> gpointer" where
  "routerqueuesingle_dequeue q = (q\<lparr>qs_currentPacket := NULL\<rparr>, qs_currentPacket q)"

definition routerqueuesingle_peek :: "qm_single \<Rightarrow> gpointer" where
  "routerqueuesingle_peek q = qs_currentPacket q"

section \<open>The static drop-tail queue\<close>

definition routerqueuestatic_new :: qm_static where
  "routerqueuestatic_new = \<lparr>qt_packets = [], qt_totalSize = 0\<rparr>"

definition routerqueuestatic_free :: "bool \<Rightarrow> net_store \<Rightarrow> qm_static \<Rightarrow> net_store option" where
  "routerqueuestatic_free tracing st q = unref_all tracing st (qt_packets q)"

definition routerqueuestatic_enqueue ::
  "net_store \<Rightarrow> qm_static \<Rightarrow> gpointer \<Rightarrow> (qm_static \<times> net_store \<times> bool) option" where
  "routerqueuestatic_enqueue st q packet = do {
     utility_assert (packet \<noteq> NULL);
     length \<leftarrow> routerqueue_getPacketLength st packet;
     if qt_totalSize q + length < STATIC_PARAM_MAXSIZE
     then do {
       st' \<leftarrow> packet_ref st packet;
       Some (q\<lparr>qt_packets := qt_packets q @ [packet], qt_totalSize := qt_totalSize q + length\<rparr>, st', True)
     }
     else Some (q, st, False)
   }"

definition routerqueuestatic_dequeue :: "net_store \<Rightarrow> qm_static \<Rightarrow> (qm_static \<times> gpointer) option" where
  "routerqueuestatic_dequeue st q =
     (case qt_packets q of
        [] \<Rightarrow> Some (q, NULL)
      | packet # rest \<Rightarrow> do {
          length \<leftarrow> routerqueue_getPacketLength st packet;
          utility_assert (length \<le> qt_totalSize q);
          Some (q\<lparr>qt_packets := rest, qt_totalSize := qt_totalSize q - length\<rparr>, packet)
        })"

definition routerqueuestatic_peek :: "qm_static \<Rightarrow> gpointer" where
  "routerqueuestatic_peek q = (case qt_packets q of [] \<Rightarrow> NULL | p # ps \<Rightarrow> p)"

section \<open>CoDel\<close>

definition routerqueuecodel_new :: qm_codel where
  "routerqueuecodel_new = \<lparr>qc_entries = [], qc_totalSize = 0, qc_mode = CODEL_MODE_STORE,
     qc_intervalExpireTS = 0, qc_nextDropTS = 0, qc_dropCount = 0, qc_dropCountLast = 0\<rparr>"

definition routerqueuecodel_free :: "bool \<Rightarrow> net_store \<Rightarrow> qm_codel \<Rightarrow> net_store option" where
  "routerqueuecodel_free tracing st q =
     unref_all tracing st (filter (\<lambda>p. p \<noteq> NULL) (map ce_packet (qc_entries q)))"

definition routerqueuecodel_enqueue ::
  "net_store \<Rightarrow> simtime \<Rightarrow> qm_codel \<Rightarrow> gpointer \<Rightarrow> (qm_codel \<times> net_store \<times> bool) option" where
  "routerqueuecodel_enqueue st now q packet = do {
     utility_assert (packet \<noteq> NULL);
     if length (qc_entries q) < CODEL_PARAM_QUEUE_SIZE_LIMIT
     then do {
       st' \<leftarrow> packet_ref st packet;
       let entry = \<lparr>ce_packet = packet, ce_enqueueTS = now\<rparr>;
       length \<leftarrow> routerqueue_getPacketLength st' packet;
       Some (q\<lparr>qc_entries := qc_entries q @ [entry], qc_totalSize := qc_totalSize q + length\<rparr>, st', True)
     }
     else Some (q, st, False)
   }"

definition routerqueuecodel_drop :: "bool \<Rightarrow> net_store \<Rightarrow> gpointer \<Rightarrow> net_store option" where
  "routerqueuecodel_drop tracing st packet = do {
     st1 \<leftarrow> packet_addDeliveryStatus tracing st packet PDS_ROUTER_DROPPED;
     (pString, st2) \<leftarrow> packet_toString st1 packet;
     packet_unref tracing st2 packet
   }"

text \<open>The result also carries the value stored through \<^verbatim>\<open>okToDrop\<close>.\<close>

definition routerqueuecodel_dequeueHelper ::
  "net_store \<Rightarrow> qm_codel \<Rightarrow> simtime \<Rightarrow> (qm_codel \<times> gpointer \<times> bool) option" where
  "routerqueuecodel_dequeueHelper st q now =
     (case qc_entries q of
        [] \<Rightarrow> Some (q\<lparr>qc_intervalExpireTS := 0\<rparr>, NULL, False)
      | entry # rest \<Rightarrow>
          let packet = ce_packet entry; ts = ce_enqueueTS entry; q1 = q\<lparr>qc_entries := rest\<rparr>
          in if packet = NULL then Some (q1\<lparr>qc_intervalExpireTS := 0\<rparr>, NULL, False)
             else do {
               length \<leftarrow> routerqueue_getPacketLength st packet;
               utility_assert (length \<le> qc_totalSize q1);
               let q2 = q1\<lparr>qc_totalSize := qc_totalSize q1 - length\<rparr>;
               utility_assert (now \<ge> ts);
               let sojournTime = now - ts;
               Some (if sojournTime < CODEL_PARAM_TARGET_DELAY_SIMTIME \<or> qc_totalSize q2 < CONFIG_MTU
                     then (q2\<lparr>qc_intervalExpireTS := 0\<rparr>, packet, False)
                     else if qc_intervalExpireTS q2 = 0
                     then (q2\<lparr>qc_intervalExpireTS := now + CODEL_PARAM_INTERVAL_SIMTIME\<rparr>, packet, False)
                     else (q2, packet, now \<ge> qc_intervalExpireTS q2))
             })"

text \<open>
  The control law computes with doubles: the time rounded to a double, the correctly rounded square
  root of the count, their correctly rounded quotient, rounded to the nearest integer with halves
  away from zero. A quotient by zero or a result that does not fit 64 bits has no defined
  conversion to an integer: \<open>None\<close>.
\<close>

definition routerqueuecodel_controlLaw :: "u32 \<Rightarrow> simtime \<Rightarrow> simtime option" where
  "routerqueuecodel_controlLaw n ts =
     (let newTS = ts + CODEL_PARAM_INTERVAL_SIMTIME;
          (rootNum, rootDen) = double_sqrt (unat n);
          (num, den) = double_div (round_sig (unat newTS) False * rootDen) rootNum;
          rounded = (2 * num + den) div (2 * den)
      in if rootNum = 0 \<or> rounded \<ge> 2 ^ 64 then None else Some (of_nat rounded))"

lemma dequeueHelper_entries:
  assumes "routerqueuecodel_dequeueHelper st q now = Some (q', packet, ok)"
  shows "qc_entries q' = tl (qc_entries q)" and "ok \<Longrightarrow> qc_entries q \<noteq> []" and "qc_mode q' = qc_mode q"
  using assms unfolding routerqueuecodel_dequeueHelper_def
  by (auto split: list.splits if_splits simp: Let_def bind_eq_Some_conv)

function (sequential) codel_dropLoop ::
  "bool \<Rightarrow> simtime \<Rightarrow> net_store \<Rightarrow> qm_codel \<Rightarrow> gpointer \<Rightarrow> (qm_codel \<times> net_store \<times> gpointer) option" where
  "codel_dropLoop tracing now st q packet =
     (if now \<ge> qc_nextDropTS q \<and> qc_mode q = CODEL_MODE_DROP
      then (case routerqueuecodel_drop tracing st packet of
              None \<Rightarrow> None
            | Some st' \<Rightarrow>
                (case routerqueuecodel_dequeueHelper st' (q\<lparr>qc_dropCount := qc_dropCount q + 1\<rparr>) now of
                   None \<Rightarrow> None
                 | Some (q1, packet', okToDrop) \<Rightarrow>
                     (if okToDrop
                      then (case routerqueuecodel_controlLaw (qc_dropCount q1) (qc_nextDropTS q1) of
                              None \<Rightarrow> None
                            | Some ts \<Rightarrow> codel_dropLoop tracing now st' (q1\<lparr>qc_nextDropTS := ts\<rparr>) packet')
                      else codel_dropLoop tracing now st' (q1\<lparr>qc_mode := CODEL_MODE_STORE\<rparr>) packet')))
      else Some (q, st, packet))"
  by pat_completeness auto
termination
proof (relation "measure (\<lambda>(tracing, now, st, q, packet).
    length (qc_entries q) + (if qc_mode q = CODEL_MODE_DROP then 1 else 0))", goal_cases)
  case (2 tracing now st q packet st' x q1 y packet' okToDrop ts)
  then have e: "qc_entries q1 = tl (qc_entries q)" "qc_entries q \<noteq> []"
    using dequeueHelper_entries(1,2) [of st' _ now q1 packet' okToDrop] by force+
  then show ?case using 2 by (cases "qc_entries q") auto
next
  case (3 tracing now st q packet st' x q1 y packet' okToDrop)
  then have "qc_entries q1 = tl (qc_entries q)"
    using dequeueHelper_entries(1) [of st' _ now q1 packet' okToDrop] by force
  then show ?case using 3 by simp
qed simp

declare codel_dropLoop.simps [simp del]

definition routerqueuecodel_dequeue ::
  "bool \<Rightarrow> net_store \<Rightarrow> simtime \<Rightarrow> qm_codel \<Rightarrow> (qm_codel \<times> net_store \<times> gpointer) option" where
  "routerqueuecodel_dequeue tracing st now q = do {
     (q1, packet, okToDrop) \<leftarrow> routerqueuecodel_dequeueHelper st q now;
     if packet = NULL then Some (q1\<lparr>qc_mode := CODEL_MODE_STORE\<rparr>, st, packet)
     else if qc_mode q1 = CODEL_MODE_DROP
     then codel_dropLoop tracing now st (if okToDrop then q1 else q1\<lparr>qc_mode := CODEL_MODE_STORE\<rparr>) packet
     else if okToDrop then do {
       st1 \<leftarrow> routerqueuecodel_drop tracing st packet;
       (q2, packet', okToDrop') \<leftarrow> routerqueuecodel_dequeueHelper st1 q1 now;
       let q3 = q2\<lparr>qc_mode := CODEL_MODE_DROP\<rparr>;
       let delta = qc_dropCount q3 - qc_dropCountLast q3;
       let q4 = q3\<lparr>qc_dropCount := 1\<rparr>;
       let droppingRecently = (now < qc_nextDropTS q4 + 16 * CODEL_PARAM_INTERVAL_SIMTIME);
       let q5 = (if droppingRecently \<and> delta > 1 then q4\<lparr>qc_dropCount := delta\<rparr> else q4);
       ts \<leftarrow> routerqueuecodel_controlLaw (qc_dropCount q5) now;
       Some (q5\<lparr>qc_nextDropTS := ts, qc_dropCountLast := qc_dropCount q5\<rparr>, st1, packet')
     }
     else Some (q1, st, packet)
   }"

definition routerqueuecodel_peek :: "qm_codel \<Rightarrow> gpointer" where
  "routerqueuecodel_peek q = (case qc_entries q of [] \<Rightarrow> NULL | e # es \<Rightarrow> ce_packet e)"

section \<open>The hooks\<close>

record queue_hooks =
  qh_new :: queue_manager
  qh_free :: "bool \<Rightarrow> net_store \<Rightarrow> queue_manager \<Rightarrow> net_store option"
  qh_enqueue :: "net_store \<Rightarrow> simtime \<Rightarrow> queue_manager \<Rightarrow> gpointer \<Rightarrow> (queue_manager \<times> net_store \<times> bool) option"
  qh_dequeue :: "bool \<Rightarrow> net_store \<Rightarrow> simtime \<Rightarrow> queue_manager \<Rightarrow> (queue_manager \<times> net_store \<times> gpointer) option"
  qh_peek :: "queue_manager \<Rightarrow> gpointer option"

definition routerqueuesingle_getHooks :: queue_hooks where
  "routerqueuesingle_getHooks =
     \<lparr>qh_new = QSingle routerqueuesingle_new,
      qh_free = (\<lambda>tracing st m. case m of QSingle q \<Rightarrow> routerqueuesingle_free tracing st q | _ \<Rightarrow> None),
      qh_enqueue = (\<lambda>st now m p. case m of
          QSingle q \<Rightarrow> map_option (map_prod QSingle id) (routerqueuesingle_enqueue st q p) | _ \<Rightarrow> None),
      qh_dequeue = (\<lambda>tracing st now m. case m of
          QSingle q \<Rightarrow> (let (q', p) = routerqueuesingle_dequeue q in Some (QSingle q', st, p)) | _ \<Rightarrow> None),
      qh_peek = (\<lambda>m. case m of QSingle q \<Rightarrow> Some (routerqueuesingle_peek q) | _ \<Rightarrow> None)\<rparr>"

definition routerqueuestatic_getHooks :: queue_hooks where
  "routerqueuestatic_getHooks =
     \<lparr>qh_new = QStatic routerqueuestatic_new,
      qh_free = (\<lambda>tracing st m. case m of QStatic q \<Rightarrow> routerqueuestatic_free tracing st q | _ \<Rightarrow> None),
      qh_enqueue = (\<lambda>st now m p. case m of
          QStatic q \<Rightarrow> map_option (map_prod QStatic id) (routerqueuestatic_enqueue st q p) | _ \<Rightarrow> None),
      qh_dequeue = (\<lambda>tracing st now m. case m of
          QStatic q \<Rightarrow> map_option (\<lambda>(q', p). (QStatic q', st, p)) (routerqueuestatic_dequeue st q) | _ \<Rightarrow> None),
      qh_peek = (\<lambda>m. case m of QStatic q \<Rightarrow> Some (routerqueuestatic_peek q) | _ \<Rightarrow> None)\<rparr>"

definition routerqueuecodel_getHooks :: queue_hooks where
  "routerqueuecodel_getHooks =
     \<lparr>qh_new = QCoDel routerqueuecodel_new,
      qh_free = (\<lambda>tracing st m. case m of QCoDel q \<Rightarrow> routerqueuecodel_free tracing st q | _ \<Rightarrow> None),
      qh_enqueue = (\<lambda>st now m p. case m of
          QCoDel q \<Rightarrow> map_option (map_prod QCoDel id) (routerqueuecodel_enqueue st now q p) | _ \<Rightarrow> None),
      qh_dequeue = (\<lambda>tracing st now m. case m of
          QCoDel q \<Rightarrow> map_option (map_prod QCoDel id) (routerqueuecodel_dequeue tracing st now q) | _ \<Rightarrow> None),
      qh_peek = (\<lambda>m. case m of QCoDel q \<Rightarrow> Some (routerqueuecodel_peek q) | _ \<Rightarrow> None)\<rparr>"

section \<open>The interface\<close>

text \<open>
  \<open>qm_contents\<close> is the abstract state, the packets in the queue in order of arrival. The queue holds
  one reference for each of them (\<open>held\<close>).
\<close>

fun qm_contents :: "queue_manager \<Rightarrow> gpointer list" where
  "qm_contents (QSingle q) = (if qs_currentPacket q = NULL then [] else [qs_currentPacket q])"
| "qm_contents (QStatic q) = qt_packets q"
| "qm_contents (QCoDel q) = map ce_packet (qc_entries q)"

definition held :: "net_store \<Rightarrow> gpointer list \<Rightarrow> bool" where
  "held st ps \<longleftrightarrow> (\<forall>p \<in> set ps. \<exists>pk. ns_packets st p = Some pk \<and> pk_protocol pk \<noteq> PNONE \<and>
                     count_list ps p \<le> unat (pk_referenceCount pk))"

fun drop_all :: "bool \<Rightarrow> net_store \<Rightarrow> gpointer list \<Rightarrow> net_store option" where
  "drop_all tracing st [] = Some st"
| "drop_all tracing st (p # ps) = do { st' \<leftarrow> routerqueuecodel_drop tracing st p; drop_all tracing st' ps }"

definition time_ok :: "simtime \<Rightarrow> bool" where
  "time_ok now \<longleftrightarrow> unat now + 100000000 < 2 ^ 62"

definition routable :: "net_store \<Rightarrow> gpointer \<Rightarrow> bool" where
  "routable st p \<longleftrightarrow> (\<exists>pk. ns_packets st p = Some pk \<and> pk_protocol pk \<noteq> PNONE \<and>
                         unat (pk_referenceCount pk) + 1 < 2 ^ 32)"

text \<open>The drop counter of CoDel cannot wrap while \<open>k\<close> more packets pass through the queue.\<close>

definition codel_bound :: "nat \<Rightarrow> qm_codel \<Rightarrow> bool" where
  "codel_bound k q \<longleftrightarrow> unat (qc_dropCount q) + length (qc_entries q) + k < 2 ^ 32 - 1"

fun qm_room :: "queue_manager \<Rightarrow> bool" where
  "qm_room (QCoDel q) \<longleftrightarrow> codel_bound 1 q"
| "qm_room _ \<longleftrightarrow> True"

text \<open>What the router relies on. \<open>sound\<close> is the invariant of the queue at a time and in a store.\<close>

locale queue_hooks_laws =
  fixes tracing :: bool and hooks :: queue_hooks
    and sound :: "net_store \<Rightarrow> simtime \<Rightarrow> queue_manager \<Rightarrow> bool"
  assumes new_sound: "net_ok st \<Longrightarrow> time_ok now \<Longrightarrow> sound st now (qh_new hooks)"
    and new_contents: "qm_contents (qh_new hooks) = []"
    and sound_held: "sound st now m \<Longrightarrow> net_ok st \<and> held st (qm_contents m)"
    and frame: "sound st now m \<Longrightarrow> net_ok st' \<Longrightarrow> held st' (qm_contents m) \<Longrightarrow> now \<le> now' \<Longrightarrow> time_ok now' \<Longrightarrow>
      (\<And>p. p \<in> set (qm_contents m) \<Longrightarrow> routerqueue_getPacketLength st' p = routerqueue_getPacketLength st p) \<Longrightarrow>
      sound st' now' m"
    and enqueue_law: "sound st now m \<Longrightarrow> qm_room m \<Longrightarrow> routable st p \<Longrightarrow>
      \<exists>m' st' queued. qh_enqueue hooks st now m p = Some (m', st', queued) \<and> sound st' now m' \<and>
        (if queued then qm_contents m' = qm_contents m @ [p] \<and> packet_ref st p = Some st'
         else m' = m \<and> st' = st)"
    and dequeue_law: "sound st now m \<Longrightarrow>
      \<exists>m' st' p dropped. qh_dequeue hooks tracing st now m = Some (m', st', p) \<and> sound st' now m' \<and>
        qm_contents m = dropped @ (if p = NULL then [] else p # qm_contents m') \<and>
        (p = NULL \<longrightarrow> qm_contents m' = []) \<and> drop_all tracing st dropped = Some st' \<and>
        (p \<noteq> NULL \<longrightarrow> held st' (p # qm_contents m'))"
    and peek_law: "sound st now m \<Longrightarrow>
      qh_peek hooks m = Some (case qm_contents m of [] \<Rightarrow> NULL | p # ps \<Rightarrow> p)"
    and free_law: "sound st now m \<Longrightarrow> qh_free hooks tracing st m = unref_all tracing st (qm_contents m)"

end
