(* ===== verification/Router_Queue_Laws.thy ===== *)
theory Router_Queue_Laws
  imports Router_Queues
begin

text \<open>
  The packets in a queue stay alive and keep their length while other packets are referenced,
  dropped or freed; with that, the single-packet and the static queue obey the laws of the interface.
\<close>

section \<open>Lengths\<close>

lemma getPacketLength_cong:
  assumes "ns_packets st p = Some pk" and "ns_packets st' p = Some pk'"
    and "pk_payload pk' = pk_payload pk" and "pk_protocol pk' = pk_protocol pk"
    and len: "pk_payload pk \<noteq> NULL \<Longrightarrow>
      map_option pl_length (payload_get st' (pk_payload pk)) = map_option pl_length (payload_get st (pk_payload pk))"
  shows "routerqueue_getPacketLength st' p = routerqueue_getPacketLength st p"
proof (cases "pk_payload pk = NULL")
  case True
  then show ?thesis using assms(1-4)
    by (simp add: routerqueue_getPacketLength_def packet_getPayloadLength_def packet_getHeaderSize_def)
next
  case False
  show ?thesis using assms(1-4) len [OF False]
    by (cases "payload_get st (pk_payload pk)"; cases "payload_get st' (pk_payload pk)")
      (simp_all add: routerqueue_getPacketLength_def packet_getPayloadLength_def
        packet_getHeaderSize_def payload_getLength_def)
qed

lemma getPacketLength_ok:
  assumes "net_ok st" and "ns_packets st p = Some pk"
  obtains n where "routerqueue_getPacketLength st p = Some n" "unat n < 2 ^ 32"
proof -
  obtain a where "packet_getPayloadLength st p = Some a"
    using packet_getPayloadLength_ok [OF payload_readable_ok [OF assms] assms(2)] by blast
  moreover obtain b where "packet_getHeaderSize st p = Some b"
    using assms(2) by (simp add: packet_getHeaderSize_def)
  ultimately have "routerqueue_getPacketLength st p = Some (ucast (a + b))"
    by (simp add: routerqueue_getPacketLength_def)
  moreover have "unat (ucast (a + b) :: u64) < 2 ^ 32"
    using unsigned_less [of "a + b", where 'a = nat]
    by (simp add: unsigned_ucast_eq le_less_trans [OF take_bit_nat_less_eq_self])
  ultimately show ?thesis by (rule that)
qed

lemma packet_put_length:
  assumes "ns_packets st p = Some pk" and "pk_payload pk' = pk_payload pk" and "pk_protocol pk' = pk_protocol pk"
  shows "routerqueue_getPacketLength (packet_put st p pk') p' = routerqueue_getPacketLength st p'"
proof (cases "ns_packets st p'")
  case None
  then have "p' \<noteq> p" using assms by auto
  then show ?thesis using None by (simp add: routerqueue_getPacketLength_def packet_getPayloadLength_def)
next
  case (Some x)
  then show ?thesis
    by (rule getPacketLength_cong [where pk' = "if p' = p then pk' else x"])
      (use Some assms in \<open>auto simp: payload_get_def\<close>)
qed

lemma packet_ref_length:
  "packet_ref st p = Some st' \<Longrightarrow> routerqueue_getPacketLength st' p' = routerqueue_getPacketLength st p'"
  unfolding packet_ref_def by (auto simp: bind_eq_Some_conv packet_put_length)

lemma packet_unref_length:
  assumes ok: "net_ok st" and p: "ns_packets st p = Some pk" "printable tracing pk"
    and un: "packet_unref tracing st p = Some st'" and live: "ns_packets st' p' = Some pk'"
  shows "routerqueue_getPacketLength st' p' = routerqueue_getPacketLength st p'"
proof -
  obtain st'' where st'': "packet_unref tracing st p = Some st''" "net_ok st''"
    "\<And>p'. p' \<noteq> p \<Longrightarrow> ns_packets st'' p' = ns_packets st p'"
    "ns_packets st'' p = (if pk_referenceCount pk = 1 then None
                         else Some (pk\<lparr>pk_referenceCount := pk_referenceCount pk - 1\<rparr>))"
    "\<And>q pl'. ns_payloads st'' q = Some pl' \<Longrightarrow>
        \<exists>pl. ns_payloads st q = Some pl \<and> pl_data pl' = pl_data pl \<and> pl_length pl' = pl_length pl"
    using packet_unref_ok [OF ok p] by metis
  have e: "st'' = st'" using un st''(1) by simp
  obtain x where x: "ns_packets st p' = Some x" "pk_payload pk' = pk_payload x" "pk_protocol pk' = pk_protocol x"
    using live st''(3,4) e p by (cases "p' = p") (auto split: if_splits)
  have "map_option pl_length (payload_get st' (pk_payload x)) = map_option pl_length (payload_get st (pk_payload x))"
    if np: "pk_payload x \<noteq> NULL"
  proof -
    have np': "pk_payload pk' \<noteq> NULL" using np x by simp
    obtain pl' where pl': "ns_payloads st' (pk_payload pk') = Some pl'" "payload_get st' (pk_payload pk') = Some pl'"
      using packet_payload_live [OF st''(2) [unfolded e] live np'] .
    moreover obtain pl where "ns_payloads st (pk_payload pk') = Some pl" "pl_length pl' = pl_length pl"
      using st''(5) pl'(1) e by blast
    moreover from this have "payload_get st (pk_payload pk') = Some pl" by (simp add: payload_get_ok ok)
    ultimately show ?thesis using x by simp
  qed
  then show ?thesis using getPacketLength_cong [OF x(1) live x(2,3)] by blast
qed

section \<open>References held by a queue\<close>

lemma heldE:
  assumes "held st ps" and "p \<in> set ps"
  obtains pk where "ns_packets st p = Some pk" "pk_protocol pk \<noteq> PNONE"
    "count_list ps p \<le> unat (pk_referenceCount pk)"
  using assms unfolding held_def by blast

lemma held_Nil [simp]: "held st []"
  by (simp add: held_def)

lemma held_Cons: "held st (p # ps) \<Longrightarrow> held st ps"
  unfolding held_def by (fastforce split: if_splits)

lemma held_snoc:
  assumes h: "held st ps" and r: "routable st p" and st': "packet_ref st p = Some st'"
  shows "held st' (ps @ [p])"
  unfolding held_def
proof
  fix x assume x: "x \<in> set (ps @ [p])"
  obtain pk where pk: "ns_packets st p = Some pk" "pk_protocol pk \<noteq> PNONE"
    "unat (pk_referenceCount pk) + 1 < 2 ^ 32" using r by (auto simp: routable_def)
  then have e: "ns_packets st' = (ns_packets st)(p \<mapsto> pk\<lparr>pk_referenceCount := pk_referenceCount pk + 1\<rparr>)"
    using st' by (auto simp: packet_ref_def)
  show "\<exists>y. ns_packets st' x = Some y \<and> pk_protocol y \<noteq> PNONE \<and> count_list (ps @ [p]) x \<le> unat (pk_referenceCount y)"
  proof (cases "x = p")
    case True
    have "count_list ps p \<le> unat (pk_referenceCount pk)"
      using h pk unfolding held_def by (cases "p \<in> set ps") (auto simp: count_notin)
    then show ?thesis using True e pk by (simp add: word_inc_unat)
  next
    case False
    then have "x \<in> set ps" using x by simp
    then show ?thesis using False e h by (auto elim!: heldE)
  qed
qed

lemma held_status:
  assumes "ns_packets st p = Some pk"
  shows "held (packet_put st p (add_status tracing s pk)) ps = held st ps"
  using assms unfolding held_def by (intro ball_cong) auto

text \<open>Releasing the head of a list of held packets leaves the others held, with their lengths.\<close>

lemma packet_unref_held:
  assumes ok: "net_ok st" and h: "held st (p # ps)"
  obtains st' where "packet_unref tracing st p = Some st'" "net_ok st'" "held st' ps"
    "\<And>x. x \<in> set ps \<Longrightarrow> routerqueue_getPacketLength st' x = routerqueue_getPacketLength st x"
proof -
  obtain pk where pk: "ns_packets st p = Some pk" "pk_protocol pk \<noteq> PNONE"
    "count_list (p # ps) p \<le> unat (pk_referenceCount pk)" using heldE [OF h] by (metis list.set_intros(1))
  have pr: "printable tracing pk" using pk by (simp add: printable_def)
  obtain st' where st': "packet_unref tracing st p = Some st'" "net_ok st'"
    "\<And>p'. p' \<noteq> p \<Longrightarrow> ns_packets st' p' = ns_packets st p'"
    "ns_packets st' p = (if pk_referenceCount pk = 1 then None
                         else Some (pk\<lparr>pk_referenceCount := pk_referenceCount pk - 1\<rparr>))"
    using packet_unref_ok [OF ok pk(1) pr] by metis
  have held': "held st' ps"
    unfolding held_def
  proof
    fix x assume x: "x \<in> set ps"
    show "\<exists>y. ns_packets st' x = Some y \<and> pk_protocol y \<noteq> PNONE \<and> count_list ps x \<le> unat (pk_referenceCount y)"
    proof (cases "x = p")
      case True
      then have c: "0 < count_list ps p" using x count_list_0_iff [of ps p] by auto
      then have "pk_referenceCount pk \<noteq> 1" "pk_referenceCount pk \<noteq> 0" using pk(3) by auto
      then show ?thesis using True st'(4) pk by (simp add: word_dec_unat)
    next
      case False
      then show ?thesis using x st'(3) heldE [OF held_Cons [OF h] x] by auto
    qed
  qed
  have "routerqueue_getPacketLength st' x = routerqueue_getPacketLength st x" if x: "x \<in> set ps" for x
    using heldE [OF held' x] packet_unref_length [OF ok pk(1) pr st'(1)] by metis
  then show ?thesis by (rule that [OF st'(1,2) held'])
qed

lemma unref_all_ok: "net_ok st \<Longrightarrow> held st ps \<Longrightarrow> \<exists>st'. unref_all tracing st ps = Some st' \<and> net_ok st'"
proof (induction ps arbitrary: st)
  case (Cons p ps)
  obtain st' where "packet_unref tracing st p = Some st'" "net_ok st'" "held st' ps"
    using packet_unref_held [OF Cons.prems] by metis
  then show ?case using Cons.IH [of st'] by simp
qed simp

lemma codel_drop_ok:
  assumes ok: "net_ok st" and h: "held st (p # ps)"
  obtains st' where "routerqueuecodel_drop tracing st p = Some st'" "net_ok st'" "held st' ps"
    "\<And>x. x \<in> set ps \<Longrightarrow> routerqueue_getPacketLength st' x = routerqueue_getPacketLength st x"
proof -
  obtain pk where pk: "ns_packets st p = Some pk" "pk_protocol pk \<noteq> PNONE"
    using heldE [OF h] by (metis list.set_intros(1))
  have pr: "printable tracing pk" using pk by (simp add: printable_def)
  define pk1 where "pk1 = add_status tracing PDS_ROUTER_DROPPED pk"
  define st1 where "st1 = packet_put st p pk1"
  have s1: "packet_addDeliveryStatus tracing st p PDS_ROUTER_DROPPED = Some st1" "net_ok st1"
    unfolding st1_def pk1_def by (fact packet_addDeliveryStatus_ok [OF ok pk(1) pr])+
  have p1: "ns_packets st1 p = Some pk1" "pk_protocol pk1 \<noteq> PNONE" using pk by (simp_all add: st1_def pk1_def)
  have "header_ok (pk_protocol pk1) (pk_header pk1)" using net_okD(1) [OF s1(2) p1(1)] by (simp add: packet_ok_def)
  then obtain str where s2: "packet_toString st1 p = Some (str, st1)"
    using packet_toString_ok [OF payload_readable_ok [OF s1(2) p1(1)] _ p1] by blast
  have "held st1 (p # ps)" using h held_status [OF pk(1)] by (simp add: st1_def pk1_def)
  then obtain st' where st': "packet_unref tracing st1 p = Some st'" "net_ok st'" "held st' ps"
    "\<And>x. x \<in> set ps \<Longrightarrow> routerqueue_getPacketLength st' x = routerqueue_getPacketLength st1 x"
    using packet_unref_held [OF s1(2)] by metis
  have "routerqueue_getPacketLength st1 x = routerqueue_getPacketLength st x" for x
    using packet_put_length [OF pk(1), of pk1] by (simp add: st1_def pk1_def)
  then show ?thesis using that [OF _ st'(2,3)] s1(1) s2 st'(1,4) by (simp add: routerqueuecodel_drop_def)
qed

section \<open>The single-packet queue obeys the interface\<close>

fun single_sound :: "net_store \<Rightarrow> simtime \<Rightarrow> queue_manager \<Rightarrow> bool" where
  "single_sound st now (QSingle q) \<longleftrightarrow> net_ok st \<and> held st (qm_contents (QSingle q))"
| "single_sound st now _ \<longleftrightarrow> False"

lemma single_soundE:
  assumes "single_sound st now m"
  obtains q where "m = QSingle q" "net_ok st" "held st (qm_contents (QSingle q))"
  using assms by (cases m) auto

lemma routable_ref:
  assumes "net_ok st" and "routable st p"
  obtains st' where "packet_ref st p = Some st'" "net_ok st'" "p \<noteq> NULL"
proof -
  obtain pk where pk: "ns_packets st p = Some pk" "unat (pk_referenceCount pk) + 1 < 2 ^ 32"
    using assms(2) by (auto simp: routable_def)
  show ?thesis using that [OF packet_ref_ok [OF assms(1) pk] net_okD(3) [OF assms(1) pk(1)]] .
qed

interpretation single: queue_hooks_laws tracing routerqueuesingle_getHooks single_sound
  for tracing
proof (unfold_locales, goal_cases)
  case (5 st now m p)
  obtain q where q: "m = QSingle q" "net_ok st" "held st (qm_contents m)" using single_soundE [OF 5(1)] by metis
  obtain st' where st': "packet_ref st p = Some st'" "net_ok st'" "p \<noteq> NULL" using routable_ref [OF q(2) 5(3)] .
  show ?case
  proof (cases "qs_currentPacket q = NULL")
    case True
    then show ?thesis using q st' held_snoc [OF q(3) 5(3) st'(1)]
      by (simp add: routerqueuesingle_getHooks_def routerqueuesingle_enqueue_def) blast
  next
    case False
    then show ?thesis using q by (simp add: routerqueuesingle_getHooks_def routerqueuesingle_enqueue_def) blast
  qed
next
  case (6 st now m)
  then obtain q where q: "m = QSingle q" "net_ok st" "held st (qm_contents m)" using single_soundE by metis
  have "drop_all tracing st [] = Some st" by simp
  then show ?case using q
    by (intro exI [of _ "QSingle (q\<lparr>qs_currentPacket := NULL\<rparr>)"] exI [of _ st] exI [of _ "qs_currentPacket q"] exI [of _ "[]"])
      (simp add: routerqueuesingle_getHooks_def routerqueuesingle_dequeue_def split: if_splits)
next
  case (8 st now m)
  then obtain q where "m = QSingle q" using single_soundE by metis
  then show ?case by (cases "packet_unref tracing st (qs_currentPacket q)")
      (simp_all add: routerqueuesingle_getHooks_def routerqueuesingle_free_def)
qed (auto simp: routerqueuesingle_getHooks_def routerqueuesingle_new_def routerqueuesingle_peek_def
       elim!: single_soundE)

section \<open>The static queue obeys the interface\<close>

definition wire_sum :: "net_store \<Rightarrow> gpointer list \<Rightarrow> nat" where
  "wire_sum st ps = (\<Sum>p\<leftarrow>ps. unat (the (routerqueue_getPacketLength st p)))"

lemma wire_sum_simps [simp]:
  "wire_sum st [] = 0"
  "wire_sum st (p # ps) = unat (the (routerqueue_getPacketLength st p)) + wire_sum st ps"
  "wire_sum st (ps @ qs) = wire_sum st ps + wire_sum st qs"
  by (simp_all add: wire_sum_def)

lemma wire_sum_cong:
  "(\<And>p. p \<in> set ps \<Longrightarrow> routerqueue_getPacketLength st' p = routerqueue_getPacketLength st p) \<Longrightarrow>
   wire_sum st' ps = wire_sum st ps"
  by (simp add: wire_sum_def cong: map_cong)

fun static_sound :: "net_store \<Rightarrow> simtime \<Rightarrow> queue_manager \<Rightarrow> bool" where
  "static_sound st now (QStatic q) \<longleftrightarrow> net_ok st \<and> held st (qt_packets q) \<and>
     unat (qt_totalSize q) = wire_sum st (qt_packets q) \<and> qt_totalSize q < STATIC_PARAM_MAXSIZE"
| "static_sound st now _ \<longleftrightarrow> False"

lemma static_soundE:
  assumes "static_sound st now m"
  obtains q where "m = QStatic q" "net_ok st" "held st (qt_packets q)"
    "unat (qt_totalSize q) = wire_sum st (qt_packets q)" "qt_totalSize q < STATIC_PARAM_MAXSIZE"
  using assms by (cases m) auto

lemma static_enqueue_law:
  assumes s: "static_sound st now (QStatic q)" and r: "routable st p"
  shows "\<exists>q' st' queued. routerqueuestatic_enqueue st q p = Some (q', st', queued) \<and>
     static_sound st' now (QStatic q') \<and>
     (if queued then qt_packets q' = qt_packets q @ [p] \<and> packet_ref st p = Some st' else q' = q \<and> st' = st)"
proof -
  have q: "net_ok st" "held st (qt_packets q)" "unat (qt_totalSize q) = wire_sum st (qt_packets q)"
    "unat (qt_totalSize q) < 1024000" using s by (simp_all add: STATIC_PARAM_MAXSIZE_def word_less_nat_alt)
  obtain st' where st': "packet_ref st p = Some st'" "net_ok st'" "p \<noteq> NULL" using routable_ref [OF q(1) r] .
  obtain n where n: "routerqueue_getPacketLength st p = Some n" "unat n < 2 ^ 32"
    using r getPacketLength_ok [OF q(1)] unfolding routable_def by metis
  have add: "unat (qt_totalSize q + n) = unat (qt_totalSize q) + unat n"
    using q(4) n(2) by (intro unat_add_lem [THEN iffD1]) simp
  show ?thesis
  proof (cases "qt_totalSize q + n < STATIC_PARAM_MAXSIZE")
    case True
    have "wire_sum st' (qt_packets q @ [p]) = wire_sum st (qt_packets q) + unat n"
      using n(1) by (simp add: wire_sum_cong [of _ st' st] packet_ref_length [OF st'(1)])
    then show ?thesis using True st' n q add held_snoc [OF q(2) r st'(1)]
      by (simp add: routerqueuestatic_enqueue_def) blast
  next
    case False
    then show ?thesis using st' n s by (simp add: routerqueuestatic_enqueue_def) blast
  qed
qed

lemma static_dequeue_law:
  assumes s: "static_sound st now (QStatic q)" and e: "qt_packets q = p # rest"
  shows "\<exists>q'. routerqueuestatic_dequeue st q = Some (q', p) \<and> static_sound st now (QStatic q') \<and>
     qt_packets q' = rest \<and> p \<noteq> NULL"
proof -
  have q: "net_ok st" "held st (p # rest)" "unat (qt_totalSize q) = wire_sum st (p # rest)"
    "qt_totalSize q < STATIC_PARAM_MAXSIZE" using s e by simp_all
  obtain pk where pk: "ns_packets st p = Some pk" using heldE [OF q(2)] by (metis list.set_intros(1))
  obtain n where n: "routerqueue_getPacketLength st p = Some n" using getPacketLength_ok [OF q(1) pk] .
  have le: "n \<le> qt_totalSize q" using q(3) n by (simp add: word_le_nat_alt)
  have "qt_totalSize q - n < STATIC_PARAM_MAXSIZE" using q(4) le by (meson le_less_trans word_sub_le)
  then show ?thesis using n le q e held_Cons [OF q(2)] net_okD(3) [OF q(1) pk]
    by (simp add: routerqueuestatic_dequeue_def unat_sub)
qed

interpretation static: queue_hooks_laws tracing routerqueuestatic_getHooks static_sound
  for tracing
proof (unfold_locales, goal_cases)
  case (4 st now m st' now')
  then obtain q where "m = QStatic q" "unat (qt_totalSize q) = wire_sum st (qt_packets q)"
    "qt_totalSize q < STATIC_PARAM_MAXSIZE" using static_soundE by metis
  then show ?case using 4 wire_sum_cong [of "qt_packets q" st' st] by simp
next
  case (5 st now m p)
  then obtain q where q: "m = QStatic q" using static_soundE by metis
  then show ?case using 5 static_enqueue_law [of st now q p]
    by (fastforce simp: routerqueuestatic_getHooks_def)
next
  case (6 st now m)
  obtain q where q: "m = QStatic q" "net_ok st" "held st (qt_packets q)" using static_soundE [OF 6] by metis
  show ?case
  proof (cases "qt_packets q")
    case Nil
    then show ?thesis using q 6
      by (intro exI [of _ m] exI [of _ st] exI [of _ NULL] exI [of _ "[]"])
        (simp add: routerqueuestatic_getHooks_def routerqueuestatic_dequeue_def)
  next
    case (Cons p rest)
    then obtain q' where "routerqueuestatic_dequeue st q = Some (q', p)" "static_sound st now (QStatic q')"
      "qt_packets q' = rest" "p \<noteq> NULL" using static_dequeue_law q 6 by metis
    then show ?thesis using q Cons
      by (intro exI [of _ "QStatic q'"] exI [of _ st] exI [of _ p] exI [of _ "[]"])
        (simp add: routerqueuestatic_getHooks_def)
  qed
qed (auto simp: routerqueuestatic_getHooks_def routerqueuestatic_new_def routerqueuestatic_peek_def
      routerqueuestatic_free_def STATIC_PARAM_MAXSIZE_def elim!: static_soundE)

end
