(* ===== verification/Router_CoDel.thy ===== *)
theory Router_CoDel
  imports Router_Queue_Laws
begin

text \<open>
  The CoDel queue (\<^verbatim>\<open>routing/router_queue_codel.c\<close>) obeys the interface of the queue managers:
  its dequeue drops a prefix of the queue and hands out the next packet, its loop ends, and its size
  and time assertions never fail. The bounds are that the simulation time stays below \<open>2 ^ 62\<close>
  nanoseconds and that fewer than \<open>2 ^ 32\<close> packets are queued or dropped in one drop phase.
\<close>

section \<open>The control law\<close>

lemma round_sig_ge:
  assumes n: "2 ^ m \<le> n" and m: "53 \<le> m"
  shows "2 ^ m \<le> round_sig n sticky"
proof -
  let ?k = "bit_length n - 53"
  have big: "\<not> n < 2 ^ 53" using n power_increasing [OF m, of "2 :: nat"] by linarith
  have n0: "0 < n" using big by (cases n) auto
  have bl: "m < bit_length n"
  proof -
    have "(2::nat) ^ m < 2 ^ bit_length n" using bit_length_bounds [OF n0] n by (blast intro: le_less_trans)
    then show ?thesis by (simp only: power_strict_increasing_iff)
  qed
  have e: "(2::nat) ^ (bit_length n - 1) = 2 ^ 52 * 2 ^ ?k"
  proof -
    have "bit_length n - 1 = 52 + ?k" using bl m by simp
    then show ?thesis by (simp only: power_add)
  qed
  have "2 ^ 52 * 2 ^ ?k \<le> n" using bit_length_bounds [OF n0] e by simp
  then have "2 ^ 52 * 2 ^ ?k div 2 ^ ?k \<le> n div 2 ^ ?k" by (rule div_le_mono)
  then have q: "2 ^ 52 \<le> n div 2 ^ ?k" by simp
  have "2 ^ m \<le> (2::nat) ^ (bit_length n - 1)" using bl by (intro power_increasing) simp_all
  also have "\<dots> \<le> n div 2 ^ ?k * 2 ^ ?k" unfolding e using q by (rule mult_le_mono1)
  also have "\<dots> \<le> round_sig n sticky" using big by (simp add: round_sig_def Let_def)
  finally show ?thesis .
qed

lemma double_sqrt_ge_1:
  assumes "0 < n"
  shows "2 ^ 64 \<le> fst (double_sqrt n)" and "snd (double_sqrt n) = 2 ^ 64"
proof -
  let ?r = "isqrt (n * 2 ^ 128)"
  have "\<not> ?r < 2 ^ 64"
  proof
    assume "?r < 2 ^ 64"
    then have "(?r + 1) * (?r + 1) \<le> 2 ^ 64 * 2 ^ 64" by (intro mult_le_mono) simp_all
    then have "n * 2 ^ 128 < 2 ^ 128"
      using isqrt_bounds [of "n * 2 ^ 128"] by (simp only: power_add [symmetric]) simp
    then show False using assms by simp
  qed
  then show "2 ^ 64 \<le> fst (double_sqrt n)" "snd (double_sqrt n) = 2 ^ 64"
    unfolding double_sqrt_def Let_def by (simp_all only: fst_conv snd_conv not_less) (rule round_sig_ge, simp_all)
qed

lemma double_div_le:
  assumes "0 < d" and "n \<le> 2 ^ m * d"
  shows "fst (double_div n d) \<le> 2 ^ Suc m * snd (double_div n d)"
proof -
  let ?s = "53 + bit_length d"
  have "n * 2 ^ ?s div d \<le> 2 ^ m * d * 2 ^ ?s div d" using assms(2) by (intro div_le_mono mult_le_mono1)
  also have "\<dots> = 2 ^ (m + ?s)" using assms(1) by (simp add: power_add ac_simps)
  also have "\<dots> < 2 ^ Suc (m + ?s)" by simp
  finally have "round_sig (n * 2 ^ ?s div d) (n * 2 ^ ?s mod d \<noteq> 0) \<le> 2 ^ Suc (m + ?s)"
    by (rule round_sig_le)
  then show ?thesis by (simp add: double_div_def Let_def power_add)
qed

text \<open>While the time is below \<open>2 ^ 62\<close>, the control law has a result.\<close>

lemma controlLaw_ok:
  assumes "n \<noteq> 0" and "unat ts + 100000000 < 2 ^ 62"
  shows "\<exists>t. routerqueuecodel_controlLaw n ts = Some t"
proof -
  let ?x = "round_sig (unat (ts + CODEL_PARAM_INTERVAL_SIMTIME)) False"
  obtain a b where root: "double_sqrt (unat n) = (a, b)" by fastforce
  have "0 < unat n" using assms(1) by (simp add: unat_gt_0)
  then have ab: "2 ^ 64 \<le> a" "b = 2 ^ 64" using double_sqrt_ge_1 [of "unat n"] root by simp_all
  have "unat (ts + CODEL_PARAM_INTERVAL_SIMTIME) < 2 ^ 62"
    using assms(2) by (simp add: CODEL_PARAM_INTERVAL_SIMTIME_def SIMTIME_ONE_MILLISECOND_def unat_word_ariths)
  then have "?x \<le> 2 ^ 62" by (rule round_sig_le)
  then have "?x * b \<le> 2 ^ 62 * a" using ab by (intro mult_le_mono) simp_all
  moreover obtain c d where quot: "double_div (?x * b) a = (c, d)" by fastforce
  ultimately have cd: "c \<le> 2 ^ 63 * d" using double_div_le [of a "?x * b" 62] ab by simp
  have "0 < d" using quot by (auto simp: double_div_def Let_def)
  then have "(2 * c + d) div (2 * d) < 2 ^ 64"
    using cd by (simp add: div_less_iff_less_mult)
  then show ?thesis using root quot ab by (simp add: routerqueuecodel_controlLaw_def Let_def)
qed

section \<open>The invariant\<close>

definition codel_packets :: "qm_codel \<Rightarrow> gpointer list" where
  "codel_packets q = map ce_packet (qc_entries q)"

definition codel_ok :: "net_store \<Rightarrow> simtime \<Rightarrow> qm_codel \<Rightarrow> bool" where
  "codel_ok st now q \<longleftrightarrow> net_ok st \<and> held st (codel_packets q) \<and> time_ok now \<and>
     unat (qc_totalSize q) = wire_sum st (codel_packets q) \<and>
     (\<forall>e \<in> set (qc_entries q). ce_enqueueTS e \<le> now) \<and> qc_dropCountLast q \<le> qc_dropCount q"

fun codel_sound :: "net_store \<Rightarrow> simtime \<Rightarrow> queue_manager \<Rightarrow> bool" where
  "codel_sound st now (QCoDel q) \<longleftrightarrow> codel_ok st now q \<and> codel_bound 0 q"
| "codel_sound st now _ \<longleftrightarrow> False"

lemma codel_soundE:
  assumes "codel_sound st now m"
  obtains q where "m = QCoDel q" "codel_ok st now q" "codel_bound 0 q"
  using assms by (cases m) auto

lemma codel_okD:
  assumes "codel_ok st now q"
  shows "net_ok st" and "held st (codel_packets q)" and "time_ok now"
    and "unat (qc_totalSize q) = wire_sum st (codel_packets q)"
    and "\<And>e. e \<in> set (qc_entries q) \<Longrightarrow> ce_enqueueTS e \<le> now"
    and "qc_dropCountLast q \<le> qc_dropCount q"
  using assms by (auto simp: codel_ok_def)

text \<open>The fields that only steer the dropping do not matter to the invariant.\<close>

lemma codel_ok_steering [simp]:
  "codel_ok st now (q\<lparr>qc_mode := m\<rparr>) = codel_ok st now q"
  "codel_ok st now (q\<lparr>qc_nextDropTS := t\<rparr>) = codel_ok st now q"
  "codel_ok st now (q\<lparr>qc_intervalExpireTS := t\<rparr>) = codel_ok st now q"
  by (simp_all add: codel_ok_def codel_packets_def)

lemma codel_bound_steering [simp]:
  "codel_bound k (q\<lparr>qc_mode := m\<rparr>) = codel_bound k q"
  "codel_bound k (q\<lparr>qc_nextDropTS := t\<rparr>) = codel_bound k q"
  by (simp_all add: codel_bound_def)

lemma codel_packets_steering [simp]:
  "codel_packets (q\<lparr>qc_mode := m\<rparr>) = codel_packets q"
  "codel_packets (q\<lparr>qc_nextDropTS := t\<rparr>) = codel_packets q"
  "codel_packets (q\<lparr>qc_intervalExpireTS := t\<rparr>) = codel_packets q"
  "codel_packets (q\<lparr>qc_dropCount := n\<rparr>) = codel_packets q"
  "codel_packets (q\<lparr>qc_totalSize := w\<rparr>) = codel_packets q"
  by (simp_all add: codel_packets_def)

lemma helper_Nil:
  "qc_entries q = [] \<Longrightarrow>
   routerqueuecodel_dequeueHelper st q now = Some (q\<lparr>qc_intervalExpireTS := 0\<rparr>, NULL, False)"
  by (simp add: routerqueuecodel_dequeueHelper_def)

lemma helper_Cons:
  assumes ok: "codel_ok st now q" and e: "qc_entries q = e # rest"
  obtains q' drop where "routerqueuecodel_dequeueHelper st q now = Some (q', ce_packet e, drop)"
    "codel_ok st now q'" "qc_entries q' = rest" "ce_packet e \<noteq> NULL" "qc_mode q' = qc_mode q"
    "qc_nextDropTS q' = qc_nextDropTS q" "qc_dropCount q' = qc_dropCount q" "qc_dropCountLast q' = qc_dropCountLast q"
proof -
  let ?p = "ce_packet e"
  have c: "codel_packets q = ?p # map ce_packet rest" using e by (simp add: codel_packets_def)
  obtain pk where pk: "ns_packets st ?p = Some pk" using heldE [OF codel_okD(2) [OF ok]] c by (metis list.set_intros(1))
  have p0: "?p \<noteq> NULL" using net_okD(3) [OF codel_okD(1) [OF ok] pk] .
  obtain n where n: "routerqueue_getPacketLength st ?p = Some n" using getPacketLength_ok [OF codel_okD(1) [OF ok] pk] .
  define q2 where "q2 = q\<lparr>qc_entries := rest, qc_totalSize := qc_totalSize q - n\<rparr>"
  have le: "n \<le> qc_totalSize q" using codel_okD(4) [OF ok] c n by (simp add: word_le_nat_alt)
  have ts: "ce_enqueueTS e \<le> now" using codel_okD(5) [OF ok] e by simp
  have "unat (qc_totalSize q2) = wire_sum st (codel_packets q2)"
    using codel_okD(4) [OF ok] c n le by (simp add: q2_def unat_sub codel_packets_def)
  then have ok2: "codel_ok st now q2"
    using ok e c held_Cons by (auto simp: codel_ok_def q2_def codel_packets_def)
  have same: "q2\<lparr>qc_intervalExpireTS := qc_intervalExpireTS q2\<rparr> = q2" by simp
  have "\<exists>t d. routerqueuecodel_dequeueHelper st q now = Some (q2\<lparr>qc_intervalExpireTS := t\<rparr>, ?p, d)"
    unfolding routerqueuecodel_dequeueHelper_def Let_def e list.case using n le ts p0
    by (simp add: q2_def [symmetric]) (metis same)
  then obtain t d where
    "routerqueuecodel_dequeueHelper st q now = Some (q2\<lparr>qc_intervalExpireTS := t\<rparr>, ?p, d)" by blast
  then show ?thesis by (rule that) (use ok2 p0 in \<open>simp_all add: q2_def\<close>)
qed

section \<open>Dropping and dequeueing\<close>

lemma codel_ok_drop:
  assumes ok: "codel_ok st now q" and h: "held st (p # codel_packets q)"
  obtains st' where "routerqueuecodel_drop tracing st p = Some st'" "codel_ok st' now q"
proof -
  obtain st' where st': "routerqueuecodel_drop tracing st p = Some st'" "net_ok st'" "held st' (codel_packets q)"
    "\<And>x. x \<in> set (codel_packets q) \<Longrightarrow> routerqueue_getPacketLength st' x = routerqueue_getPacketLength st x"
    using codel_drop_ok [OF codel_okD(1) [OF ok] h, where tracing = tracing] by metis
  then have "wire_sum st' (codel_packets q) = wire_sum st (codel_packets q)" by (intro wire_sum_cong)
  then show ?thesis using that [OF st'(1)] st'(2,3) ok by (simp add: codel_ok_def)
qed

lemma codel_ok_count:
  assumes "codel_ok st now q" and "codel_bound 1 q"
  shows "codel_ok st now (q\<lparr>qc_dropCount := qc_dropCount q + 1\<rparr>)"
    and "codel_bound 0 (q\<lparr>qc_dropCount := qc_dropCount q + 1\<rparr>)"
    and "qc_dropCount q + 1 \<noteq> 0"
proof -
  have u: "unat (qc_dropCount q + 1) = unat (qc_dropCount q) + 1"
    using assms(2) by (intro word_inc_unat) (simp add: codel_bound_def)
  then show "codel_bound 0 (q\<lparr>qc_dropCount := qc_dropCount q + 1\<rparr>)" "qc_dropCount q + 1 \<noteq> 0"
    using assms(2) by (auto simp: codel_bound_def)
  have "qc_dropCountLast q \<le> qc_dropCount q + 1"
    using codel_okD(6) [OF assms(1)] u by (simp add: word_le_nat_alt)
  then show "codel_ok st now (q\<lparr>qc_dropCount := qc_dropCount q + 1\<rparr>)"
    using assms(1) by (simp add: codel_ok_def)
qed

text \<open>What a dequeue promises for the packets \<open>ps\<close> it starts from.\<close>

definition dequeue_result ::
  "bool \<Rightarrow> net_store \<Rightarrow> simtime \<Rightarrow> gpointer list \<Rightarrow> (qm_codel \<times> net_store \<times> gpointer) option \<Rightarrow> bool" where
  "dequeue_result tracing st now ps r \<longleftrightarrow>
     (\<exists>q' st' p dropped. r = Some (q', st', p) \<and> codel_ok st' now q' \<and> codel_bound 0 q' \<and>
        ps = dropped @ (if p = NULL then [] else p # codel_packets q') \<and>
        (p = NULL \<longrightarrow> codel_packets q' = []) \<and> drop_all tracing st dropped = Some st' \<and>
        (p \<noteq> NULL \<longrightarrow> held st' (p # codel_packets q')))"

lemma dequeue_result_stop:
  assumes "codel_ok st now q" and "codel_bound 0 q" and "p = NULL \<Longrightarrow> codel_packets q = []"
    and "p \<noteq> NULL \<Longrightarrow> held st (p # codel_packets q)"
  shows "dequeue_result tracing st now (if p = NULL then [] else p # codel_packets q) (Some (q, st, p))"
  unfolding dequeue_result_def using assms by (intro exI [of _ q] exI [of _ st] exI [of _ p] exI [of _ "[]"]) auto

lemma dequeue_result_drop:
  assumes "routerqueuecodel_drop tracing st p = Some st'" and "dequeue_result tracing st' now ps r"
  shows "dequeue_result tracing st now (p # ps) r"
  using assms unfolding dequeue_result_def
  by clarify (rule exI, rule exI, rule exI, rule exI [of _ "p # _"], auto)

lemma codel_dropLoop_stop:
  "\<not> (now \<ge> qc_nextDropTS q \<and> qc_mode q = CODEL_MODE_DROP) \<Longrightarrow>
   codel_dropLoop tracing now st q p = Some (q, st, p)"
  by (subst codel_dropLoop.simps) (rule if_not_P)

lemma codel_dropLoop_go:
  assumes "now \<ge> qc_nextDropTS q \<and> qc_mode q = CODEL_MODE_DROP"
    and "routerqueuecodel_drop tracing st p = Some st'"
    and "routerqueuecodel_dequeueHelper st' (q\<lparr>qc_dropCount := qc_dropCount q + 1\<rparr>) now = Some (q1, p', d)"
  shows "d \<Longrightarrow> routerqueuecodel_controlLaw (qc_dropCount q1) (qc_nextDropTS q1) = Some t \<Longrightarrow>
      codel_dropLoop tracing now st q p = codel_dropLoop tracing now st' (q1\<lparr>qc_nextDropTS := t\<rparr>) p'"
    and "\<not> d \<Longrightarrow>
      codel_dropLoop tracing now st q p = codel_dropLoop tracing now st' (q1\<lparr>qc_mode := CODEL_MODE_STORE\<rparr>) p'"
  using assms by (simp_all add: codel_dropLoop.simps [of tracing now st q p])

lemma codel_dropLoop_ok:
  "codel_ok st now q \<Longrightarrow> codel_bound (if p = NULL then 0 else 1) q \<Longrightarrow>
   (p = NULL \<Longrightarrow> codel_packets q = [] \<and> qc_mode q = CODEL_MODE_STORE) \<Longrightarrow>
   (p \<noteq> NULL \<Longrightarrow> held st (p # codel_packets q)) \<Longrightarrow>
   dequeue_result tracing st now (if p = NULL then [] else p # codel_packets q) (codel_dropLoop tracing now st q p)"
proof (induction tracing now st q p rule: codel_dropLoop.induct)
  case (1 tracing now st q p)
  show ?case
  proof (cases "now \<ge> qc_nextDropTS q \<and> qc_mode q = CODEL_MODE_DROP")
    case False
    have "codel_bound 0 q" using 1 by (auto simp: codel_bound_def split: if_splits)
    then show ?thesis unfolding codel_dropLoop_stop [OF False] using 1 by (intro dequeue_result_stop) auto
  next
    case True
    have p: "p \<noteq> NULL" using 1 True by auto
    then have b: "codel_bound 1 q" and h: "held st (p # codel_packets q)" using 1 by auto
    obtain st' where st': "routerqueuecodel_drop tracing st p = Some st'" "codel_ok st' now q"
      using codel_ok_drop [OF \<open>codel_ok st now q\<close> h] .
    let ?q = "q\<lparr>qc_dropCount := qc_dropCount q + 1\<rparr>"
    note cnt = codel_ok_count [OF st'(2) b]
    show ?thesis
    proof (cases "qc_entries q")
      case Nil
      then have hp: "routerqueuecodel_dequeueHelper st' ?q now = Some (?q\<lparr>qc_intervalExpireTS := 0\<rparr>, NULL, False)"
        by (intro helper_Nil) simp
      have "dequeue_result tracing st' now [] (codel_dropLoop tracing now st'
          (?q\<lparr>qc_intervalExpireTS := 0, qc_mode := CODEL_MODE_STORE\<rparr>) NULL)"
        using "1.IH"(2) [OF True st'(1) hp] cnt Nil by (simp add: codel_packets_def codel_bound_def)
      then show ?thesis unfolding codel_dropLoop_go(2) [OF True st'(1) hp not_False_eq_True [THEN iffD2, OF TrueI]]
        using p Nil by (simp add: codel_packets_def dequeue_result_drop [OF st'(1)])
    next
      case (Cons e rest)
      have ent: "qc_entries ?q = e # rest" using Cons by simp
      obtain q1 d where hp: "routerqueuecodel_dequeueHelper st' ?q now = Some (q1, ce_packet e, d)"
        and q1': "codel_ok st' now q1" "qc_entries q1 = rest" "ce_packet e \<noteq> NULL" "qc_mode q1 = qc_mode ?q"
        "qc_nextDropTS q1 = qc_nextDropTS ?q" "qc_dropCount q1 = qc_dropCount ?q"
        using helper_Cons [OF cnt(1) ent] by metis
      have q1: "codel_ok st' now q1" "qc_entries q1 = rest" "ce_packet e \<noteq> NULL" "qc_mode q1 = qc_mode q"
        "qc_nextDropTS q1 = qc_nextDropTS q" "qc_dropCount q1 = qc_dropCount q + 1" using q1' by simp_all
      have c: "codel_packets q = ce_packet e # codel_packets q1" using Cons q1 by (simp add: codel_packets_def)
      have b1: "codel_bound 1 q1" using cnt(2) q1 Cons by (simp add: codel_bound_def)
      have h1: "held st' (ce_packet e # codel_packets q1)" using codel_okD(2) [OF st'(2)] c by simp
      show ?thesis
      proof (cases d)
        case drop: True
        have "unat (qc_nextDropTS q1) \<le> unat now" using True q1(5) by (simp add: word_le_nat_alt)
        then have "unat (qc_nextDropTS q1) + 100000000 < 2 ^ 62"
          using codel_okD(3) [OF q1(1)] by (simp add: time_ok_def)
        then obtain t where t: "routerqueuecodel_controlLaw (qc_dropCount q1) (qc_nextDropTS q1) = Some t"
          using controlLaw_ok cnt(3) q1(6) by metis
        have "dequeue_result tracing st' now (codel_packets q)
            (codel_dropLoop tracing now st' (q1\<lparr>qc_nextDropTS := t\<rparr>) (ce_packet e))"
          using "1.IH"(1) [OF True st'(1) hp _ _ drop t] q1 b1 h1 c by simp
        then show ?thesis unfolding codel_dropLoop_go(1) [OF True st'(1) hp drop t]
          using p by (simp add: dequeue_result_drop [OF st'(1)])
      next
        case False
        have "dequeue_result tracing st' now (codel_packets q)
            (codel_dropLoop tracing now st' (q1\<lparr>qc_mode := CODEL_MODE_STORE\<rparr>) (ce_packet e))"
          using "1.IH"(2) [OF True st'(1) hp _ _ False] q1 b1 h1 c by simp
        then show ?thesis unfolding codel_dropLoop_go(2) [OF True st'(1) hp False]
          using p by (simp add: dequeue_result_drop [OF st'(1)])
      qed
    qed
  qed
qed

lemma codel_packets_Nil: "codel_packets q = [] \<longleftrightarrow> qc_entries q = []"
  by (simp add: codel_packets_def)

text \<open>Entering the drop mode restarts the counter at one or at the drops of the last phase.\<close>

lemma restart_count:
  assumes ok: "codel_ok st now q" and b: "codel_bound k q" and n: "0 < k"
    and c: "c = 1 \<or> c = qc_dropCount q - qc_dropCountLast q \<and> 1 < c"
  shows "codel_ok st now (q\<lparr>qc_dropCount := c, qc_dropCountLast := c\<rparr>)" and "c \<noteq> 0"
    and "codel_bound 0 (q\<lparr>qc_dropCount := c, qc_dropCountLast := c\<rparr>)"
proof -
  show "codel_ok st now (q\<lparr>qc_dropCount := c, qc_dropCountLast := c\<rparr>)"
    using ok by (simp add: codel_ok_def codel_packets_def)
  show "c \<noteq> 0" using c by auto
  have "unat c \<le> unat (qc_dropCount q) + 1"
    using c codel_okD(6) [OF ok] by (auto simp: unat_sub word_le_nat_alt)
  then show "codel_bound 0 (q\<lparr>qc_dropCount := c, qc_dropCountLast := c\<rparr>)"
    using b n by (simp add: codel_bound_def)
qed

lemma codel_enter_drop:
  assumes ok: "codel_ok st now q1" and b: "codel_bound 1 q1" and h: "held st (p # codel_packets q1)"
    and d: "routerqueuecodel_dequeueHelper st0 q now = Some (q1, p, True)" "p \<noteq> NULL"
    and m: "qc_mode q1 \<noteq> CODEL_MODE_DROP" and st0: "st0 = st"
  shows "dequeue_result tracing st now (p # codel_packets q1) (routerqueuecodel_dequeue tracing st0 now q)"
proof -
  obtain st1 where st1: "routerqueuecodel_drop tracing st p = Some st1" "codel_ok st1 now q1"
    using codel_ok_drop [OF ok h] .
  obtain q2 p2 d2 where hp: "routerqueuecodel_dequeueHelper st1 q1 now = Some (q2, p2, d2)"
    and q2: "codel_ok st1 now q2" "codel_packets q1 = (if p2 = NULL then [] else p2 # codel_packets q2)"
      "p2 = NULL \<Longrightarrow> codel_packets q2 = []" "codel_bound 1 q2"
  proof (cases "qc_entries q1")
    case Nil
    show ?thesis using st1(2) b Nil
      by (intro that [OF helper_Nil [OF Nil]]) (simp_all add: codel_packets_def codel_bound_def)
  next
    case (Cons e rest)
    obtain q2 d2 where hp: "routerqueuecodel_dequeueHelper st1 q1 now = Some (q2, ce_packet e, d2)"
      and q2: "codel_ok st1 now q2" "qc_entries q2 = rest" "ce_packet e \<noteq> NULL" "qc_dropCount q2 = qc_dropCount q1"
      using helper_Cons [OF st1(2) Cons] by metis
    show ?thesis by (rule that [OF hp q2(1)]) (use q2 b Cons in \<open>simp_all add: codel_packets_def codel_bound_def\<close>)
  qed
  define delta where "delta = qc_dropCount q2 - qc_dropCountLast q2"
  define c where "c = (if now < qc_nextDropTS q2 + 16 * CODEL_PARAM_INTERVAL_SIMTIME \<and> delta > 1 then delta else 1)"
  have c: "c = 1 \<or> c = qc_dropCount q2 - qc_dropCountLast q2 \<and> 1 < c" by (auto simp: c_def delta_def)
  note restart = restart_count [OF q2(1,4) zero_less_one c]
  obtain t where t: "routerqueuecodel_controlLaw c now = Some t"
    using controlLaw_ok [OF restart(2)] codel_okD(3) [OF ok] by (auto simp: time_ok_def)
  let ?q = "q2\<lparr>qc_mode := CODEL_MODE_DROP, qc_dropCount := c, qc_nextDropTS := t, qc_dropCountLast := c\<rparr>"
  have eq: "routerqueuecodel_dequeue tracing st0 now q = Some (?q, st1, p2)"
    using d m st1(1) hp t unfolding st0
    by (simp add: routerqueuecodel_dequeue_def Let_def delta_def [symmetric] c_def [symmetric]
        del: word_less_1 cong: if_cong) (auto simp: c_def)
  have okq: "codel_ok st1 now ?q" "codel_bound 0 ?q" "codel_packets ?q = codel_packets q2"
    using restart by (simp_all add: codel_ok_def codel_bound_def codel_packets_def)
  have "dequeue_result tracing st1 now (if p2 = NULL then [] else p2 # codel_packets ?q) (Some (?q, st1, p2))"
    by (rule dequeue_result_stop) (use okq q2 codel_okD(2) [OF st1(2)] in auto)
  then show ?thesis unfolding eq q2(2) okq(3) by (rule dequeue_result_drop [OF st1(1)])
qed

lemma codel_dequeue_ok:
  assumes ok: "codel_ok st now q" and b: "codel_bound 0 q"
  shows "dequeue_result tracing st now (codel_packets q) (routerqueuecodel_dequeue tracing st now q)"
proof (cases "qc_entries q")
  case Nil
  let ?q = "q\<lparr>qc_intervalExpireTS := 0, qc_mode := CODEL_MODE_STORE\<rparr>"
  have "routerqueuecodel_dequeue tracing st now q = Some (?q, st, NULL)"
    by (simp add: routerqueuecodel_dequeue_def helper_Nil [OF Nil])
  moreover have "codel_bound 0 ?q" using b by (simp add: codel_bound_def)
  ultimately show ?thesis using dequeue_result_stop [of st now ?q NULL tracing] ok Nil
    by (simp add: codel_packets_def)
next
  case (Cons e rest)
  obtain q1 d where hp: "routerqueuecodel_dequeueHelper st q now = Some (q1, ce_packet e, d)"
    and q1: "codel_ok st now q1" "qc_entries q1 = rest" "ce_packet e \<noteq> NULL" "qc_dropCount q1 = qc_dropCount q"
    using helper_Cons [OF ok Cons] by metis
  have c: "codel_packets q = ce_packet e # codel_packets q1" using Cons q1 by (simp add: codel_packets_def)
  have b1: "codel_bound 1 q1" using b q1 Cons by (simp add: codel_bound_def)
  then have b0: "codel_bound 0 q1" by (simp add: codel_bound_def)
  have h: "held st (ce_packet e # codel_packets q1)" using codel_okD(2) [OF ok] c by simp
  consider "qc_mode q1 = CODEL_MODE_DROP" | "qc_mode q1 \<noteq> CODEL_MODE_DROP" d | "qc_mode q1 \<noteq> CODEL_MODE_DROP" "\<not> d"
    by blast
  then show ?thesis
  proof cases
    case 1
    then show ?thesis unfolding c using hp q1 b1 h
        codel_dropLoop_ok [of st now "if d then q1 else q1\<lparr>qc_mode := CODEL_MODE_STORE\<rparr>" "ce_packet e" tracing]
      by (cases d) (simp_all add: routerqueuecodel_dequeue_def)
  next
    case 2
    then show ?thesis unfolding c using codel_enter_drop [OF q1(1) b1 h _ q1(3)] hp by simp
  next
    case 3
    then show ?thesis unfolding c using hp q1 b0 h dequeue_result_stop [of st now q1 "ce_packet e" tracing]
      by (simp add: routerqueuecodel_dequeue_def)
  qed
qed

section \<open>CoDel obeys the interface\<close>

lemma wire_sum_bound:
  assumes "net_ok st" and "held st ps"
  shows "wire_sum st ps \<le> length ps * (2 ^ 32 - 1)"
  using assms(2)
proof (induction ps)
  case (Cons p ps)
  obtain pk where "ns_packets st p = Some pk" using heldE [OF Cons.prems] by (metis list.set_intros(1))
  then obtain n where "routerqueue_getPacketLength st p = Some n" "unat n < 2 ^ 32"
    using getPacketLength_ok [OF assms(1)] by metis
  then show ?case using Cons.IH [OF held_Cons [OF Cons.prems]] by simp
qed simp

lemma codel_enqueue_ok:
  assumes ok: "codel_ok st now q" and b: "codel_bound 1 q" and r: "routable st p"
  shows "\<exists>q' st'. routerqueuecodel_enqueue st now q p = Some (q', st', True) \<and> codel_ok st' now q' \<and>
     codel_bound 0 q' \<and> codel_packets q' = codel_packets q @ [p] \<and> packet_ref st p = Some st'"
proof -
  obtain st' where st': "packet_ref st p = Some st'" "net_ok st'" "p \<noteq> NULL"
    using routable_ref [OF codel_okD(1) [OF ok] r] .
  have same: "routerqueue_getPacketLength st' x = routerqueue_getPacketLength st x" for x
    by (rule packet_ref_length [OF st'(1)])
  obtain n where n: "routerqueue_getPacketLength st p = Some n" "unat n < 2 ^ 32"
    using r getPacketLength_ok [OF codel_okD(1) [OF ok]] unfolding routable_def by metis
  define q' where "q' = q\<lparr>qc_entries := qc_entries q @ [\<lparr>ce_packet = p, ce_enqueueTS = now\<rparr>],
                       qc_totalSize := qc_totalSize q + n\<rparr>"
  have c: "codel_packets q' = codel_packets q @ [p]" by (simp add: q'_def codel_packets_def)
  have len: "length (codel_packets q) < 2 ^ 32 - 1" using b by (simp add: codel_bound_def codel_packets_def)
  have "wire_sum st (codel_packets q) \<le> (2 ^ 32 - 1) * (2 ^ 32 - 1)"
    using wire_sum_bound [OF codel_okD(1,2) [OF ok]] len
    by (meson le_trans less_imp_le mult_le_mono1)
  then have "unat (qc_totalSize q) + unat n < 2 ^ 64" using codel_okD(4) [OF ok] n(2) by simp
  then have "unat (qc_totalSize q + n) = unat (qc_totalSize q) + unat n" by (intro unat_add_lem [THEN iffD1]) simp
  then have "unat (qc_totalSize q') = wire_sum st' (codel_packets q')"
    using codel_okD(4) [OF ok] n(1) by (simp add: c same wire_sum_cong [of _ st' st]) (simp add: q'_def)
  then have "codel_ok st' now q'"
    using ok st' held_snoc [OF codel_okD(2) [OF ok] r st'(1)] c by (simp add: codel_ok_def) (simp add: q'_def)
  moreover have "routerqueuecodel_enqueue st now q p = Some (q', st', True)"
    using st' n(1) same b by (simp add: routerqueuecodel_enqueue_def q'_def codel_bound_def CODEL_PARAM_QUEUE_SIZE_LIMIT_def)
  moreover have "codel_bound 0 q'" using b by (simp add: codel_bound_def q'_def)
  ultimately show ?thesis using c st'(1) by blast
qed

lemma qm_contents_codel: "qm_contents (QCoDel q) = codel_packets q"
  by (simp add: codel_packets_def)

interpretation codel: queue_hooks_laws tracing routerqueuecodel_getHooks codel_sound
  for tracing
proof (unfold_locales, goal_cases)
  case (4 st now m st' now')
  then obtain q where q: "m = QCoDel q" "codel_ok st now q" "codel_bound 0 q" using codel_soundE by metis
  have "wire_sum st' (codel_packets q) = wire_sum st (codel_packets q)"
    using 4(6) q(1) by (intro wire_sum_cong) (simp add: codel_packets_def)
  then show ?case using q 4(2-5) by (auto simp: codel_ok_def codel_packets_def intro: order_trans)
next
  case (5 st now m p)
  then obtain q where q: "m = QCoDel q" "codel_ok st now q" "codel_bound 1 q" using codel_soundE by (metis qm_room.simps(1))
  then obtain q' st' where "routerqueuecodel_enqueue st now q p = Some (q', st', True)" "codel_ok st' now q'"
    "codel_bound 0 q'" "codel_packets q' = codel_packets q @ [p]" "packet_ref st p = Some st'"
    using codel_enqueue_ok [OF q(2,3) 5(3)] by blast
  then show ?case using q(1)
    by (intro exI [of _ "QCoDel q'"] exI [of _ st'] exI [of _ True])
      (simp add: routerqueuecodel_getHooks_def qm_contents_codel del: qm_contents.simps)
next
  case (6 st now m)
  then obtain q where q: "m = QCoDel q" "codel_ok st now q" "codel_bound 0 q" using codel_soundE by metis
  obtain q' st' p dropped where "routerqueuecodel_dequeue tracing st now q = Some (q', st', p)"
    "codel_ok st' now q'" "codel_bound 0 q'"
    "codel_packets q = dropped @ (if p = NULL then [] else p # codel_packets q')"
    "p = NULL \<longrightarrow> codel_packets q' = []" "drop_all tracing st dropped = Some st'"
    "p \<noteq> NULL \<longrightarrow> held st' (p # codel_packets q')"
    using codel_dequeue_ok [OF q(2,3), of tracing] unfolding dequeue_result_def by metis
  then show ?case using q(1)
    by (intro exI [of _ "QCoDel q'"] exI [of _ st'] exI [of _ p] exI [of _ dropped])
      (simp add: routerqueuecodel_getHooks_def qm_contents_codel del: qm_contents.simps)
next
  case (8 st now m)
  then obtain q where q: "m = QCoDel q" "codel_ok st now q" using codel_soundE by metis
  have "p \<noteq> NULL" if "p \<in> set (codel_packets q)" for p
    using heldE [OF codel_okD(2) [OF q(2)] that] net_okD(3) [OF codel_okD(1) [OF q(2)]] by metis
  then have "filter (\<lambda>p. p \<noteq> NULL) (codel_packets q) = codel_packets q" by (simp add: filter_id_conv)
  then show ?case using q(1)
    by (simp add: routerqueuecodel_getHooks_def routerqueuecodel_free_def codel_packets_def)
next
  case (7 st now m)
  then obtain q where "m = QCoDel q" using codel_soundE by metis
  then show ?case by (simp add: routerqueuecodel_getHooks_def routerqueuecodel_peek_def split: list.split)
next
  case (3 st now m)
  then show ?case using codel_soundE codel_okD(1,2) by (metis qm_contents_codel)
qed (simp_all add: routerqueuecodel_getHooks_def routerqueuecodel_new_def codel_ok_def codel_bound_def codel_packets_def)

end
