(* ===== verification/Router.thy ===== *)
theory Router
  imports Router_CoDel
begin

text \<open>
  \<^verbatim>\<open>routing/router.c\<close>: the upstream router of a host, a client of the queue managers through their
  hooks, and \<^verbatim>\<open>worker_sendPacket\<close> (\<^verbatim>\<open>core/worker.c\<close>), to which \<^verbatim>\<open>router_forward\<close> hands outgoing
  packets. The result of \<open>router_enqueue\<close> also says whether the network interface is told to
  receive (\<^verbatim>\<open>networkinterface_receivePackets\<close>).
\<close>

section \<open>The router\<close>

datatype QueueManagerMode = QUEUE_MANAGER_SINGLE | QUEUE_MANAGER_STATIC | QUEUE_MANAGER_CODEL

record router =
  rt_queueMode :: QueueManagerMode
  rt_queueHooks :: queue_hooks
  rt_queueManager :: queue_manager
  rt_interface :: gpointer
  rt_referenceCount :: int

definition mode_hooks :: "QueueManagerMode \<Rightarrow> queue_hooks" where
  "mode_hooks queueMode =
     (case queueMode of
        QUEUE_MANAGER_SINGLE \<Rightarrow> routerqueuesingle_getHooks
      | QUEUE_MANAGER_STATIC \<Rightarrow> routerqueuestatic_getHooks
      | QUEUE_MANAGER_CODEL \<Rightarrow> routerqueuecodel_getHooks)"

definition router_new :: "QueueManagerMode \<Rightarrow> gpointer \<Rightarrow> router option" where
  "router_new queueMode interface = do {
     utility_assert (interface \<noteq> NULL);
     let hooks = mode_hooks queueMode;
     Some \<lparr>rt_queueMode = queueMode, rt_queueHooks = hooks, rt_queueManager = qh_new hooks,
           rt_interface = interface, rt_referenceCount = 1\<rparr>
   }"

definition router_free :: "bool \<Rightarrow> net_store \<Rightarrow> router \<Rightarrow> net_store option" where
  "router_free tracing st rt = qh_free (rt_queueHooks rt) tracing st (rt_queueManager rt)"

definition router_ref :: "router \<Rightarrow> router" where
  "router_ref rt = rt\<lparr>rt_referenceCount := rt_referenceCount rt + 1\<rparr>"

text \<open>The router is \<open>None\<close> in the result once it is freed.\<close>

definition router_unref :: "bool \<Rightarrow> net_store \<Rightarrow> router \<Rightarrow> (net_store \<times> router option) option" where
  "router_unref tracing st rt = do {
     let rt' = rt\<lparr>rt_referenceCount := rt_referenceCount rt - 1\<rparr>;
     utility_assert (rt_referenceCount rt' \<ge> 0);
     if rt_referenceCount rt' = 0 then do { st' \<leftarrow> router_free tracing st rt'; Some (st', None) }
     else Some (st, Some rt')
   }"

definition router_enqueue ::
  "bool \<Rightarrow> net_store \<Rightarrow> simtime \<Rightarrow> router \<Rightarrow> gpointer \<Rightarrow> (router \<times> net_store \<times> bool \<times> bool) option" where
  "router_enqueue tracing st now rt packet = do {
     utility_assert (packet \<noteq> NULL);
     bufferedPacket \<leftarrow> qh_peek (rt_queueHooks rt) (rt_queueManager rt);
     (m, st1, wasQueued) \<leftarrow> qh_enqueue (rt_queueHooks rt) st now (rt_queueManager rt) packet;
     st2 \<leftarrow> packet_addDeliveryStatus tracing st1 packet
              (if wasQueued then PDS_ROUTER_ENQUEUED else PDS_ROUTER_DROPPED);
     Some (rt\<lparr>rt_queueManager := m\<rparr>, st2, wasQueued, bufferedPacket = NULL \<and> wasQueued)
   }"

definition router_dequeue ::
  "bool \<Rightarrow> net_store \<Rightarrow> simtime \<Rightarrow> router \<Rightarrow> (router \<times> net_store \<times> gpointer) option" where
  "router_dequeue tracing st now rt = do {
     (m, st1, packet) \<leftarrow> qh_dequeue (rt_queueHooks rt) tracing st now (rt_queueManager rt);
     st2 \<leftarrow> (if packet \<noteq> NULL then packet_addDeliveryStatus tracing st1 packet PDS_ROUTER_DEQUEUED else Some st1);
     Some (rt\<lparr>rt_queueManager := m\<rparr>, st2, packet)
   }"

section \<open>Sending\<close>

text \<open>
  Resolving an IP address (the DNS), the reliability and the latency of a path (the topology), the
  next random number of the source host and whether the scheduler knows the destination are code of
  other components: arguments. The product of the latency with a million is rounded to a double
  before \<^verbatim>\<open>ceil\<close>. The event pushed to the destination is given by its time, its host and the copy
  of the packet it delivers.
\<close>

datatype send_result = SimulationOver | Delivered_to u32 simtime gpointer | Dropped_by_network

definition latency_delay :: "rat \<Rightarrow> simtime" where
  "latency_delay latency =
     (let (a, b) = quotient_of latency; (n, d) = double_div (nat a * 1000000) (nat b)
      in of_nat ((n + d - 1) div d))"

definition worker_sendPacket ::
  "bool \<Rightarrow> bool \<Rightarrow> (in_addr \<Rightarrow> address option) \<Rightarrow> (address \<Rightarrow> address \<Rightarrow> rat) \<Rightarrow> (address \<Rightarrow> address \<Rightarrow> rat) \<Rightarrow>
   (u32 \<Rightarrow> bool) \<Rightarrow> bool \<Rightarrow> rat \<Rightarrow> simtime \<Rightarrow> net_store \<Rightarrow> gpointer \<Rightarrow> gpointer \<Rightarrow> (net_store \<times> send_result) option" where
  "worker_sendPacket tracing running resolveIP getReliability getLatency isHost bootstrapping chance now st packet copy = do {
     utility_assert (packet \<noteq> NULL);
     if \<not> running then Some (st, SimulationOver)
     else do {
       srcIP \<leftarrow> packet_getSourceIP st packet;
       dstIP \<leftarrow> packet_getDestinationIP st packet;
       srcAddress \<leftarrow> resolveIP srcIP;
       dstAddress \<leftarrow> resolveIP dstIP;
       payloadLength \<leftarrow> packet_getPayloadLength st packet;
       if bootstrapping \<or> chance \<le> getReliability srcAddress dstAddress \<or> payloadLength = 0
       then do {
         let delay = latency_delay (getLatency srcAddress dstAddress);
         let deliverTime = now + delay;
         let dstID = address_getID dstAddress;
         utility_assert (isHost dstID);
         st1 \<leftarrow> packet_addDeliveryStatus tracing st packet PDS_INET_SENT;
         st2 \<leftarrow> packet_copy st1 packet copy;
         Some (st2, Delivered_to dstID deliverTime copy)
       }
       else do {
         st1 \<leftarrow> packet_addDeliveryStatus tracing st packet PDS_INET_DROPPED;
         Some (st1, Dropped_by_network)
       }
     }
   }"

definition router_forward where
  "router_forward = worker_sendPacket"

section \<open>Lemmas over the interface\<close>

lemma length_status:
  "ns_packets st p = Some pk \<Longrightarrow>
   routerqueue_getPacketLength (packet_put st p (add_status tracing s pk)) x = routerqueue_getPacketLength st x"
  by (rule packet_put_length) simp_all

definition router_dequeues ::
  "bool \<Rightarrow> net_store \<Rightarrow> simtime \<Rightarrow> router \<Rightarrow> router \<Rightarrow> net_store \<Rightarrow> gpointer \<Rightarrow> gpointer list \<Rightarrow> bool" where
  "router_dequeues tracing st now rt rt' st' p dropped \<longleftrightarrow>
     router_dequeue tracing st now rt = Some (rt', st', p) \<and>
     qm_contents (rt_queueManager rt) =
       dropped @ (if p = NULL then [] else p # qm_contents (rt_queueManager rt')) \<and>
     (p = NULL \<longrightarrow> qm_contents (rt_queueManager rt') = []) \<and>
     (\<exists>st1. drop_all tracing st dropped = Some st1 \<and>
        (if p = NULL then st' = st1 else packet_addDeliveryStatus tracing st1 p PDS_ROUTER_DEQUEUED = Some st'))"

context queue_hooks_laws
begin

definition router_ok :: "net_store \<Rightarrow> simtime \<Rightarrow> router \<Rightarrow> bool" where
  "router_ok st now rt \<longleftrightarrow> rt_queueHooks rt = hooks \<and> time_ok now \<and> sound st now (rt_queueManager rt)"

lemma sound_status:
  assumes s: "sound st now m" and t: "time_ok now" and p: "ns_packets st p = Some pk" "pk_protocol pk \<noteq> PNONE"
  shows "packet_addDeliveryStatus tracing st p s = Some (packet_put st p (add_status tracing s pk))"
    and "sound (packet_put st p (add_status tracing s pk)) now m"
proof -
  have ok: "net_ok st" "held st (qm_contents m)" using sound_held [OF s] by auto
  have pr: "printable tracing pk" using p(2) by (simp add: printable_def)
  show "packet_addDeliveryStatus tracing st p s = Some (packet_put st p (add_status tracing s pk))"
    using packet_addDeliveryStatus_ok(1) [OF ok(1) p(1) pr] .
  show "sound (packet_put st p (add_status tracing s pk)) now m"
    using frame [OF s packet_addDeliveryStatus_ok(2) [OF ok(1) p(1) pr] _ order_refl t] ok(2)
    by (simp add: held_status [OF p(1)] length_status [OF p(1)])
qed

lemma router_enqueue_ok:
  assumes rt: "router_ok st now rt" and room: "qm_room (rt_queueManager rt)" and r: "routable st p"
  shows "\<exists>rt' st' queued notify. router_enqueue tracing st now rt p = Some (rt', st', queued, notify) \<and>
     router_ok st' now rt' \<and>
     qm_contents (rt_queueManager rt') = qm_contents (rt_queueManager rt) @ (if queued then [p] else []) \<and>
     (notify \<longleftrightarrow> queued \<and> qm_contents (rt_queueManager rt) = [])"
proof -
  let ?m = "rt_queueManager rt"
  have s: "sound st now ?m" and t: "time_ok now" and h: "rt_queueHooks rt = hooks" using rt by (auto simp: router_ok_def)
  obtain pk where pk: "ns_packets st p = Some pk" "pk_protocol pk \<noteq> PNONE" using r by (auto simp: routable_def)
  have p0: "p \<noteq> NULL" using net_okD(3) pk(1) sound_held [OF s] by blast
  obtain m' st1 queued where e: "qh_enqueue hooks st now ?m p = Some (m', st1, queued)" "sound st1 now m'"
    "if queued then qm_contents m' = qm_contents ?m @ [p] \<and> packet_ref st p = Some st1 else m' = ?m \<and> st1 = st"
    using enqueue_law [OF s room r] by blast
  obtain pk1 where pk1: "ns_packets st1 p = Some pk1" "pk_protocol pk1 \<noteq> PNONE"
    using e(3) pk by (cases queued) (auto simp: packet_ref_def)
  note status = sound_status [OF e(2) t pk1]
  let ?s = "if queued then PDS_ROUTER_ENQUEUED else PDS_ROUTER_DROPPED"
  have x: "x \<noteq> NULL" if "x \<in> set (qm_contents ?m)" for x
    using heldE [of st "qm_contents ?m" x] sound_held [OF s] net_okD(3) that by metis
  let ?b = "case qm_contents ?m of [] \<Rightarrow> NULL | p # ps \<Rightarrow> p"
  have "router_enqueue tracing st now rt p = Some (rt\<lparr>rt_queueManager := m'\<rparr>,
      packet_put st1 p (add_status tracing ?s pk1), queued, ?b = NULL \<and> queued)"
    using p0 e(1) peek_law [OF s] status(1) by (simp add: router_enqueue_def h)
  moreover have "(?b = NULL) = (qm_contents ?m = [])" using x by (auto split: list.split)
  moreover have "router_ok (packet_put st1 p (add_status tracing ?s pk1)) now (rt\<lparr>rt_queueManager := m'\<rparr>)"
    using status(2) t h by (simp add: router_ok_def)
  ultimately show ?thesis using e(3) by (cases queued) auto
qed

lemma router_dequeue_ok:
  assumes rt: "router_ok st now rt"
  shows "\<exists>rt' st' p dropped. router_dequeues tracing st now rt rt' st' p dropped \<and> router_ok st' now rt'"
proof -
  let ?m = "rt_queueManager rt"
  have s: "sound st now ?m" and t: "time_ok now" and h: "rt_queueHooks rt = hooks" using rt by (auto simp: router_ok_def)
  obtain m' st1 p dropped where d: "qh_dequeue hooks tracing st now ?m = Some (m', st1, p)" "sound st1 now m'"
    "qm_contents ?m = dropped @ (if p = NULL then [] else p # qm_contents m')"
    "p = NULL \<longrightarrow> qm_contents m' = []" "drop_all tracing st dropped = Some st1"
    "p \<noteq> NULL \<longrightarrow> held st1 (p # qm_contents m')"
    using dequeue_law [OF s] by blast
  let ?rt = "rt\<lparr>rt_queueManager := m'\<rparr>"
  show ?thesis
  proof (cases "p = NULL")
    case True
    then have "router_dequeues tracing st now rt ?rt st1 p dropped"
      using d h by (simp add: router_dequeues_def router_dequeue_def)
    then show ?thesis using d(2) t h unfolding router_ok_def by fastforce
  next
    case False
    obtain pk where pk: "ns_packets st1 p = Some pk" "pk_protocol pk \<noteq> PNONE"
      using heldE [of st1 "p # qm_contents m'" p] d(6) False by (metis list.set_intros(1))
    note status = sound_status [OF d(2) t pk, of PDS_ROUTER_DEQUEUED]
    have "router_dequeues tracing st now rt ?rt (packet_put st1 p (add_status tracing PDS_ROUTER_DEQUEUED pk)) p dropped"
      using d h status(1) False by (simp add: router_dequeues_def router_dequeue_def)
    then show ?thesis using status(2) t h unfolding router_ok_def by fastforce
  qed
qed

lemma router_ok_step:
  assumes "router_ok st now rt" and "rt' = rt" and "net_ok st'" and "held st' (qm_contents (rt_queueManager rt))"
    and "now \<le> now'" and "time_ok now'"
    and "\<And>p. p \<in> set (qm_contents (rt_queueManager rt)) \<Longrightarrow>
      routerqueue_getPacketLength st' p = routerqueue_getPacketLength st p"
  shows "router_ok st' now' rt'"
  using assms frame [of st now "rt_queueManager rt" st' now'] by (simp add: router_ok_def)

lemma router_ok_new:
  "router_new mode interface = Some rt \<Longrightarrow> mode_hooks mode = hooks \<Longrightarrow> net_ok st \<Longrightarrow> time_ok now \<Longrightarrow>
   router_ok st now rt"
  using new_sound by (auto simp: router_new_def router_ok_def Let_def)

lemma router_unref_ok:
  assumes "router_ok st now rt" and "0 < rt_referenceCount rt"
  shows "\<exists>st' r. router_unref tracing st rt = Some (st', r) \<and> net_ok st'"
proof -
  have s: "sound st now (rt_queueManager rt)" and h: "rt_queueHooks rt = hooks" using assms by (auto simp: router_ok_def)
  obtain st' where "unref_all tracing st (qm_contents (rt_queueManager rt)) = Some st'" "net_ok st'"
    using unref_all_ok sound_held [OF s] by blast
  then show ?thesis using assms(2) free_law [OF s] h sound_held [OF s]
    by (simp add: router_unref_def router_free_def Let_def)
qed

end

section \<open>Histories of a router\<close>

text \<open>
  One router, the packets of all hosts, and the time. Besides the calls on the router, the other
  components run: they change the store and the time goes on, but they keep the references the
  router holds and the length of the packets in its queue.
\<close>

inductive router_step ::
  "bool \<Rightarrow> router \<times> net_store \<times> simtime \<Rightarrow> router \<times> net_store \<times> simtime \<Rightarrow> bool" for tracing where
  enqueue: "routable st p \<Longrightarrow> qm_room (rt_queueManager rt) \<Longrightarrow>
     router_enqueue tracing st now rt p = Some (rt', st', queued, notify) \<Longrightarrow>
     router_step tracing (rt, st, now) (rt', st', now)"
| dequeue: "router_dequeue tracing st now rt = Some (rt', st', p) \<Longrightarrow>
     router_step tracing (rt, st, now) (rt', st', now)"
| reference: "router_step tracing (rt, st, now) (router_ref rt, st, now)"
| elsewhere: "net_ok st' \<Longrightarrow> held st' (qm_contents (rt_queueManager rt)) \<Longrightarrow> now \<le> now' \<Longrightarrow> time_ok now' \<Longrightarrow>
     (\<And>p. p \<in> set (qm_contents (rt_queueManager rt)) \<Longrightarrow>
        routerqueue_getPacketLength st' p = routerqueue_getPacketLength st p) \<Longrightarrow>
     router_step tracing (rt, st, now) (rt, st', now')"

abbreviation router_steps where
  "router_steps tracing \<equiv> (router_step tracing)\<^sup>*\<^sup>*"

context queue_hooks_laws
begin

lemma router_run_step:
  assumes "router_step tracing (rt, st, now) (rt', st', now')" and ok: "router_ok st now rt"
  shows "router_ok st' now' rt'"
  using assms(1)
proof cases
  case (enqueue p queued notify)
  then show ?thesis using router_enqueue_ok [OF ok enqueue(3,2)] by auto
next
  case (dequeue p)
  then show ?thesis using router_dequeue_ok [OF ok] by (auto simp: router_dequeues_def)
next
  case reference
  then show ?thesis using ok by (simp add: router_ref_def router_ok_def)
next
  case elsewhere
  then show ?thesis using router_ok_step [OF ok] by blast
qed

lemma router_run:
  "router_steps tracing (rt, st, now) (rt', st', now') \<Longrightarrow> router_ok st now rt \<Longrightarrow> router_ok st' now' rt'"
proof (induction "(rt', st', now')" arbitrary: rt' st' now' rule: rtranclp_induct)
  case (step y)
  obtain a b c where "y = (a, b, c)" by (cases y)
  then show ?case using step router_run_step by blast
qed simp

lemmas router_run_new = router_run [OF _ router_ok_new]

end

section \<open>Properties\<close>

text \<open>The three instances, by the mode of the router.\<close>

definition router_enqueues ::
  "bool \<Rightarrow> net_store \<Rightarrow> simtime \<Rightarrow> router \<Rightarrow> gpointer \<Rightarrow> router \<Rightarrow> net_store \<Rightarrow> bool \<Rightarrow> bool \<Rightarrow> bool" where
  "router_enqueues tracing st now rt p rt' st' queued notify \<longleftrightarrow>
     router_enqueue tracing st now rt p = Some (rt', st', queued, notify) \<and>
     qm_contents (rt_queueManager rt') = qm_contents (rt_queueManager rt) @ (if queued then [p] else []) \<and>
     (notify \<longleftrightarrow> queued \<and> qm_contents (rt_queueManager rt) = [])"

text \<open>What holds in the reachable states of a router.\<close>

definition router_safe :: "bool \<Rightarrow> net_store \<Rightarrow> simtime \<Rightarrow> router \<Rightarrow> bool" where
  "router_safe tracing st now rt \<longleftrightarrow>
     (\<exists>rt' st' p dropped. router_dequeues tracing st now rt rt' st' p dropped) \<and>
     (\<forall>p. routable st p \<and> qm_room (rt_queueManager rt) \<longrightarrow>
        (\<exists>rt' st' queued notify. router_enqueues tracing st now rt p rt' st' queued notify)) \<and>
     (0 < rt_referenceCount rt \<longrightarrow> (\<exists>st' r. router_unref tracing st rt = Some (st', r) \<and> net_ok st'))"

context queue_hooks_laws
begin

lemma router_ok_safe: "router_ok st now rt \<Longrightarrow> router_safe tracing st now rt"
  unfolding router_safe_def router_enqueues_def
  using router_dequeue_ok [of st now rt] router_enqueue_ok [of st now rt] router_unref_ok [of st now rt] by metis

lemma router_reachable_safe:
  "router_steps tracing (rt0, st0, now0) (rt, st, now) \<Longrightarrow> router_new mode interface = Some rt0 \<Longrightarrow>
   mode_hooks mode = hooks \<Longrightarrow> net_ok st0 \<Longrightarrow> time_ok now0 \<Longrightarrow> router_safe tracing st now rt"
  by (rule router_ok_safe) (rule router_run_new)

end

lemma reachable_router_safe:
  assumes "router_new mode interface = Some rt0" and "net_ok st0" and "time_ok now0"
    and "router_steps tracing (rt0, st0, now0) (rt, st, now)"
  shows "router_safe tracing st now rt"
proof (cases mode)
  case QUEUE_MANAGER_SINGLE
  show ?thesis
    by (rule single.router_reachable_safe [OF assms(4,1) _ assms(2,3)]) (simp add: mode_hooks_def QUEUE_MANAGER_SINGLE)
next
  case QUEUE_MANAGER_STATIC
  show ?thesis
    by (rule static.router_reachable_safe [OF assms(4,1) _ assms(2,3)]) (simp add: mode_hooks_def QUEUE_MANAGER_STATIC)
next
  case QUEUE_MANAGER_CODEL
  show ?thesis
    by (rule codel.router_reachable_safe [OF assms(4,1) _ assms(2,3)]) (simp add: mode_hooks_def QUEUE_MANAGER_CODEL)
qed

text \<open>C5: in every reachable state of a router of any kind, dequeueing succeeds (no assertion fails
  and the CoDel loop ends) and respects the order of arrival: it drops a prefix of the queue, each
  dropped packet being marked and released, and returns the first packet that is left, marked as
  dequeued, or nothing when the whole queue is gone.\<close>

theorem router_dequeue_fifo:
  assumes "router_new mode interface = Some rt0" and "net_ok st0" and "time_ok now0"
    and "router_steps tracing (rt0, st0, now0) (rt, st, now)"
  shows "\<exists>rt' st' p dropped st1.
     router_dequeue tracing st now rt = Some (rt', st', p) \<and>
     qm_contents (rt_queueManager rt) = dropped @ (if p = NULL then [] else p # qm_contents (rt_queueManager rt')) \<and>
     drop_all tracing st dropped = Some st1 \<and>
     (if p = NULL then st' = st1 \<and> qm_contents (rt_queueManager rt') = []
      else packet_addDeliveryStatus tracing st1 p PDS_ROUTER_DEQUEUED = Some st')"
proof -
  obtain rt' st' p dropped where "router_dequeues tracing st now rt rt' st' p dropped"
    using reachable_router_safe [OF assms] unfolding router_safe_def by blast
  moreover from this obtain st1 where "drop_all tracing st dropped = Some st1"
    "if p = NULL then st' = st1 else packet_addDeliveryStatus tracing st1 p PDS_ROUTER_DEQUEUED = Some st'"
    unfolding router_dequeues_def by blast
  ultimately show ?thesis unfolding router_dequeues_def
    by (intro exI [of _ rt'] exI [of _ st'] exI [of _ p] exI [of _ dropped] exI [of _ st1]) simp
qed

text \<open>C13: in every reachable state of a router of any kind, enqueueing a packet succeeds; it either
  appends the packet to the queue or leaves the queue as it was, and the network interface is
  notified exactly when a packet was put into an empty queue.\<close>

theorem router_enqueue_appends:
  assumes "router_new mode interface = Some rt0" and "net_ok st0" and "time_ok now0"
    and "router_steps tracing (rt0, st0, now0) (rt, st, now)"
    and "routable st p" and "qm_room (rt_queueManager rt)"
  shows "\<exists>rt' st' queued notify.
     router_enqueue tracing st now rt p = Some (rt', st', queued, notify) \<and>
     qm_contents (rt_queueManager rt') = qm_contents (rt_queueManager rt) @ (if queued then [p] else []) \<and>
     (notify \<longleftrightarrow> queued \<and> qm_contents (rt_queueManager rt) = [])"
  using reachable_router_safe [OF assms(1-4)] assms(5,6) unfolding router_safe_def router_enqueues_def by blast


section \<open>Sending a packet\<close>


section \<open>The control law and RFC 8289\<close>

lemma round_sig_shift:
  assumes "x < 2 ^ 53"
  shows "round_sig (x * 2 ^ j) False = x * 2 ^ j"
proof (cases "x * 2 ^ j < 2 ^ 53")
  case False
  let ?n = "x * 2 ^ j" and ?k = "bit_length (x * 2 ^ j) - 53"
  have "?n < 2 ^ (53 + j)" using assms by (simp add: power_add)
  then have "bit_length ?n \<le> 53 + j" by (rule bit_length_le)
  then have "?k \<le> j" by simp
  then have d: "2 ^ ?k dvd ?n" by (simp add: le_imp_power_dvd)
  then have "?n mod 2 ^ ?k = 0" "?n div 2 ^ ?k * 2 ^ ?k = ?n" by simp_all
  then show ?thesis using False by (simp add: round_sig_def Let_def)
qed (rule round_sig_exact)

lemma isqrt_square: "isqrt (m * m) = m"
proof (rule antisym)
  have "\<not> m * m < isqrt (m * m) * isqrt (m * m)" using isqrt_bounds [of "m * m"] by simp
  then show "isqrt (m * m) \<le> m" by (meson mult_strict_mono' not_le zero_le)
  have "\<not> (isqrt (m * m) + 1) * (isqrt (m * m) + 1) \<le> m * m" using isqrt_bounds [of "m * m"] by simp
  then show "m \<le> isqrt (m * m)" by (metis Suc_eq_plus1 mult_le_mono not_less_eq_eq)
qed

lemma bit_length_power: "bit_length (2 ^ n) = Suc n"
  by (induction n) (simp_all add: bit_length.simps [of "2 ^ Suc _"] bit_length.simps)

lemma double_sqrt_4: "double_sqrt 4 = (2 ^ 65, 2 ^ 64)"
proof -
  have e: "(4 :: nat) * 2 ^ 128 = 2 ^ 65 * 2 ^ 65" by simp
  have "round_sig (2 ^ 65) False = 2 ^ 65" using round_sig_shift [of 1 65] by simp
  then show ?thesis unfolding double_sqrt_def Let_def e isqrt_square by (simp only: simp_thms)
qed

lemma double_div_half:
  assumes "x < 2 ^ 53"
  shows "double_div (x * 2 ^ 64) (2 ^ 65) = (x * 2 ^ 118, 2 ^ 119)"
proof -
  have bl: "53 + bit_length (2 ^ 65) = 119" by (simp only: bit_length_power)
  have e: "x * 2 ^ 64 * 2 ^ 119 = (x * 2 ^ 118) * 2 ^ 65" by simp
  have "x * 2 ^ 64 * 2 ^ 119 div 2 ^ 65 = x * 2 ^ 118" "x * 2 ^ 64 * 2 ^ 119 mod 2 ^ 65 = 0"
    unfolding e by simp_all
  then show ?thesis unfolding double_div_def bl Let_def
    using round_sig_shift [OF assms, of 118] by (simp only: simp_thms)
qed

text \<open>C23: the control law divides the whole time stamp, not the interval, by the root of the drop
  count. After four drops the next drop time is half of the current time: from 100 milliseconds of
  simulated time on it lies in the past, where RFC 8289 asks for a time after the current one.\<close>

theorem codel_controlLaw_in_past:
  assumes "unat ts + 100000000 < 2 ^ 53"
  shows "routerqueuecodel_controlLaw 4 ts = Some (of_nat ((unat ts + 100000001) div 2)) \<and>
         (100000001 < unat ts \<longrightarrow> (of_nat ((unat ts + 100000001) div 2) :: simtime) < ts)"
proof
  let ?x = "unat ts + 100000000"
  have n: "unat (ts + CODEL_PARAM_INTERVAL_SIMTIME) = ?x"
    using assms by (simp add: CODEL_PARAM_INTERVAL_SIMTIME_def SIMTIME_ONE_MILLISECOND_def unat_word_ariths)
  have "(2 * (?x * 2 ^ 118) + 2 ^ 119) div (2 * 2 ^ 119) = (?x + 1) div 2"
  proof -
    have "2 * (?x * 2 ^ 118) + 2 ^ 119 = (?x + 1) * 2 ^ 119" by simp
    moreover have "2 * 2 ^ 119 = (2 :: nat) * 2 ^ 119" ..
    ultimately show ?thesis by (simp only: div_mult_mult2 power_not_zero) simp
  qed
  moreover have "\<not> (2 ^ 65 = (0 :: nat) \<or> 2 ^ 64 \<le> (?x + 1) div 2)" using assms by simp
  moreover have "double_div (round_sig (unat (ts + CODEL_PARAM_INTERVAL_SIMTIME)) False * 2 ^ 64) (2 ^ 65)
      = (?x * 2 ^ 118, 2 ^ 119)"
    unfolding n round_sig_exact [OF assms] by (rule double_div_half [OF assms])
  moreover have "unat (4 :: u32) = 4" by simp
  moreover have "?x + 1 = unat ts + 100000001" by simp
  ultimately show "routerqueuecodel_controlLaw 4 ts = Some (of_nat ((unat ts + 100000001) div 2))"
    unfolding routerqueuecodel_controlLaw_def Let_def by (simp only: double_sqrt_4 prod.case if_False)
  show "100000001 < unat ts \<longrightarrow> (of_nat ((unat ts + 100000001) div 2) :: simtime) < ts"
    using assms by (auto simp: word_less_nat_alt unat_of_nat)
qed

section \<open>Witnesses\<close>

text \<open>A CoDel router at five nanoseconds with the packet 1 of the sample store enqueued.\<close>

definition sample_router :: router where
  "sample_router = the (router_new QUEUE_MANAGER_CODEL 77)"

definition sample_enqueued :: "router \<times> net_store \<times> bool \<times> bool" where
  "sample_enqueued = the (router_enqueue True sample_store 5 sample_router 1)"

lemma sample_router_new: "router_new QUEUE_MANAGER_CODEL 77 = Some sample_router"
  by (simp add: sample_router_def router_new_def Let_def)

lemma sample_net_ok: "net_ok sample_store"
  using net_ok_steps [OF sample_net_steps net_ok_empty] .

lemma sample_time_ok: "time_ok 5"
  by (simp add: time_ok_def)

lemma sample_routable: "routable sample_store 1"
  using sample_live sample_packet_fields by (simp add: routable_def)

lemma sample_room: "qm_room (rt_queueManager sample_router)"
  by (simp add: sample_router_def router_new_def mode_hooks_def routerqueuecodel_getHooks_def
      routerqueuecodel_new_def codel_bound_def Let_def)

lemma sample_router_step:
  "router_steps True (sample_router, sample_store, 5) (fst sample_enqueued, fst (snd sample_enqueued), 5)"
proof -
  have "router_safe True sample_store 5 sample_router"
    using reachable_router_safe [OF sample_router_new sample_net_ok sample_time_ok] by blast
  then obtain rt' st' q n where "router_enqueue True sample_store 5 sample_router 1 = Some (rt', st', q, n)"
    using sample_routable sample_room unfolding router_safe_def router_enqueues_def by blast
  then have "router_step True (sample_router, sample_store, 5) (fst sample_enqueued, fst (snd sample_enqueued), 5)"
    using router_step.enqueue [OF sample_routable sample_room] by (simp add: sample_enqueued_def)
  then show ?thesis by simp
qed

theorem router_dequeue_fifo_witness:
  "\<exists>rt' st' p dropped st1.
     router_dequeue True (fst (snd sample_enqueued)) 5 (fst sample_enqueued) = Some (rt', st', p) \<and>
     qm_contents (rt_queueManager (fst sample_enqueued)) =
       dropped @ (if p = NULL then [] else p # qm_contents (rt_queueManager rt')) \<and>
     drop_all True (fst (snd sample_enqueued)) dropped = Some st1 \<and>
     (if p = NULL then st' = st1 \<and> qm_contents (rt_queueManager rt') = []
      else packet_addDeliveryStatus True st1 p PDS_ROUTER_DEQUEUED = Some st')"
  using router_dequeue_fifo [OF sample_router_new sample_net_ok sample_time_ok sample_router_step] .

theorem router_enqueue_appends_witness:
  "\<exists>rt' st' queued notify. router_enqueue True sample_store 5 sample_router 1 = Some (rt', st', queued, notify) \<and>
     qm_contents (rt_queueManager rt') = qm_contents (rt_queueManager sample_router) @ (if queued then [1] else []) \<and>
     (notify \<longleftrightarrow> queued \<and> qm_contents (rt_queueManager sample_router) = [])"
  using router_enqueue_appends [OF sample_router_new sample_net_ok sample_time_ok rtranclp.rtrancl_refl
      sample_routable sample_room] .


text \<open>A whole number of milliseconds is converted exactly.\<close>

lemma latency_delay_nat:
  assumes "k * 1000000 < 2 ^ 53"
  shows "latency_delay (of_nat k) = of_nat (k * 1000000)"
proof -
  have q: "quotient_of (of_nat k) = (int k, 1)" using quotient_of_int [of "int k"] by simp
  have bl: "53 + bit_length 1 = 54" using bit_length_power [of 0] by simp
  have "double_div (k * 1000000) 1 = (k * 1000000 * 2 ^ 54, 2 ^ 54)"
    unfolding double_div_def bl Let_def div_by_1 using round_sig_shift [OF assms, of 54] by simp
  moreover have "(k * 1000000 * 2 ^ 54 + 2 ^ 54 - 1) div 2 ^ 54 = k * 1000000"
  proof -
    have "k * 1000000 * 2 ^ 54 + 2 ^ 54 - 1 = (2 ^ 54 - 1) + k * 1000000 * 2 ^ 54" by simp
    then show ?thesis by (simp only: div_mult_self1) simp
  qed
  ultimately show ?thesis unfolding latency_delay_def q Let_def
    by (simp only: prod.case nat_int) simp
qed

definition sample_address :: "in_addr \<Rightarrow> address" where
  "sample_address ip = address_new (of_nat (ip_byte ip 3)) 1 ip ''host'' False"


theorem codel_controlLaw_in_past_witness:
  "routerqueuecodel_controlLaw 4 10000000000 = Some 5050000000 \<and> (5050000000 :: simtime) < 10000000000"
  using codel_controlLaw_in_past [of 10000000000] by simp

end
