(* ===== verification/Descriptor.thy ===== *)
theory Descriptor
  imports Work "HOL-Library.Sublist"
begin

text \<open>
  \<^verbatim>\<open>host/status_listener.c\<close> and \<^verbatim>\<open>host/descriptor/descriptor.c\<close>: the status bits of a descriptor
  and the listeners that are told when monitored bits flip. Timers, event counters, pipes, sockets
  and epoll objects extend the descriptor.

  Live listeners are in a store indexed by their pointers. The callback of a listener is code of
  another component: the argument \<open>cb\<close>, which may change the descriptor and the listeners. The
  results of the notifying routines also give the listeners that were called, in order. The hash
  table of a descriptor's listeners is the list of its keys, in the order in which
  \<^verbatim>\<open>g_hash_table_get_keys\<close> gives them.
\<close>

text \<open>Error numbers of the operating system.\<close>

definition EWOULDBLOCK :: int where "EWOULDBLOCK = 11"
definition EFAULT :: int where "EFAULT = 14"
definition EINVAL :: int where "EINVAL = 22"
definition EPIPE :: int where "EPIPE = 32"

section \<open>Status listeners\<close>

definition STATUS_NONE :: u32 where "STATUS_NONE = 0"
definition STATUS_DESCRIPTOR_ACTIVE :: u32 where "STATUS_DESCRIPTOR_ACTIVE = push_bit 0 1"
definition STATUS_DESCRIPTOR_READABLE :: u32 where "STATUS_DESCRIPTOR_READABLE = push_bit 1 1"
definition STATUS_DESCRIPTOR_WRITABLE :: u32 where "STATUS_DESCRIPTOR_WRITABLE = push_bit 2 1"
definition STATUS_DESCRIPTOR_CLOSED :: u32 where "STATUS_DESCRIPTOR_CLOSED = push_bit 3 1"
definition STATUS_FUTEX_WAKEUP :: u32 where "STATUS_FUTEX_WAKEUP = push_bit 4 1"

datatype StatusListenerFilter = SLF_NEVER | SLF_OFF_TO_ON | SLF_ON_TO_OFF | SLF_ALWAYS

record status_listener =
  sl_monitoring :: u32
  sl_filter :: StatusListenerFilter
  sl_notifyFunc :: gpointer
  sl_callbackObject :: gpointer
  sl_objectFreeFunc :: gpointer
  sl_callbackArgument :: gpointer
  sl_argumentFreeFunc :: gpointer
  sl_referenceCount :: int

type_synonym listener_store = "gpointer \<rightharpoonup> status_listener"

definition statuslistener_new ::
  "listener_store \<Rightarrow> gpointer \<Rightarrow> gpointer \<Rightarrow> gpointer \<Rightarrow> gpointer \<Rightarrow> gpointer \<Rightarrow> gpointer \<Rightarrow> listener_store" where
  "statuslistener_new ls p notifyFunc callbackObject objectFreeFunc callbackArgument argumentFreeFunc =
     ls(p \<mapsto> \<lparr>sl_monitoring = 0, sl_filter = SLF_NEVER, sl_notifyFunc = notifyFunc,
             sl_callbackObject = callbackObject, sl_objectFreeFunc = objectFreeFunc,
             sl_callbackArgument = callbackArgument, sl_argumentFreeFunc = argumentFreeFunc,
             sl_referenceCount = 1\<rparr>)"

text \<open>The calls made when a listener is freed, each a function with its argument.\<close>

definition statuslistener_free :: "status_listener \<Rightarrow> (gpointer \<times> gpointer) list" where
  "statuslistener_free l =
     (if sl_callbackObject l \<noteq> NULL \<and> sl_objectFreeFunc l \<noteq> NULL
      then [(sl_objectFreeFunc l, sl_callbackObject l)] else []) @
     (if sl_callbackArgument l \<noteq> NULL \<and> sl_argumentFreeFunc l \<noteq> NULL
      then [(sl_argumentFreeFunc l, sl_callbackArgument l)] else [])"

definition statuslistener_ref :: "listener_store \<Rightarrow> gpointer \<Rightarrow> listener_store option" where
  "statuslistener_ref ls p = do {
     l \<leftarrow> ls p;
     Some (ls(p \<mapsto> l\<lparr>sl_referenceCount := sl_referenceCount l + 1\<rparr>))
   }"

definition statuslistener_unref ::
  "listener_store \<Rightarrow> gpointer \<Rightarrow> (listener_store \<times> (gpointer \<times> gpointer) list) option" where
  "statuslistener_unref ls p = do {
     l \<leftarrow> ls p;
     let l' = l\<lparr>sl_referenceCount := sl_referenceCount l - 1\<rparr>;
     utility_assert (sl_referenceCount l' \<ge> 0);
     Some (if sl_referenceCount l' = 0 then (ls(p := None), statuslistener_free l')
           else (ls(p \<mapsto> l'), []))
   }"

definition statuslistener_shouldNotify :: "status_listener \<Rightarrow> u32 \<Rightarrow> u32 \<Rightarrow> bool" where
  "statuslistener_shouldNotify l currentStatus transitions =
     (let flipped = (sl_monitoring l AND transitions \<noteq> 0); on = (sl_monitoring l AND currentStatus \<noteq> 0)
      in case sl_filter l of
           SLF_OFF_TO_ON \<Rightarrow> flipped \<and> on
         | SLF_ON_TO_OFF \<Rightarrow> flipped \<and> \<not> on
         | SLF_ALWAYS \<Rightarrow> flipped
         | SLF_NEVER \<Rightarrow> False)"

definition statuslistener_setMonitorStatus ::
  "listener_store \<Rightarrow> gpointer \<Rightarrow> u32 \<Rightarrow> StatusListenerFilter \<Rightarrow> listener_store option" where
  "statuslistener_setMonitorStatus ls p status filter' = do {
     l \<leftarrow> ls p;
     Some (ls(p \<mapsto> l\<lparr>sl_monitoring := status, sl_filter := filter'\<rparr>))
   }"

section \<open>Descriptors\<close>

datatype LegacyDescriptorType =
  DT_NONE | DT_TCPSOCKET | DT_UDPSOCKET | DT_PIPE | DT_UNIXSOCKET | DT_EPOLL | DT_EVENTD | DT_TIMER | DT_FILE

record descriptor =
  ds_ownerProcess :: gpointer
  ds_handle :: int
  ds_type :: LegacyDescriptorType
  ds_status :: u32
  ds_listeners :: "gpointer list"
  ds_referenceCount :: int
  ds_flags :: u32

type_synonym desc_world = "descriptor \<times> listener_store"
type_synonym desc_callback = "status_listener \<Rightarrow> desc_world \<Rightarrow> desc_world"

definition descriptor_init :: "LegacyDescriptorType \<Rightarrow> descriptor" where
  "descriptor_init type = \<lparr>ds_ownerProcess = NULL, ds_handle = - 1, ds_type = type, ds_status = 0,
     ds_listeners = [], ds_referenceCount = 1, ds_flags = 0\<rparr>"

definition statuslistener_invokeNotifyFunc ::
  "(status_listener \<Rightarrow> 'd \<times> listener_store \<Rightarrow> 'd \<times> listener_store) \<Rightarrow> status_listener \<Rightarrow> 'd \<times> listener_store \<Rightarrow>
   'd \<times> listener_store" where
  "statuslistener_invokeNotifyFunc cb l w = (if sl_notifyFunc l \<noteq> NULL then cb l w else w)"

definition statuslistener_onStatusChanged ::
  "(status_listener \<Rightarrow> 'd \<times> listener_store \<Rightarrow> 'd \<times> listener_store) \<Rightarrow> gpointer \<Rightarrow> 'd \<times> listener_store \<Rightarrow> u32 \<Rightarrow> u32 \<Rightarrow>
   (('d \<times> listener_store) \<times> gpointer list) option" where
  "statuslistener_onStatusChanged cb p w currentStatus transitions = do {
     l \<leftarrow> snd w p;
     Some (if statuslistener_shouldNotify l currentStatus transitions
           then (statuslistener_invokeNotifyFunc cb l w, [p]) else (w, []))
   }"

fun notify_loop ::
  "desc_callback \<Rightarrow> u32 \<Rightarrow> gpointer list \<Rightarrow> desc_world \<Rightarrow> (desc_world \<times> gpointer list) option" where
  "notify_loop cb oldStatus [] w = Some (w, [])"
| "notify_loop cb oldStatus (p # ps) w =
     (let statusesChanged = ds_status (fst w) XOR oldStatus
      in if statusesChanged = 0 then Some (w, [])
         else do {
           (w1, called) \<leftarrow> (if p \<in> set (ds_listeners (fst w))
                            then statuslistener_onStatusChanged cb p w (ds_status (fst w)) statusesChanged
                            else Some (w, []));
           (w2, rest) \<leftarrow> notify_loop cb oldStatus ps w1;
           Some (w2, called @ rest)
         })"

definition descriptor_handleStatusChange ::
  "desc_callback \<Rightarrow> desc_world \<Rightarrow> u32 \<Rightarrow> (desc_world \<times> gpointer list) option" where
  "descriptor_handleStatusChange cb w oldStatus =
     (if ds_status (fst w) XOR oldStatus = 0 then Some (w, [])
      else notify_loop cb oldStatus (ds_listeners (fst w)) w)"

definition set_bits :: "u32 \<Rightarrow> u32 \<Rightarrow> bool \<Rightarrow> u32" where
  "set_bits old status doSetBits = (if doSetBits then old OR status else old AND NOT status)"

definition descriptor_adjustStatus ::
  "desc_callback \<Rightarrow> desc_world \<Rightarrow> u32 \<Rightarrow> bool \<Rightarrow> (desc_world \<times> gpointer list) option" where
  "descriptor_adjustStatus cb w status doSetBits =
     (let oldStatus = ds_status (fst w)
      in descriptor_handleStatusChange cb
           ((fst w)\<lparr>ds_status := set_bits oldStatus status doSetBits\<rparr>, snd w) oldStatus)"

definition descriptor_ref :: "descriptor \<Rightarrow> descriptor" where
  "descriptor_ref d = d\<lparr>ds_referenceCount := ds_referenceCount d + 1\<rparr>"

fun unref_listeners :: "listener_store \<Rightarrow> gpointer list \<Rightarrow> (listener_store \<times> (gpointer \<times> gpointer) list) option" where
  "unref_listeners ls [] = Some (ls, [])"
| "unref_listeners ls (p # ps) = do {
     (ls1, calls1) \<leftarrow> statuslistener_unref ls p;
     (ls2, calls2) \<leftarrow> unref_listeners ls1 ps;
     Some (ls2, calls1 @ calls2)
   }"

text \<open>Destroying the table of listeners releases each of them.\<close>

definition descriptor_clear :: "desc_world \<Rightarrow> (listener_store \<times> (gpointer \<times> gpointer) list) option" where
  "descriptor_clear w = unref_listeners (snd w) (ds_listeners (fst w))"

text \<open>
  The free function of the table is called when the last reference goes; \<open>None\<close> in the result is the
  freed descriptor. The free functions of all kinds of descriptors call \<^verbatim>\<open>descriptor_clear\<close>.
\<close>

definition descriptor_unref ::
  "desc_world \<Rightarrow> (descriptor option \<times> listener_store \<times> (gpointer \<times> gpointer) list) option" where
  "descriptor_unref w = do {
     let d = (fst w)\<lparr>ds_referenceCount := ds_referenceCount (fst w) - 1\<rparr>;
     utility_assert (ds_referenceCount d \<ge> 0);
     if ds_referenceCount d = 0
     then do { (ls, calls) \<leftarrow> descriptor_clear (d, snd w); Some (None, ls, calls) }
     else Some (Some d, snd w, [])
   }"

text \<open>
  \<open>closeFunc\<close> is the close function of the kind of descriptor; the last part of the result says
  whether the owner process deregisters the descriptor.
\<close>

definition descriptor_close ::
  "desc_callback \<Rightarrow> (desc_world \<Rightarrow> (desc_world \<times> bool) option) \<Rightarrow> desc_world \<Rightarrow> (desc_world \<times> bool) option" where
  "descriptor_close cb closeFunc w = do {
     (w1, called) \<leftarrow> descriptor_adjustStatus cb w STATUS_DESCRIPTOR_CLOSED True;
     (w2, deregister) \<leftarrow> closeFunc w1;
     Some (w2, deregister \<and> ds_ownerProcess (fst w2) \<noteq> NULL)
   }"

definition descriptor_compare :: "descriptor \<Rightarrow> descriptor \<Rightarrow> int" where
  "descriptor_compare foo bar =
     (if ds_handle foo > ds_handle bar then 1 else if ds_handle foo = ds_handle bar then 0 else - 1)"

definition descriptor_getType :: "descriptor \<Rightarrow> LegacyDescriptorType" where "descriptor_getType d = ds_type d"
definition descriptor_setHandle :: "descriptor \<Rightarrow> int \<Rightarrow> descriptor" where
  "descriptor_setHandle d handle = d\<lparr>ds_handle := handle\<rparr>"
definition descriptor_getHandle :: "descriptor \<Rightarrow> int" where "descriptor_getHandle d = ds_handle d"
definition descriptor_setOwnerProcess :: "descriptor \<Rightarrow> gpointer \<Rightarrow> descriptor" where
  "descriptor_setOwnerProcess d p = d\<lparr>ds_ownerProcess := p\<rparr>"
definition descriptor_getOwnerProcess :: "descriptor \<Rightarrow> gpointer" where
  "descriptor_getOwnerProcess d = ds_ownerProcess d"
definition descriptor_getStatus :: "descriptor \<Rightarrow> u32" where "descriptor_getStatus d = ds_status d"
definition descriptor_getFlags :: "descriptor \<Rightarrow> u32" where "descriptor_getFlags d = ds_flags d"
definition descriptor_setFlags :: "descriptor \<Rightarrow> u32 \<Rightarrow> descriptor" where
  "descriptor_setFlags d flags = d\<lparr>ds_flags := flags\<rparr>"
definition descriptor_addFlags :: "descriptor \<Rightarrow> u32 \<Rightarrow> descriptor" where
  "descriptor_addFlags d flags = d\<lparr>ds_flags := ds_flags d OR flags\<rparr>"
definition descriptor_removeFlags :: "descriptor \<Rightarrow> u32 \<Rightarrow> descriptor" where
  "descriptor_removeFlags d flags = d\<lparr>ds_flags := ds_flags d AND NOT flags\<rparr>"

text \<open>
  Inserting a key that is already in the table replaces its value by itself and releases the old
  value, so that the table holds one reference.
\<close>

definition descriptor_addListener ::
  "desc_world \<Rightarrow> gpointer \<Rightarrow> (desc_world \<times> (gpointer \<times> gpointer) list) option" where
  "descriptor_addListener w p = do {
     ls \<leftarrow> statuslistener_ref (snd w) p;
     if p \<in> set (ds_listeners (fst w))
     then do { (ls', calls) \<leftarrow> statuslistener_unref ls p; Some ((fst w, ls'), calls) }
     else Some (((fst w)\<lparr>ds_listeners := ds_listeners (fst w) @ [p]\<rparr>, ls), [])
   }"

definition descriptor_removeListener ::
  "desc_world \<Rightarrow> gpointer \<Rightarrow> (desc_world \<times> (gpointer \<times> gpointer) list) option" where
  "descriptor_removeListener w p =
     (if p \<in> set (ds_listeners (fst w))
      then do { (ls, calls) \<leftarrow> statuslistener_unref (snd w) p;
                Some (((fst w)\<lparr>ds_listeners := remove1 p (ds_listeners (fst w))\<rparr>, ls), calls) }
      else Some (w, []))"

section \<open>The registry of listeners\<close>

text \<open>
  The table of a well-formed descriptor has each listener once, alive and with a reference of its own.
\<close>

definition desc_ok :: "desc_world \<Rightarrow> bool" where
  "desc_ok w \<longleftrightarrow> distinct (ds_listeners (fst w)) \<and>
     (\<forall>p \<in> set (ds_listeners (fst w)). \<exists>l. snd w p = Some l \<and> 1 \<le> sl_referenceCount l)"

lemma desc_okD:
  assumes "desc_ok w" and "p \<in> set (ds_listeners (fst w))"
  obtains l where "snd w p = Some l" "1 \<le> sl_referenceCount l"
  using assms unfolding desc_ok_def by blast

lemma desc_ok_add:
  assumes ok: "desc_ok w" and l: "snd w p = Some l" and pos: "1 \<le> sl_referenceCount l"
  shows "descriptor_addListener w p =
     (if p \<in> set (ds_listeners (fst w)) then Some (w, [])
      else Some (((fst w)\<lparr>ds_listeners := ds_listeners (fst w) @ [p]\<rparr>,
                  (snd w)(p \<mapsto> l\<lparr>sl_referenceCount := sl_referenceCount l + 1\<rparr>)), []))"
  using l pos by (cases w)
    (simp add: descriptor_addListener_def statuslistener_ref_def statuslistener_unref_def Let_def fun_upd_idem)

section \<open>Notification\<close>

text \<open>A callback that leaves the descriptor and the listeners alone, as one that only schedules work.\<close>

definition idle_callback :: "desc_callback \<Rightarrow> bool" where
  "idle_callback cb \<longleftrightarrow> (\<forall>l w. cb l w = w)"

lemma notify_loop_idle:
  assumes cb: "idle_callback cb" and ok: "desc_ok w" and ch: "ds_status (fst w) XOR old \<noteq> 0"
    and sub: "set ps \<subseteq> set (ds_listeners (fst w))"
  shows "notify_loop cb old ps w =
     Some (w, filter (\<lambda>p. statuslistener_shouldNotify (the (snd w p)) (ds_status (fst w)) (ds_status (fst w) XOR old)) ps)"
  using sub
proof (induction ps)
  case (Cons p ps)
  then obtain l where "snd w p = Some l" using desc_okD [OF ok] by (metis list.set_intros(1) subsetD)
  moreover have "cb l w = w" using cb unfolding idle_callback_def by blast
  ultimately show ?case using Cons ch
    by (simp add: statuslistener_onStatusChanged_def statuslistener_invokeNotifyFunc_def Let_def)
qed simp

lemma adjustStatus_idle:
  fixes status :: u32 and on :: bool
  assumes "idle_callback cb" and "desc_ok w"
  defines "new \<equiv> set_bits (ds_status (fst w)) status on"
  shows "descriptor_adjustStatus cb w status on =
     Some (((fst w)\<lparr>ds_status := new\<rparr>, snd w),
       if new = ds_status (fst w) then []
       else filter (\<lambda>p. statuslistener_shouldNotify (the (snd w p)) new (new XOR ds_status (fst w)))
              (ds_listeners (fst w)))"
proof -
  let ?w = "((fst w)\<lparr>ds_status := new\<rparr>, snd w)"
  have ok: "desc_ok ?w" using assms(2) by (simp add: desc_ok_def)
  have x: "(new XOR ds_status (fst w) = 0) = (new = ds_status (fst w))"
    by (rule xor_eq_0_iff)
  show ?thesis
  proof (cases "new = ds_status (fst w)")
    case True
    then show ?thesis by (simp add: descriptor_adjustStatus_def descriptor_handleStatusChange_def new_def)
  next
    case False
    then show ?thesis using notify_loop_idle [OF assms(1) ok, of "ds_status (fst w)" "ds_listeners (fst w)"] x
      by (simp add: descriptor_adjustStatus_def descriptor_handleStatusChange_def new_def [symmetric])
  qed
qed

section \<open>Single bits\<close>

lemma bit_flag: "bit (push_bit k 1 :: u32) n \<longleftrightarrow> n = k \<and> k < 32"
  by (auto simp: bit_exp_iff possible_bit_word)

lemma and_flag: "s AND push_bit n (1 :: u32) \<noteq> 0 \<longleftrightarrow> bit s n"
  by (simp add: and_exp_eq_0_iff_not_bit)

lemma bit_set_bits:
  "bit (set_bits s status on) n \<longleftrightarrow> (if on then bit s n \<or> bit status n else bit s n \<and> \<not> bit status n)"
  by (cases "n < 32") (auto simp: set_bits_def bit_or_iff bit_and_iff bit_not_iff dest: bit_imp_le_length)

lemma bit_statuses:
  "bit STATUS_DESCRIPTOR_ACTIVE n \<longleftrightarrow> n = 0"
  "bit STATUS_DESCRIPTOR_READABLE n \<longleftrightarrow> n = 1"
  "bit STATUS_DESCRIPTOR_WRITABLE n \<longleftrightarrow> n = 2"
  "bit STATUS_DESCRIPTOR_CLOSED n \<longleftrightarrow> n = 3"
  "bit STATUS_FUTEX_WAKEUP n \<longleftrightarrow> n = 4"
  unfolding STATUS_DESCRIPTOR_ACTIVE_def STATUS_DESCRIPTOR_READABLE_def STATUS_DESCRIPTOR_WRITABLE_def
    STATUS_DESCRIPTOR_CLOSED_def STATUS_FUTEX_WAKEUP_def bit_flag by simp_all

section \<open>Properties\<close>


text \<open>Adding a listener and removing it again gives back the same descriptor and listeners and frees
  nothing; adding a listener that is already in the table changes nothing.\<close>

lemma listener_add_remove_roundtrip:
  assumes "desc_ok w" and "snd w p = Some l" and "1 \<le> sl_referenceCount l"
  shows "(if p \<in> set (ds_listeners (fst w)) then descriptor_addListener w p = Some (w, [])
          else do { (w', calls) \<leftarrow> descriptor_addListener w p; descriptor_removeListener w' p } = Some (w, []))"
proof (cases "p \<in> set (ds_listeners (fst w))")
  case True
  then show ?thesis using desc_ok_add [OF assms] by simp
next
  case False
  then have r: "remove1 p (ds_listeners (fst w) @ [p]) = ds_listeners (fst w)" by (simp add: remove1_append)
  have e: "(snd w)(p \<mapsto> l) = snd w" using assms(2) by (simp add: fun_upd_idem)
  show ?thesis using False desc_ok_add [OF assms] assms(3) e r
    by (cases w) (simp add: descriptor_removeListener_def statuslistener_unref_def Let_def)
qed

section \<open>Witnesses\<close>

definition sample_listener :: "u32 \<Rightarrow> StatusListenerFilter \<Rightarrow> status_listener" where
  "sample_listener m f = \<lparr>sl_monitoring = m, sl_filter = f, sl_notifyFunc = 50, sl_callbackObject = NULL,
     sl_objectFreeFunc = NULL, sl_callbackArgument = NULL, sl_argumentFreeFunc = NULL, sl_referenceCount = 2\<rparr>"

definition sample_world :: desc_world where
  "sample_world = ((descriptor_init DT_EVENTD)\<lparr>ds_listeners := [3, 4, 5]\<rparr>,
     [3 \<mapsto> sample_listener STATUS_DESCRIPTOR_READABLE SLF_OFF_TO_ON,
      4 \<mapsto> sample_listener STATUS_DESCRIPTOR_WRITABLE SLF_ALWAYS,
      5 \<mapsto> sample_listener STATUS_DESCRIPTOR_READABLE SLF_ALWAYS,
      6 \<mapsto> sample_listener STATUS_DESCRIPTOR_READABLE SLF_ALWAYS])"

lemma sample_world_ok: "desc_ok sample_world"
  by (simp add: desc_ok_def sample_world_def sample_listener_def)


end
