(* ===== verification/Socket.thy ===== *)
theory Socket
  imports Router Descriptor
begin

text \<open>
  \<^verbatim>\<open>host/descriptor/socket.c\<close>: what all network sockets share: names, and the buffers of packets that wait
  to be read by the process or to be sent by the network interface.

  A buffer holds pointers to live packets; the store of packets is passed along with the socket
  and the store of listeners. Sizes are \<^verbatim>\<open>gsize\<close>. The tracker, which only counts and prints, is left out.
  \<open>tcpLength\<close> is \<^verbatim>\<open>tcp_getOutputBufferLength\<close>, what a TCP socket keeps in buffers of its own. Adding to
  the output buffer ends with \<^verbatim>\<open>networkinterface_wantsSend\<close> on the interface with the source address of the packet:
  the result names that address.
\<close>

section \<open>Model\<close>

definition SF_BOUND :: u32 where "SF_BOUND = push_bit 0 1"
definition SF_UNIX :: u32 where "SF_UNIX = push_bit 1 1"
definition SF_UNIX_BOUND :: u32 where "SF_UNIX_BOUND = push_bit 2 1"

record socket =
  so_super :: descriptor
  so_flags :: u32
  so_protocol :: ProtocolType
  so_peerIP :: in_addr
  so_peerPort :: u32
  so_peerString :: "string option"
  so_boundAddress :: in_addr
  so_boundPort :: in_port
  so_boundString :: "string option"
  so_unixPath :: "string option"
  so_inputBuffer :: "gpointer list"
  so_inputBufferSize :: u64
  so_inputBufferSizePending :: u64
  so_inputBufferLength :: u64
  so_outputBuffer :: "gpointer list"
  so_outputControlBuffer :: "gpointer list"
  so_outputBufferSize :: u64
  so_outputBufferSizePending :: u64
  so_outputBufferLength :: u64

definition socket_init :: "LegacyDescriptorType \<Rightarrow> u32 \<Rightarrow> u32 \<Rightarrow> socket" where
  "socket_init type receiveBufferSize sendBufferSize =
     \<lparr>so_super = descriptor_init type, so_flags = 0,
      so_protocol = (if type = DT_TCPSOCKET then PTCP else if type = DT_UDPSOCKET then PUDP else PLOCAL),
      so_peerIP = 0, so_peerPort = 0, so_peerString = None, so_boundAddress = 0, so_boundPort = 0,
      so_boundString = None, so_unixPath = None,
      so_inputBuffer = [], so_inputBufferSize = ucast receiveBufferSize, so_inputBufferSizePending = 0,
      so_inputBufferLength = 0, so_outputBuffer = [], so_outputControlBuffer = [],
      so_outputBufferSize = ucast sendBufferSize, so_outputBufferSizePending = 0, so_outputBufferLength = 0\<rparr>"

definition socket_getProtocol :: "'a socket_scheme \<Rightarrow> ProtocolType" where
  "socket_getProtocol s = so_protocol s"

subsection \<open>Names\<close>

definition socket_getPeerName :: "'a socket_scheme \<Rightarrow> (in_addr \<times> in_port) option" where
  "socket_getPeerName s =
     (if so_peerIP s = 0 \<or> so_peerPort s = 0 then None else Some (so_peerIP s, ucast (so_peerPort s)))"

definition socket_setPeerName :: "'a socket_scheme \<Rightarrow> in_addr \<Rightarrow> in_port \<Rightarrow> 'a socket_scheme" where
  "socket_setPeerName s ip port =
     s\<lparr>so_peerIP := ip, so_peerPort := ucast port,
       so_peerString := Some (address_ipToNewString ip @ '':'' @ dec_word (ntohs port))\<rparr>"

definition socket_isBound :: "'a socket_scheme \<Rightarrow> bool" where
  "socket_isBound s \<longleftrightarrow> so_flags s AND SF_BOUND \<noteq> 0"

text \<open>\<^verbatim>\<open>htonl(INADDR_ANY)\<close> is \<open>0\<close>.\<close>

definition socket_getSocketName :: "'a socket_scheme \<Rightarrow> (in_addr \<times> in_port) option" where
  "socket_getSocketName s =
     (if \<not> socket_isBound s then None
      else Some (if so_boundAddress s = 0 \<and> so_peerIP s \<noteq> 0 \<and> so_peerIP s = LOOPBACK_IP
                 then LOOPBACK_IP else so_boundAddress s, so_boundPort s))"

definition socket_setSocketName :: "'a socket_scheme \<Rightarrow> in_addr \<Rightarrow> in_port \<Rightarrow> 'a socket_scheme" where
  "socket_setSocketName s ip port =
     s\<lparr>so_boundAddress := ip, so_boundPort := port,
       so_boundString := Some (address_ipToNewString ip @ '':'' @ dec_word (ntohs port) @ '' (descriptor '' @
         dec_int (ds_handle (so_super s)) @ '')''),
       so_flags := so_flags s OR SF_BOUND\<rparr>"

definition socket_isUnix :: "'a socket_scheme \<Rightarrow> bool" where
  "socket_isUnix s \<longleftrightarrow> so_flags s AND SF_UNIX \<noteq> 0"

definition socket_setUnix :: "'a socket_scheme \<Rightarrow> bool \<Rightarrow> 'a socket_scheme" where
  "socket_setUnix s isUnixSocket =
     s\<lparr>so_flags := if isUnixSocket then so_flags s OR SF_UNIX else so_flags s AND NOT SF_UNIX\<rparr>"

definition socket_setUnixPath :: "'a socket_scheme \<Rightarrow> string \<Rightarrow> bool \<Rightarrow> 'a socket_scheme" where
  "socket_setUnixPath s path isBound =
     s\<lparr>so_flags := if isBound then so_flags s OR SF_UNIX_BOUND else so_flags s, so_unixPath := Some path\<rparr>"

definition socket_getUnixPath :: "'a socket_scheme \<Rightarrow> string option" where
  "socket_getUnixPath s = so_unixPath s"

subsection \<open>Sizes of the buffers\<close>

definition socket_getInputBufferSize :: "'a socket_scheme \<Rightarrow> u64" where
  "socket_getInputBufferSize s =
     (if so_inputBufferSizePending s > 0 then so_inputBufferSizePending s else so_inputBufferSize s)"

definition socket_getOutputBufferSize :: "'a socket_scheme \<Rightarrow> u64" where
  "socket_getOutputBufferSize s =
     (if so_outputBufferSizePending s > 0 then so_outputBufferSizePending s else so_outputBufferSize s)"

definition socket_getInputBufferSpace :: "'a socket_scheme \<Rightarrow> u64 option" where
  "socket_getInputBufferSpace s = do {
     utility_assert (so_inputBufferSize s \<ge> so_inputBufferLength s);
     let bufferSize = socket_getInputBufferSize s;
     Some (if bufferSize < so_inputBufferLength s then 0 else bufferSize - so_inputBufferLength s)
   }"

definition socket_getOutputBufferSpace :: "'a socket_scheme \<Rightarrow> u64 option" where
  "socket_getOutputBufferSpace s = do {
     utility_assert (so_outputBufferSize s \<ge> so_outputBufferLength s);
     let bufferSize = socket_getOutputBufferSize s;
     Some (if bufferSize < so_outputBufferLength s then 0 else bufferSize - so_outputBufferLength s)
   }"

definition socket_getInputBufferLength :: "'a socket_scheme \<Rightarrow> u64" where
  "socket_getInputBufferLength s = so_inputBufferLength s"

definition socket_getOutputBufferLength :: "'a socket_scheme \<Rightarrow> u64" where
  "socket_getOutputBufferLength s = so_outputBufferLength s"

definition socket_setInputBufferSize :: "'a socket_scheme \<Rightarrow> u64 \<Rightarrow> 'a socket_scheme" where
  "socket_setInputBufferSize s newSize =
     (if newSize \<ge> so_inputBufferLength s
      then s\<lparr>so_inputBufferSize := newSize, so_inputBufferSizePending := 0\<rparr>
      else s\<lparr>so_inputBufferSize := so_inputBufferLength s, so_inputBufferSizePending := newSize\<rparr>)"

definition socket_setOutputBufferSize :: "'a socket_scheme \<Rightarrow> u64 \<Rightarrow> 'a socket_scheme" where
  "socket_setOutputBufferSize s newSize =
     (if newSize \<ge> so_outputBufferLength s
      then s\<lparr>so_outputBufferSize := newSize, so_outputBufferSizePending := 0\<rparr>
      else s\<lparr>so_outputBufferSize := so_outputBufferLength s, so_outputBufferSizePending := newSize\<rparr>)"

definition socket_getOutputBufferSpaceIncludingTCP :: "('a socket_scheme \<Rightarrow> u64) \<Rightarrow> 'a socket_scheme \<Rightarrow> u64 option" where
  "socket_getOutputBufferSpaceIncludingTCP tcpLength s = do {
     space \<leftarrow> socket_getOutputBufferSpace s;
     let tcpLen = (if so_protocol s = PTCP then tcpLength s else 0);
     Some (if tcpLen < space then space - tcpLen else 0)
   }"

subsection \<open>The buffers\<close>

definition socket_peekNextOutPacket :: "'a socket_scheme \<Rightarrow> gpointer" where
  "socket_peekNextOutPacket s =
     (case so_outputControlBuffer s of
        p # ps \<Rightarrow> p
      | [] \<Rightarrow> (case so_outputBuffer s of p # ps \<Rightarrow> p | [] \<Rightarrow> NULL))"

definition socket_peekNextInPacket :: "'a socket_scheme \<Rightarrow> gpointer" where
  "socket_peekNextInPacket s = (case so_inputBuffer s of p # ps \<Rightarrow> p | [] \<Rightarrow> NULL)"

definition socket_adjustStatus ::
  "desc_callback \<Rightarrow> 'a socket_scheme \<Rightarrow> listener_store \<Rightarrow> u32 \<Rightarrow> bool \<Rightarrow> ('a socket_scheme \<times> listener_store) option" where
  "socket_adjustStatus cb s ls status doSetBits = do {
     ((d, ls'), called) \<leftarrow> descriptor_adjustStatus cb (so_super s, ls) status doSetBits;
     Some (s\<lparr>so_super := d\<rparr>, ls')
   }"

definition socket_addToInputBuffer ::
  "bool \<Rightarrow> desc_callback \<Rightarrow> net_store \<Rightarrow> 'a socket_scheme \<Rightarrow> listener_store \<Rightarrow> gpointer \<Rightarrow>
   (net_store \<times> 'a socket_scheme \<times> listener_store \<times> bool) option" where
  "socket_addToInputBuffer tracing cb st s ls packet = do {
     len \<leftarrow> packet_getPayloadLength st packet;
     space \<leftarrow> socket_getInputBufferSpace s;
     if ucast len > space then Some (st, s, ls, False)
     else do {
       st1 \<leftarrow> packet_ref st packet;
       let s1 = s\<lparr>so_inputBuffer := so_inputBuffer s @ [packet],
                  so_inputBufferLength := so_inputBufferLength s + ucast len\<rparr>;
       st2 \<leftarrow> packet_addDeliveryStatus tracing st1 packet PDS_RCV_SOCKET_BUFFERED;
       (s2, ls2) \<leftarrow> (if so_inputBufferLength s1 > 0
                      then socket_adjustStatus cb s1 ls STATUS_DESCRIPTOR_READABLE True else Some (s1, ls));
       Some (st2, s2, ls2, True)
     }
   }"

definition socket_removeFromInputBuffer ::
  "desc_callback \<Rightarrow> net_store \<Rightarrow> 'a socket_scheme \<Rightarrow> listener_store \<Rightarrow>
   ('a socket_scheme \<times> listener_store \<times> gpointer) option" where
  "socket_removeFromInputBuffer cb st s ls =
     (case so_inputBuffer s of
        [] \<Rightarrow> Some (s, ls, NULL)
      | packet # rest \<Rightarrow> do {
          len \<leftarrow> packet_getPayloadLength st packet;
          let s1 = s\<lparr>so_inputBuffer := rest, so_inputBufferLength := so_inputBufferLength s - ucast len\<rparr>;
          let s2 = (if so_inputBufferSizePending s1 > 0
                    then socket_setInputBufferSize s1 (so_inputBufferSizePending s1) else s1);
          (s3, ls3) \<leftarrow> (if so_inputBufferLength s2 \<le> 0
                         then socket_adjustStatus cb s2 ls STATUS_DESCRIPTOR_READABLE False else Some (s2, ls));
          Some (s3, ls3, packet)
        })"

definition socket_addToOutputBuffer ::
  "bool \<Rightarrow> desc_callback \<Rightarrow> ('a socket_scheme \<Rightarrow> u64) \<Rightarrow> net_store \<Rightarrow> 'a socket_scheme \<Rightarrow> listener_store \<Rightarrow> gpointer \<Rightarrow>
   (net_store \<times> 'a socket_scheme \<times> listener_store \<times> in_addr option) option" where
  "socket_addToOutputBuffer tracing cb tcpLength st s ls packet = do {
     len \<leftarrow> packet_getPayloadLength st packet;
     space \<leftarrow> socket_getOutputBufferSpace s;
     if ucast len > space then Some (st, s, ls, None)
     else do {
       priority \<leftarrow> packet_getPriority st packet;
       let s1 = (if priority = 0
                 then s\<lparr>so_outputControlBuffer := so_outputControlBuffer s @ [packet]\<rparr>
                 else s\<lparr>so_outputBuffer := so_outputBuffer s @ [packet]\<rparr>);
       let s2 = s1\<lparr>so_outputBufferLength := so_outputBufferLength s1 + ucast len\<rparr>;
       st1 \<leftarrow> packet_addDeliveryStatus tracing st packet PDS_SND_SOCKET_BUFFERED;
       left \<leftarrow> socket_getOutputBufferSpaceIncludingTCP tcpLength s2;
       (s3, ls3) \<leftarrow> (if left \<le> 0 then socket_adjustStatus cb s2 ls STATUS_DESCRIPTOR_WRITABLE False else Some (s2, ls));
       ip \<leftarrow> packet_getSourceIP st1 packet;
       Some (st1, s3, ls3, Some ip)
     }
   }"

definition socket_removeFromOutputBuffer ::
  "desc_callback \<Rightarrow> ('a socket_scheme \<Rightarrow> u64) \<Rightarrow> net_store \<Rightarrow> 'a socket_scheme \<Rightarrow> listener_store \<Rightarrow>
   ('a socket_scheme \<times> listener_store \<times> gpointer) option" where
  "socket_removeFromOutputBuffer cb tcpLength st s ls =
     (let (packet, s1) = (case so_outputControlBuffer s of
                            p # ps \<Rightarrow> (p, s\<lparr>so_outputControlBuffer := ps\<rparr>)
                          | [] \<Rightarrow> (case so_outputBuffer s of
                                     p # ps \<Rightarrow> (p, s\<lparr>so_outputBuffer := ps\<rparr>)
                                   | [] \<Rightarrow> (NULL, s)))
      in if packet = NULL then Some (s1, ls, NULL)
         else do {
           len \<leftarrow> packet_getPayloadLength st packet;
           let s2 = s1\<lparr>so_outputBufferLength := so_outputBufferLength s1 - ucast len\<rparr>;
           let s3 = (if so_outputBufferSizePending s2 > 0
                     then socket_setOutputBufferSize s2 (so_outputBufferSizePending s2) else s2);
           left \<leftarrow> socket_getOutputBufferSpaceIncludingTCP tcpLength s3;
           (s4, ls4) \<leftarrow> (if left > 0 then socket_adjustStatus cb s3 ls STATUS_DESCRIPTOR_WRITABLE True else Some (s3, ls));
           Some (s4, ls4, packet)
         })"

definition socket_pullOutPacket where
  "socket_pullOutPacket = socket_removeFromOutputBuffer"

text \<open>\<open>process\<close> is the function of the kind of socket.\<close>

definition socket_pushInPacket ::
  "bool \<Rightarrow> (net_store \<Rightarrow> 'a socket_scheme \<Rightarrow> listener_store \<Rightarrow> gpointer \<Rightarrow> (net_store \<times> 'a socket_scheme \<times> listener_store) option) \<Rightarrow>
   net_store \<Rightarrow> 'a socket_scheme \<Rightarrow> listener_store \<Rightarrow> gpointer \<Rightarrow> (net_store \<times> 'a socket_scheme \<times> listener_store) option" where
  "socket_pushInPacket tracing process st s ls packet = do {
     st1 \<leftarrow> packet_addDeliveryStatus tracing st packet PDS_RCV_SOCKET_PROCESSED;
     process st1 s ls packet
   }"

text \<open>Freeing a socket releases the packets in its buffers.\<close>

definition socket_free :: "bool \<Rightarrow> net_store \<Rightarrow> 'a socket_scheme \<Rightarrow> net_store option" where
  "socket_free tracing st s = do {
     st1 \<leftarrow> unref_all tracing st (so_inputBuffer s);
     st2 \<leftarrow> unref_all tracing st1 (so_outputBuffer s);
     unref_all tracing st2 (so_outputControlBuffer s)
   }"

section \<open>Lengths of packets in a buffer\<close>

definition plen :: "net_store \<Rightarrow> gpointer \<Rightarrow> nat" where
  "plen st p = (case packet_getPayloadLength st p of None \<Rightarrow> 0 | Some len \<Rightarrow> unat len)"

definition blen :: "net_store \<Rightarrow> gpointer list \<Rightarrow> nat" where
  "blen st ps = sum_list (map (plen st) ps)"

lemma blen_simps [simp]: "blen st [] = 0" "blen st (p # ps) = plen st p + blen st ps" "blen st (ps @ qs) = blen st ps + blen st qs"
  by (simp_all add: blen_def)

lemma blen_cong: "(\<And>p. p \<in> set ps \<Longrightarrow> plen st' p = plen st p) \<Longrightarrow> blen st' ps = blen st ps"
  unfolding blen_def by (metis map_eq_conv)

lemma blen_eq: "plen st' = plen st \<Longrightarrow> blen st' ps = blen st ps"
  by (simp add: blen_def)

lemma payloadLength_put:
  assumes "ns_packets st p = Some pk" and "pk_payload pk' = pk_payload pk"
  shows "packet_getPayloadLength (packet_put st p pk') x = packet_getPayloadLength st x"
proof -
  have "payload_getLength (packet_put st p pk') q = payload_getLength st q" for q
    by (simp add: payload_getLength_def payload_get_def)
  then show ?thesis using assms
    by (cases "x = p"; cases "ns_packets st x") (simp_all add: packet_getPayloadLength_def split: if_split)
qed

lemma plen_put: "ns_packets st p = Some pk \<Longrightarrow> pk_payload pk' = pk_payload pk \<Longrightarrow> plen (packet_put st p pk') = plen st"
  by (simp add: plen_def payloadLength_put fun_eq_iff)

lemma plen_live:
  assumes "net_ok st" and "ns_packets st p = Some pk"
  obtains len where "packet_getPayloadLength st p = Some len" "unat len = plen st p"
  using packet_getPayloadLength_ok [OF payload_readable_ok [OF assms] assms(2)] by (auto simp: plen_def)

text \<open>What a packet carries, apart from its bookkeeping.\<close>

definition pcontent :: "net_store \<Rightarrow> gpointer \<Rightarrow> (ProtocolType \<times> packet_header option \<times> byte list \<times> u64) option" where
  "pcontent st p = (case ns_packets st p of
       None \<Rightarrow> None
     | Some pk \<Rightarrow> Some (pk_protocol pk, pk_header pk,
         case (if pk_payload pk = NULL then None else ns_payloads st (pk_payload pk)) of
           None \<Rightarrow> ([], 0) | Some pl \<Rightarrow> (pl_data pl, pl_length pl)))"

lemma pcontent_put:
  "ns_packets st p = Some pk \<Longrightarrow> pk_payload pk' = pk_payload pk \<Longrightarrow> pk_protocol pk' = pk_protocol pk \<Longrightarrow>
   pk_header pk' = pk_header pk \<Longrightarrow> pcontent (packet_put st p pk') = pcontent st"
  unfolding pcontent_def packet_put_simps by (rule ext) simp

lemma plen_content:
  assumes "net_ok st" and "pcontent st p = Some (pr, h, data, len)"
  shows "plen st p = unat (ucast len :: u32)"
proof -
  obtain pk where pk: "ns_packets st p = Some pk" using assms(2) by (auto simp: pcontent_def split: option.splits)
  show ?thesis
  proof (cases "pk_payload pk = NULL")
    case True
    then show ?thesis using assms(2) pk by (auto simp: pcontent_def plen_def packet_getPayloadLength_def)
  next
    case False
    obtain pl where "ns_payloads st (pk_payload pk) = Some pl" "payload_get st (pk_payload pk) = Some pl"
      using packet_payload_live [OF assms(1) pk False] .
    then show ?thesis using assms(2) pk False
      by (auto simp: pcontent_def plen_def packet_getPayloadLength_def payload_getLength_def)
  qed
qed

lemma plen_same:
  assumes "net_ok st" and "net_ok st'" and "pcontent st' p = pcontent st p" and "ns_packets st p \<noteq> None"
  shows "plen st' p = plen st p"
proof -
  obtain pr h data len where "pcontent st p = Some (pr, h, data, len)"
    using assms(4) by (cases "pcontent st p") (auto simp: pcontent_def)
  then show ?thesis using plen_content assms by metis
qed

lemma held_mset: "mset ps = mset qs \<Longrightarrow> held st ps = held st qs"
  unfolding held_def by (metis count_mset count_list_eq_length_filter mset_eq_setD)

lemma held_sub: "mset ps \<subseteq># mset qs \<Longrightarrow> held st qs \<Longrightarrow> held st ps"
proof -
  assume "mset ps \<subseteq># mset qs"
  then obtain r where "mset qs = mset (r @ ps)" by (metis ex_mset mset_append subset_mset.le_iff_add union_commute)
  moreover have "held st (r @ ps) \<Longrightarrow> held st ps" by (induction r) (auto dest: held_Cons)
  ultimately show "held st qs \<Longrightarrow> held st ps" using held_mset by blast
qed

section \<open>Invariant of a socket\<close>

definition so_buffered :: "'a socket_scheme \<Rightarrow> gpointer list" where
  "so_buffered s = so_inputBuffer s @ so_outputControlBuffer s @ so_outputBuffer s"

definition sock_inv :: "net_store \<Rightarrow> 'a socket_scheme \<Rightarrow> listener_store \<Rightarrow> bool" where
  "sock_inv st s ls \<longleftrightarrow> net_ok st \<and> held st (so_buffered s) \<and> desc_ok (so_super s, ls) \<and>
     unat (so_inputBufferLength s) = blen st (so_inputBuffer s) \<and>
     unat (so_outputBufferLength s) = blen st (so_outputControlBuffer s @ so_outputBuffer s) \<and>
     so_inputBufferLength s \<le> so_inputBufferSize s \<and> so_outputBufferLength s \<le> so_outputBufferSize s \<and>
     (so_inputBufferSizePending s = 0 \<or> so_inputBufferSizePending s < so_inputBufferLength s) \<and>
     (so_outputBufferSizePending s = 0 \<or> so_outputBufferSizePending s < so_outputBufferLength s) \<and>
     (bit (ds_status (so_super s)) 1 \<longleftrightarrow> so_inputBufferLength s \<noteq> 0)"

text \<open>The bytes that still fit, which is nothing while the buffer waits to shrink.\<close>

definition in_space :: "'a socket_scheme \<Rightarrow> nat" where
  "in_space s = unat (socket_getInputBufferSize s) - unat (so_inputBufferLength s)"

definition out_space :: "'a socket_scheme \<Rightarrow> nat" where
  "out_space s = unat (socket_getOutputBufferSize s) - unat (so_outputBufferLength s)"

lemma space_sub: "(if a < b then 0 else a - b) = (of_nat (unat a - unat b) :: u64)"
proof (cases "a < b")
  case False
  then have "unat (a - b) = unat a - unat b" by (intro unat_sub) (simp add: not_less)
  moreover have "of_nat (unat (a - b)) = a - b" by simp
  ultimately show ?thesis using False by simp
qed (simp add: word_less_nat_alt)

lemma getSpace_eq:
  "so_inputBufferLength s \<le> so_inputBufferSize s \<Longrightarrow> socket_getInputBufferSpace s = Some (of_nat (in_space s))"
  "so_outputBufferLength s \<le> so_outputBufferSize s \<Longrightarrow> socket_getOutputBufferSpace s = Some (of_nat (out_space s))"
  by (simp_all add: socket_getInputBufferSpace_def socket_getOutputBufferSpace_def in_space_def out_space_def space_sub)

lemma socket_adjustStatus_idle:
  assumes "idle_callback cb" and "desc_ok (so_super s, ls)"
  shows "socket_adjustStatus cb s ls status on =
     Some (s\<lparr>so_super := (so_super s)\<lparr>ds_status := set_bits (ds_status (so_super s)) status on\<rparr>\<rparr>, ls)"
  using adjustStatus_idle [OF assms] by (simp add: socket_adjustStatus_def)

definition with_bit :: "'a socket_scheme \<Rightarrow> u32 \<Rightarrow> bool \<Rightarrow> 'a socket_scheme" where
  "with_bit s status on = s\<lparr>so_super := (so_super s)\<lparr>ds_status := set_bits (ds_status (so_super s)) status on\<rparr>\<rparr>"

lemma with_bit_simps [simp]:
  "so_inputBuffer (with_bit s b on) = so_inputBuffer s" "so_outputBuffer (with_bit s b on) = so_outputBuffer s"
  "so_outputControlBuffer (with_bit s b on) = so_outputControlBuffer s"
  "so_inputBufferLength (with_bit s b on) = so_inputBufferLength s" "so_outputBufferLength (with_bit s b on) = so_outputBufferLength s"
  "so_inputBufferSize (with_bit s b on) = so_inputBufferSize s" "so_outputBufferSize (with_bit s b on) = so_outputBufferSize s"
  "so_inputBufferSizePending (with_bit s b on) = so_inputBufferSizePending s"
  "so_outputBufferSizePending (with_bit s b on) = so_outputBufferSizePending s"
  "ds_type (so_super (with_bit s b on)) = ds_type (so_super s)"
  "desc_ok (so_super (with_bit s b on), ls) = desc_ok (so_super s, ls)"
  "bit (ds_status (so_super (with_bit s b on))) n \<longleftrightarrow>
     (if on then bit (ds_status (so_super s)) n \<or> bit b n else bit (ds_status (so_super s)) n \<and> \<not> bit b n)"
  by (simp_all add: with_bit_def desc_ok_def bit_set_bits)

lemma sock_invD:
  assumes "sock_inv st s ls"
  shows "net_ok st" and "held st (so_buffered s)" and "desc_ok (so_super s, ls)"
    and "unat (so_inputBufferLength s) = blen st (so_inputBuffer s)"
    and "unat (so_outputBufferLength s) = blen st (so_outputControlBuffer s) + blen st (so_outputBuffer s)"
    and "so_inputBufferLength s \<le> so_inputBufferSize s" and "so_outputBufferLength s \<le> so_outputBufferSize s"
    and "bit (ds_status (so_super s)) 1 \<longleftrightarrow> so_inputBufferLength s \<noteq> 0"
    and "so_inputBufferSizePending s = 0 \<or> so_inputBufferSizePending s < so_inputBufferLength s"
    and "so_outputBufferSizePending s = 0 \<or> so_outputBufferSizePending s < so_outputBufferLength s"
  using assms by (simp_all add: sock_inv_def)

lemma unat_ucast_u32: "unat (ucast (len :: u32) :: u64) = unat len"
  using unsigned_less [of len, where 'a = nat] by (simp add: unsigned_ucast_eq take_bit_nat_eq_self)

text \<open>A length that fits does not wrap around.\<close>

lemma add_fits:
  fixes a size :: u64 and len :: u32
  assumes "unat len \<le> unat size - unat a" and "a \<le> size"
  shows "unat (a + ucast len) = unat a + unat len" and "a + ucast len \<le> size"
proof -
  have le: "unat a + unat len \<le> unat size" using assms by (simp add: word_le_nat_alt)
  moreover have "unat size < 2 ^ 64" using unsigned_less [of size, where 'a = nat] by simp
  ultimately show "unat (a + ucast len) = unat a + unat len" by (subst add_no_wrap) (simp_all add: unat_ucast_u32)
  then show "a + ucast len \<le> size" using le by (simp add: word_le_nat_alt)
qed

text \<open>What fits is less than the room in the buffer, also while a smaller size is pending.\<close>

lemma space_bounds:
  assumes "sock_inv st s ls"
  shows "in_space s \<le> unat (so_inputBufferSize s) - unat (so_inputBufferLength s)"
    and "out_space s \<le> unat (so_outputBufferSize s) - unat (so_outputBufferLength s)"
  using sock_invD(9,10) [OF assms]
  by (auto simp: in_space_def out_space_def socket_getInputBufferSize_def socket_getOutputBufferSize_def word_less_nat_alt)

lemma ucast_gt_space: "(of_nat n :: u64) < ucast (len :: u32) \<longleftrightarrow> n < unat len" if "n < 2 ^ 64"
proof -
  have "unat (of_nat n :: u64) = n" using that by (simp add: unat_of_nat)
  then show ?thesis by (simp add: word_less_nat_alt unat_ucast_u32)
qed

lemma in_space_le: "in_space s < 2 ^ 64" "out_space s < 2 ^ 64"
proof -
  have "unat (x :: u64) - n < 2 ^ 64" for x n using unsigned_less [of x, where 'a = nat] by simp
  then show "in_space s < 2 ^ 64" "out_space s < 2 ^ 64" unfolding in_space_def out_space_def by blast+
qed

section \<open>The operations keep the invariant\<close>

lemma held_ref_status:
  assumes "held st ps" and "routable st p" and "packet_ref st p = Some st1" and "ns_packets st1 p = Some pk1"
  shows "held (packet_put st1 p (add_status tracing s pk1)) (ps @ [p])"
  using held_snoc [OF assms(1-3)] held_status [OF assms(4)] by simp

lemma sock_add_input:
  assumes inv: "sock_inv st s ls" and cb: "idle_callback cb" and r: "routable st p"
  obtains st' s' ok where "socket_addToInputBuffer tracing cb st s ls p = Some (st', s', ls, ok)"
    and "sock_inv st' s' ls" and "ok \<longleftrightarrow> plen st p \<le> in_space s" and "pcontent st' = pcontent st"
    and "so_inputBuffer s' = so_inputBuffer s @ (if ok then [p] else [])"
    and "so_outputBuffer s' = so_outputBuffer s" and "so_outputControlBuffer s' = so_outputControlBuffer s"
    and "socket_getInputBufferSize s' = socket_getInputBufferSize s" and "ds_type (so_super s') = ds_type (so_super s)"
    and "\<not> ok \<Longrightarrow> st' = st \<and> s' = s"
proof -
  note I = sock_invD [OF inv]
  obtain pk where pk: "ns_packets st p = Some pk" "pk_protocol pk \<noteq> PNONE" "unat (pk_referenceCount pk) + 1 < 2 ^ 32"
    using r by (auto simp: routable_def)
  obtain len where len: "packet_getPayloadLength st p = Some len" "unat len = plen st p" using plen_live [OF I(1) pk(1)] .
  have fit: "(of_nat (in_space s) :: u64) < ucast len \<longleftrightarrow> in_space s < plen st p"
    using ucast_gt_space [OF in_space_le(1) [of s], of len] len(2) by simp
  show thesis
  proof (cases "in_space s < plen st p")
    case True
    then have "socket_addToInputBuffer tracing cb st s ls p = Some (st, s, ls, False)"
      using len(1) fit by (simp add: socket_addToInputBuffer_def getSpace_eq(1) [OF I(6)])
    then show thesis using that [of st s False] inv True by simp
  next
    case False
    define pk1 where "pk1 = pk\<lparr>pk_referenceCount := pk_referenceCount pk + 1\<rparr>"
    define st1 where "st1 = packet_put st p pk1"
    note ref = packet_ref_ok [OF I(1) pk(1,3), folded pk1_def, folded st1_def]
    have p1: "ns_packets st1 p = Some pk1" "printable tracing pk1" using pk(2) by (simp_all add: st1_def pk1_def printable_def)
    define st2 where "st2 = packet_put st1 p (add_status tracing PDS_RCV_SOCKET_BUFFERED pk1)"
    note status = packet_addDeliveryStatus_ok [OF ref(2) p1, of PDS_RCV_SOCKET_BUFFERED, folded st2_def]
    have "plen st1 = plen st" unfolding st1_def by (rule plen_put [OF pk(1)]) (simp add: pk1_def)
    then have plen2: "plen st2 = plen st" unfolding st2_def by (subst plen_put [OF p1(1)]) simp_all
    have "pcontent st1 = pcontent st" unfolding st1_def by (rule pcontent_put [OF pk(1)]) (simp_all add: pk1_def)
    then have con2: "pcontent st2 = pcontent st" unfolding st2_def by (subst pcontent_put [OF p1(1)]) simp_all
    define s1 where "s1 = s\<lparr>so_inputBuffer := so_inputBuffer s @ [p], so_inputBufferLength := so_inputBufferLength s + ucast len\<rparr>"
    define s2 where "s2 = (if so_inputBufferLength s1 > 0 then with_bit s1 STATUS_DESCRIPTOR_READABLE True else s1)"
    have "desc_ok (so_super s1, ls)" using I(3) by (simp add: s1_def)
    note adj = socket_adjustStatus_idle [OF cb this, of STATUS_DESCRIPTOR_READABLE True, folded with_bit_def]
    have run: "socket_addToInputBuffer tracing cb st s ls p = Some (st2, s2, ls, True)"
      using len(1) fit False ref(1) status(1) adj
      by (simp add: socket_addToInputBuffer_def getSpace_eq(1) [OF I(6)] s1_def [symmetric] s2_def)
    have "unat len \<le> unat (so_inputBufferSize s) - unat (so_inputBufferLength s)"
      using False space_bounds(1) [OF inv] len(2) by simp
    note add = add_fits [OF this I(6)]
    have nz: "so_inputBufferLength s + ucast len = 0 \<longleftrightarrow> so_inputBufferLength s = 0 \<and> len = 0"
      using add(1) by (metis add_is_0 unat_eq_0 add_0 unsigned_0)
    have "mset (so_buffered s @ [p]) = mset (so_buffered s2)" by (simp add: so_buffered_def s2_def s1_def)
    then have "held st2 (so_buffered s2)"
      using held_ref_status [OF I(2) r ref(1) p1(1)] held_mset unfolding st2_def by blast
    moreover have "so_inputBufferSizePending s = 0 \<or> so_inputBufferSizePending s < so_inputBufferLength s + ucast len"
      using I(9) add(1) by (auto simp: word_less_nat_alt)
    ultimately have "sock_inv st2 s2 ls"
      using I add status(2) len(2) nz unfolding sock_inv_def
      by (auto simp: s2_def s1_def blen_eq [OF plen2] bit_statuses word_gt_0)
    then show thesis
      by (rule that [OF run]) (use False con2 in \<open>simp_all add: s2_def s1_def socket_getInputBufferSize_def\<close>)
  qed
qed

lemma set_size_fields [simp]:
  "so_inputBuffer (socket_setInputBufferSize s n) = so_inputBuffer s"
  "so_outputBuffer (socket_setInputBufferSize s n) = so_outputBuffer s"
  "so_outputControlBuffer (socket_setInputBufferSize s n) = so_outputControlBuffer s"
  "so_inputBufferLength (socket_setInputBufferSize s n) = so_inputBufferLength s"
  "so_outputBufferLength (socket_setInputBufferSize s n) = so_outputBufferLength s"
  "so_outputBufferSize (socket_setInputBufferSize s n) = so_outputBufferSize s"
  "so_outputBufferSizePending (socket_setInputBufferSize s n) = so_outputBufferSizePending s"
  "so_super (socket_setInputBufferSize s n) = so_super s"
  "so_protocol (socket_setInputBufferSize s n) = so_protocol s"
  "so_inputBuffer (socket_setOutputBufferSize s n) = so_inputBuffer s"
  "so_outputBuffer (socket_setOutputBufferSize s n) = so_outputBuffer s"
  "so_outputControlBuffer (socket_setOutputBufferSize s n) = so_outputControlBuffer s"
  "so_inputBufferLength (socket_setOutputBufferSize s n) = so_inputBufferLength s"
  "so_outputBufferLength (socket_setOutputBufferSize s n) = so_outputBufferLength s"
  "so_inputBufferSize (socket_setOutputBufferSize s n) = so_inputBufferSize s"
  "so_inputBufferSizePending (socket_setOutputBufferSize s n) = so_inputBufferSizePending s"
  "so_super (socket_setOutputBufferSize s n) = so_super s"
  "so_protocol (socket_setOutputBufferSize s n) = so_protocol s"
  by (simp_all add: socket_setInputBufferSize_def socket_setOutputBufferSize_def)

lemma set_size_bounds:
  "so_inputBufferLength s \<le> so_inputBufferSize (socket_setInputBufferSize s n)"
  "so_inputBufferSizePending (socket_setInputBufferSize s n) = 0 \<or>
   so_inputBufferSizePending (socket_setInputBufferSize s n) < so_inputBufferLength s"
  "so_outputBufferLength s \<le> so_outputBufferSize (socket_setOutputBufferSize s n)"
  "so_outputBufferSizePending (socket_setOutputBufferSize s n) = 0 \<or>
   so_outputBufferSizePending (socket_setOutputBufferSize s n) < so_outputBufferLength s"
  by (auto simp: socket_setInputBufferSize_def socket_setOutputBufferSize_def)

lemma sock_set_size:
  assumes "sock_inv st s ls"
  shows "sock_inv st (socket_setInputBufferSize s n) ls" and "sock_inv st (socket_setOutputBufferSize s n) ls"
  using assms set_size_bounds [of s n] by (simp_all add: sock_inv_def so_buffered_def)

text \<open>Taking off the length of the first packet does not wrap around.\<close>

lemma sub_fits:
  fixes a :: u64 and len :: u32
  assumes "unat a = unat len + n"
  shows "unat (a - ucast len) = n" and "a - ucast len \<le> a"
proof -
  have "ucast len \<le> a" using assms by (simp add: word_le_nat_alt unat_ucast_u32)
  then show "unat (a - ucast len) = n" using assms by (simp add: unat_sub unat_ucast_u32)
  then show "a - ucast len \<le> a" using assms by (simp add: word_le_nat_alt)
qed

lemma sock_remove_input:
  assumes inv: "sock_inv st s ls" and cb: "idle_callback cb" and buf: "so_inputBuffer s = p # rest"
  obtains s' where "socket_removeFromInputBuffer cb st s ls = Some (s', ls, p)"
    and "sock_inv st s' ls" and "so_inputBuffer s' = rest"
    and "so_outputBuffer s' = so_outputBuffer s" and "so_outputControlBuffer s' = so_outputControlBuffer s"
    and "socket_getInputBufferSize s' = socket_getInputBufferSize s" and "ds_type (so_super s') = ds_type (so_super s)"
    and "held st (p # so_buffered s')"
proof -
  note I = sock_invD [OF inv]
  have "p \<in> set (so_buffered s)" using buf by (simp add: so_buffered_def)
  then obtain pk where pk: "ns_packets st p = Some pk" using heldE [OF I(2)] by metis
  obtain len where len: "packet_getPayloadLength st p = Some len" "unat len = plen st p" using plen_live [OF I(1) pk] .
  define s1 where "s1 = s\<lparr>so_inputBuffer := rest, so_inputBufferLength := so_inputBufferLength s - ucast len\<rparr>"
  define s2 where "s2 = (if so_inputBufferSizePending s1 > 0 then socket_setInputBufferSize s1 (so_inputBufferSizePending s1) else s1)"
  define s3 where "s3 = (if so_inputBufferLength s2 \<le> 0 then with_bit s2 STATUS_DESCRIPTOR_READABLE False else s2)"
  have "desc_ok (so_super s2, ls)" using I(3) by (simp add: s2_def s1_def)
  note adj = socket_adjustStatus_idle [OF cb this, of STATUS_DESCRIPTOR_READABLE False, folded with_bit_def]
  have run: "socket_removeFromInputBuffer cb st s ls = Some (s3, ls, p)"
    unfolding socket_removeFromInputBuffer_def buf list.case len(1) Option.bind.bind_lunit Let_def
      s1_def [symmetric] s2_def [symmetric] s3_def
    using adj by (simp split: if_split)
  have "unat (so_inputBufferLength s) = unat len + blen st rest" using I(4) len(2) by (simp add: buf)
  note sub = sub_fits [OF this]
  have h: "held st (p # so_buffered s3)"
    using I(2) by (simp add: so_buffered_def buf s3_def s2_def s1_def)
  have l1: "so_inputBufferLength s1 = so_inputBufferLength s - ucast len" "so_inputBufferLength s2 = so_inputBufferLength s1"
    by (simp_all add: s1_def s2_def)
  have size: "so_inputBufferLength s2 \<le> so_inputBufferSize s2"
    "so_inputBufferSizePending s2 = 0 \<or> so_inputBufferSizePending s2 < so_inputBufferLength s2"
    using set_size_bounds(1,2) [of s1 "so_inputBufferSizePending s1"] sub(2) I(6)
    by (auto simp: s2_def word_gt_0 s1_def)
  have zero: "so_inputBufferLength s2 = 0 \<Longrightarrow> \<not> bit (ds_status (so_super s3)) 1"
    "so_inputBufferLength s2 \<noteq> 0 \<Longrightarrow> so_inputBufferLength s \<noteq> 0"
    using sub(2) by (auto simp: s3_def bit_statuses l1)
  have b3: "bit (ds_status (so_super s3)) 1 \<longleftrightarrow> so_inputBufferLength s2 \<noteq> 0"
  proof (cases "so_inputBufferLength s2 = 0")
    case False
    then show ?thesis using zero(2) I(8) by (simp add: s3_def s2_def s1_def)
  qed (use zero(1) in simp)
  have super: "desc_ok (so_super s3, ls)" using I(3) by (simp add: s3_def s2_def s1_def)
  have f3: "so_inputBufferLength s3 = so_inputBufferLength s2" "so_inputBufferSize s3 = so_inputBufferSize s2"
    "so_inputBufferSizePending s3 = so_inputBufferSizePending s2" "so_inputBuffer s3 = rest"
    by (simp_all add: s3_def s2_def s1_def)
  have out: "so_outputBuffer s3 = so_outputBuffer s" "so_outputControlBuffer s3 = so_outputControlBuffer s"
    "so_outputBufferLength s3 = so_outputBufferLength s" "so_outputBufferSize s3 = so_outputBufferSize s"
    "so_outputBufferSizePending s3 = so_outputBufferSizePending s"
    by (simp_all add: s3_def s2_def s1_def)
  have "socket_getInputBufferSize s2 = socket_getInputBufferSize s1"
    by (simp add: s2_def socket_getInputBufferSize_def socket_setInputBufferSize_def)
  then have eff: "socket_getInputBufferSize s3 = socket_getInputBufferSize s" "ds_type (so_super s3) = ds_type (so_super s)"
    unfolding socket_getInputBufferSize_def f3 by (simp_all add: s1_def s2_def s3_def)
  have "sock_inv st s3 ls"
    unfolding sock_inv_def f3 out using I(1,5,7,10) super size sub(1) b3 held_Cons [OF h] by (simp add: l1)
  then show thesis by (rule that [OF run]) (use h f3 out eff in simp_all)
qed


lemma spaceIncludingTCP_ok:
  "so_outputBufferLength s \<le> so_outputBufferSize s \<Longrightarrow> \<exists>left. socket_getOutputBufferSpaceIncludingTCP tcpLength s = Some left"
  by (simp add: socket_getOutputBufferSpaceIncludingTCP_def getSpace_eq(2) Let_def)

lemma packet_getSourceIP_ok:
  assumes "net_ok st" and "ns_packets st p = Some pk" and "pk_protocol pk \<noteq> PNONE"
  shows "\<exists>ip. packet_getSourceIP st p = Some ip"
proof -
  have "header_ok (pk_protocol pk) (pk_header pk)" using net_okD(1) [OF assms(1,2)] by (simp add: packet_ok_def)
  then show ?thesis using assms(2,3)
    by (cases "(pk_protocol pk, pk_header pk)" rule: header_ok.cases) (simp_all add: packet_getSourceIP_def)
qed

text \<open>The output buffer takes over the reference of the caller.\<close>

lemma sock_add_output:
  assumes inv: "sock_inv st s ls" and cb: "idle_callback cb" and h: "held st (p # so_buffered s)"
    and pk: "ns_packets st p = Some pk" and fits: "plen st p \<le> out_space s"
  obtains s' ip where "socket_addToOutputBuffer tracing cb tcpLength st s ls p =
       Some (packet_put st p (add_status tracing PDS_SND_SOCKET_BUFFERED pk), s', ls, Some ip)"
    and "sock_inv (packet_put st p (add_status tracing PDS_SND_SOCKET_BUFFERED pk)) s' ls"
    and "packet_getSourceIP st p = Some ip"
    and "so_inputBuffer s' = so_inputBuffer s"
    and "so_outputControlBuffer s' = so_outputControlBuffer s @ (if pk_priority pk = 0 then [p] else [])"
    and "so_outputBuffer s' = so_outputBuffer s @ (if pk_priority pk = 0 then [] else [p])"
    and "socket_getInputBufferSize s' = socket_getInputBufferSize s" and "ds_type (so_super s') = ds_type (so_super s)"
proof -
  note I = sock_invD [OF inv]
  have prot: "pk_protocol pk \<noteq> PNONE" using heldE [OF h] pk by (metis list.set_intros(1) option.inject)
  obtain len where len: "packet_getPayloadLength st p = Some len" "unat len = plen st p" using plen_live [OF I(1) pk] .
  have fit: "\<not> (of_nat (out_space s) :: u64) < ucast len"
    using ucast_gt_space [OF in_space_le(2) [of s], of len] len(2) fits by simp
  have "printable tracing pk" using prot by (simp add: printable_def)
  note status = packet_addDeliveryStatus_ok [OF I(1) pk this, of PDS_SND_SOCKET_BUFFERED]
  define st1 where "st1 = packet_put st p (add_status tracing PDS_SND_SOCKET_BUFFERED pk)"
  define s1 where "s1 = (if pk_priority pk = 0 then s\<lparr>so_outputControlBuffer := so_outputControlBuffer s @ [p]\<rparr>
                         else s\<lparr>so_outputBuffer := so_outputBuffer s @ [p]\<rparr>)"
  define s2 where "s2 = s1\<lparr>so_outputBufferLength := so_outputBufferLength s1 + ucast len\<rparr>"
  have l2: "so_outputBufferLength s2 = so_outputBufferLength s + ucast len" "so_outputBufferSize s2 = so_outputBufferSize s"
    by (simp_all add: s2_def s1_def)
  have "unat len \<le> unat (so_outputBufferSize s) - unat (so_outputBufferLength s)"
    using fits space_bounds(2) [OF inv] len(2) by simp
  note add = add_fits [OF this I(7)]
  obtain left where left: "socket_getOutputBufferSpaceIncludingTCP tcpLength s2 = Some left"
    using spaceIncludingTCP_ok [of s2] add(2) l2 by auto
  obtain ip where ip: "packet_getSourceIP st p = Some ip" using packet_getSourceIP_ok [OF I(1) pk prot] by blast
  then have ip1: "packet_getSourceIP st1 p = Some ip"
    unfolding packet_getSourceIP_def st1_def packet_put_simps fun_upd_same pk Option.bind.bind_lunit add_status_simps .
  define s3 where "s3 = (if left \<le> 0 then with_bit s2 STATUS_DESCRIPTOR_WRITABLE False else s2)"
  have super: "so_super s2 = so_super s" by (simp add: s2_def s1_def)
  then have "desc_ok (so_super s2, ls)" using I(3) by simp
  note adj = socket_adjustStatus_idle [OF cb this, of STATUS_DESCRIPTOR_WRITABLE False, folded with_bit_def]
  have prio: "packet_getPriority st p = Some (pk_priority pk)" using pk by (simp add: packet_getPriority_def)
  have run: "socket_addToOutputBuffer tracing cb tcpLength st s ls p = Some (st1, s3, ls, Some ip)"
    unfolding socket_addToOutputBuffer_def len(1) getSpace_eq(2) [OF I(7)] Option.bind.bind_lunit Let_def prio
      s1_def [symmetric] s2_def [symmetric] status(1) st1_def [symmetric] left s3_def
    using adj ip1 fit by (simp split: if_split)
  have bufs: "so_inputBuffer s3 = so_inputBuffer s"
    "so_outputControlBuffer s3 = so_outputControlBuffer s @ (if pk_priority pk = 0 then [p] else [])"
    "so_outputBuffer s3 = so_outputBuffer s @ (if pk_priority pk = 0 then [] else [p])"
    by (simp_all add: s3_def s2_def s1_def)
  have f3: "so_outputBufferLength s3 = so_outputBufferLength s2" "so_outputBufferSize s3 = so_outputBufferSize s2"
    "so_outputBufferSizePending s3 = so_outputBufferSizePending s"
    "so_inputBufferLength s3 = so_inputBufferLength s" "so_inputBufferSize s3 = so_inputBufferSize s"
    "so_inputBufferSizePending s3 = so_inputBufferSizePending s" "desc_ok (so_super s3, ls) = desc_ok (so_super s, ls)"
    "bit (ds_status (so_super s3)) 1 = bit (ds_status (so_super s)) 1"
    by (simp_all add: s3_def s2_def s1_def bit_statuses)
  have prot3: "ds_type (so_super s3) = ds_type (so_super s)" by (simp add: s3_def s2_def s1_def)
  have "mset (so_buffered s3) = mset (p # so_buffered s)" by (simp add: so_buffered_def bufs)
  then have h3: "held st1 (so_buffered s3)" using h held_status [OF pk] held_mset unfolding st1_def by blast
  have "plen st1 = plen st" unfolding st1_def by (rule plen_put [OF pk]) simp
  note bl = blen_eq [OF this]
  have out: "unat (so_outputBufferLength s2) = blen st1 (so_outputControlBuffer s3 @ so_outputBuffer s3)"
    unfolding bufs bl using add(1) I(5) len(2) l2(1) by simp
  have pend: "so_outputBufferSizePending s = 0 \<or> so_outputBufferSizePending s < so_outputBufferLength s2"
    using I(10) add(1) l2(1) by (auto simp: word_less_nat_alt)
  have "sock_inv st1 s3 ls"
    unfolding sock_inv_def f3 bufs(1) bl using I(1,3,4,6,8,9) status(2) h3 out [unfolded bl] add(2) l2 pend by (simp add: st1_def)
  then show thesis by (intro that [OF run [unfolded st1_def] _ ip bufs])
      (simp_all add: st1_def f3 socket_getInputBufferSize_def prot3)
qed

lemma sock_remove_output:
  assumes inv: "sock_inv st s ls" and cb: "idle_callback cb"
    and buf: "so_outputControlBuffer s @ so_outputBuffer s = p # rest"
  obtains s' where "socket_removeFromOutputBuffer cb tcpLength st s ls = Some (s', ls, p)"
    and "sock_inv st s' ls" and "so_outputControlBuffer s' @ so_outputBuffer s' = rest"
    and "so_inputBuffer s' = so_inputBuffer s" and "so_outputControlBuffer s' = tl (so_outputControlBuffer s)"
    and "held st (p # so_buffered s')"
    and "socket_getInputBufferSize s' = socket_getInputBufferSize s" and "ds_type (so_super s') = ds_type (so_super s)"
proof -
  note I = sock_invD [OF inv]
  have "p \<in> set (so_buffered s)" using buf by (simp add: so_buffered_def)
  then obtain pk where pk: "ns_packets st p = Some pk" using heldE [OF I(2)] by metis
  obtain len where len: "packet_getPayloadLength st p = Some len" "unat len = plen st p" using plen_live [OF I(1) pk] .
  have nn: "p \<noteq> NULL" using net_okD(3) [OF I(1) pk] .
  define s1 where "s1 = (case so_outputControlBuffer s of q # qs \<Rightarrow> s\<lparr>so_outputControlBuffer := qs\<rparr>
                         | [] \<Rightarrow> s\<lparr>so_outputBuffer := rest\<rparr>)"
  define s2 where "s2 = s1\<lparr>so_outputBufferLength := so_outputBufferLength s1 - ucast len\<rparr>"
  define s3 where "s3 = (if so_outputBufferSizePending s2 > 0 then socket_setOutputBufferSize s2 (so_outputBufferSizePending s2) else s2)"
  have pop: "(case so_outputControlBuffer s of p # ps \<Rightarrow> (p, s\<lparr>so_outputControlBuffer := ps\<rparr>)
              | [] \<Rightarrow> (case so_outputBuffer s of p # ps \<Rightarrow> (p, s\<lparr>so_outputBuffer := ps\<rparr>) | [] \<Rightarrow> (NULL, s))) = (p, s1)"
    using buf by (cases "so_outputControlBuffer s") (simp_all add: s1_def)
  have q1: "so_outputControlBuffer s1 @ so_outputBuffer s1 = rest"
    using buf by (cases "so_outputControlBuffer s") (simp_all add: s1_def)
  have ctl: "so_outputControlBuffer s1 = tl (so_outputControlBuffer s)" by (simp add: s1_def split: list.split)
  have f1: "so_inputBuffer s1 = so_inputBuffer s" "so_super s1 = so_super s" "so_inputBufferLength s1 = so_inputBufferLength s"
    "so_inputBufferSize s1 = so_inputBufferSize s" "so_inputBufferSizePending s1 = so_inputBufferSizePending s"
    "so_outputBufferLength s1 = so_outputBufferLength s" "so_outputBufferSize s1 = so_outputBufferSize s"
    "so_outputBufferSizePending s1 = so_outputBufferSizePending s"
    by (simp_all add: s1_def split: list.split)
  have "unat (so_outputBufferLength s) = unat len + blen st rest"
    using I(5) len(2) buf by (metis blen_simps(2,3))
  note sub = sub_fits [OF this]
  have size: "so_outputBufferLength s3 \<le> so_outputBufferSize s3"
    "so_outputBufferSizePending s3 = 0 \<or> so_outputBufferSizePending s3 < so_outputBufferLength s3"
    using set_size_bounds(3,4) [of s2 "so_outputBufferSizePending s2"] sub(2) I(7)
    by (auto simp: s3_def word_gt_0 s2_def f1)
  obtain left where left: "socket_getOutputBufferSpaceIncludingTCP tcpLength s3 = Some left"
    using spaceIncludingTCP_ok [OF size(1)] by blast
  define s4 where "s4 = (if left > 0 then with_bit s3 STATUS_DESCRIPTOR_WRITABLE True else s3)"
  have f3: "so_inputBuffer s3 = so_inputBuffer s" "so_super s3 = so_super s" "so_inputBufferLength s3 = so_inputBufferLength s"
    "so_inputBufferSize s3 = so_inputBufferSize s" "so_inputBufferSizePending s3 = so_inputBufferSizePending s"
    "so_outputBufferLength s3 = so_outputBufferLength s - ucast len"
    "so_outputControlBuffer s3 = so_outputControlBuffer s1" "so_outputBuffer s3 = so_outputBuffer s1"
    by (simp_all add: s3_def s2_def f1)
  have "desc_ok (so_super s3, ls)" using I(3) f3(2) by simp
  note adj = socket_adjustStatus_idle [OF cb this, of STATUS_DESCRIPTOR_WRITABLE True, folded with_bit_def]
  have run: "socket_removeFromOutputBuffer cb tcpLength st s ls = Some (s4, ls, p)"
    unfolding socket_removeFromOutputBuffer_def pop Let_def prod.case len(1) Option.bind.bind_lunit
      s2_def [symmetric] s3_def [symmetric] left s4_def
    using adj nn by (simp split: if_split)
  have f4: "so_inputBuffer s4 = so_inputBuffer s" "so_inputBufferLength s4 = so_inputBufferLength s"
    "so_inputBufferSize s4 = so_inputBufferSize s" "so_inputBufferSizePending s4 = so_inputBufferSizePending s"
    "so_outputBufferLength s4 = so_outputBufferLength s3" "so_outputBufferSize s4 = so_outputBufferSize s3"
    "so_outputBufferSizePending s4 = so_outputBufferSizePending s3"
    "so_outputControlBuffer s4 = so_outputControlBuffer s1" "so_outputBuffer s4 = so_outputBuffer s1"
    "desc_ok (so_super s4, ls) = desc_ok (so_super s, ls)" "bit (ds_status (so_super s4)) 1 = bit (ds_status (so_super s)) 1"
    by (simp_all add: s4_def f3 bit_statuses)
  have "mset (so_buffered s) = mset (p # so_buffered s4)"
    unfolding so_buffered_def f4 buf q1 by simp
  then have h4: "held st (p # so_buffered s4)" using I(2) held_mset by blast
  have len3: "unat (so_outputBufferLength s3) = blen st (so_outputControlBuffer s1 @ so_outputBuffer s1)"
    unfolding q1 f3 by (rule sub(1))
  have "sock_inv st s4 ls"
    unfolding sock_inv_def f4 using I(1,3,4,6,8,9) held_Cons [OF h4] size len3 by simp
  moreover have "ds_type (so_super s4) = ds_type (so_super s)" by (simp add: s4_def s3_def s2_def s1_def split: list.split)
  ultimately show thesis
    by (intro that [OF run]) (use q1 h4 ctl in \<open>simp_all add: f4 socket_getInputBufferSize_def\<close>)
qed


text \<open>Whatever else happens to the packets of the network, the socket is unaffected while its packets keep
  their content and its references.\<close>

lemma sock_env:
  assumes inv: "sock_inv st s ls" and ok: "net_ok st'" and h: "held st' (so_buffered s)"
    and same: "\<And>p. p \<in> set (so_buffered s) \<Longrightarrow> pcontent st' p = pcontent st p"
  shows "sock_inv st' s ls"
proof -
  note I = sock_invD [OF inv]
  have "plen st' p = plen st p" if "p \<in> set (so_buffered s)" for p
    using plen_same [OF I(1) ok same [OF that]] heldE [OF I(2) that] by (metis option.distinct(1))
  then have "blen st' ps = blen st ps" if "set ps \<subseteq> set (so_buffered s)" for ps
    using that by (intro blen_cong) blast
  then have "blen st' (so_inputBuffer s) = blen st (so_inputBuffer s)"
    "blen st' (so_outputControlBuffer s @ so_outputBuffer s) = blen st (so_outputControlBuffer s @ so_outputBuffer s)"
    by (simp_all add: so_buffered_def del: blen_simps)
  then show ?thesis using inv ok h unfolding sock_inv_def by presburger
qed

end
