(* ===== verification/Udp.thy ===== *)
theory Udp
  imports Socket "HOL-Library.Sublist"
begin

text \<open>
  \<^verbatim>\<open>host/descriptor/udp.c\<close>: UDP sockets. The state is the socket with the packets of the network, the listeners
  and the counters of the host for the identifiers and priorities of packets. New packets and payloads are at the
  addresses \<open>p\<close> and \<open>q\<close>; \<open>readPtr\<close> and \<open>writePtr\<close> are the memory of the process as in \<open>Packet\<close>.
  The virtual functions of \<^verbatim>\<open>transport.c\<close> and \<^verbatim>\<open>socket.c\<close> lead straight to the ones here.

  The input side of a UDP socket refines a queue of datagrams with a capacity in bytes.
\<close>

section \<open>Model\<close>

datatype UDPState = UDPS_CLOSED | UDPS_ESTABLISHED

record udp = socket +
  u_state :: UDPState
  u_stateLast :: UDPState

type_synonym sa_family = u16

definition AF_UNSPEC :: sa_family where "AF_UNSPEC = 0"
definition AF_UNIX :: sa_family where "AF_UNIX = 1"
definition AF_INET :: sa_family where "AF_INET = 2"
definition EMSGSIZE :: int where "EMSGSIZE = 90"
definition ENOTCONN :: int where "ENOTCONN = 107"
definition CONFIG_DATAGRAM_MAX_SIZE :: u64 where "CONFIG_DATAGRAM_MAX_SIZE = 65507"
definition PUDP_NONE :: u32 where "PUDP_NONE = 0"

record udp_world =
  uw_store :: net_store
  uw_udp :: udp
  uw_listeners :: listener_store
  uw_packetIDs :: u64
  uw_priorities :: nat

definition udp_setState :: "udp \<Rightarrow> UDPState \<Rightarrow> udp" where
  "udp_setState u state = u\<lparr>u_stateLast := u_state u, u_state := state\<rparr>"

definition udp_new :: "desc_callback \<Rightarrow> listener_store \<Rightarrow> u32 \<Rightarrow> u32 \<Rightarrow> (udp \<times> listener_store) option" where
  "udp_new cb ls receiveBufferSize sendBufferSize =
     (let u = socket.extend (socket_init DT_UDPSOCKET receiveBufferSize sendBufferSize) (udp.fields UDPS_CLOSED UDPS_CLOSED)
      in socket_adjustStatus cb u ls (STATUS_DESCRIPTOR_ACTIVE OR STATUS_DESCRIPTOR_WRITABLE) True)"

definition udp_fromLegacyDescriptor :: "udp \<Rightarrow> udp option" where
  "udp_fromLegacyDescriptor u = do { utility_assert (ds_type (so_super u) = DT_UDPSOCKET); Some u }"

definition udp_isFamilySupported :: "sa_family \<Rightarrow> bool" where
  "udp_isFamilySupported family \<longleftrightarrow> family = AF_INET \<or> family = AF_UNSPEC \<or> family = AF_UNIX"

definition udp_connectToPeer :: "udp_world \<Rightarrow> in_addr \<Rightarrow> in_port \<Rightarrow> sa_family \<Rightarrow> (udp_world \<times> int) option" where
  "udp_connectToPeer w ip port family = do {
     u \<leftarrow> udp_fromLegacyDescriptor (uw_udp w);
     let u1 = (if family = AF_UNSPEC then udp_setState (socket_setPeerName u 0 0) UDPS_CLOSED
               else udp_setState (socket_setPeerName u ip port) UDPS_ESTABLISHED);
     Some (w\<lparr>uw_udp := u1\<rparr>, 0)
   }"

definition udp_processPacket ::
  "bool \<Rightarrow> desc_callback \<Rightarrow> net_store \<Rightarrow> udp \<Rightarrow> listener_store \<Rightarrow> gpointer \<Rightarrow> (net_store \<times> udp \<times> listener_store) option" where
  "udp_processPacket tracing cb st u0 ls packet = do {
     u \<leftarrow> udp_fromLegacyDescriptor u0;
     (st1, u1, ls1, ok) \<leftarrow> socket_addToInputBuffer tracing cb st u ls packet;
     st2 \<leftarrow> (if \<not> ok then packet_addDeliveryStatus tracing st1 packet PDS_RCV_SOCKET_DROPPED else Some st1);
     Some (st2, u1, ls1)
   }"

text \<open>The interface hands a packet to the socket with \<^verbatim>\<open>socket_pushInPacket\<close>, and takes the next one with \<^verbatim>\<open>socket_pullOutPacket\<close>.\<close>

definition udp_push :: "bool \<Rightarrow> desc_callback \<Rightarrow> udp_world \<Rightarrow> gpointer \<Rightarrow> udp_world option" where
  "udp_push tracing cb w packet = do {
     (st, u, ls) \<leftarrow> socket_pushInPacket tracing (udp_processPacket tracing cb) (uw_store w) (uw_udp w) (uw_listeners w) packet;
     Some (w\<lparr>uw_store := st, uw_udp := u, uw_listeners := ls\<rparr>)
   }"

definition udp_pull :: "desc_callback \<Rightarrow> udp_world \<Rightarrow> (udp_world \<times> gpointer) option" where
  "udp_pull cb w = do {
     (u, ls, packet) \<leftarrow> socket_pullOutPacket cb (\<lambda>_. 0) (uw_store w) (uw_udp w) (uw_listeners w);
     Some (w\<lparr>uw_udp := u, uw_listeners := ls\<rparr>, packet)
   }"

definition udp_sendUserData ::
  "bool \<Rightarrow> desc_callback \<Rightarrow> hostid \<Rightarrow> in_addr \<Rightarrow> gpointer \<Rightarrow> gpointer \<Rightarrow> (nat \<Rightarrow> byte list option) \<Rightarrow>
   udp_world \<Rightarrow> gpointer \<Rightarrow> u64 \<Rightarrow> in_addr \<Rightarrow> in_port \<Rightarrow> (udp_world \<times> int) option" where
  "udp_sendUserData tracing cb hostID defaultIP p q readPtr w buffer nBytes ip port = do {
     u \<leftarrow> udp_fromLegacyDescriptor (uw_udp w);
     if nBytes > CONFIG_DATAGRAM_MAX_SIZE then Some (w, - EMSGSIZE)
     else do {
       space \<leftarrow> socket_getOutputBufferSpace u;
       if space < nBytes then Some (w, - EWOULDBLOCK)
       else do {
         let destinationIP = (if ip \<noteq> 0 then ip else so_peerIP u);
         let destinationPort = (if port \<noteq> 0 then port else ucast (so_peerPort u));
         let (boundIP, sourcePort) = (case socket_getSocketName u of Some name \<Rightarrow> name | None \<Rightarrow> (0, 0));
         let sourceIP = (if boundIP = 0 then if destinationIP = LOOPBACK_IP then LOOPBACK_IP else defaultIP else boundIP);
         utility_assert (sourceIP \<noteq> 0 \<and> sourcePort \<noteq> 0 \<and> destinationIP \<noteq> 0 \<and> destinationPort \<noteq> 0);
         let (st1, ids) = packet_new (uw_store w) p hostID (uw_packetIDs w);
         (st2, priorities) \<leftarrow> packet_setPayload st1 p q buffer nBytes readPtr (uw_priorities w);
         st3 \<leftarrow> packet_setUDP st2 p PUDP_NONE sourceIP sourcePort destinationIP destinationPort;
         st4 \<leftarrow> packet_addDeliveryStatus tracing st3 p PDS_SND_CREATED;
         (st5, u1, ls1, success) \<leftarrow> socket_addToOutputBuffer tracing cb (\<lambda>_. 0) st4 u (uw_listeners w) p;
         let bytes_sent = (if success \<noteq> None then nBytes else 0);
         Some (w\<lparr>uw_store := st5, uw_udp := u1, uw_listeners := ls1, uw_packetIDs := ids, uw_priorities := priorities\<rparr>,
               if bytes_sent = 0 \<and> nBytes > 0 then - EWOULDBLOCK else uint bytes_sent)
       }
     }
   }"

text \<open>The result comes with the bytes written to the process and the address of the sender.\<close>

definition udp_receiveUserData ::
  "bool \<Rightarrow> desc_callback \<Rightarrow> (byte list \<Rightarrow> nat) \<Rightarrow> udp_world \<Rightarrow> gpointer \<Rightarrow> u64 \<Rightarrow>
   (udp_world \<times> int \<times> byte list \<times> (in_addr \<times> in_port) option) option" where
  "udp_receiveUserData tracing cb writePtr w buffer nBytes = do {
     u \<leftarrow> udp_fromLegacyDescriptor (uw_udp w);
     let nextPacket = socket_peekNextInPacket u;
     if nextPacket = NULL then Some (w, - EWOULDBLOCK, [], None)
     else if buffer = NULL \<and> nBytes > 0 then Some (w, - EFAULT, [], None)
     else do {
       packetLength \<leftarrow> packet_getPayloadLength (uw_store w) nextPacket;
       let copyLength = min nBytes (ucast packetLength);
       (st1, bytesCopied, bytes) \<leftarrow> packet_copyPayload (uw_store w) nextPacket 0 copyLength writePtr;
       if bytesCopied < 0 then Some (w\<lparr>uw_store := st1\<rparr>, bytesCopied, [], None)
       else do {
         (u2, ls2, packet) \<leftarrow> socket_removeFromInputBuffer cb st1 u (uw_listeners w);
         utility_assert (bytesCopied = uint copyLength);
         st3 \<leftarrow> packet_addDeliveryStatus tracing st1 packet PDS_RCV_SOCKET_DELIVERED;
         ip \<leftarrow> packet_getSourceIP st3 packet;
         port \<leftarrow> packet_getSourcePort st3 packet;
         st4 \<leftarrow> packet_unref tracing st3 packet;
         Some (w\<lparr>uw_store := st4, uw_udp := u2, uw_listeners := ls2\<rparr>, bytesCopied, bytes, Some (ip, port))
       }
     }
   }"

definition udp_close :: "udp_world \<Rightarrow> (udp_world \<times> bool) option" where
  "udp_close w = do { u \<leftarrow> udp_fromLegacyDescriptor (uw_udp w); Some (w\<lparr>uw_udp := udp_setState u UDPS_CLOSED\<rparr>, True) }"

definition udp_shutdown :: "udp_world \<Rightarrow> int" where
  "udp_shutdown w = (if u_state (uw_udp w) = UDPS_CLOSED then - ENOTCONN else 0)"

section \<open>Datagrams\<close>

type_synonym datagram = "in_addr \<times> in_port \<times> in_addr \<times> in_port \<times> byte list"

definition pbytes :: "net_store \<Rightarrow> gpointer \<Rightarrow> byte list" where
  "pbytes st p = (case pcontent st p of None \<Rightarrow> [] | Some (pr, h, data, len) \<Rightarrow> take (plen st p) data)"

definition dgram :: "net_store \<Rightarrow> gpointer \<Rightarrow> datagram" where
  "dgram st p = (the (packet_getSourceIP st p), the (packet_getSourcePort st p),
     the (packet_getDestinationIP st p), the (packet_getDestinationPort st p), pbytes st p)"

definition dbytes :: "datagram \<Rightarrow> byte list" where
  "dbytes d = (case d of (sip, sp, dip, dp, bytes) \<Rightarrow> bytes)"

lemma dbytes_dgram [simp]: "dbytes (dgram st p) = pbytes st p"
  by (simp add: dbytes_def dgram_def)

lemma length_pbytes:
  assumes ok: "net_ok st" and p: "ns_packets st p = Some pk"
  shows "length (pbytes st p) = plen st p"
proof -
  obtain pr h data len where c: "pcontent st p = Some (pr, h, data, len)"
    using p by (cases "pcontent st p") (auto simp: pcontent_def)
  have "length data = unat len"
  proof (cases "pk_payload pk = NULL")
    case True
    then show ?thesis using c p by (auto simp: pcontent_def)
  next
    case False
    obtain pl where "ns_payloads st (pk_payload pk) = Some pl" "payload_ok st (pk_payload pk) pl"
      using packet_payload_live [OF ok p False] by blast
    then show ?thesis using c p False by (auto simp: pcontent_def payload_ok_def)
  qed
  moreover have "unat (ucast len :: u32) \<le> unat len" by (simp add: unsigned_ucast_eq take_bit_nat_less_eq_self)
  ultimately show ?thesis using c plen_content [OF ok c] by (simp add: pbytes_def)
qed

lemma dgram_same:
  assumes "net_ok st" and "net_ok st'" and same: "pcontent st' p = pcontent st p" and "ns_packets st p \<noteq> None"
  shows "dgram st' p = dgram st p"
proof -
  obtain pk where pk: "ns_packets st p = Some pk" using assms(4) by blast
  then obtain pk' where pk': "ns_packets st' p = Some pk'" using same by (auto simp: pcontent_def split: option.splits)
  have eq: "pk_protocol pk' = pk_protocol pk" "pk_header pk' = pk_header pk"
    using same pk pk' by (simp_all add: pcontent_def)
  have "packet_getSourceIP st' p = packet_getSourceIP st p" "packet_getSourcePort st' p = packet_getSourcePort st p"
    "packet_getDestinationIP st' p = packet_getDestinationIP st p" "packet_getDestinationPort st' p = packet_getDestinationPort st p"
    unfolding packet_getSourceIP_def packet_getSourcePort_def packet_getDestinationIP_def packet_getDestinationPort_def
      pk pk' Option.bind.bind_lunit eq by (rule refl)+
  then show ?thesis unfolding dgram_def pbytes_def same plen_same [OF assms] by simp
qed


section \<open>What the operations do\<close>

definition udp_inv :: "udp_world \<Rightarrow> bool" where
  "udp_inv w \<longleftrightarrow> sock_inv (uw_store w) (uw_udp w) (uw_listeners w) \<and> ds_type (so_super (uw_udp w)) = DT_UDPSOCKET \<and>
     so_outputControlBuffer (uw_udp w) = []"

definition udp_queue :: "udp_world \<Rightarrow> datagram list" where
  "udp_queue w = map (dgram (uw_store w)) (so_inputBuffer (uw_udp w))"

definition udp_outqueue :: "udp_world \<Rightarrow> datagram list" where
  "udp_outqueue w = map (dgram (uw_store w)) (so_outputBuffer (uw_udp w))"

definition udp_capacity :: "udp_world \<Rightarrow> nat" where
  "udp_capacity w = unat (socket_getInputBufferSize (uw_udp w))"

definition queued_bytes :: "datagram list \<Rightarrow> nat" where
  "queued_bytes q = sum_list (map (length \<circ> dbytes) q)"

lemma queue_bytes:
  assumes "net_ok st" and "\<And>p. p \<in> set ps \<Longrightarrow> ns_packets st p \<noteq> None"
  shows "queued_bytes (map (dgram st) ps) = blen st ps"
  using assms(2) length_pbytes [OF assms(1)] by (induction ps) (auto simp: queued_bytes_def)

lemma udp_bytes:
  assumes "sock_inv st s ls" shows "queued_bytes (map (dgram st) (so_inputBuffer s)) = unat (so_inputBufferLength s)"
proof -
  note I = sock_invD [OF assms]
  have "ns_packets st p \<noteq> None" if "p \<in> set (so_inputBuffer s)" for p
    using heldE [OF I(2), of p] that by (auto simp: so_buffered_def)
  then show ?thesis using queue_bytes [OF I(1)] I(4) by simp
qed

lemma udp_from: "ds_type (so_super u) = DT_UDPSOCKET \<Longrightarrow> udp_fromLegacyDescriptor u = Some u"
  by (simp add: udp_fromLegacyDescriptor_def)

lemma map_dgram_same:
  assumes "net_ok st" and "net_ok st'" and "\<And>p. p \<in> set ps \<Longrightarrow> pcontent st' p = pcontent st p"
    and "\<And>p. p \<in> set ps \<Longrightarrow> ns_packets st p \<noteq> None"
  shows "map (dgram st') ps = map (dgram st) ps"
  using dgram_same [OF assms(1,2)] assms(3,4) by simp

lemma sock_live: "sock_inv st s ls \<Longrightarrow> p \<in> set (so_buffered s) \<Longrightarrow> ns_packets st p \<noteq> None"
  using heldE sock_invD(2) by (metis option.distinct(1))

text \<open>Marking a packet changes no socket.\<close>

lemma mark_ok:
  assumes inv: "sock_inv st s ls" and r: "routable st p"
  obtains st' where "packet_addDeliveryStatus tracing st p status = Some st'" "sock_inv st' s ls" "routable st' p"
    "pcontent st' = pcontent st"
proof -
  note I = sock_invD [OF inv]
  obtain pk where pk: "ns_packets st p = Some pk" "pk_protocol pk \<noteq> PNONE" "unat (pk_referenceCount pk) + 1 < 2 ^ 32"
    using r by (auto simp: routable_def)
  then have "printable tracing pk" by (simp add: printable_def)
  note status = packet_addDeliveryStatus_ok [OF I(1) pk(1) this, of status]
  let ?st = "packet_put st p (add_status tracing status pk)"
  have c: "pcontent ?st = pcontent st" by (rule pcontent_put [OF pk(1)]) simp_all
  moreover have "sock_inv ?st s ls"
    using sock_env [OF inv status(2)] held_status [OF pk(1)] I(2) c by simp
  moreover have "routable ?st p" using pk by (simp add: routable_def)
  ultimately show thesis using that status(1) by blast
qed

lemma udp_push_ok:
  assumes inv: "udp_inv w" and cb: "idle_callback cb" and r: "routable (uw_store w) p"
  obtains w' where "udp_push tracing cb w p = Some w'" "udp_inv w'" "udp_capacity w' = udp_capacity w"
    "udp_outqueue w' = udp_outqueue w"
    "udp_queue w' = udp_queue w @
       (if length (dbytes (dgram (uw_store w) p)) \<le> udp_capacity w - queued_bytes (udp_queue w) then [dgram (uw_store w) p] else [])"
proof -
  let ?st = "uw_store w" and ?u = "uw_udp w" and ?ls = "uw_listeners w"
  have s: "sock_inv ?st ?u ?ls" and ty: "ds_type (so_super ?u) = DT_UDPSOCKET" using inv by (simp_all add: udp_inv_def)
  obtain st1 where st1: "packet_addDeliveryStatus tracing ?st p PDS_RCV_SOCKET_PROCESSED = Some st1" "sock_inv st1 ?u ?ls"
    "routable st1 p" "pcontent st1 = pcontent ?st" using mark_ok [OF s r] .
  obtain st2 u2 ok where run: "socket_addToInputBuffer tracing cb st1 ?u ?ls p = Some (st2, u2, ?ls, ok)"
    and A: "sock_inv st2 u2 ?ls" "ok \<longleftrightarrow> plen st1 p \<le> in_space ?u" "pcontent st2 = pcontent st1"
      "so_inputBuffer u2 = so_inputBuffer ?u @ (if ok then [p] else [])"
      "so_outputBuffer u2 = so_outputBuffer ?u" "so_outputControlBuffer u2 = so_outputControlBuffer ?u"
      "socket_getInputBufferSize u2 = socket_getInputBufferSize ?u" "ds_type (so_super u2) = ds_type (so_super ?u)"
      "\<not> ok \<Longrightarrow> st2 = st1 \<and> u2 = ?u"
    by (rule sock_add_input [OF st1(2) cb st1(3)]) (rule that)
  obtain st3 where st3: "(if \<not> ok then packet_addDeliveryStatus tracing st2 p PDS_RCV_SOCKET_DROPPED else Some st2) = Some st3"
    "sock_inv st3 u2 ?ls" "pcontent st3 = pcontent ?st"
  proof (cases ok)
    case True
    then show thesis using that [of st2] A(1,3) st1(4) by simp
  next
    case False
    obtain st' where "packet_addDeliveryStatus tracing st1 p PDS_RCV_SOCKET_DROPPED = Some st'" "sock_inv st' ?u ?ls"
      "pcontent st' = pcontent st1" using mark_ok [OF st1(2,3)] by metis
    then show thesis using that [of st'] False A(9) st1(4) by simp
  qed
  define w' where "w' = w\<lparr>uw_store := st3, uw_udp := u2, uw_listeners := ?ls\<rparr>"
  have push: "udp_push tracing cb w p = Some w'"
    using st1(1) run st3(1) ty by (simp add: udp_push_def socket_pushInPacket_def udp_processPacket_def udp_from w'_def)
  have ok: "net_ok ?st" "net_ok st1" "net_ok st3" using sock_invD(1) s st1(2) st3(2) by blast+
  obtain pk where live: "ns_packets ?st p = Some pk" using r by (auto simp: routable_def)
  have len: "plen st1 p = length (dbytes (dgram ?st p))"
    using plen_same [OF ok(1,2), of p] st1(4) live length_pbytes [OF ok(1) live] by simp
  have room: "in_space ?u = udp_capacity w - queued_bytes (udp_queue w)"
    using udp_bytes [OF s] by (simp add: in_space_def udp_capacity_def udp_queue_def)
  have "map (dgram st3) (so_inputBuffer ?u) = map (dgram ?st) (so_inputBuffer ?u)"
    using sock_live [OF s] st3(3) by (intro map_dgram_same [OF ok(1,3)]) (auto simp: so_buffered_def)
  moreover have outq: "map (dgram st3) (so_outputBuffer ?u) = map (dgram ?st) (so_outputBuffer ?u)"
    using sock_live [OF s] st3(3) by (intro map_dgram_same [OF ok(1,3)]) (auto simp: so_buffered_def)
  moreover have "dgram st3 p = dgram ?st p" using dgram_same [OF ok(1,3)] st3(3) live by simp
  ultimately have "udp_queue w' = udp_queue w @ (if ok then [dgram ?st p] else [])"
    using A(4) by (simp add: udp_queue_def w'_def)
  then show thesis
    by (intro that [OF push]) (use inv st3(2) A(2,5-8) ty len room outq in \<open>simp_all add: udp_inv_def udp_capacity_def udp_outqueue_def w'_def\<close>)
qed


text \<open>Releasing a packet leaves the content of the packets that are still held.\<close>

lemma unref_content:
  assumes ok: "net_ok st" and h: "held st (p # ps)"
  obtains st' where "packet_unref tracing st p = Some st'" "net_ok st'" "held st' ps"
    "\<And>x. x \<in> set ps \<Longrightarrow> pcontent st' x = pcontent st x"
proof -
  obtain pk where pk: "ns_packets st p = Some pk" "pk_protocol pk \<noteq> PNONE" using heldE [OF h] by (metis list.set_intros(1))
  have pr: "printable tracing pk" using pk by (simp add: printable_def)
  obtain st' where st': "packet_unref tracing st p = Some st'" "net_ok st'"
    "\<And>p'. p' \<noteq> p \<Longrightarrow> ns_packets st' p' = ns_packets st p'"
    "ns_packets st' p = (if pk_referenceCount pk = 1 then None
                         else Some (pk\<lparr>pk_referenceCount := pk_referenceCount pk - 1\<rparr>))"
    "\<And>q pl'. ns_payloads st' q = Some pl' \<Longrightarrow>
        \<exists>pl. ns_payloads st q = Some pl \<and> pl_data pl' = pl_data pl \<and> pl_length pl' = pl_length pl"
    by (rule packet_unref_ok [OF ok pk(1) pr]) (rule that)
  have h': "held st' ps" using packet_unref_held [OF ok h, of tracing] st'(1) by (metis option.inject)
  have "pcontent st' x = pcontent st x" if x: "x \<in> set ps" for x
  proof -
    obtain y' where y': "ns_packets st' x = Some y'" using heldE [OF h' x] by metis
    obtain y where y: "ns_packets st x = Some y" "pk_payload y' = pk_payload y" "pk_protocol y' = pk_protocol y" "pk_header y' = pk_header y"
      using y' st'(3,4) pk(1) by (cases "x = p") (auto split: if_splits)
    show ?thesis
    proof (cases "pk_payload y = NULL")
      case True
      then show ?thesis using y y' by (simp add: pcontent_def)
    next
      case False
      then obtain pl' where pl': "ns_payloads st' (pk_payload y) = Some pl'" using packet_payload_live [OF st'(2) y'] y(2) by metis
      then show ?thesis using st'(5) [OF pl'] y y' False by (auto simp: pcontent_def)
    qed
  qed
  then show thesis by (rule that [OF st'(1,2) h'])
qed

text \<open>Copying at most the length of a packet to the process.\<close>

lemma copy_ok:
  assumes ok: "net_ok st" and p: "ns_packets st p = Some pk" and wr: "\<And>bytes. writePtr bytes = 0"
    and len: "packet_getPayloadLength st p = Some len"
  shows "packet_copyPayload st p 0 (min n (ucast len)) writePtr = Some (st, uint (min n (ucast len)), take (unat n) (pbytes st p))"
proof (cases "pk_payload pk = NULL")
  case True
  then show ?thesis using p len by (auto simp: packet_copyPayload_def packet_getPayloadLength_def pbytes_def pcontent_def)
next
  case False
  obtain pl where pl: "ns_payloads st (pk_payload pk) = Some pl" "payload_get st (pk_payload pk) = Some pl"
    using packet_payload_live [OF ok p False] .
  define m where "m = min n (ucast len)"
  have l: "len = ucast (pl_length pl)" using len p False pl by (simp add: packet_getPayloadLength_def payload_getLength_def)
  have c: "pcontent st p = Some (pk_protocol pk, pk_header pk, pl_data pl, pl_length pl)" using p False pl by (simp add: pcontent_def)
  then have pb: "pbytes st p = take (unat len) (pl_data pl)" using plen_content [OF ok c] l by (simp add: pbytes_def)
  have ul: "unat (ucast len :: u64) = unat len" by (rule unat_ucast_u32)
  then have um: "unat m = min (unat n) (unat len)" by (simp add: m_def min_def word_le_nat_alt)
  have "unat len \<le> unat (pl_length pl)" unfolding l by (simp add: unsigned_ucast_eq take_bit_nat_less_eq_self)
  then have "m \<le> pl_length pl" using um by (simp add: word_le_nat_alt)
  then have mle: "min (pl_length pl) m = m" by (rule min_absorb2)
  have "unat m < 2 ^ 32" using um unsigned_less [of len, where 'a = nat] by simp
  then have sm: "sint m = uint m" using sint_small [of m] by simp
  have pos: "0 < uint m" if "m \<noteq> 0" using that uint_0_iff [of m] uint_lt_0 [of m] by (metis linorder_neqE)
  have "take (unat m) (pl_data pl) = take (unat n) (pbytes st p)" by (simp add: um pb min.commute)
  then have "payload_getData st (pk_payload pk) 0 m writePtr = Some (st, uint m, take (unat n) (pbytes st p))"
    using pl(2) wr mle sm pos by (cases "m = 0") (simp_all add: payload_getData_def Let_def)
  then show ?thesis using p False by (simp add: packet_copyPayload_def m_def)
qed


lemma sources_ok:
  assumes "net_ok st" and "ns_packets st p = Some pk" and "pk_protocol pk \<noteq> PNONE"
  shows "\<exists>ip port. packet_getSourceIP st p = Some ip \<and> packet_getSourcePort st p = Some port"
proof -
  have "header_ok (pk_protocol pk) (pk_header pk)" using net_okD(1) [OF assms(1,2)] by (simp add: packet_ok_def)
  then show ?thesis using assms(2,3)
    by (cases "(pk_protocol pk, pk_header pk)" rule: header_ok.cases)
      (simp_all add: packet_getSourceIP_def packet_getSourcePort_def)
qed

lemma udp_receive_ok:
  assumes inv: "udp_inv w" and cb: "idle_callback cb" and wr: "\<And>bytes. writePtr bytes = 0"
    and q: "udp_queue w = (sip, sp, dip, dp, bytes) # rest" and buf: "buffer \<noteq> NULL \<or> n = 0"
  obtains w' where "udp_receiveUserData tracing cb writePtr w buffer n =
       Some (w', int (min (unat n) (length bytes)), take (unat n) bytes, Some (sip, sp))"
    and "udp_inv w'" and "udp_capacity w' = udp_capacity w" and "udp_queue w' = rest" and "udp_outqueue w' = udp_outqueue w"
proof -
  let ?st = "uw_store w" and ?u = "uw_udp w" and ?ls = "uw_listeners w"
  have s: "sock_inv ?st ?u ?ls" and ty: "ds_type (so_super ?u) = DT_UDPSOCKET" using inv by (simp_all add: udp_inv_def)
  note I = sock_invD [OF s]
  obtain p ps where b: "so_inputBuffer ?u = p # ps" and d: "dgram ?st p = (sip, sp, dip, dp, bytes)" "map (dgram ?st) ps = rest"
    using q by (auto simp: udp_queue_def)
  have "p \<in> set (so_buffered ?u)" using b by (simp add: so_buffered_def)
  then obtain pk where pk: "ns_packets ?st p = Some pk" "pk_protocol pk \<noteq> PNONE" using heldE [OF I(2)] by metis
  have nn: "p \<noteq> NULL" using net_okD(3) [OF I(1) pk(1)] .
  obtain len where len: "packet_getPayloadLength ?st p = Some len" "unat len = plen ?st p" using plen_live [OF I(1) pk(1)] .
  have pb: "pbytes ?st p = bytes" using d(1) by (simp add: dgram_def)
  note copy = copy_ok [OF I(1) pk(1) wr len(1), of n, unfolded pb]
  obtain u2 where rm: "socket_removeFromInputBuffer cb ?st ?u ?ls = Some (u2, ?ls, p)" "sock_inv ?st u2 ?ls" "so_inputBuffer u2 = ps"
    "so_outputBuffer u2 = so_outputBuffer ?u" "so_outputControlBuffer u2 = so_outputControlBuffer ?u"
    "socket_getInputBufferSize u2 = socket_getInputBufferSize ?u" "ds_type (so_super u2) = ds_type (so_super ?u)"
    "held ?st (p # so_buffered u2)"
    by (rule sock_remove_input [OF s cb b]) (rule that)
  have "printable tracing pk" using pk(2) by (simp add: printable_def)
  note status = packet_addDeliveryStatus_ok [OF I(1) pk(1) this, of PDS_RCV_SOCKET_DELIVERED]
  define st3 where "st3 = packet_put ?st p (add_status tracing PDS_RCV_SOCKET_DELIVERED pk)"
  have c3: "pcontent st3 = pcontent ?st" unfolding st3_def by (rule pcontent_put [OF pk(1)]) simp_all
  have ok3: "net_ok st3" using status(2) by (simp add: st3_def)
  have h3: "held st3 (p # so_buffered u2)" unfolding st3_def held_status [OF pk(1)] by (rule rm(8))
  have d3: "dgram st3 p = dgram ?st p" using dgram_same [OF I(1) ok3] c3 pk(1) by simp
  have src: "packet_getSourceIP st3 p = Some sip" "packet_getSourcePort st3 p = Some sp"
    using sources_ok [OF ok3, of p "add_status tracing PDS_RCV_SOCKET_DELIVERED pk"] pk d(1) d3
    by (auto simp: dgram_def st3_def)
  obtain st4 where un: "packet_unref tracing st3 p = Some st4" "net_ok st4" "held st4 (so_buffered u2)"
    "\<And>x. x \<in> set (so_buffered u2) \<Longrightarrow> pcontent st4 x = pcontent st3 x"
    by (rule unref_content [OF ok3 h3]) (rule that)
  define w' where "w' = w\<lparr>uw_store := st4, uw_udp := u2, uw_listeners := ?ls\<rparr>"
  have lb: "length bytes = unat len" using length_pbytes [OF I(1) pk(1)] pb len(2) by simp
  have "uint (min n (ucast len)) = int (unat (min n (ucast len :: u64)))" by simp
  also have "unat (min n (ucast len :: u64)) = min (unat n) (length bytes)"
    using unat_ucast_u32 [of len] lb by (simp add: min_def word_le_nat_alt)
  finally have r: "uint (min n (ucast len)) = int (min (unat n) (length bytes))" .
  have nb: "\<not> (buffer = NULL \<and> 0 < n)" using buf by auto
  have peek: "socket_peekNextInPacket ?u = p" by (simp add: socket_peekNextInPacket_def b)
  have run: "udp_receiveUserData tracing cb writePtr w buffer n =
       Some (w', int (min (unat n) (length bytes)), take (unat n) bytes, Some (sip, sp))"
    unfolding udp_receiveUserData_def udp_from [OF ty] Option.bind.bind_lunit Let_def peek
    using nn nb len(1) copy rm(1) status(1) src un(1) r by (simp add: st3_def [symmetric] w'_def)
  have inv4: "sock_inv st4 u2 ?ls"
    by (rule sock_env [OF rm(2) un(2,3)]) (use un(4) c3 in simp)
  have keep: "map (dgram st4) xs = map (dgram ?st) xs" if "set xs \<subseteq> set (so_buffered u2)" for xs
  proof (rule map_dgram_same [OF I(1) un(2)])
    fix x assume "x \<in> set xs"
    then have x: "x \<in> set (so_buffered u2)" using that by blast
    show "pcontent st4 x = pcontent ?st x" using un(4) [OF x] c3 by simp
    show "ns_packets ?st x \<noteq> None" by (rule sock_live [OF rm(2) x])
  qed
  have "map (dgram st4) ps = map (dgram ?st) ps" by (rule keep) (use rm(3) in \<open>auto simp: so_buffered_def\<close>)
  moreover have "map (dgram st4) (so_outputBuffer u2) = map (dgram ?st) (so_outputBuffer u2)"
    by (rule keep) (auto simp: so_buffered_def)
  ultimately show thesis
    by (intro that [OF run]) (use inv inv4 rm(3-7) ty d in \<open>simp_all add: udp_inv_def udp_queue_def udp_outqueue_def udp_capacity_def w'_def\<close>)
qed


text \<open>Creating the packet of a datagram.\<close>

lemma round_sig_pos: "0 < n \<Longrightarrow> 0 < round_sig n sticky"
proof -
  assume n: "0 < n"
  have "2 ^ (bit_length n - 53) \<le> (2::nat) ^ (bit_length n - 1)" by (rule power_increasing) simp_all
  then have "2 ^ (bit_length n - 53) \<le> n" using bit_length_bounds [OF n] order_trans by blast
  then have "0 < n div 2 ^ (bit_length n - 53)" by (simp add: div_greater_zero_iff)
  then show ?thesis using n by (simp add: round_sig_def Let_def)
qed

lemma priority_pos: "fst (host_getNextPacketPriority c) \<noteq> 0"
  using round_sig_pos [of "c + 1" False] by (simp add: host_getNextPacketPriority_def Let_def)

definition sent_bytes :: "(nat \<Rightarrow> byte list option) \<Rightarrow> u64 \<Rightarrow> byte list" where
  "sent_bytes readPtr n = (if n = 0 then [] else case readPtr (unat n) of None \<Rightarrow> [] | Some bytes \<Rightarrow> bytes)"

lemma pcontent_other: "x \<noteq> p \<Longrightarrow> pcontent (packet_put st p pk) x = pcontent st x"
  unfolding pcontent_def packet_put_simps by simp

lemma fresh_payload_content:
  assumes ok: "net_ok st" and q: "ns_payloads st q = None" and x: "x \<noteq> p" "ns_packets st x \<noteq> None"
  shows "pcontent (packet_put (payload_put st q pl) p pk) x = pcontent st x"
proof -
  obtain y where y: "ns_packets st x = Some y" using x(2) by blast
  then have "pk_payload y = NULL \<or> pk_payload y \<noteq> q" using net_okD(1) [OF ok y] q by (auto simp: packet_ok_def)
  then show ?thesis using y x(1) by (auto simp: pcontent_def)
qed

lemma setPayload_content:
  assumes ok: "net_ok st" and p: "ns_packets st p = Some pk" "pk_payload pk = NULL"
    and q: "ns_payloads st q = None" "q \<noteq> NULL" and rd: "read_law readPtr" and d: "data \<noteq> NULL"
  obtains st' pk' where "packet_setPayload st p q data n readPtr c = Some (st', snd (host_getNextPacketPriority c))"
    "net_ok st'" "ns_packets st' = (ns_packets st)(p \<mapsto> pk')"
    "pk' = pk\<lparr>pk_payload := pk_payload pk', pk_priority := fst (host_getNextPacketPriority c)\<rparr>"
    "\<exists>len. pcontent st' p = Some (pk_protocol pk, pk_header pk, sent_bytes readPtr n, len) \<and> unat len = length (sent_bytes readPtr n)"
    "\<And>x. x \<noteq> p \<Longrightarrow> ns_packets st x \<noteq> None \<Longrightarrow> pcontent st' x = pcontent st x"
proof (cases "0 < n \<and> readPtr (unat n) = None")
  case True
  let ?pk = "pk\<lparr>pk_payload := NULL, pk_priority := fst (host_getNextPacketPriority c)\<rparr>"
  have run: "packet_setPayload st p q data n readPtr c = Some (packet_put st p ?pk, snd (host_getNextPacketPriority c))"
    using True p d by (simp add: packet_setPayload_def payload_new_def case_prod_unfold Let_def)
  show thesis
    by (rule that [OF run packet_setPayload_ok [OF ok q rd run], of ?pk])
      (use True p in \<open>auto simp: pcontent_def sent_bytes_def\<close>)
next
  case False
  define bytes where "bytes = sent_bytes readPtr n"
  define pl where "pl = \<lparr>pl_locked = False, pl_referenceCount = 1, pl_data = bytes, pl_length = n\<rparr>"
  let ?pk = "pk\<lparr>pk_payload := q, pk_priority := fst (host_getNextPacketPriority c)\<rparr>"
  have len: "length bytes = unat n"
    using False rd by (cases "n = 0") (auto simp: bytes_def sent_bytes_def read_law_def word_neq_0_conv split: option.splits)
  have run: "packet_setPayload st p q data n readPtr c =
      Some (packet_put (payload_put st q pl) p ?pk, snd (host_getNextPacketPriority c))"
    using False p d by (cases "n = 0")
      (auto simp: packet_setPayload_def payload_new_def bytes_def sent_bytes_def pl_def case_prod_unfold word_neq_0_conv Let_def)
  show thesis
    by (rule that [OF run packet_setPayload_ok [OF ok q rd run], of ?pk])
      (use q len fresh_payload_content [OF ok q(1)] in \<open>auto simp: pcontent_def pl_def bytes_def\<close>)
qed


text \<open>The addresses of a datagram: the destination is the one given or else the peer, the source is the bound address or
  else the one of the interface that leads to the destination.\<close>

definition udp_route :: "in_addr \<Rightarrow> udp \<Rightarrow> in_addr \<Rightarrow> in_port \<Rightarrow> in_addr \<times> in_port \<times> in_addr \<times> in_port" where
  "udp_route defaultIP u ip port =
     (let dip = (if ip = 0 then so_peerIP u else ip); dp = (if port = 0 then ucast (so_peerPort u) else port);
          local = (case socket_getSocketName u of None \<Rightarrow> (0, 0) | Some name \<Rightarrow> name)
      in (if fst local \<noteq> 0 then fst local else if dip = LOOPBACK_IP then LOOPBACK_IP else defaultIP, snd local, dip, dp))"

definition udp_routed :: "in_addr \<times> in_port \<times> in_addr \<times> in_port \<Rightarrow> bool" where
  "udp_routed r \<longleftrightarrow> (case r of (sip, sp, dip, dp) \<Rightarrow> sip \<noteq> 0 \<and> sp \<noteq> 0 \<and> dip \<noteq> 0 \<and> dp \<noteq> 0)"

lemma udp_packet_ok:
  assumes ok: "net_ok st" and p: "ns_packets st p = None" "p \<noteq> NULL" and q: "ns_payloads st q = None" "q \<noteq> NULL"
    and rd: "read_law readPtr" and buf: "buffer \<noteq> NULL" and r: "udp_routed (sip, sp, dip, dp)"
    and n: "n \<le> CONFIG_DATAGRAM_MAX_SIZE"
  obtains st1 st2 st3 st4 pk where "packet_new st p hostID c = (st1, c + 1)"
    "packet_setPayload st1 p q buffer n readPtr prio = Some (st2, snd (host_getNextPacketPriority prio))"
    "packet_setUDP st2 p PUDP_NONE sip sp dip dp = Some st3"
    "packet_addDeliveryStatus tracing st3 p PDS_SND_CREATED = Some st4"
    "net_ok st4" "ns_packets st4 p = Some pk" "pk_protocol pk = PUDP" "pk_priority pk \<noteq> 0" "pk_referenceCount pk = 1"
    "dgram st4 p = (sip, sp, dip, dp, sent_bytes readPtr n)"
    "\<And>x. x \<noteq> p \<Longrightarrow> ns_packets st4 x = ns_packets st x"
    "\<And>x. x \<noteq> p \<Longrightarrow> ns_packets st x \<noteq> None \<Longrightarrow> pcontent st4 x = pcontent st x"
    "plen st4 p = length (sent_bytes readPtr n)"
proof -
  define pk0 where "pk0 = \<lparr>pk_referenceCount = 1, pk_hostID = hostID, pk_packetID = c, pk_protocol = PNONE, pk_header = None,
    pk_payload = NULL, pk_priority = 0, pk_allStatus = 0, pk_orderedStatus = []\<rparr>"
  define st1 where "st1 = packet_put st p pk0"
  have new: "packet_new st p hostID c = (st1, c + 1)" by (simp add: packet_new_def host_getNewPacketID_def st1_def pk0_def)
  have ok1: "net_ok st1" unfolding st1_def by (rule net_ok_packet_new [OF ok p]) (simp_all add: pk0_def)
  have p1: "ns_packets st1 p = Some pk0" "pk_payload pk0 = NULL" "ns_payloads st1 q = None" using q by (simp_all add: st1_def pk0_def)
  obtain st2 pk2 where s2: "packet_setPayload st1 p q buffer n readPtr prio = Some (st2, snd (host_getNextPacketPriority prio))"
    and ok2: "net_ok st2" and p2: "ns_packets st2 = (ns_packets st1)(p \<mapsto> pk2)"
    and pk2: "pk2 = pk0\<lparr>pk_payload := pk_payload pk2, pk_priority := fst (host_getNextPacketPriority prio)\<rparr>"
    and c2: "\<exists>len. pcontent st2 p = Some (pk_protocol pk0, pk_header pk0, sent_bytes readPtr n, len) \<and> unat len = length (sent_bytes readPtr n)"
    and keep2: "\<And>x. x \<noteq> p \<Longrightarrow> ns_packets st1 x \<noteq> None \<Longrightarrow> pcontent st2 x = pcontent st1 x"
    by (rule setPayload_content [OF ok1 p1 q(2) rd buf]) (rule that)
  have f2: "pk_protocol pk2 = PNONE" "pk_header pk2 = None" "pk_referenceCount pk2 = 1"
    "pk_priority pk2 = fst (host_getNextPacketPriority prio)" by (subst pk2, simp add: pk0_def)+
  define h where "h = HUDP \<lparr>uh_flags = PUDP_NONE, uh_sourceIP = sip, uh_sourcePort = sp, uh_destinationIP = dip, uh_destinationPort = dp\<rparr>"
  define pk3 where "pk3 = pk2\<lparr>pk_header := Some h, pk_protocol := PUDP\<rparr>"
  define st3 where "st3 = packet_put st2 p pk3"
  have s3: "packet_setUDP st2 p PUDP_NONE sip sp dip dp = Some st3"
    using r p2 f2 by (simp add: packet_setUDP_def udp_routed_def st3_def pk3_def h_def)
  have ok3: "net_ok st3" unfolding st3_def
    by (rule net_ok_put [OF ok2, where pk = pk2]) (simp_all add: p2 pk3_def h_def f2)
  have p3: "ns_packets st3 p = Some pk3" "printable tracing pk3" by (simp_all add: st3_def pk3_def printable_def)
  note status = packet_addDeliveryStatus_ok [OF ok3 p3, of PDS_SND_CREATED]
  define pk4 where "pk4 = add_status tracing PDS_SND_CREATED pk3"
  define st4 where "st4 = packet_put st3 p pk4"
  have p4: "ns_packets st4 p = Some pk4" "pk_protocol pk4 = PUDP" "pk_header pk4 = Some h" "pk_payload pk4 = pk_payload pk2"
    by (simp_all add: st4_def pk4_def pk3_def)
  obtain len where len: "pcontent st2 p = Some (PNONE, None, sent_bytes readPtr n, len)" "unat len = length (sent_bytes readPtr n)"
    using c2 by (auto simp: pk0_def)
  then have c4: "pcontent st4 p = Some (PUDP, Some h, sent_bytes readPtr n, len)"
    using p2 by (cases "pk_payload pk2 = NULL") (simp_all add: pcontent_def st4_def st3_def pk4_def pk3_def)
  have ok4: "net_ok st4" using status(2) by (simp add: st4_def pk4_def)
  have "length (sent_bytes readPtr n) \<le> unat n" using rd by (auto simp: sent_bytes_def read_law_def split: option.split)
  also have "unat n \<le> 65507" using n by (simp add: word_le_nat_alt CONFIG_DATAGRAM_MAX_SIZE_def)
  finally have "unat len < 2 ^ 32" using len(2) by simp
  then have "unat (ucast len :: u32) = unat len" by (simp add: unsigned_ucast_eq take_bit_nat_eq_self)
  then have pl: "plen st4 p = length (sent_bytes readPtr n)" using plen_content [OF ok4 c4] len(2) by simp
  then have dg: "dgram st4 p = (sip, sp, dip, dp, sent_bytes readPtr n)"
    unfolding dgram_def pbytes_def c4 packet_getSourceIP_def packet_getSourcePort_def packet_getDestinationIP_def
      packet_getDestinationPort_def p4(1) Option.bind.bind_lunit p4(2,3) by (simp add: h_def)
  have oth: "ns_packets st4 x = ns_packets st x" if "x \<noteq> p" for x using that by (simp add: st4_def st3_def p2 st1_def)
  have con: "pcontent st4 x = pcontent st x" if "x \<noteq> p" "ns_packets st x \<noteq> None" for x
  proof -
    have "pcontent st4 x = pcontent st2 x" using that(1) by (simp add: pcontent_other st4_def st3_def)
    also have "\<dots> = pcontent st1 x" using keep2 that by (simp add: st1_def)
    also have "\<dots> = pcontent st x" using that(1) by (simp add: pcontent_other st1_def)
    finally show ?thesis .
  qed
  have "pk_priority pk4 \<noteq> 0" "pk_referenceCount pk4 = 1" using f2 priority_pos by (simp_all add: pk4_def pk3_def add_status_def)
  then show thesis
    by (intro that [OF new s2 s3 _ ok4 p4(1,2) _ _ dg oth con pl]) (use status(1) in \<open>simp_all add: st4_def pk4_def\<close>)
qed


lemma sent_le: "read_law readPtr \<Longrightarrow> length (sent_bytes readPtr n) \<le> unat n"
  by (auto simp: sent_bytes_def read_law_def split: option.split)

lemma held_fresh:
  assumes h: "held st ps" and p: "ns_packets st p = None" and pk: "ns_packets st' p = Some pk" "pk_protocol pk \<noteq> PNONE" "pk_referenceCount pk = 1"
    and same: "\<And>x. x \<noteq> p \<Longrightarrow> ns_packets st' x = ns_packets st x"
  shows "p \<notin> set ps" and "held st' ps" and "held st' (p # ps)"
proof -
  show np: "p \<notin> set ps" using heldE [OF h] p by (metis option.distinct(1))
  have "x \<noteq> p" if "x \<in> set ps" for x using np that by blast
  then show h': "held st' ps" using h same unfolding held_def by (metis (no_types, lifting))
  then show "held st' (p # ps)" using np pk unfolding held_def by (auto simp: count_notin)
qed

text \<open>What a send does once the size of the datagram is accepted.\<close>

lemma udp_send_body:
  assumes ty: "ds_type (so_super (uw_udp w)) = DT_UDPSOCKET" and len: "so_outputBufferLength (uw_udp w) \<le> so_outputBufferSize (uw_udp w)"
    and n: "n \<le> CONFIG_DATAGRAM_MAX_SIZE" and space: "unat n \<le> out_space (uw_udp w)"
    and r: "udp_route defaultIP (uw_udp w) ip port = (sip, sp, dip, dp)"
  shows "udp_sendUserData tracing cb hostID defaultIP p q readPtr w buffer n ip port = do {
     utility_assert (udp_routed (sip, sp, dip, dp));
     let (st1, ids) = packet_new (uw_store w) p hostID (uw_packetIDs w);
     (st2, priorities) \<leftarrow> packet_setPayload st1 p q buffer n readPtr (uw_priorities w);
     st3 \<leftarrow> packet_setUDP st2 p PUDP_NONE sip sp dip dp;
     st4 \<leftarrow> packet_addDeliveryStatus tracing st3 p PDS_SND_CREATED;
     (st5, u1, ls1, success) \<leftarrow> socket_addToOutputBuffer tracing cb (\<lambda>_. 0) st4 (uw_udp w) (uw_listeners w) p;
     Some (w\<lparr>uw_store := st5, uw_udp := u1, uw_listeners := ls1, uw_packetIDs := ids, uw_priorities := priorities\<rparr>,
           if (if success \<noteq> None then n else 0) = 0 \<and> n > 0 then - EWOULDBLOCK else uint (if success \<noteq> None then n else 0)) }"
proof -
  have room: "(of_nat (out_space (uw_udp w)) :: u64) < n \<longleftrightarrow> False"
    using space in_space_le(2) [of "uw_udp w"] by (simp add: word_less_nat_alt unat_of_nat)
  have max: "CONFIG_DATAGRAM_MAX_SIZE < n \<longleftrightarrow> False" using n by simp
  obtain bip where name: "(case socket_getSocketName (uw_udp w) of Some name \<Rightarrow> name | None \<Rightarrow> (0, 0)) = (bip, sp)"
    using r by (auto simp: udp_route_def Let_def split: prod.splits option.splits)
  have route: "(if ip \<noteq> 0 then ip else so_peerIP (uw_udp w)) = dip" "(if port \<noteq> 0 then port else ucast (so_peerPort (uw_udp w))) = dp"
    "(if bip = 0 then if dip = LOOPBACK_IP then LOOPBACK_IP else defaultIP else bip) = sip"
    using r name by (auto simp: udp_route_def Let_def split: option.splits)
  show ?thesis
    unfolding udp_sendUserData_def udp_from [OF ty] Option.bind.bind_lunit getSpace_eq(2) [OF len] room max if_False
      Let_def route name prod.case udp_routed_def ..
qed

lemma udp_send_ok:
  assumes inv: "udp_inv w" and cb: "idle_callback cb" and p: "ns_packets (uw_store w) p = None" "p \<noteq> NULL"
    and q: "ns_payloads (uw_store w) q = None" "q \<noteq> NULL" and rd: "read_law readPtr" and buf: "buffer \<noteq> NULL"
    and n: "n \<le> CONFIG_DATAGRAM_MAX_SIZE" and space: "unat n \<le> out_space (uw_udp w)"
    and r: "udp_route defaultIP (uw_udp w) ip port = (sip, sp, dip, dp)" "udp_routed (sip, sp, dip, dp)"
  obtains w' where "udp_sendUserData tracing cb hostID defaultIP p q readPtr w buffer n ip port = Some (w', uint n)"
    and "udp_inv w'" and "udp_queue w' = udp_queue w" and "udp_capacity w' = udp_capacity w"
    and "udp_outqueue w' = udp_outqueue w @ [(sip, sp, dip, dp, sent_bytes readPtr n)]"
    and "so_outputBuffer (uw_udp w') = so_outputBuffer (uw_udp w) @ [p]" and "routable (uw_store w') p"
proof -
  let ?st = "uw_store w" and ?u = "uw_udp w" and ?ls = "uw_listeners w" and ?c = "uw_packetIDs w" and ?d = "uw_priorities w"
  have s: "sock_inv ?st ?u ?ls" and ty: "ds_type (so_super ?u) = DT_UDPSOCKET" and ctl: "so_outputControlBuffer ?u = []"
    using inv by (simp_all add: udp_inv_def)
  note I = sock_invD [OF s]
  obtain st1 st2 st3 st4 pk where new: "packet_new ?st p hostID ?c = (st1, ?c + 1)"
    and s2: "packet_setPayload st1 p q buffer n readPtr ?d = Some (st2, snd (host_getNextPacketPriority ?d))"
    and s3: "packet_setUDP st2 p PUDP_NONE sip sp dip dp = Some st3"
    and s4: "packet_addDeliveryStatus tracing st3 p PDS_SND_CREATED = Some st4" and ok4: "net_ok st4"
    and pk: "ns_packets st4 p = Some pk" "pk_protocol pk = PUDP" "pk_priority pk \<noteq> 0" "pk_referenceCount pk = 1"
    and dg: "dgram st4 p = (sip, sp, dip, dp, sent_bytes readPtr n)"
    and oth: "\<And>x. x \<noteq> p \<Longrightarrow> ns_packets st4 x = ns_packets ?st x"
    and con: "\<And>x. x \<noteq> p \<Longrightarrow> ns_packets ?st x \<noteq> None \<Longrightarrow> pcontent st4 x = pcontent ?st x"
    and pl: "plen st4 p = length (sent_bytes readPtr n)"
    by (rule udp_packet_ok [OF I(1) p q rd buf r(2) n]) (rule that)
  have prot: "pk_protocol pk \<noteq> PNONE" using pk(2) by simp
  have h4: "p \<notin> set (so_buffered ?u)" "held st4 (so_buffered ?u)" "held st4 (p # so_buffered ?u)"
    by (rule held_fresh [OF I(2) p(1) pk(1) prot pk(4)], rule oth, assumption)+
  have con4: "pcontent st4 x = pcontent ?st x" if "x \<in> set (so_buffered ?u)" for x
    using con [of x] h4(1) that sock_live [OF s that] by blast
  have inv4: "sock_inv st4 ?u ?ls" by (rule sock_env [OF s ok4 h4(2) con4])
  define st5 where "st5 = packet_put st4 p (add_status tracing PDS_SND_SOCKET_BUFFERED pk)"
  have fits: "plen st4 p \<le> out_space ?u" using pl sent_le [OF rd, of n] space by simp
  obtain u5 out where add: "socket_addToOutputBuffer tracing cb (\<lambda>_. 0) st4 ?u ?ls p = Some (st5, u5, ?ls, Some out)"
    and inv5: "sock_inv st5 u5 ?ls" and "packet_getSourceIP st4 p = Some out" and bufs: "so_inputBuffer u5 = so_inputBuffer ?u"
      "so_outputControlBuffer u5 = so_outputControlBuffer ?u @ (if pk_priority pk = 0 then [p] else [])"
      "so_outputBuffer u5 = so_outputBuffer ?u @ (if pk_priority pk = 0 then [] else [p])"
      "socket_getInputBufferSize u5 = socket_getInputBufferSize ?u" "ds_type (so_super u5) = ds_type (so_super ?u)"
    by (rule sock_add_output [OF inv4 cb h4(3) pk(1) fits, where tracing = tracing and tcpLength = "\<lambda>_. 0", folded st5_def])
      (rule that)
  define w' where "w' = w\<lparr>uw_store := st5, uw_udp := u5, uw_listeners := ?ls, uw_packetIDs := ?c + 1,
    uw_priorities := snd (host_getNextPacketPriority ?d)\<rparr>"
  have run: "udp_sendUserData tracing cb hostID defaultIP p q readPtr w buffer n ip port = Some (w', uint n)"
    unfolding udp_send_body [OF ty I(7) n space r(1)] new s2 s3 s4 add Let_def prod.case Option.bind.bind_lunit
    using r(2) by (cases "n = 0") (simp_all add: w'_def)
  have c5: "pcontent st5 = pcontent st4" unfolding st5_def by (rule pcontent_put [OF pk(1)]) simp_all
  have ok5: "net_ok st5" using sock_invD(1) [OF inv5] .
  have keep: "map (dgram st5) xs = map (dgram ?st) xs" if "set xs \<subseteq> set (so_buffered ?u)" for xs
  proof (rule map_dgram_same [OF I(1) ok5])
    fix x assume "x \<in> set xs"
    then have x: "x \<in> set (so_buffered ?u)" using that by blast
    show "pcontent st5 x = pcontent ?st x" using con4 [OF x] c5 by simp
    show "ns_packets ?st x \<noteq> None" by (rule sock_live [OF s x])
  qed
  have q1: "udp_queue w' = udp_queue w" using keep [of "so_inputBuffer ?u"] bufs(1) by (simp add: udp_queue_def w'_def so_buffered_def)
  have "dgram st5 p = dgram st4 p" using dgram_same [OF ok4 ok5] c5 pk(1) by simp
  moreover have "map (dgram st5) (so_outputBuffer ?u) = map (dgram ?st) (so_outputBuffer ?u)"
    by (rule keep) (auto simp: so_buffered_def)
  ultimately have q2: "udp_outqueue w' = udp_outqueue w @ [(sip, sp, dip, dp, sent_bytes readPtr n)]"
    using bufs(3) pk(3) dg by (simp add: udp_outqueue_def w'_def)
  show thesis
    by (rule that [OF run _ q1 _ q2])
      (use inv5 bufs(2-5) ty ctl pk prot in \<open>simp_all add: udp_inv_def udp_capacity_def w'_def routable_def st5_def\<close>)
qed


section \<open>A queue of datagrams with a capacity\<close>

datatype udp_event =
    Arrive datagram
  | Receive bool u64 int "byte list" "(in_addr \<times> in_port) option"
  | Resize nat
  | Other

text \<open>
  What a datagram socket promises about its input, over its capacity in bytes and the queue of datagrams. A datagram that
  does not fit is lost as a whole. A receive takes one whole datagram, of which it gives at most the number of bytes asked
  for; it fails where there is none, and where there is no buffer for the bytes. While the queue is longer than a reduced
  capacity only empty datagrams fit.
\<close>

inductive dq_step :: "nat \<times> datagram list \<Rightarrow> udp_event \<Rightarrow> nat \<times> datagram list \<Rightarrow> bool" where
  accept: "length (dbytes d) \<le> cap - queued_bytes q \<Longrightarrow> dq_step (cap, q) (Arrive d) (cap, q @ [d])"
| lose: "cap - queued_bytes q < length (dbytes d) \<Longrightarrow> dq_step (cap, q) (Arrive d) (cap, q)"
| none: "dq_step (cap, []) (Receive null n (- EWOULDBLOCK) [] None) (cap, [])"
| fault: "null \<Longrightarrow> n \<noteq> 0 \<Longrightarrow> dq_step (cap, d # q) (Receive null n (- EFAULT) [] None) (cap, d # q)"
| deliver: "\<not> null \<or> n = 0 \<Longrightarrow>
    dq_step (cap, (sip, sp, dip, dp, bytes) # q)
      (Receive null n (int (min (unat n) (length bytes))) (take (unat n) bytes) (Some (sip, sp))) (cap, q)"
| resize: "dq_step (cap, q) (Resize n) (n, q)"
| other: "dq_step s Other s"

inductive runs :: "('s \<Rightarrow> 'e \<Rightarrow> 's \<Rightarrow> bool) \<Rightarrow> 's \<Rightarrow> 'e list \<Rightarrow> 's \<Rightarrow> bool" for step where
  stop: "runs step s [] s"
| more: "runs step s es s' \<Longrightarrow> step s' e s'' \<Longrightarrow> runs step s (es @ [e]) s''"

fun arrivals :: "udp_event list \<Rightarrow> datagram list" where
  "arrivals [] = []"
| "arrivals (Arrive d # es) = d # arrivals es"
| "arrivals (_ # es) = arrivals es"

fun receipts :: "udp_event list \<Rightarrow> (u64 \<times> byte list \<times> in_addr \<times> in_port) list" where
  "receipts [] = []"
| "receipts (Receive null n r bytes (Some (ip, port)) # es) = (n, bytes, ip, port) # receipts es"
| "receipts (_ # es) = receipts es"

fun receipt_of :: "datagram \<Rightarrow> u64 \<times> byte list \<times> in_addr \<times> in_port \<Rightarrow> bool" where
  "receipt_of (sip, sp, dip, dp, bytes) (n, got, ip, port) \<longleftrightarrow> got = take (unat n) bytes \<and> ip = sip \<and> port = sp"

lemma arrivals_append [simp]: "arrivals (es @ fs) = arrivals es @ arrivals fs"
  by (induction es rule: arrivals.induct) simp_all

lemma receipts_append [simp]: "receipts (es @ fs) = receipts es @ receipts fs"
  by (induction es rule: receipts.induct) simp_all

text \<open>Datagrams are received in the order in which they arrived, none twice and none that did not arrive.\<close>

lemma dq_in_order:
  assumes "runs dq_step (cap, q) es (cap', q')"
  shows "\<exists>accepted taken. subseq accepted (arrivals es) \<and> q @ accepted = taken @ q' \<and> list_all2 receipt_of taken (receipts es)"
  using assms
proof (induction "(cap, q)" es "(cap', q')" arbitrary: cap' q' rule: runs.induct)
  case stop
  show ?case by (intro exI [of _ "[]"]) simp
next
  case (more es s' e)
  obtain c1 q1 where s': "s' = (c1, q1)" by (cases s')
  obtain accepted taken where IH: "subseq accepted (arrivals es)" "q @ accepted = taken @ q1" "list_all2 receipt_of taken (receipts es)"
    using more(2) [OF s'] by blast
  from more(3) show ?case unfolding s'
  proof cases
    case (accept d)
    then show ?thesis using IH
      by (intro exI [of _ "accepted @ [d]"] exI [of _ taken]) (simp add: list_emb_append_mono)
  next
    case (lose d)
    then have "subseq accepted (arrivals (es @ [e]))" "receipts (es @ [e]) = receipts es" "q' = q1"
      using list_emb_prefix [OF IH(1)] by simp_all
    then show ?thesis using IH(2,3) by metis
  next
    case (deliver null n sip sp dip dp bytes)
    then show ?thesis using IH
      by (intro exI [of _ accepted] exI [of _ "taken @ [(sip, sp, dip, dp, bytes)]"]) (simp add: list_all2_appendI)
  qed (use IH in auto)
qed

locale datagram_socket =
  fixes inv :: "'s \<Rightarrow> bool" and view :: "'s \<Rightarrow> nat \<times> datagram list" and step :: "'s \<Rightarrow> udp_event \<Rightarrow> 's \<Rightarrow> bool"
  assumes step_inv: "inv s \<Longrightarrow> step s e s' \<Longrightarrow> inv s'"
    and step_refines: "inv s \<Longrightarrow> step s e s' \<Longrightarrow> dq_step (view s) e (view s')"
begin

lemma run_refines:
  assumes "runs step s es s'" and "inv s"
  shows "inv s' \<and> runs dq_step (view s) es (view s')"
  using assms by (induction rule: runs.induct) (auto intro: runs.intros step_inv step_refines)

lemma run_in_order:
  assumes "runs step s es s'" and "inv s"
  shows "\<exists>accepted taken. subseq accepted (arrivals es) \<and> snd (view s) @ accepted = taken @ snd (view s') \<and>
           list_all2 receipt_of taken (receipts es)"
  using run_refines [OF assms] dq_in_order [of "fst (view s)" "snd (view s)" es "fst (view s')" "snd (view s')"] by simp

end


section \<open>A UDP socket is such a queue\<close>

definition udp_view :: "udp_world \<Rightarrow> nat \<times> datagram list" where
  "udp_view w = (udp_capacity w, udp_queue w)"

text \<open>
  One call at a time: the interface delivers a packet, the process receives, sends, connects, names, resizes or closes the
  socket, the interface takes packets to send, and anything happens elsewhere that leaves the packets in the buffers. The
  memory that is received into can be written, new objects are at fresh addresses, and callbacks leave the socket alone.
\<close>

inductive udp_step :: "bool \<Rightarrow> desc_callback \<Rightarrow> udp_world \<Rightarrow> udp_event \<Rightarrow> udp_world \<Rightarrow> bool" for tracing cb where
  push: "routable (uw_store w) p \<Longrightarrow> udp_push tracing cb w p = Some w' \<Longrightarrow> udp_step tracing cb w (Arrive (dgram (uw_store w) p)) w'"
| receive: "(\<And>bytes. writePtr bytes = 0) \<Longrightarrow> udp_receiveUserData tracing cb writePtr w buffer n = Some (w', r, bytes, from) \<Longrightarrow>
    udp_step tracing cb w (Receive (buffer = NULL) n r bytes from) w'"
| send: "ns_packets (uw_store w) p = None \<Longrightarrow> p \<noteq> NULL \<Longrightarrow> ns_payloads (uw_store w) q = None \<Longrightarrow> q \<noteq> NULL \<Longrightarrow>
    read_law readPtr \<Longrightarrow> udp_sendUserData tracing cb hostID defaultIP p q readPtr w buffer n ip port = Some (w', r) \<Longrightarrow>
    udp_step tracing cb w Other w'"
| pull: "udp_pull cb w = Some (w', p) \<Longrightarrow> udp_step tracing cb w Other w'"
| connect: "udp_connectToPeer w ip port family = Some (w', r) \<Longrightarrow> udp_step tracing cb w Other w'"
| name: "udp_step tracing cb w Other (w\<lparr>uw_udp := socket_setSocketName (uw_udp w) ip port\<rparr>)"
| close: "udp_close w = Some (w', b) \<Longrightarrow> udp_step tracing cb w Other w'"
| resize: "0 < n \<Longrightarrow> udp_step tracing cb w (Resize (unat n)) (w\<lparr>uw_udp := socket_setInputBufferSize (uw_udp w) n\<rparr>)"
| resize_out: "udp_step tracing cb w Other (w\<lparr>uw_udp := socket_setOutputBufferSize (uw_udp w) n\<rparr>)"
| elsewhere: "net_ok st' \<Longrightarrow> held st' (so_buffered (uw_udp w)) \<Longrightarrow>
    (\<And>p. p \<in> set (so_buffered (uw_udp w)) \<Longrightarrow> pcontent st' p = pcontent (uw_store w) p) \<Longrightarrow>
    udp_step tracing cb w Other (w\<lparr>uw_store := st', uw_packetIDs := ids, uw_priorities := priorities\<rparr>)"

text \<open>Renaming the socket touches neither its buffers nor its descriptor.\<close>

lemma udp_rename:
  assumes "udp_inv w" and "so_inputBuffer u = so_inputBuffer (uw_udp w)" "so_outputBuffer u = so_outputBuffer (uw_udp w)"
    "so_outputControlBuffer u = so_outputControlBuffer (uw_udp w)" "so_super u = so_super (uw_udp w)"
    "so_inputBufferLength u = so_inputBufferLength (uw_udp w)" "so_outputBufferLength u = so_outputBufferLength (uw_udp w)"
    "so_inputBufferSize u = so_inputBufferSize (uw_udp w)" "so_outputBufferSize u = so_outputBufferSize (uw_udp w)"
    "so_inputBufferSizePending u = so_inputBufferSizePending (uw_udp w)"
    "so_outputBufferSizePending u = so_outputBufferSizePending (uw_udp w)"
  shows "udp_inv (w\<lparr>uw_udp := u\<rparr>) \<and> udp_view (w\<lparr>uw_udp := u\<rparr>) = udp_view w"
proof -
  have "sock_inv st u ls = sock_inv st (uw_udp w) ls" for st ls unfolding sock_inv_def so_buffered_def assms(2-) ..
  moreover have "socket_getInputBufferSize u = socket_getInputBufferSize (uw_udp w)"
    unfolding socket_getInputBufferSize_def assms(2-) ..
  ultimately show ?thesis using assms(1,2,4,5) by (simp add: udp_inv_def udp_view_def udp_capacity_def udp_queue_def)
qed

lemma udp_connect_ok:
  assumes "udp_inv w" and "udp_connectToPeer w ip port family = Some (w', r)"
  shows "udp_inv w' \<and> udp_view w' = udp_view w"
proof -
  have "ds_type (so_super (uw_udp w)) = DT_UDPSOCKET" using assms(1) by (simp add: udp_inv_def)
  then have "w' = w\<lparr>uw_udp := if family = AF_UNSPEC then udp_setState (socket_setPeerName (uw_udp w) 0 0) UDPS_CLOSED
               else udp_setState (socket_setPeerName (uw_udp w) ip port) UDPS_ESTABLISHED\<rparr>"
    using assms(2) by (simp add: udp_connectToPeer_def udp_from Let_def)
  then show ?thesis
    using udp_rename [OF assms(1)] by (simp add: udp_setState_def socket_setPeerName_def)
qed

lemma udp_close_ok:
  assumes "udp_inv w" and "udp_close w = Some (w', b)"
  shows "udp_inv w' \<and> udp_view w' = udp_view w"
proof -
  have "ds_type (so_super (uw_udp w)) = DT_UDPSOCKET" using assms(1) by (simp add: udp_inv_def)
  then have "w' = w\<lparr>uw_udp := udp_setState (uw_udp w) UDPS_CLOSED\<rparr>" using assms(2) by (simp add: udp_close_def udp_from)
  then show ?thesis using udp_rename [OF assms(1)] by (simp add: udp_setState_def)
qed

lemma udp_pull_ok:
  assumes inv: "udp_inv w" and cb: "idle_callback cb"
  obtains w' p where "udp_pull cb w = Some (w', p)" "udp_inv w'" "udp_view w' = udp_view w" "uw_store w' = uw_store w"
    "so_outputBuffer (uw_udp w) = [] \<Longrightarrow> p = NULL \<and> w' = w"
    "so_outputBuffer (uw_udp w) \<noteq> [] \<Longrightarrow> so_outputBuffer (uw_udp w) = p # so_outputBuffer (uw_udp w') \<and>
       held (uw_store w) (p # so_buffered (uw_udp w'))"
proof (cases "so_outputBuffer (uw_udp w)")
  case Nil
  then have "udp_pull cb w = Some (w, NULL)"
    using inv by (simp add: udp_inv_def udp_pull_def socket_pullOutPacket_def socket_removeFromOutputBuffer_def)
  then show thesis using that [of w NULL] inv Nil by simp
next
  case (Cons p rest)
  have s: "sock_inv (uw_store w) (uw_udp w) (uw_listeners w)" and ctl: "so_outputControlBuffer (uw_udp w) = []"
    using inv by (simp_all add: udp_inv_def)
  have buf: "so_outputControlBuffer (uw_udp w) @ so_outputBuffer (uw_udp w) = p # rest" using ctl Cons by simp
  obtain u where u: "socket_removeFromOutputBuffer cb (\<lambda>_. 0) (uw_store w) (uw_udp w) (uw_listeners w) = Some (u, uw_listeners w, p)"
    "sock_inv (uw_store w) u (uw_listeners w)" "so_outputControlBuffer u @ so_outputBuffer u = rest"
    "so_inputBuffer u = so_inputBuffer (uw_udp w)" "so_outputControlBuffer u = tl (so_outputControlBuffer (uw_udp w))"
    "held (uw_store w) (p # so_buffered u)" "socket_getInputBufferSize u = socket_getInputBufferSize (uw_udp w)"
    "ds_type (so_super u) = ds_type (so_super (uw_udp w))"
    by (rule sock_remove_output [OF s cb buf, where tcpLength = "\<lambda>_. 0"]) (rule that)
  then have "udp_pull cb w = Some (w\<lparr>uw_udp := u\<rparr>, p)" by (simp add: udp_pull_def socket_pullOutPacket_def)
  then show thesis using that [of "w\<lparr>uw_udp := u\<rparr>" p] u ctl inv Cons
    by (simp add: udp_inv_def udp_view_def udp_capacity_def udp_queue_def)
qed


lemma udp_push_step:
  assumes inv: "udp_inv w" and cb: "idle_callback cb" and r: "routable (uw_store w) p" and run: "udp_push tracing cb w p = Some w'"
  shows "udp_inv w' \<and> dq_step (udp_view w) (Arrive (dgram (uw_store w) p)) (udp_view w')"
proof -
  obtain w1 where w1: "udp_push tracing cb w p = Some w1" "udp_inv w1" "udp_capacity w1 = udp_capacity w"
    "udp_outqueue w1 = udp_outqueue w"
    "udp_queue w1 = udp_queue w @
       (if length (dbytes (dgram (uw_store w) p)) \<le> udp_capacity w - queued_bytes (udp_queue w) then [dgram (uw_store w) p] else [])"
    by (rule udp_push_ok [OF inv cb r]) (rule that)
  then have "w' = w1" using run by simp
  then show ?thesis using w1(2,3,5)
    by (cases "length (dbytes (dgram (uw_store w) p)) \<le> udp_capacity w - queued_bytes (udp_queue w)")
      (auto simp: udp_view_def intro: dq_step.accept dq_step.lose)
qed

lemma udp_receive_fails:
  assumes inv: "udp_inv w"
  shows "udp_queue w = [] \<Longrightarrow> udp_receiveUserData tracing cb writePtr w buffer n = Some (w, - EWOULDBLOCK, [], None)"
    and "udp_queue w \<noteq> [] \<Longrightarrow> buffer = NULL \<Longrightarrow> n \<noteq> 0 \<Longrightarrow>
         udp_receiveUserData tracing cb writePtr w buffer n = Some (w, - EFAULT, [], None)"
proof -
  have ty: "ds_type (so_super (uw_udp w)) = DT_UDPSOCKET" and s: "sock_inv (uw_store w) (uw_udp w) (uw_listeners w)"
    using inv by (simp_all add: udp_inv_def)
  show "udp_receiveUserData tracing cb writePtr w buffer n = Some (w, - EWOULDBLOCK, [], None)" if "udp_queue w = []"
    using that by (simp add: udp_queue_def udp_receiveUserData_def udp_from [OF ty] socket_peekNextInPacket_def Let_def)
  show "udp_receiveUserData tracing cb writePtr w buffer n = Some (w, - EFAULT, [], None)"
    if q: "udp_queue w \<noteq> []" and b: "buffer = NULL" "n \<noteq> 0"
  proof -
    obtain p ps where p: "so_inputBuffer (uw_udp w) = p # ps" using q by (cases "so_inputBuffer (uw_udp w)") (simp_all add: udp_queue_def)
    then have "ns_packets (uw_store w) p \<noteq> None" using sock_live [OF s] by (simp add: so_buffered_def)
    then have "p \<noteq> NULL" using net_okD(3) [OF sock_invD(1) [OF s]] by blast
    then show ?thesis using b p
      by (simp add: udp_receiveUserData_def udp_from [OF ty] socket_peekNextInPacket_def Let_def word_gt_0)
  qed
qed

lemma udp_receive_step:
  assumes inv: "udp_inv w" and cb: "idle_callback cb" and wr: "\<And>bytes. writePtr bytes = 0"
    and run: "udp_receiveUserData tracing cb writePtr w buffer n = Some (w', r, bytes, from)"
  shows "udp_inv w' \<and> dq_step (udp_view w) (Receive (buffer = NULL) n r bytes from) (udp_view w')"
proof (cases "udp_queue w")
  case Nil
  have "w' = w" "r = - EWOULDBLOCK" "bytes = []" "from = None" using udp_receive_fails(1) [OF inv Nil, of tracing cb writePtr buffer n] run by simp_all
  then show ?thesis using inv Nil by (simp add: udp_view_def dq_step.none)
next
  case (Cons d rest)
  obtain sip sp dip dp b where d: "d = (sip, sp, dip, dp, b)" by (cases d)
  show ?thesis
  proof (cases "buffer = NULL \<and> n \<noteq> 0")
    case True
    then have "w' = w" "r = - EFAULT" "bytes = []" "from = None"
      using udp_receive_fails(2) [OF inv, of buffer n tracing cb writePtr] Cons run by simp_all
    then show ?thesis using inv True Cons by (simp add: udp_view_def dq_step.fault)
  next
    case False
    then have nb: "buffer \<noteq> NULL \<or> n = 0" by auto
    obtain w1 where w1: "udp_receiveUserData tracing cb writePtr w buffer n =
        Some (w1, int (min (unat n) (length b)), take (unat n) b, Some (sip, sp))"
      "udp_inv w1" "udp_capacity w1 = udp_capacity w" "udp_queue w1 = rest" "udp_outqueue w1 = udp_outqueue w"
      by (rule udp_receive_ok [OF inv cb wr Cons [unfolded d] nb]) (rule that)
    then have "w' = w1" "r = int (min (unat n) (length b))" "bytes = take (unat n) b" "from = Some (sip, sp)" using run by simp_all
    then show ?thesis using w1(2-4) nb Cons d by (simp add: udp_view_def dq_step.deliver)
  qed
qed

text \<open>A send that is refused changes nothing.\<close>

lemma udp_send_refused:
  assumes "ds_type (so_super (uw_udp w)) = DT_UDPSOCKET"
  shows "CONFIG_DATAGRAM_MAX_SIZE < n \<Longrightarrow>
      udp_sendUserData tracing cb hostID defaultIP p q readPtr w buffer n ip port = Some (w, - EMSGSIZE)"
    and "\<not> CONFIG_DATAGRAM_MAX_SIZE < n \<Longrightarrow> so_outputBufferLength (uw_udp w) \<le> so_outputBufferSize (uw_udp w) \<Longrightarrow>
      out_space (uw_udp w) < unat n \<Longrightarrow>
      udp_sendUserData tracing cb hostID defaultIP p q readPtr w buffer n ip port = Some (w, - EWOULDBLOCK)"
proof -
  have "(of_nat (out_space (uw_udp w)) :: u64) < n \<longleftrightarrow> out_space (uw_udp w) < unat n"
    using in_space_le(2) [of "uw_udp w"] by (simp add: word_less_nat_alt unat_of_nat)
  then show "\<not> CONFIG_DATAGRAM_MAX_SIZE < n \<Longrightarrow> so_outputBufferLength (uw_udp w) \<le> so_outputBufferSize (uw_udp w) \<Longrightarrow>
      out_space (uw_udp w) < unat n \<Longrightarrow>
      udp_sendUserData tracing cb hostID defaultIP p q readPtr w buffer n ip port = Some (w, - EWOULDBLOCK)"
    by (simp add: udp_sendUserData_def udp_from [OF assms] getSpace_eq(2))
qed (simp add: udp_sendUserData_def udp_from [OF assms])


lemma udp_send_step:
  assumes inv: "udp_inv w" and cb: "idle_callback cb" and p: "ns_packets (uw_store w) p = None" "p \<noteq> NULL"
    and q: "ns_payloads (uw_store w) q = None" "q \<noteq> NULL" and rd: "read_law readPtr"
    and run: "udp_sendUserData tracing cb hostID defaultIP p q readPtr w buffer n ip port = Some (w', r)"
  shows "udp_inv w' \<and> udp_view w' = udp_view w"
proof -
  have ty: "ds_type (so_super (uw_udp w)) = DT_UDPSOCKET" and s: "sock_inv (uw_store w) (uw_udp w) (uw_listeners w)"
    using inv by (simp_all add: udp_inv_def)
  note I = sock_invD [OF s]
  consider "CONFIG_DATAGRAM_MAX_SIZE < n" | "\<not> CONFIG_DATAGRAM_MAX_SIZE < n" "out_space (uw_udp w) < unat n"
    | "n \<le> CONFIG_DATAGRAM_MAX_SIZE" "unat n \<le> out_space (uw_udp w)" by fastforce
  then show ?thesis
  proof cases
    case 1
    then show ?thesis using udp_send_refused(1) [OF ty] run inv by simp
  next
    case 2
    then show ?thesis using udp_send_refused(2) [OF ty 2(1) I(7) 2(2)] run inv by simp
  next
    case 3
    obtain sip sp dip dp where route: "udp_route defaultIP (uw_udp w) ip port = (sip, sp, dip, dp)"
      by (cases "udp_route defaultIP (uw_udp w) ip port")
    have "packet_setPayload st1 p q NULL n readPtr c = None" for st1 c
      by (cases "ns_packets st1 p") (simp_all add: packet_setPayload_def)
    then have "udp_sendUserData tracing cb hostID defaultIP p q readPtr w NULL n ip port = None"
      unfolding udp_send_body [OF ty I(7) 3 route] by (simp add: case_prod_unfold Let_def bind_eq_None_conv)
    then have "buffer \<noteq> NULL" using run by (cases "buffer = NULL") simp_all
    moreover have "udp_routed (sip, sp, dip, dp)"
      using run by (simp add: udp_send_body [OF ty I(7) 3 route] bind_eq_Some_conv)
    ultimately obtain w1 where "udp_sendUserData tracing cb hostID defaultIP p q readPtr w buffer n ip port = Some (w1, uint n)"
      "udp_inv w1" "udp_queue w1 = udp_queue w" "udp_capacity w1 = udp_capacity w"
      using udp_send_ok [OF inv cb p q rd _ 3 route] by metis
    then show ?thesis using run by (simp add: udp_view_def)
  qed
qed

lemma udp_resize_ok:
  assumes "udp_inv w"
  shows "0 < n \<Longrightarrow> udp_inv (w\<lparr>uw_udp := socket_setInputBufferSize (uw_udp w) n\<rparr>) \<and>
           udp_view (w\<lparr>uw_udp := socket_setInputBufferSize (uw_udp w) n\<rparr>) = (unat n, udp_queue w)"
    and "udp_inv (w\<lparr>uw_udp := socket_setOutputBufferSize (uw_udp w) n\<rparr>) \<and>
           udp_view (w\<lparr>uw_udp := socket_setOutputBufferSize (uw_udp w) n\<rparr>) = udp_view w"
proof -
  have s: "sock_inv (uw_store w) (uw_udp w) (uw_listeners w)" using assms by (simp add: udp_inv_def)
  have "socket_getInputBufferSize (socket_setInputBufferSize (uw_udp w) n) = n" if "0 < n"
    using that by (simp add: socket_getInputBufferSize_def socket_setInputBufferSize_def)
  then show "0 < n \<Longrightarrow> udp_inv (w\<lparr>uw_udp := socket_setInputBufferSize (uw_udp w) n\<rparr>) \<and>
           udp_view (w\<lparr>uw_udp := socket_setInputBufferSize (uw_udp w) n\<rparr>) = (unat n, udp_queue w)"
    using assms sock_set_size(1) [OF s, of n] by (simp add: udp_inv_def udp_view_def udp_capacity_def udp_queue_def)
  have "socket_getInputBufferSize (socket_setOutputBufferSize (uw_udp w) n) = socket_getInputBufferSize (uw_udp w)"
    by (simp add: socket_getInputBufferSize_def)
  then show "udp_inv (w\<lparr>uw_udp := socket_setOutputBufferSize (uw_udp w) n\<rparr>) \<and>
           udp_view (w\<lparr>uw_udp := socket_setOutputBufferSize (uw_udp w) n\<rparr>) = udp_view w"
    using assms sock_set_size(2) [OF s, of n] by (simp add: udp_inv_def udp_view_def udp_capacity_def udp_queue_def)
qed

lemma udp_elsewhere_ok:
  assumes inv: "udp_inv w" and ok: "net_ok st'" and h: "held st' (so_buffered (uw_udp w))"
    and same: "\<And>p. p \<in> set (so_buffered (uw_udp w)) \<Longrightarrow> pcontent st' p = pcontent (uw_store w) p"
  shows "udp_inv (w\<lparr>uw_store := st', uw_packetIDs := ids, uw_priorities := priorities\<rparr>) \<and>
         udp_view (w\<lparr>uw_store := st', uw_packetIDs := ids, uw_priorities := priorities\<rparr>) = udp_view w"
proof -
  have s: "sock_inv (uw_store w) (uw_udp w) (uw_listeners w)" using inv by (simp add: udp_inv_def)
  have "map (dgram st') (so_inputBuffer (uw_udp w)) = map (dgram (uw_store w)) (so_inputBuffer (uw_udp w))"
    using sock_live [OF s] same by (intro map_dgram_same [OF sock_invD(1) [OF s] ok]) (auto simp: so_buffered_def)
  moreover have "sock_inv st' (uw_udp w) (uw_listeners w)" by (rule sock_env [OF s ok h same])
  ultimately show ?thesis using inv by (simp add: udp_inv_def udp_view_def udp_capacity_def udp_queue_def)
qed

lemma udp_step_refines:
  assumes cb: "idle_callback cb" and step: "udp_step tracing cb w e w'" and inv: "udp_inv w"
  shows "udp_inv w' \<and> dq_step (udp_view w) e (udp_view w')"
  using step
proof cases
  case push
  then show ?thesis using udp_push_step [OF inv cb] by blast
next
  case receive
  then show ?thesis using udp_receive_step [OF inv cb] by blast
next
  case send
  then show ?thesis using udp_send_step [OF inv cb] by (metis dq_step.other)
next
  case pull
  then show ?thesis using udp_pull_ok [OF inv cb] by (metis dq_step.other option.inject prod.inject)
next
  case connect
  then show ?thesis using udp_connect_ok [OF inv] by (metis dq_step.other)
next
  case name
  then show ?thesis using udp_rename [OF inv] by (simp add: socket_setSocketName_def dq_step.other)
next
  case close
  then show ?thesis using udp_close_ok [OF inv] by (metis dq_step.other)
next
  case resize
  then show ?thesis using udp_resize_ok(1) [OF inv] by (simp add: udp_view_def dq_step.resize)
next
  case resize_out
  then show ?thesis using udp_resize_ok(2) [OF inv] by (simp add: dq_step.other)
next
  case elsewhere
  then show ?thesis using udp_elsewhere_ok [OF inv] by (simp add: dq_step.other)
qed

interpretation udp_idle: datagram_socket udp_inv udp_view "udp_step tracing (\<lambda>l w. w)" for tracing
  using udp_step_refines [of "\<lambda>l w. w"] by unfold_locales (auto simp: idle_callback_def)


section \<open>Properties\<close>

definition udp_start :: "net_store \<Rightarrow> udp \<Rightarrow> listener_store \<Rightarrow> udp_world" where
  "udp_start st u ls = \<lparr>uw_store = st, uw_udp = u, uw_listeners = ls, uw_packetIDs = 0, uw_priorities = 0\<rparr>"

lemma desc_ok_none: "ds_listeners d = [] \<Longrightarrow> desc_ok (d, ls)"
  by (simp add: desc_ok_def)

lemma udp_new_ok:
  assumes cb: "idle_callback cb" and new: "udp_new cb ls r s = Some (u, ls')" and ok: "net_ok st"
  shows "udp_inv (udp_start st u ls')" and "udp_view (udp_start st u ls') = (unat r, [])"
    and "ls' = ls" and "so_buffered u = []" and "udp_outqueue (udp_start st u ls') = []" and "out_space u = unat s"
    and "so_outputBuffer u = []" and "so_flags u = 0" and "so_peerIP u = 0"
proof -
  define v where "v = socket.extend (socket_init DT_UDPSOCKET r s) (udp.fields UDPS_CLOSED UDPS_CLOSED)"
  have "ds_listeners (so_super v) = []" by (simp add: v_def socket_init_def socket.defs descriptor_init_def)
  then have d: "desc_ok (so_super v, ls)" by (rule desc_ok_none)
  have "udp_new cb ls r s = socket_adjustStatus cb v ls (STATUS_DESCRIPTOR_ACTIVE OR STATUS_DESCRIPTOR_WRITABLE) True"
    by (simp add: udp_new_def v_def Let_def)
  then have u: "u = with_bit v (STATUS_DESCRIPTOR_ACTIVE OR STATUS_DESCRIPTOR_WRITABLE) True" "ls' = ls"
    using new socket_adjustStatus_idle [OF cb d] by (simp_all add: with_bit_def)
  have f: "so_inputBuffer v = []" "so_outputBuffer v = []" "so_outputControlBuffer v = []" "so_inputBufferLength v = 0"
    "so_outputBufferLength v = 0" "so_inputBufferSize v = ucast r" "so_outputBufferSize v = ucast s"
    "so_inputBufferSizePending v = 0" "so_outputBufferSizePending v = 0" "so_flags v = 0" "so_peerIP v = 0"
    "ds_type (so_super v) = DT_UDPSOCKET" "ds_status (so_super v) = 0"
    by (simp_all add: v_def socket_init_def socket.defs udp.defs descriptor_init_def)
  show "udp_inv (udp_start st u ls')"
    using ok d f by (simp add: udp_inv_def sock_inv_def udp_start_def u so_buffered_def bit_or_iff bit_statuses)
  show "udp_view (udp_start st u ls') = (unat r, [])"
    using f by (simp add: udp_view_def udp_capacity_def udp_queue_def udp_start_def u socket_getInputBufferSize_def unat_ucast_u32)
  show "ls' = ls" by (rule u)
  show "so_buffered u = []" "udp_outqueue (udp_start st u ls') = []" "so_outputBuffer u = []"
    using f by (simp_all add: u so_buffered_def udp_outqueue_def udp_start_def)
  show "out_space u = unat s" using f by (simp add: out_space_def u socket_getOutputBufferSize_def unat_ucast_u32)
  show "so_flags u = 0" "so_peerIP u = 0" using f by (simp_all add: u with_bit_def)
qed

text \<open>C6: a UDP socket is a queue of datagrams with the capacity it was created with or last resized to: in every history of
  packets delivered to it, receives, sends, connects, resizes and closes, every result is the one of the queue, the bytes counted
  are those of the datagrams in the queue, and the socket is readable just when there are any.\<close>

theorem udp_refines_datagram_queue:
  assumes "idle_callback cb" and "udp_new cb ls r s = Some (u, ls')" and "net_ok st"
    and "runs (udp_step tracing cb) (udp_start st u ls') es w"
  shows "runs dq_step (unat r, []) es (udp_view w) \<and>
         unat (so_inputBufferLength (uw_udp w)) = queued_bytes (udp_queue w) \<and>
         (bit (ds_status (so_super (uw_udp w))) 1 \<longleftrightarrow> queued_bytes (udp_queue w) \<noteq> 0)"
proof -
  have cb: "cb = (\<lambda>l w. w)" using assms(1) by (simp add: idle_callback_def fun_eq_iff)
  note new = udp_new_ok [OF assms(1-3)]
  have R: "udp_inv w \<and> runs dq_step (unat r, []) es (udp_view w)"
    using udp_idle.run_refines [OF assms(4) [unfolded cb] new(1)] new(2) by simp
  then have "sock_inv (uw_store w) (uw_udp w) (uw_listeners w)" by (simp add: udp_inv_def)
  then show ?thesis using R udp_bytes sock_invD(8) by (metis udp_queue_def unat_eq_0)
qed

text \<open>C17: the datagrams received from a UDP socket are, in order, datagrams that arrived at it, each at most once and none
  merged with another: each receive gives the source of one datagram and as much of its content as was asked for.\<close>

theorem udp_receives_in_order:
  assumes "idle_callback cb" and "udp_new cb ls r s = Some (u, ls')" and "net_ok st"
    and "runs (udp_step tracing cb) (udp_start st u ls') es w"
  shows "\<exists>accepted taken. subseq accepted (arrivals es) \<and> accepted = taken @ udp_queue w \<and>
           list_all2 receipt_of taken (receipts es)"
proof -
  have cb: "cb = (\<lambda>l w. w)" using assms(1) by (simp add: idle_callback_def fun_eq_iff)
  note new = udp_new_ok [OF assms(1-3)]
  show ?thesis using udp_idle.run_in_order [OF assms(4) [unfolded cb] new(1)] new(2) by (simp add: udp_view_def)
qed

text \<open>C16: what one process sends through a UDP socket is what another receives: the packet made by \<^verbatim>\<open>_udp_sendUserData\<close> and taken
  by the interface, pushed into the socket of the destination, is received with its bytes, up to the size of the buffer, and the
  address of the sender.\<close>

theorem udp_roundtrip:
  assumes cb: "idle_callback cb" and a: "udp_inv a" "so_outputBuffer (uw_udp a) = []"
    and b: "udp_inv b" "so_buffered (uw_udp b) = []" "unat n \<le> udp_capacity b"
    and p: "ns_packets (uw_store a) p = None" "p \<noteq> NULL" and q: "ns_payloads (uw_store a) q = None" "q \<noteq> NULL"
    and rd: "read_law readPtr" "sent_bytes readPtr n = bytes" and buf: "buffer \<noteq> NULL" "buffer' \<noteq> NULL"
    and n: "n \<le> CONFIG_DATAGRAM_MAX_SIZE" "unat n \<le> out_space (uw_udp a)"
    and r: "udp_route defaultIP (uw_udp a) ip port = (sip, sp, dip, dp)" "udp_routed (sip, sp, dip, dp)"
  shows "do { (a1, sent) \<leftarrow> udp_sendUserData tracing cb hostID defaultIP p q readPtr a buffer n ip port;
              (a2, packet) \<leftarrow> udp_pull cb a1;
              b1 \<leftarrow> udp_push tracing cb (b\<lparr>uw_store := uw_store a2\<rparr>) packet;
              (b2, got, data, from) \<leftarrow> udp_receiveUserData tracing cb (\<lambda>_. 0) b1 buffer' m;
              Some (sent, got, data, from) }
         = Some (uint n, int (min (unat m) (length bytes)), take (unat m) bytes, Some (sip, sp))"
proof -
  obtain a1 where a1: "udp_sendUserData tracing cb hostID defaultIP p q readPtr a buffer n ip port = Some (a1, uint n)"
    "udp_inv a1" "udp_queue a1 = udp_queue a" "udp_capacity a1 = udp_capacity a"
    "udp_outqueue a1 = udp_outqueue a @ [(sip, sp, dip, dp, sent_bytes readPtr n)]"
    "so_outputBuffer (uw_udp a1) = so_outputBuffer (uw_udp a) @ [p]" "routable (uw_store a1) p"
    by (rule udp_send_ok [OF a(1) cb p q rd(1) buf(1) n r]) (rule that)
  have out: "so_outputBuffer (uw_udp a1) = [p]" using a1(6) a(2) by simp
  obtain a2 x where a2: "udp_pull cb a1 = Some (a2, x)" "uw_store a2 = uw_store a1" "so_outputBuffer (uw_udp a1) = x # so_outputBuffer (uw_udp a2)"
    using udp_pull_ok [OF a1(2) cb] out by (metis list.distinct(1))
  then have x: "x = p" using out by simp
  define b0 where "b0 = b\<lparr>uw_store := uw_store a2\<rparr>"
  have ok: "net_ok (uw_store a1)" using a1(2) by (simp add: udp_inv_def sock_inv_def)
  have "udp_inv (b\<lparr>uw_store := uw_store a1, uw_packetIDs := uw_packetIDs b, uw_priorities := uw_priorities b\<rparr>) \<and>
      udp_view (b\<lparr>uw_store := uw_store a1, uw_packetIDs := uw_packetIDs b, uw_priorities := uw_priorities b\<rparr>) = udp_view b"
    by (rule udp_elsewhere_ok [OF b(1) ok]) (simp_all add: b(2))
  then have b0: "udp_inv b0" "udp_view b0 = udp_view b" by (simp_all add: b0_def a2(2))
  have e: "udp_queue b0 = []" "udp_capacity b0 = udp_capacity b"
    using b0(2) b(2) by (simp_all add: udp_view_def udp_queue_def so_buffered_def)
  have rt: "routable (uw_store b0) p" using a1(7) by (simp add: b0_def a2(2))
  have dg: "dgram (uw_store b0) p = (sip, sp, dip, dp, bytes)"
    using a1(5) out a(2) rd(2) by (simp add: udp_outqueue_def b0_def a2(2))
  obtain b1 where b1: "udp_push tracing cb b0 p = Some b1" "udp_inv b1" "udp_capacity b1 = udp_capacity b0" "udp_outqueue b1 = udp_outqueue b0"
    "udp_queue b1 = udp_queue b0 @
       (if length (dbytes (dgram (uw_store b0) p)) \<le> udp_capacity b0 - queued_bytes (udp_queue b0) then [dgram (uw_store b0) p] else [])"
    by (rule udp_push_ok [OF b0(1) cb rt]) (rule that)
  have "length bytes \<le> udp_capacity b" using sent_le [OF rd(1), of n] rd(2) b(3) by simp
  then have q1: "udp_queue b1 = (sip, sp, dip, dp, bytes) # []"
    using b1(5) e by (simp add: dg dbytes_def queued_bytes_def)
  obtain b2 where "udp_receiveUserData tracing cb (\<lambda>_. 0) b1 buffer' m =
      Some (b2, int (min (unat m) (length bytes)), take (unat m) bytes, Some (sip, sp))"
    using udp_receive_ok [OF b1(2) cb _ q1, of "\<lambda>_. 0" buffer' m tracing] buf(2) by blast
  then show ?thesis using a1(1) a2(1) b1(1) x by (simp add: b0_def)
qed

text \<open>C40: where the memory of the process cannot be read, \<^verbatim>\<open>_udp_sendUserData\<close> does not fail: it sends an empty datagram and
  returns the number of bytes that it was asked to send.\<close>

theorem udp_send_fault_sends_empty:
  assumes cb: "idle_callback cb" and inv: "udp_inv w" and p: "ns_packets (uw_store w) p = None" "p \<noteq> NULL"
    and q: "ns_payloads (uw_store w) q = None" "q \<noteq> NULL" and buf: "buffer \<noteq> NULL"
    and n: "n \<noteq> 0" "n \<le> CONFIG_DATAGRAM_MAX_SIZE" "unat n \<le> out_space (uw_udp w)"
    and r: "udp_route defaultIP (uw_udp w) ip port = (sip, sp, dip, dp)" "udp_routed (sip, sp, dip, dp)"
  shows "\<exists>w'. udp_sendUserData tracing cb hostID defaultIP p q (\<lambda>_. None) w buffer n ip port = Some (w', uint n) \<and>
           udp_outqueue w' = udp_outqueue w @ [(sip, sp, dip, dp, [])]"
proof -
  have "read_law (\<lambda>_. None)" by (simp add: read_law_def)
  from udp_send_ok [OF inv cb p q this buf n(2,3) r, of tracing hostID] show ?thesis
    using n(1) by (metis sent_bytes_def option.simps(4))
qed


section \<open>Witnesses\<close>

abbreviation idle :: desc_callback where "idle \<equiv> (\<lambda>l w. w)"

lemma idle_idle: "idle_callback idle"
  by (simp add: idle_callback_def)

lemma udp_new_total: "idle_callback cb \<Longrightarrow> \<exists>u. udp_new cb ls r s = Some (u, ls)"
  by (simp add: udp_new_def Let_def socket_adjustStatus_idle desc_ok_none socket_init_def socket.defs descriptor_init_def)

lemma sample_dgram: "dgram sample_store 1 = (0x0100000B, 80, 0x0200000B, 443, [0, 1, 2, 3, 4])"
  by (simp add: dgram_def pbytes_def pcontent_def plen_def packet_getSourceIP_def packet_getSourcePort_def packet_getDestinationIP_def
      packet_getDestinationPort_def packet_getPayloadLength_def payload_getLength_def payload_get_def sample_defs upt_rec)

lemma sample_ok: "net_ok sample_store"
  using net_ok_steps [OF sample_net_steps net_ok_empty] .

lemma sample_socket:
  obtains u where "udp_new idle Map.empty 100 100 = Some (u, Map.empty)" "\<forall>st. net_ok st \<longrightarrow> udp_inv (udp_start st u Map.empty)"
    "\<forall>st. net_ok st \<longrightarrow> udp_view (udp_start st u Map.empty) = (100, [])" "so_buffered u = []" "out_space u = 100"
    "so_flags u = 0" "so_outputBuffer u = []"
proof -
  obtain u where u: "udp_new idle Map.empty 100 100 = Some (u, Map.empty)" using udp_new_total [OF idle_idle] by blast
  then show thesis using that [OF u] udp_new_ok [OF idle_idle u] net_ok_empty by simp
qed

text \<open>A datagram of five bytes arrives, and three of them are received.\<close>

lemma sample_run:
  obtains u w where "udp_new idle Map.empty 100 100 = Some (u, Map.empty)"
    "runs (udp_step False idle) (udp_start sample_store u Map.empty)
       [Arrive (dgram sample_store 1), Receive False 3 3 [0, 1, 2] (Some (0x0100000B, 80))] w"
proof -
  obtain u where u: "udp_new idle Map.empty 100 100 = Some (u, Map.empty)" "udp_inv (udp_start sample_store u Map.empty)"
    "udp_view (udp_start sample_store u Map.empty) = (100, [])" using sample_socket sample_ok by metis
  let ?w = "udp_start sample_store u Map.empty"
  have st: "uw_store ?w = sample_store" by (simp add: udp_start_def)
  have r: "routable (uw_store ?w) 1" unfolding st by (simp add: routable_def sample_live [simplified] sample_packet_fields)
  obtain w1 where w1: "udp_push False idle ?w 1 = Some w1" "udp_inv w1" "udp_capacity w1 = udp_capacity ?w"
    "udp_outqueue w1 = udp_outqueue ?w" "udp_queue w1 = udp_queue ?w @
       (if length (dbytes (dgram (uw_store ?w) 1)) \<le> udp_capacity ?w - queued_bytes (udp_queue ?w) then [dgram (uw_store ?w) 1] else [])"
    by (rule udp_push_ok [OF u(2) idle_idle r]) (rule that)
  then have q: "udp_queue w1 = (0x0100000B, 80, 0x0200000B, 443, [0, 1, 2, 3, 4]) # []"
    using u(3) unfolding st sample_dgram by (simp add: udp_view_def queued_bytes_def dbytes_def)
  obtain w2 where "udp_receiveUserData False idle (\<lambda>_. 0) w1 4096 3 = Some (w2, int (min (unat (3 :: u64)) (length [0, 1, 2, 3, 4 :: byte])),
      take (unat (3 :: u64)) [0, 1, 2, 3, 4], Some (0x0100000B, 80))"
    by (rule udp_receive_ok [OF w1(2) idle_idle _ q, of "\<lambda>_. 0" 4096 3 False]) (simp, simp, rule that)
  then have w2: "udp_receiveUserData False idle (\<lambda>_. 0) w1 4096 3 = Some (w2, 3, [0, 1, 2], Some (0x0100000B, 80))" by simp
  have s1: "udp_step False idle ?w (Arrive (dgram sample_store 1)) w1"
    using udp_step.push [OF r w1(1)] unfolding st .
  have s2: "udp_step False idle w1 (Receive False 3 3 [0, 1, 2] (Some (0x0100000B, 80))) w2"
    using udp_step.receive [of "\<lambda>_. 0", OF _ w2] by simp
  have "runs (udp_step False idle) ?w (([] @ [Arrive (dgram sample_store 1)]) @ [Receive False 3 3 [0, 1, 2] (Some (0x0100000B, 80))]) w2"
    by (rule runs.more, rule runs.more, rule runs.stop, rule s1, rule s2)
  then show thesis using that [OF u(1)] by simp
qed

theorem udp_refines_datagram_queue_witness:
  "\<exists>u w es. udp_new idle Map.empty 100 100 = Some (u, Map.empty) \<and> es \<noteq> [] \<and>
     runs (udp_step False idle) (udp_start sample_store u Map.empty) es w \<and> runs dq_step (100, []) es (udp_view w)"
proof -
  obtain u w where r: "udp_new idle Map.empty 100 100 = Some (u, Map.empty)"
    "runs (udp_step False idle) (udp_start sample_store u Map.empty)
       [Arrive (dgram sample_store 1), Receive False 3 3 [0, 1, 2] (Some (0x0100000B, 80))] w" by (rule sample_run)
  have "unat (100 :: u32) = 100" by simp
  with udp_refines_datagram_queue [OF idle_idle r(1) sample_ok r(2)] r show ?thesis by (metis list.distinct(1))
qed

theorem udp_receives_in_order_witness:
  "\<exists>u w. udp_new idle Map.empty 100 100 = Some (u, Map.empty) \<and>
     (\<exists>accepted taken. subseq accepted [dgram sample_store 1] \<and> accepted = taken @ udp_queue w \<and>
        list_all2 receipt_of taken [(3, [0, 1, 2], 0x0100000B, 80)])"
proof -
  obtain u w where r: "udp_new idle Map.empty 100 100 = Some (u, Map.empty)"
    "runs (udp_step False idle) (udp_start sample_store u Map.empty)
       [Arrive (dgram sample_store 1), Receive False 3 3 [0, 1, 2] (Some (0x0100000B, 80))] w" by (rule sample_run)
  then show ?thesis using udp_receives_in_order [OF idle_idle r(1) sample_ok r(2)] by auto
qed

text \<open>A socket bound to 11.0.0.1, port 80 in network order, sends to 11.0.0.2.\<close>

lemma sample_bound:
  assumes "\<forall>st. net_ok st \<longrightarrow> udp_inv (udp_start st u Map.empty)" "out_space u = 100" "so_flags u = 0" "so_outputBuffer u = []"
  defines "a \<equiv> (udp_start net_empty u Map.empty)\<lparr>uw_udp := socket_setSocketName u 0x0100000B 80\<rparr>"
  shows "udp_inv a" "out_space (uw_udp a) = 100" "so_outputBuffer (uw_udp a) = []" "uw_store a = net_empty"
    "udp_route 0 (uw_udp a) 0x0200000B 443 = (0x0100000B, 80, 0x0200000B, 443)" "udp_outqueue a = []"
proof -
  have "uw_udp (udp_start net_empty u Map.empty) = u" by (simp add: udp_start_def)
  then show "udp_inv a" unfolding a_def using udp_rename [OF assms(1) [rule_format, OF net_ok_empty]] by (simp add: socket_setSocketName_def)
  have "out_space (uw_udp a) = out_space u"
    by (simp add: a_def socket_setSocketName_def out_space_def socket_getOutputBufferSize_def)
  then show "out_space (uw_udp a) = 100" using assms(2) by simp
  show "so_outputBuffer (uw_udp a) = []" "uw_store a = net_empty" "udp_outqueue a = []"
    using assms(4) by (simp_all add: a_def socket_setSocketName_def udp_start_def udp_outqueue_def)
  show "udp_route 0 (uw_udp a) 0x0200000B 443 = (0x0100000B, 80, 0x0200000B, 443)"
    using assms(3) by (simp add: a_def socket_setSocketName_def udp_route_def socket_getSocketName_def socket_isBound_def SF_BOUND_def)
qed


theorem udp_roundtrip_witness:
  "\<exists>a b. do { (a1, sent) \<leftarrow> udp_sendUserData False idle 7 0 1 9 sample_read a 4096 5 0x0200000B 443;
            (a2, packet) \<leftarrow> udp_pull idle a1;
            b1 \<leftarrow> udp_push False idle (b\<lparr>uw_store := uw_store a2\<rparr>) packet;
            (b2, got, data, from) \<leftarrow> udp_receiveUserData False idle (\<lambda>_. 0) b1 8192 3;
            Some (sent, got, data, from) } = Some (5, 3, [0, 1, 2], Some (0x0100000B, 80))"
proof -
  obtain u where u: "udp_new idle Map.empty 100 100 = Some (u, Map.empty)" "\<forall>st. net_ok st \<longrightarrow> udp_inv (udp_start st u Map.empty)"
    "\<forall>st. net_ok st \<longrightarrow> udp_view (udp_start st u Map.empty) = (100, [])" "so_buffered u = []" "out_space u = 100"
    "so_flags u = 0" "so_outputBuffer u = []" by (rule sample_socket)
  define a where "a = (udp_start net_empty u Map.empty)\<lparr>uw_udp := socket_setSocketName u 0x0100000B 80\<rparr>"
  define b where "b = udp_start net_empty u Map.empty"
  note A = sample_bound [OF u(2,5-7), folded a_def]
  have b: "udp_inv b" "so_buffered (uw_udp b) = []" "udp_capacity b = 100"
    using u(2,3) [rule_format, OF net_ok_empty] u(4) by (simp_all add: b_def udp_view_def udp_start_def)
  have s: "sent_bytes sample_read 5 = [0, 1, 2, 3, 4]" by (simp add: sent_bytes_def sample_read_def upt_rec)
  have "do { (a1, sent) \<leftarrow> udp_sendUserData False idle 7 0 1 9 sample_read a 4096 5 0x0200000B 443;
            (a2, packet) \<leftarrow> udp_pull idle a1;
            b1 \<leftarrow> udp_push False idle (b\<lparr>uw_store := uw_store a2\<rparr>) packet;
            (b2, got, data, from) \<leftarrow> udp_receiveUserData False idle (\<lambda>_. 0) b1 8192 3;
            Some (sent, got, data, from) } =
    Some (uint (5 :: u64), int (min (unat (3 :: u64)) (length [0, 1, 2, 3, 4 :: byte])), take (unat (3 :: u64)) [0, 1, 2, 3, 4],
          Some (0x0100000B, 80))"
    by (rule udp_roundtrip [OF idle_idle A(1,3) b(1,2) _ _ _ _ _ sample_read_law s _ _ _ _ A(5)])
      (simp_all add: A b net_empty_def CONFIG_DATAGRAM_MAX_SIZE_def udp_routed_def)
  then show ?thesis by (intro exI [of _ a] exI [of _ b]) simp
qed

theorem udp_send_fault_sends_empty_witness:
  "\<exists>w w'. udp_sendUserData False idle 7 0 1 9 (\<lambda>_. None) w 4096 5 0x0200000B 443 = Some (w', 5) \<and>
          udp_outqueue w' = [(0x0100000B, 80, 0x0200000B, 443, [])]"
proof -
  obtain u where u: "udp_new idle Map.empty 100 100 = Some (u, Map.empty)" "\<forall>st. net_ok st \<longrightarrow> udp_inv (udp_start st u Map.empty)"
    "\<forall>st. net_ok st \<longrightarrow> udp_view (udp_start st u Map.empty) = (100, [])" "so_buffered u = []" "out_space u = 100"
    "so_flags u = 0" "so_outputBuffer u = []" by (rule sample_socket)
  define a where "a = (udp_start net_empty u Map.empty)\<lparr>uw_udp := socket_setSocketName u 0x0100000B 80\<rparr>"
  note A = sample_bound [OF u(2,5-7), folded a_def]
  have "\<exists>w'. udp_sendUserData False idle 7 0 1 9 (\<lambda>_. None) a 4096 5 0x0200000B 443 = Some (w', uint (5 :: u64)) \<and>
           udp_outqueue w' = udp_outqueue a @ [(0x0100000B, 80, 0x0200000B, 443, [])]"
    by (rule udp_send_fault_sends_empty [OF idle_idle A(1) _ _ _ _ _ _ _ _ A(5)])
      (simp_all add: A net_empty_def CONFIG_DATAGRAM_MAX_SIZE_def udp_routed_def)
  then show ?thesis using A(6) by auto
qed

end
