(* ===== verification/Event_Queue.thy ===== *)
theory Event_Queue
  imports Work
begin

text \<open>
  The event queue with its clock that every scheduler policy keeps per host or per thread:
  a mutex-protected priority queue of events, the time of the last event taken from it
  and two counters (the fields \<^verbatim>\<open>pq\<close>, \<^verbatim>\<open>lastEventTime\<close>, \<^verbatim>\<open>nPushed\<close>, \<^verbatim>\<open>nPopped\<close> of
  \<^verbatim>\<open>struct _HostSingleQueueData\<close> and of \<^verbatim>\<open>struct _ThreadSingleThreadData\<close>), with the two
  critical sections that the policies run on it. Everything between
  \<^verbatim>\<open>g_mutex_lock\<close> and \<^verbatim>\<open>g_mutex_unlock\<close> is one operation.
\<close>

record queue_data =
  qd_pq :: "event pqueue"
  qd_lastEventTime :: simtime
  qd_nPushed :: u64
  qd_nPopped :: u64

definition queuedata_new :: "nat \<Rightarrow> queue_data" where
  "queuedata_new addr =
     \<lparr>qd_pq = priorityqueue_new addr True, qd_lastEventTime = 0, qd_nPushed = 0, qd_nPopped = 0\<rparr>"

definition queuedata_push :: "renew_func \<Rightarrow> event \<Rightarrow> 'a queue_data_scheme \<Rightarrow> 'a queue_data_scheme" where
  "queuedata_push renew e qd =
     qd\<lparr>qd_pq := fst (priorityqueue_push event_compare renew (qd_pq qd) e),
        qd_nPushed := qd_nPushed qd + 1\<rparr>"

definition queuedata_pop ::
  "renew_func \<Rightarrow> simtime \<Rightarrow> 'a queue_data_scheme \<Rightarrow> ('a queue_data_scheme \<times> event option) option" where
  "queuedata_pop renew barrier qd =
     (case priorityqueue_peek (qd_pq qd) of
        None \<Rightarrow> Some (qd, None)
      | Some nextEvent \<Rightarrow>
          (let eventTime = event_getTime nextEvent
           in if eventTime < barrier then do {
                utility_assert (eventTime \<ge> qd_lastEventTime qd);
                let (pq', nextEvent') = priorityqueue_pop event_compare renew (qd_pq qd);
                Some (qd\<lparr>qd_lastEventTime := eventTime, qd_pq := pq',
                         qd_nPopped := qd_nPopped qd + 1\<rparr>, nextEvent')
              } else Some (qd, None)))"

definition queuedata_minTime :: "'a queue_data_scheme \<Rightarrow> simtime \<Rightarrow> simtime" where
  "queuedata_minTime qd nextEventTime =
     (case priorityqueue_peek (qd_pq qd) of
        None \<Rightarrow> nextEventTime
      | Some e \<Rightarrow> min nextEventTime (event_getTime e))"

section \<open>Contents and invariant\<close>

definition qd_events :: "'a queue_data_scheme \<Rightarrow> event set" where
  "qd_events qd = set (pq_heap (qd_pq qd))"

definition qd_inv :: "'a queue_data_scheme \<Rightarrow> bool" where
  "qd_inv qd \<longleftrightarrow> pq_inv event_le (qd_pq qd) \<and> inj_on ev_ptr (qd_events qd)"

text \<open>The clock never runs ahead of a pending event.\<close>

definition qd_clock_ok :: "'a queue_data_scheme \<Rightarrow> bool" where
  "qd_clock_ok qd \<longleftrightarrow> (\<forall>e \<in> qd_events qd. qd_lastEventTime qd \<le> ev_time e)"

lemma finite_qd_events [simp]: "finite (qd_events qd)"
  by (simp add: qd_events_def)

lemma qd_inv_new [wf_intros]: "qd_inv (queuedata_new addr)" "qd_events (queuedata_new addr) = {}"
  by (simp_all add: qd_inv_def queuedata_new_def qd_events_def pq_inv_new)
     (simp_all add: priorityqueue_new_def)

lemma queuedata_push_spec:
  assumes "qd_inv qd" and "ev_ptr e \<notin> ev_ptr ` qd_events qd"
  shows "qd_inv (queuedata_push renew e qd)"
    and "qd_events (queuedata_push renew e qd) = insert e (qd_events qd)"
    and "qd_lastEventTime (queuedata_push renew e qd) = qd_lastEventTime qd"
proof -
  obtain pq' b where push: "priorityqueue_push event_compare renew (qd_pq qd) e = (pq', b)"
    by (cases "priorityqueue_push event_compare renew (qd_pq qd) e")
  have new: "e \<notin> set (pq_heap (qd_pq qd))" using assms(2) by (auto simp: qd_events_def)
  note p = evq.push_new [OF _ new push]
  have inv: "pq_inv event_le (qd_pq qd)" using assms(1) by (simp add: qd_inv_def)
  have "set_mset (mset (pq_heap pq')) = insert e (set (pq_heap (qd_pq qd)))"
    using p(3) [OF inv] by simp
  then show ev: "qd_events (queuedata_push renew e qd) = insert e (qd_events qd)"
    using push by (simp add: queuedata_push_def qd_events_def)
  show "qd_inv (queuedata_push renew e qd)"
    using ev p(2) [OF inv] assms push by (auto simp: qd_inv_def queuedata_push_def inj_on_insert)
  show "qd_lastEventTime (queuedata_push renew e qd) = qd_lastEventTime qd"
    by (simp add: queuedata_push_def)
qed

lemma queuedata_pop_Some:
  assumes inv: "qd_inv qd" and pop: "queuedata_pop renew barrier qd = Some (qd', Some e)"
  shows "qd_inv qd'" and "e \<in> qd_events qd" and "qd_events qd' = qd_events qd - {e}"
    and "ev_time e < barrier" and "qd_lastEventTime qd \<le> ev_time e"
    and "qd_lastEventTime qd' = ev_time e"
    and "\<And>y. y \<in> qd_events qd \<Longrightarrow> event_le e y"
proof -
  obtain pq' where ppop: "priorityqueue_pop event_compare renew (qd_pq qd) = (pq', Some e)"
    and time: "ev_time e < barrier" "qd_lastEventTime qd \<le> ev_time e"
    and qd': "qd' = qd\<lparr>qd_lastEventTime := ev_time e, qd_pq := pq', qd_nPopped := qd_nPopped qd + 1\<rparr>"
    using pop pop_eq_peek [of event_compare renew "qd_pq qd"]
    by (auto simp: queuedata_pop_def Let_def event_getTime_def split: option.splits if_splits prod.splits)
  have pinv: "pq_inv event_le (qd_pq qd)" using inv by (simp add: qd_inv_def)
  note p = evq.pop_correct [OF pinv ppop]
  show "e \<in> qd_events qd" using p(2) by (simp add: qd_events_def)
  show le: "event_le e y" if "y \<in> qd_events qd" for y using p(3) that by (simp add: qd_events_def)
  show ev: "qd_events qd' = qd_events qd - {e}"
    using set_mset_remove [OF p(5,4)] qd' by (simp add: qd_events_def)
  show "qd_inv qd'" using p(1) ev inv qd' by (auto simp: qd_inv_def intro: inj_on_subset)
  show "ev_time e < barrier" "qd_lastEventTime qd \<le> ev_time e" by (fact time)+
  show "qd_lastEventTime qd' = ev_time e" by (simp add: qd')
qed

lemma queuedata_pop_None:
  assumes inv: "qd_inv qd" and pop: "queuedata_pop renew barrier qd = Some (qd', None)"
  shows "qd' = qd" and "\<And>y. y \<in> qd_events qd \<Longrightarrow> barrier \<le> ev_time y"
proof -
  show "qd' = qd"
    using pop pop_eq_peek [of event_compare renew "qd_pq qd"]
    by (auto simp: queuedata_pop_def Let_def split: option.splits if_splits prod.splits)
  fix y
  assume y: "y \<in> qd_events qd"
  then obtain x where x: "priorityqueue_peek (qd_pq qd) = Some x"
    by (cases "priorityqueue_peek (qd_pq qd)") (auto simp: peek_None_iff qd_events_def)
  then have "barrier \<le> ev_time x"
    using pop pop_eq_peek [of event_compare renew "qd_pq qd"]
    by (auto simp: queuedata_pop_def Let_def event_getTime_def split: if_splits prod.splits)
  moreover have "event_le x y"
    using evq.peek_least(2) [OF _ x] inv y by (simp add: qd_inv_def qd_events_def)
  ultimately show "barrier \<le> ev_time y" using event_le_time order_trans by blast
qed

text \<open>With the clock behind all pending events, the assertion in the pop holds.\<close>

lemma queuedata_pop_total:
  assumes "qd_clock_ok qd"
  shows "queuedata_pop renew barrier qd \<noteq> None"
  using assms
  by (auto simp: queuedata_pop_def Let_def priorityqueue_peek_def qd_clock_ok_def qd_events_def
      event_getTime_def split: option.splits if_splits prod.splits)

lemma queuedata_pop_clock:
  assumes "qd_inv qd" "queuedata_pop renew barrier qd = Some (qd', r)" "qd_clock_ok qd"
  shows "qd_clock_ok qd'"
proof (cases r)
  case None
  then show ?thesis using queuedata_pop_None(1) assms by blast
next
  case (Some e)
  note p = queuedata_pop_Some [OF assms(1), of renew barrier qd' e]
  show ?thesis
    using p(3,6,7) assms(2) Some by (auto simp: qd_clock_ok_def dest: event_le_time)
qed

lemma queuedata_minTime_spec:
  assumes "qd_inv qd"
  shows "queuedata_minTime qd t = Min (insert t (ev_time ` qd_events qd))"
proof (cases "priorityqueue_peek (qd_pq qd)")
  case None
  then have "qd_events qd = {}" by (simp add: peek_None_iff qd_events_def)
  with None show ?thesis by (simp add: queuedata_minTime_def)
next
  case (Some x)
  have "x \<in> qd_events qd" and "\<And>y. y \<in> qd_events qd \<Longrightarrow> ev_time x \<le> ev_time y"
    using evq.peek_least [OF _ Some] assms by (auto simp: qd_inv_def qd_events_def intro: event_le_time)
  then have "Min (ev_time ` qd_events qd) = ev_time x"
    by (intro Min_eqI) auto
  with Some \<open>x \<in> qd_events qd\<close> show ?thesis
    by (subst Min_insert) (auto simp: queuedata_minTime_def event_getTime_def)
qed

end
