(* ===== verification/Scheduler_Policy.thy ===== *)
theory Scheduler_Policy
  imports Event_Queue
begin

text \<open>
  \<^verbatim>\<open>core/scheduler/scheduler_policy.h\<close>: the table of operations through which the scheduler
  uses a policy, and the contract that a policy gives for them.

  Worker threads call the operations concurrently. What a policy does under one lock is one
  step: the whole of \<^verbatim>\<open>push\<close>, one pass of the loop of \<^verbatim>\<open>pop\<close> (\<open>pop_iter\<close>) and one look at
  a queue by \<^verbatim>\<open>getNextTime\<close> (\<open>look\<close>, on each of the queues \<open>scan\<close> lists). The queues
  of a policy have keys of type \<open>'k\<close>: a host where each host has its own queue, a thread
  where the hosts of a thread share one. \<^verbatim>\<open>pthread_t\<close> is an unsigned 64-bit integer.
\<close>

type_synonym pthread = u64

text \<open>The outcome of one pass: an event, a host that has no more events, or no more hosts.\<close>

datatype pop_result = Popped event | Skipped | Exhausted

text \<open>
  GLib's conversion of a pointer to \<^verbatim>\<open>guint\<close> keeps the low 32 bits;
  \<^verbatim>\<open>GUINT_TO_POINTER\<close> does not truncate.
\<close>

definition GPOINTER_TO_UINT :: "u64 \<Rightarrow> u64" where
  "GPOINTER_TO_UINT p = take_bit 32 p"

lemma GPOINTER_TO_UINT_small: "p < 2 ^ 32 \<Longrightarrow> GPOINTER_TO_UINT p = p"
proof -
  assume "p < 2 ^ 32"
  then have "uint p < 2 ^ 32" by (simp add: word_less_def)
  then have "uint (take_bit 32 p) = uint p"
    by (simp add: unsigned_take_bit_eq take_bit_int_eq_self)
  then show ?thesis unfolding GPOINTER_TO_UINT_def by (rule word_uint_eqI)
qed

text \<open>Between hosts with different queues an event is delayed to the end of the round.\<close>

definition adjusted :: "bool \<Rightarrow> simtime \<Rightarrow> event \<Rightarrow> event" where
  "adjusted remote barrier e =
     (if remote \<and> event_getTime e < barrier then event_setTime e barrier else e)"

lemma adjusted_fields [simp]:
  "ev_ptr (adjusted r b e) = ev_ptr e"
  "ev_srcHost (adjusted r b e) = ev_srcHost e"
  "ev_dstHost (adjusted r b e) = ev_dstHost e"
  "ev_srcHostEventID (adjusted r b e) = ev_srcHostEventID e"
  "ev_task (adjusted r b e) = ev_task e"
  by (simp_all add: adjusted_def event_setTime_def)

lemma ev_time_adjusted: "ev_time (adjusted r b e) = (if r then max b (ev_time e) else ev_time e)"
  by (auto simp: adjusted_def event_setTime_def event_getTime_def max_def)

text \<open>Looking at a list of queues in turn, with the least time so far.\<close>

fun look_all :: "('k \<Rightarrow> simtime \<Rightarrow> simtime option) \<Rightarrow> 'k list \<Rightarrow> simtime \<Rightarrow> simtime option" where
  "look_all look [] m = Some m"
| "look_all look (k # ks) m = do { m' \<leftarrow> look k m; look_all look ks m' }"

locale scheduler_policy =
  fixes wf :: "'p \<Rightarrow> bool"
    and pending :: "'p \<Rightarrow> event set"
    and owner :: "'p \<Rightarrow> hostid \<Rightarrow> pthread option"
    and queue_of :: "'p \<Rightarrow> hostid \<Rightarrow> 'k"
    and clock :: "'p \<Rightarrow> 'k \<Rightarrow> simtime"
    and finished :: "'p \<Rightarrow> pthread \<Rightarrow> simtime \<Rightarrow> 'k set"
    and top :: "'p \<Rightarrow> pthread \<Rightarrow> simtime"
    and push :: "pthread \<Rightarrow> 'p \<Rightarrow> event \<Rightarrow> hostid \<Rightarrow> hostid \<Rightarrow> simtime \<Rightarrow> ('p \<times> event) option"
    and pop_iter :: "pthread \<Rightarrow> 'p \<Rightarrow> simtime \<Rightarrow> ('p \<times> pop_result) option"
    and scan :: "'p \<Rightarrow> pthread \<Rightarrow> 'k list"
    and look :: "'p \<Rightarrow> 'k \<Rightarrow> simtime \<Rightarrow> simtime option"
    and pop :: "pthread \<Rightarrow> 'p \<Rightarrow> simtime \<Rightarrow> ('p \<times> event option) option"
    and getNextTime :: "pthread \<Rightarrow> 'p \<Rightarrow> simtime option"
  assumes finite_pending: "wf p \<Longrightarrow> finite (pending p)"
    and inj_pending: "wf p \<Longrightarrow> inj_on ev_ptr (pending p)"
    and pending_owned: "wf p \<Longrightarrow> e \<in> pending p \<Longrightarrow> owner p (ev_dstHost e) \<noteq> None"
    and queue_owner: "wf p \<Longrightarrow> owner p h = Some t \<Longrightarrow> owner p h' \<noteq> None \<Longrightarrow>
      queue_of p h = queue_of p h' \<Longrightarrow> owner p h' = Some t"
    and finished_above_top: "wf p \<Longrightarrow> top p t < b \<Longrightarrow> finished p t b = {}"
    and push_total: "wf p \<Longrightarrow> owner p src \<noteq> None \<Longrightarrow> owner p dst \<noteq> None \<Longrightarrow>
      push self p e src dst b \<noteq> None"
    and push_law: "wf p \<Longrightarrow> owner p src \<noteq> None \<Longrightarrow> owner p dst \<noteq> None \<Longrightarrow>
      ev_dstHost e = dst \<Longrightarrow> ev_ptr e \<notin> ev_ptr ` pending p \<Longrightarrow>
      push self p e src dst b = Some (p', e') \<Longrightarrow>
      e' = adjusted (queue_of p src \<noteq> queue_of p dst) b e \<and> wf p' \<and>
      pending p' = insert e' (pending p) \<and> owner p' = owner p \<and> queue_of p' = queue_of p \<and>
      clock p' = clock p \<and> finished p' = finished p \<and> top p' = top p"
    and pop_total: "wf p \<Longrightarrow>
      (\<And>e. e \<in> pending p \<Longrightarrow> clock p (queue_of p (ev_dstHost e)) \<le> ev_time e) \<Longrightarrow>
      pop_iter t p b \<noteq> None"
    and pop_frame: "wf p \<Longrightarrow> pop_iter t p b = Some (p', r) \<Longrightarrow>
      wf p' \<and> owner p' = owner p \<and> queue_of p' = queue_of p \<and>
      set (scan p' t) = set (scan p t) \<and>
      top p' t \<le> max (top p t) b \<and> (\<forall>t'. t' \<noteq> t \<longrightarrow> top p' t' = top p t') \<and>
      (\<forall>t'. t' \<noteq> t \<longrightarrow> finished p' t' = finished p t')"
    and pop_popped: "wf p \<Longrightarrow> pop_iter t p b = Some (p', Popped e) \<Longrightarrow>
      e \<in> pending p \<and> owner p (ev_dstHost e) = Some t \<and> ev_time e < b \<and>
      pending p' = pending p - {e} \<and>
      clock p (queue_of p (ev_dstHost e)) \<le> ev_time e \<and>
      clock p' = (clock p)(queue_of p (ev_dstHost e) := ev_time e) \<and>
      (\<forall>y \<in> pending p. queue_of p (ev_dstHost y) = queue_of p (ev_dstHost e) \<longrightarrow> event_le e y) \<and>
      finished p' t b = finished p t b \<and> queue_of p (ev_dstHost e) \<notin> finished p t b"
    and pop_skipped: "wf p \<Longrightarrow> pop_iter t p b = Some (p', Skipped) \<Longrightarrow>
      pending p' = pending p \<and> clock p' = clock p \<and>
      (\<exists>k \<in> set (scan p t). k \<notin> finished p t b \<and> finished p' t b = insert k (finished p t b) \<and>
        (\<forall>y \<in> pending p. queue_of p (ev_dstHost y) = k \<longrightarrow> b \<le> ev_time y))"
    and pop_exhausted: "wf p \<Longrightarrow> pop_iter t p b = Some (p', Exhausted) \<Longrightarrow>
      pending p' = pending p \<and> clock p' = clock p \<and> finished p' t b = finished p t b \<and>
      (\<forall>y \<in> pending p. owner p (ev_dstHost y) = Some t \<and>
        queue_of p (ev_dstHost y) \<notin> finished p t b \<longrightarrow> b \<le> ev_time y)"
    and scan_covers: "wf p \<Longrightarrow> owner p h = Some t \<Longrightarrow> queue_of p h \<in> set (scan p t)"
    and look_law: "wf p \<Longrightarrow> owner p h \<noteq> None \<Longrightarrow>
      look p (queue_of p h) m =
        Some (Min (insert m (ev_time ` {y \<in> pending p. queue_of p (ev_dstHost y) = queue_of p h})))"
    and scan_owned: "wf p \<Longrightarrow> k \<in> set (scan p t) \<Longrightarrow> \<exists>h. owner p h = Some t \<and> queue_of p h = k"
    and pop_unfold: "pop t p b =
      (case pop_iter t p b of
         None \<Rightarrow> None
       | Some (p', Popped e) \<Rightarrow> Some (p', Some e)
       | Some (p', Skipped) \<Rightarrow> pop t p' b
       | Some (p', Exhausted) \<Rightarrow> Some (p', None))"
    and getNextTime_unfold: "getNextTime t p = look_all (look p) (scan p t) SIMTIME_MAX"
begin

text \<open>The assertion in \<^verbatim>\<open>pop\<close> can only fail on a queue whose clock ran past an event.\<close>

definition clock_ok :: "'p \<Rightarrow> bool" where
  "clock_ok p \<longleftrightarrow> (\<forall>e \<in> pending p. clock p (queue_of p (ev_dstHost e)) \<le> ev_time e)"

lemma pop_clock_ok:
  assumes "wf p" and "clock_ok p" and "pop_iter t p b = Some (p', r)"
  shows "clock_ok p'"
proof (cases r)
  case (Popped e)
  have f: "queue_of p' = queue_of p" using pop_frame assms by blast
  have e: "pending p' = pending p - {e}" "clock p' = (clock p)(queue_of p (ev_dstHost e) := ev_time e)"
    "\<And>y. y \<in> pending p \<Longrightarrow> queue_of p (ev_dstHost y) = queue_of p (ev_dstHost e) \<Longrightarrow> event_le e y"
    using pop_popped [of p t b p' e] assms Popped by auto
  show ?thesis
    using e(3) event_le_time assms(2) by (auto simp: clock_ok_def f e(1,2))
next
  case Skipped
  have "queue_of p' = queue_of p" "pending p' = pending p" "clock p' = clock p"
    using pop_frame pop_skipped assms Skipped by blast+
  then show ?thesis using assms(2) by (simp add: clock_ok_def)
next
  case Exhausted
  have "queue_of p' = queue_of p" "pending p' = pending p" "clock p' = clock p"
    using pop_frame pop_exhausted assms Exhausted by blast+
  then show ?thesis using assms(2) by (simp add: clock_ok_def)
qed

lemma push_clock_ok:
  assumes "wf p" and "clock_ok p" and "owner p src \<noteq> None" and "owner p dst \<noteq> None"
    and "ev_dstHost e = dst" and "ev_ptr e \<notin> ev_ptr ` pending p"
    and "push self p e src dst b = Some (p', e')"
    and "clock p (queue_of p dst) \<le> ev_time (adjusted (queue_of p src \<noteq> queue_of p dst) b e)"
  shows "clock_ok p'"
proof -
  note law = push_law [OF assms(1,3-7)]
  show ?thesis using law assms(2,5,8) by (auto simp: clock_ok_def)
qed

text \<open>The queues already put aside in this round hold no event of this round.\<close>

definition settled :: "'p \<Rightarrow> pthread \<Rightarrow> simtime \<Rightarrow> bool" where
  "settled p t b \<longleftrightarrow>
     (\<forall>y \<in> pending p. owner p (ev_dstHost y) = Some t \<and> queue_of p (ev_dstHost y) \<in> finished p t b \<longrightarrow>
        b \<le> ev_time y)"

lemma settled_skip:
  assumes "wf p" and "settled p t b" and "pop_iter t p b = Some (p', Skipped)"
  shows "settled p' t b" and "wf p'" and "pending p' = pending p" and "owner p' = owner p"
    and "queue_of p' = queue_of p" and "clock p' = clock p"
    and "card (set (scan p' t) - finished p' t b) < card (set (scan p t) - finished p t b)"
proof -
  note f = pop_frame [OF assms(1,3)]
  obtain k where k: "k \<in> set (scan p t)" "k \<notin> finished p t b" "finished p' t b = insert k (finished p t b)"
    "\<And>y. y \<in> pending p \<Longrightarrow> queue_of p (ev_dstHost y) = k \<Longrightarrow> b \<le> ev_time y"
    using pop_skipped [OF assms(1,3)] by blast
  show "wf p'" "owner p' = owner p" "queue_of p' = queue_of p" using f by auto
  show "pending p' = pending p" "clock p' = clock p" using pop_skipped [OF assms(1,3)] by auto
  show "settled p' t b"
    using assms(2) f k(3,4) pop_skipped [OF assms(1,3)] by (auto simp: settled_def)
  have "set (scan p' t) - finished p' t b = (set (scan p t) - finished p t b) - {k}"
    using f k(3) by auto
  then show "card (set (scan p' t) - finished p' t b) < card (set (scan p t) - finished p t b)"
    using k(1,2) card_Diff1_less [of "set (scan p t) - finished p t b" k] by simp
qed

text \<open>
  \<^verbatim>\<open>pop\<close> returns, and what it returns is the least event of its queue, or nothing when the
  thread has no event before the barrier.
\<close>

lemma pop_spec:
  assumes "wf p" and "settled p t b" and "clock_ok p"
  obtains p' where "pop t p b = Some (p', None)" "wf p'" "pending p' = pending p"
      "\<And>y. y \<in> pending p \<Longrightarrow> owner p (ev_dstHost y) = Some t \<Longrightarrow> b \<le> ev_time y"
  | p' e where "pop t p b = Some (p', Some e)" "wf p'" "e \<in> pending p" "pending p' = pending p - {e}"
      "owner p (ev_dstHost e) = Some t" "ev_time e < b"
      "\<And>y. y \<in> pending p \<Longrightarrow> queue_of p (ev_dstHost y) = queue_of p (ev_dstHost e) \<Longrightarrow> event_le e y"
proof -
  have "(\<exists>p'. pop t p b = Some (p', None) \<and> wf p' \<and> pending p' = pending p \<and>
           (\<forall>y \<in> pending p. owner p (ev_dstHost y) = Some t \<longrightarrow> b \<le> ev_time y)) \<or>
        (\<exists>p' e. pop t p b = Some (p', Some e) \<and> wf p' \<and> e \<in> pending p \<and> pending p' = pending p - {e} \<and>
           owner p (ev_dstHost e) = Some t \<and> ev_time e < b \<and>
           (\<forall>y \<in> pending p. queue_of p (ev_dstHost y) = queue_of p (ev_dstHost e) \<longrightarrow> event_le e y))"
    using assms
  proof (induction "card (set (scan p t) - finished p t b)" arbitrary: p rule: less_induct)
    case less
    have "pop_iter t p b \<noteq> None" using pop_total less.prems(1,3) by (auto simp: clock_ok_def)
    then obtain p' r where it: "pop_iter t p b = Some (p', r)" by auto
    note wf' = pop_frame [OF less.prems(1) it]
    show ?case
    proof (cases r)
      case (Popped e)
      with it have "pop t p b = Some (p', Some e)" by (subst pop_unfold) simp
      then show ?thesis using pop_popped [of p t b p' e] less.prems(1) it Popped wf' by auto
    next
      case Exhausted
      with it have "pop t p b = Some (p', None)" by (subst pop_unfold) simp
      moreover have "pending p' = pending p"
        and "\<And>y. y \<in> pending p \<Longrightarrow> owner p (ev_dstHost y) = Some t \<Longrightarrow> b \<le> ev_time y"
        using pop_exhausted [OF less.prems(1) it [unfolded Exhausted]] less.prems(2)
        unfolding settled_def by blast+
      ultimately show ?thesis using wf' by auto
    next
      case Skipped
      with it have eq: "pop t p b = pop t p' b" by (subst pop_unfold) simp
      note s = settled_skip [OF less.prems(1,2) it [unfolded Skipped]]
      have "clock_ok p'" using pop_clock_ok less.prems(1,3) it by blast
      from less.hyps [OF s(7,2,1) this] show ?thesis unfolding eq s(3-5) .
    qed
  qed
  then show thesis using that by blast
qed

lemma look_all_Min:
  assumes "wf p" and "\<And>k. k \<in> set ks \<Longrightarrow> \<exists>h. owner p h \<noteq> None \<and> queue_of p h = k"
  shows "look_all (look p) ks m =
    Some (Min (insert m (ev_time ` {y \<in> pending p. queue_of p (ev_dstHost y) \<in> set ks})))"
  using assms(2)
proof (induction ks arbitrary: m)
  case (Cons k ks)
  obtain h where h: "owner p h \<noteq> None" "queue_of p h = k" using Cons.prems by (metis list.set_intros(1))
  let ?E = "\<lambda>K. ev_time ` {y \<in> pending p. queue_of p (ev_dstHost y) \<in> K}"
  have fin: "finite (?E K)" for K using finite_pending [OF assms(1)] by simp
  have "look p k m = Some (Min (insert m (?E {k})))" using look_law [OF assms(1) h(1)] h(2) by simp
  moreover have "look_all (look p) ks m' = Some (Min (insert m' (?E (set ks))))" for m'
    using Cons by simp
  moreover have "Min (insert (Min (insert m (?E {k}))) (?E (set ks))) =
      Min (insert m (?E {k}) \<union> ?E (set ks))"
    using fin by (intro Min_insert_Min) auto
  moreover have "insert m (?E {k}) \<union> ?E (set ks) = insert m (?E (set (k # ks)))" by auto
  ultimately show ?case by simp
qed simp

text \<open>\<^verbatim>\<open>getNextTime\<close> is the time of the thread's earliest pending event, if it has one.\<close>

lemma getNextTime_spec:
  assumes "wf p"
  shows "getNextTime t p =
    Some (Min (insert SIMTIME_MAX (ev_time ` {y \<in> pending p. owner p (ev_dstHost y) = Some t})))"
proof -
  have "{y \<in> pending p. queue_of p (ev_dstHost y) \<in> set (scan p t)} =
        {y \<in> pending p. owner p (ev_dstHost y) = Some t}"
    using scan_covers [OF assms] scan_owned [OF assms] queue_owner [OF assms] pending_owned [OF assms]
    by blast
  then show ?thesis
    unfolding getNextTime_unfold using look_all_Min [OF assms, of "scan p t" SIMTIME_MAX] scan_owned [OF assms]
    by fastforce
qed

end

end
