(* ===== verification/Scheduler.thy ===== *)
theory Scheduler
  imports Scheduler_Policy
begin

text \<open>
  \<^verbatim>\<open>core/scheduler/scheduler.c\<close>, the worker pool of \<^verbatim>\<open>core/worker.c\<close> and the execution
  windows of \<^verbatim>\<open>core/controller.c\<close>. The operations of a policy are arguments (\<open>ppush\<close>,
  \<open>paddHost\<close>, ...), as \<^verbatim>\<open>struct _SchedulerPolicy\<close> holds them as function pointers. A worker
  is named by its index \<open>i\<close> (\<^verbatim>\<open>worker_threadID()\<close>); the thread-local \<^verbatim>\<open>Worker\<close> clock is
  the entry \<open>i\<close> of the lists \<open>wp_roundEndTime\<close> and \<open>wp_now\<close>, with
  \<^verbatim>\<open>SIMTIME_INVALID\<close> for a time that is not set.
\<close>

section \<open>Worker pool\<close>

record workerpool =
  wp_nWorkers :: nat
  wp_workerThreads :: "pthread list"
  wp_workerLogicalProcessorIdxs :: "nat list"
  wp_minEventTimes :: "simtime list"
  wp_roundEndTime :: "simtime list"
  wp_now :: "simtime list"
  wp_lastEventTime :: "simtime list"

text \<open>The identifiers that \<^verbatim>\<open>pthread_create\<close> gives the workers are the argument \<open>threads\<close>.\<close>

definition workerpool_new :: "pthread list \<Rightarrow> nat \<Rightarrow> nat \<Rightarrow> workerpool option" where
  "workerpool_new threads nWorkers nParallel = do {
     utility_assert (nParallel \<ge> 1);
     utility_assert (nWorkers \<ge> 1);
     let nLogicalProcessors = min nParallel nWorkers;
     Some \<lparr>wp_nWorkers = nWorkers, wp_workerThreads = threads,
           wp_workerLogicalProcessorIdxs = map (\<lambda>workerID. workerID mod nLogicalProcessors) [0..<nWorkers],
           wp_minEventTimes = replicate nLogicalProcessors SIMTIME_MAX,
           wp_roundEndTime = replicate nWorkers SIMTIME_INVALID,
           wp_now = replicate nWorkers SIMTIME_INVALID,
           wp_lastEventTime = replicate nWorkers SIMTIME_INVALID\<rparr>
   }"

definition workerpool_getThread :: "workerpool \<Rightarrow> nat \<Rightarrow> pthread option" where
  "workerpool_getThread pool threadId = do {
     utility_assert (threadId < wp_nWorkers pool);
     Some (wp_workerThreads pool ! threadId)
   }"

fun globalNextEventTime_loop :: "simtime list \<Rightarrow> simtime \<Rightarrow> simtime" where
  "globalNextEventTime_loop [] minTime = minTime"
| "globalNextEventTime_loop (x # xs) minTime =
     globalNextEventTime_loop xs (if x < minTime then x else minTime)"

definition workerpool_getGlobalNextEventTime :: "workerpool \<Rightarrow> workerpool \<times> simtime" where
  "workerpool_getGlobalNextEventTime pool =
     (pool\<lparr>wp_minEventTimes := map (\<lambda>_. SIMTIME_MAX) (wp_minEventTimes pool)\<rparr>,
      globalNextEventTime_loop (wp_minEventTimes pool) SIMTIME_MAX)"

definition worker_setMinEventTimeNextRound :: "nat \<Rightarrow> simtime \<Rightarrow> workerpool \<Rightarrow> workerpool" where
  "worker_setMinEventTimeNextRound i simtime pool =
     (if simtime < wp_roundEndTime pool ! i then pool
      else let lpi = wp_workerLogicalProcessorIdxs pool ! i
           in if simtime < wp_minEventTimes pool ! lpi
              then pool\<lparr>wp_minEventTimes := (wp_minEventTimes pool)[lpi := simtime]\<rparr>
              else pool)"

definition worker_setRoundEndTime :: "nat \<Rightarrow> simtime \<Rightarrow> workerpool \<Rightarrow> workerpool" where
  "worker_setRoundEndTime i t pool = pool\<lparr>wp_roundEndTime := (wp_roundEndTime pool)[i := t]\<rparr>"

definition worker_setCurrentTime :: "nat \<Rightarrow> simtime \<Rightarrow> workerpool \<Rightarrow> workerpool" where
  "worker_setCurrentTime i t pool = pool\<lparr>wp_now := (wp_now pool)[i := t]\<rparr>"

definition worker_getCurrentTime :: "nat \<Rightarrow> workerpool \<Rightarrow> simtime" where
  "worker_getCurrentTime i pool = wp_now pool ! i"

definition worker_setLastEventTime :: "nat \<Rightarrow> simtime \<Rightarrow> workerpool \<Rightarrow> workerpool" where
  "worker_setLastEventTime i t pool = pool\<lparr>wp_lastEventTime := (wp_lastEventTime pool)[i := t]\<rparr>"

definition worker_getEmulatedTime :: "nat \<Rightarrow> workerpool \<Rightarrow> emutime" where
  "worker_getEmulatedTime i pool = worker_getCurrentTime i pool + EMULATED_TIME_OFFSET"

section \<open>Scheduler\<close>

record 'p scheduler =
  sc_policy :: 'p
  sc_pool :: workerpool
  sc_hostIDs :: "hostid list"
  sc_isRunning :: bool
  sc_endTime :: simtime
  sc_roundEndTime :: simtime
  sc_minNextEventTime :: simtime

type_synonym 'p policy_push = "pthread \<Rightarrow> 'p \<Rightarrow> event \<Rightarrow> hostid \<Rightarrow> hostid \<Rightarrow> simtime \<Rightarrow> ('p \<times> event) option"

definition scheduler_new :: "'p \<Rightarrow> workerpool \<Rightarrow> simtime \<Rightarrow> 'p scheduler" where
  "scheduler_new policy pool endTime =
     \<lparr>sc_policy = policy, sc_pool = pool, sc_hostIDs = [], sc_isRunning = False, sc_endTime = endTime,
      sc_roundEndTime = endTime, sc_minNextEventTime = SIMTIME_MAX\<rparr>"

definition scheduler_push ::
  "'p policy_push \<Rightarrow> nat \<Rightarrow> 'p scheduler \<Rightarrow> task_store \<Rightarrow> event \<Rightarrow> hostid \<Rightarrow> hostid \<Rightarrow>
   ('p scheduler \<times> task_store \<times> bool) option" where
  "scheduler_push ppush i s st event sender receiver =
     (if event_getTime event \<ge> sc_endTime s
      then do { (e', st') \<leftarrow> event_unref st event; Some (s, st', False) }
      else do {
        utility_assert (receiver = event_getHost event);
        self \<leftarrow> workerpool_getThread (sc_pool s) i;
        (policy, event') \<leftarrow> ppush self (sc_policy s) event sender receiver (sc_roundEndTime s);
        Some (s\<lparr>sc_policy := policy,
                sc_pool := worker_setMinEventTimeNextRound i (event_getTime event') (sc_pool s)\<rparr>,
              st, True)
      })"

definition scheduler_addHost :: "'p scheduler \<Rightarrow> hostid \<Rightarrow> 'p scheduler" where
  "scheduler_addHost s host =
     (if host \<in> set (sc_hostIDs s) then s else s\<lparr>sc_hostIDs := sc_hostIDs s @ [host]\<rparr>)"

definition scheduler_getHost :: "'p scheduler \<Rightarrow> hostid \<Rightarrow> hostid option" where
  "scheduler_getHost s hostID = (if hostID \<in> set (sc_hostIDs s) then Some hostID else None)"

definition scheduler_continueNextRound :: "'p scheduler \<Rightarrow> simtime \<Rightarrow> simtime \<Rightarrow> 'p scheduler" where
  "scheduler_continueNextRound s windowStart windowEnd =
     s\<lparr>sc_roundEndTime := windowEnd, sc_minNextEventTime := SIMTIME_MAX\<rparr>"

definition scheduler_awaitNextRound :: "'p scheduler \<Rightarrow> 'p scheduler \<times> simtime" where
  "scheduler_awaitNextRound s =
     (let (pool, minTime) = workerpool_getGlobalNextEventTime (sc_pool s)
      in (s\<lparr>sc_pool := pool, sc_minNextEventTime := minTime\<rparr>, minTime))"

subsection \<open>Assigning hosts to threads\<close>

text \<open>
  The shuffle draws \<open>j\<close> from \<open>randomFraction * (length - i)\<close>; the draws are the argument
  \<open>draw i\<close>, the integer \<^verbatim>\<open>floor(randomFraction * maxRange)\<close>, which is at most
  \<open>length - i\<close> because a fraction is at most \<open>1.0\<close>.
\<close>

fun shuffle_loop :: "(nat \<Rightarrow> nat) \<Rightarrow> nat \<Rightarrow> nat \<Rightarrow> 'a list \<Rightarrow> 'a list" where
  "shuffle_loop draw i 0 array = array"
| "shuffle_loop draw i (Suc n) array =
     (let j0 = draw i;
          j = (if j0 = length array - i then j0 - 1 else j0)
      in shuffle_loop draw (Suc i) n (array[i := array ! (i + j), i + j := array ! i]))"

text \<open>
  With an empty queue the unsigned loop bound \<^verbatim>\<open>length-1\<close> is \<^verbatim>\<open>UINT_MAX\<close> and the loop
  writes outside the array: undefined behaviour, modelled as an abort.
\<close>

definition scheduler_shuffleQueue :: "(nat \<Rightarrow> nat) \<Rightarrow> 'a list \<Rightarrow> 'a list option" where
  "scheduler_shuffleQueue draw queue =
     (if queue = [] then None else Some (shuffle_loop draw 0 (length queue - 1) queue))"

fun assignHosts_loop ::
  "(hostid \<Rightarrow> pthread \<Rightarrow> 'p \<Rightarrow> 'p) \<Rightarrow> workerpool \<Rightarrow> nat \<Rightarrow> hostid list \<Rightarrow> 'p \<Rightarrow> 'p option" where
  "assignHosts_loop paddHost pool workeri [] policy = Some policy"
| "assignHosts_loop paddHost pool workeri (host # hosts) policy = do {
     nextThread \<leftarrow> workerpool_getThread pool (workeri mod wp_nWorkers pool);
     utility_assert (nextThread \<noteq> 0);
     assignHosts_loop paddHost pool (Suc workeri) hosts (paddHost host nextThread policy)
   }"

definition scheduler_assignHosts ::
  "(nat \<Rightarrow> nat) \<Rightarrow> (hostid \<Rightarrow> pthread \<Rightarrow> 'p \<Rightarrow> 'p) \<Rightarrow> 'p scheduler \<Rightarrow> 'p scheduler option" where
  "scheduler_assignHosts draw paddHost s = do {
     hosts \<leftarrow> scheduler_shuffleQueue draw (sc_hostIDs s);
     policy \<leftarrow> assignHosts_loop paddHost (sc_pool s) 0 hosts (sc_policy s);
     Some (s\<lparr>sc_policy := policy\<rparr>)
   }"

definition scheduler_start ::
  "(nat \<Rightarrow> nat) \<Rightarrow> (hostid \<Rightarrow> pthread \<Rightarrow> 'p \<Rightarrow> 'p) \<Rightarrow> 'p scheduler \<Rightarrow> 'p scheduler option" where
  "scheduler_start draw paddHost s = do {
     s' \<leftarrow> scheduler_assignHosts draw paddHost s;
     Some (s'\<lparr>sc_isRunning := True\<rparr>)
   }"

section \<open>Controller: execution windows\<close>

record controller =
  ct_endTime :: simtime
  ct_executeWindowStart :: simtime
  ct_executeWindowEnd :: simtime
  ct_minJumpTimeConfig :: simtime
  ct_minJumpTime :: simtime
  ct_nextMinJumpTime :: simtime

definition controller_getMinTimeJump :: "controller \<Rightarrow> simtime" where
  "controller_getMinTimeJump c =
     (let minJumpTime = (if ct_minJumpTime c > 0 then ct_minJumpTime c else 10 * SIMTIME_ONE_MILLISECOND)
      in if ct_minJumpTimeConfig c > 0 \<and> minJumpTime < ct_minJumpTimeConfig c
         then ct_minJumpTimeConfig c else minJumpTime)"

definition controller_initializeTimeWindows :: "simtime \<Rightarrow> nat \<Rightarrow> controller \<Rightarrow> controller" where
  "controller_initializeTimeWindows stopTime nWorkers c0 =
     (let c = c0\<lparr>ct_endTime := stopTime\<rparr>
      in if nWorkers > 0
         then let jump = controller_getMinTimeJump c
              in c\<lparr>ct_executeWindowStart := 0, ct_executeWindowEnd := jump, ct_nextMinJumpTime := jump\<rparr>
         else c\<lparr>ct_executeWindowStart := 0, ct_executeWindowEnd := G_MAXUINT64\<rparr>)"

definition controller_managerFinishedCurrentRound ::
  "controller \<Rightarrow> simtime \<Rightarrow> controller \<times> simtime \<times> simtime \<times> bool" where
  "controller_managerFinishedCurrentRound c0 minNextEventTime =
     (let c = c0\<lparr>ct_minJumpTime := ct_nextMinJumpTime c0\<rparr>;
          newStart = minNextEventTime;
          newEnd = minNextEventTime + controller_getMinTimeJump c;
          newEnd' = (if newEnd > ct_endTime c then ct_endTime c else newEnd)
      in (c\<lparr>ct_executeWindowStart := newStart, ct_executeWindowEnd := newEnd'\<rparr>,
          newStart, newEnd', newStart < newEnd'))"

definition controller_updateMinTimeJump :: "controller \<Rightarrow> rat \<Rightarrow> controller option" where
  "controller_updateMinTimeJump c minPathLatency =
     (if ct_nextMinJumpTime c = 0 \<or> minPathLatency < double_of_nat (unat (ct_nextMinJumpTime c))
      then do {
        utility_assert (minPathLatency > 0);
        Some (c\<lparr>ct_nextMinJumpTime := word_of_int (floor minPathLatency) * SIMTIME_ONE_MILLISECOND\<rparr>)
      }
      else Some c)"

section \<open>Lemmas\<close>

lemma workerpool_new_fields:
  assumes "workerpool_new threads n par = Some pool"
  shows "wp_nWorkers pool = n" and "wp_workerThreads pool = threads" and "0 < n" and "0 < par"
  using assms unfolding workerpool_new_def Let_def by fastforce+

lemma globalNextEventTime_Min: "globalNextEventTime_loop xs m = Min (insert m (set xs))"
proof (induction xs arbitrary: m)
  case (Cons x xs)
  have "Min (insert (min x m) (set xs)) = Min (insert m (set (x # xs)))"
    using Min_insert_Min [of "{x, m}" "set xs"] by (simp add: insert_commute min.commute)
  moreover have "(if x < m then x else m) = min x m" by (auto simp: min_def)
  ultimately show ?case using Cons by simp
qed simp

lemma swap_list_fold: "xs[i := xs ! j, j := xs ! i] = swap_list xs i j"
  by (simp add: swap_list_def)

lemma shuffle_loop_mset:
  assumes "i + n < length xs" and "\<And>k. draw k \<le> length xs - k"
  shows "mset (shuffle_loop draw i n xs) = mset xs"
  using assms
proof (induction n arbitrary: i xs)
  case (Suc n)
  let ?j = "if draw i = length xs - i then draw i - 1 else draw i"
  have "i + ?j < length xs" using Suc.prems by (auto simp: le_less less_diff_conv2)
      (metis Suc.prems(2) diff_add_inverse less_diff_conv le_neq_implies_less add.commute)+
  then show ?case
    using Suc by (simp add: Let_def swap_list_fold)
qed simp

lemma jump_pos: "controller_getMinTimeJump c > 0"
  by (auto simp: controller_getMinTimeJump_def Let_def SIMTIME_ONE_MILLISECOND_def)

text \<open>
  The next window starts at the earliest event, is not empty exactly when that event is
  before the end of the simulation, and is at most one jump long.
\<close>

lemma window_law:
  assumes fin: "controller_managerFinishedCurrentRound c m = (c', start, e, run)"
    and wrap: "unat (ct_endTime c) + unat (controller_getMinTimeJump (c\<lparr>ct_minJumpTime := ct_nextMinJumpTime c\<rparr>)) < 2 ^ 64"
  shows "start = m" and "e \<le> ct_endTime c" and "run \<longleftrightarrow> m < ct_endTime c" and "run \<Longrightarrow> m < e"
    and "ct_endTime c' = ct_endTime c"
proof -
  let ?j = "controller_getMinTimeJump (c\<lparr>ct_minJumpTime := ct_nextMinJumpTime c\<rparr>)"
  have e: "e = (if m + ?j > ct_endTime c then ct_endTime c else m + ?j)" and run: "run \<longleftrightarrow> m < e"
    using fin by (auto simp: controller_managerFinishedCurrentRound_def Let_def)
  show "start = m" "ct_endTime c' = ct_endTime c"
    using fin by (auto simp: controller_managerFinishedCurrentRound_def Let_def)
  show "e \<le> ct_endTime c" using e by (auto simp: not_less)
  show "run \<Longrightarrow> m < e" using run by simp
  have j: "0 < unat ?j" using jump_pos by (simp add: unat_gt_0 word_greater_zero_iff)
  show "run \<longleftrightarrow> m < ct_endTime c"
  proof
    assume "m < ct_endTime c"
    then have "unat m < unat (ct_endTime c)" by (simp add: word_less_nat_alt)
    then have "unat (m + ?j) = unat m + unat ?j" using wrap by (intro add_no_wrap) simp
    then have "m < m + ?j" using j by (simp add: word_less_nat_alt)
    with \<open>m < ct_endTime c\<close> show run using run e by simp
  next
    assume run
    then have "m < e" using run by simp
    then show "m < ct_endTime c" using \<open>e \<le> ct_endTime c\<close> by (rule less_le_trans)
  qed
qed

text \<open>Hosts go to the workers in turn.\<close>

lemma assignHosts_loop_fold:
  assumes "0 < wp_nWorkers pool" and "\<forall>k < wp_nWorkers pool. wp_workerThreads pool ! k \<noteq> 0"
  shows "assignHosts_loop paddHost pool w hosts p =
    Some (fold (\<lambda>(k, h) p. paddHost h (wp_workerThreads pool ! (k mod wp_nWorkers pool)) p) (enumerate w hosts) p)"
  using assms
  by (induction hosts arbitrary: w p) (simp_all add: workerpool_getThread_def)

lemma setMin_fields [simp, frame_simps]:
  "wp_nWorkers (worker_setMinEventTimeNextRound i t pool) = wp_nWorkers pool"
  "wp_workerThreads (worker_setMinEventTimeNextRound i t pool) = wp_workerThreads pool"
  "wp_workerLogicalProcessorIdxs (worker_setMinEventTimeNextRound i t pool) = wp_workerLogicalProcessorIdxs pool"
  "wp_roundEndTime (worker_setMinEventTimeNextRound i t pool) = wp_roundEndTime pool"
  "wp_now (worker_setMinEventTimeNextRound i t pool) = wp_now pool"
  "length (wp_minEventTimes (worker_setMinEventTimeNextRound i t pool)) = length (wp_minEventTimes pool)"
  by (simp_all add: worker_setMinEventTimeNextRound_def Let_def)

text \<open>The least recorded time.\<close>

definition pool_min :: "workerpool \<Rightarrow> simtime" where
  "pool_min pool = Min (insert SIMTIME_MAX (set (wp_minEventTimes pool)))"

lemma getGlobalNextEventTime_spec:
  "workerpool_getGlobalNextEventTime pool =
     (pool\<lparr>wp_minEventTimes := replicate (length (wp_minEventTimes pool)) SIMTIME_MAX\<rparr>, pool_min pool)"
  by (simp add: workerpool_getGlobalNextEventTime_def globalNextEventTime_Min pool_min_def map_replicate_const)

lemma pool_min_setMin:
  assumes "wp_workerLogicalProcessorIdxs pool ! i < length (wp_minEventTimes pool)"
  shows "pool_min (worker_setMinEventTimeNextRound i t pool) \<le> pool_min pool"
    and "wp_roundEndTime pool ! i \<le> t \<Longrightarrow> pool_min (worker_setMinEventTimeNextRound i t pool) \<le> t"
    and "b \<le> pool_min pool \<Longrightarrow> b \<le> wp_roundEndTime pool ! i \<Longrightarrow>
         b \<le> pool_min (worker_setMinEventTimeNextRound i t pool)"
proof -
  let ?xs = "wp_minEventTimes pool" and ?l = "wp_workerLogicalProcessorIdxs pool ! i"
  let ?p' = "worker_setMinEventTimeNextRound i t pool"
  have fin: "finite (insert SIMTIME_MAX (set ys))" for ys :: "simtime list" by simp
  have le: "pool_min q \<le> y" if "y \<in> set (wp_minEventTimes q)" for q y
    unfolding pool_min_def using that by simp
  have ge: "b \<le> pool_min q \<longleftrightarrow> b \<le> SIMTIME_MAX \<and> (\<forall>y \<in> set (wp_minEventTimes q). b \<le> y)" for q b
    by (simp add: pool_min_def)
  have nth: "?xs ! ?l \<in> set ?xs" using assms by simp
  show "pool_min ?p' \<le> pool_min pool"
  proof (cases "wp_minEventTimes ?p' = ?xs")
    case True
    then show ?thesis by (simp add: pool_min_def)
  next
    case False
    then have upd: "wp_minEventTimes ?p' = ?xs[?l := t]" "t < ?xs ! ?l"
      by (auto simp: worker_setMinEventTimeNextRound_def Let_def split: if_splits)
    have "pool_min ?p' \<le> y" if "y \<in> set ?xs" for y
    proof (cases "y \<in> set (?xs[?l := t])")
      case False
      then have "y = ?xs ! ?l" using that
        by (metis in_set_conv_nth length_list_update nth_list_update_neq nth_mem)
      then show ?thesis using upd le [of t ?p'] set_update_memI [OF assms, of t] by fastforce
    qed (use upd(1) le [of _ ?p'] in simp)
    moreover have "pool_min ?p' \<le> SIMTIME_MAX" by (simp add: pool_min_def)
    ultimately show ?thesis by (simp add: pool_min_def [of pool])
  qed
  show "pool_min ?p' \<le> t" if "wp_roundEndTime pool ! i \<le> t"
    using that le [of t "pool\<lparr>wp_minEventTimes := ?xs[?l := t]\<rparr>"] le [of "?xs ! ?l" pool] nth set_update_memI [OF assms, of t]
    by (auto simp: worker_setMinEventTimeNextRound_def Let_def not_less intro: order_trans)
  show "b \<le> pool_min ?p'" if "b \<le> pool_min pool" "b \<le> wp_roundEndTime pool ! i"
  proof -
    have "wp_minEventTimes ?p' = ?xs \<or> wp_roundEndTime pool ! i \<le> t \<and> wp_minEventTimes ?p' = ?xs[?l := t]"
      by (auto simp: worker_setMinEventTimeNextRound_def Let_def not_less)
    then have "y \<in> set ?xs \<or> wp_roundEndTime pool ! i \<le> t \<and> y = t" if "y \<in> set (wp_minEventTimes ?p')" for y
      using that set_update_subset_insert [of ?xs ?l t] by auto
    then show ?thesis using that unfolding ge by (metis order_trans)
  qed
qed

section \<open>The windows of the rounds\<close>

text \<open>
  The next round starts at the earliest pending event; it runs exactly when that event is before the end
  of the simulation; then the window is not empty, ends at or before the end of the simulation, and is
  at most one minimum time jump long, so that nothing sent over the network in it has to arrive in it.
\<close>

lemma next_window:
  assumes "controller_managerFinishedCurrentRound c m = (c', start, e, run)"
    and "unat (ct_endTime c) + unat (controller_getMinTimeJump (c\<lparr>ct_minJumpTime := ct_nextMinJumpTime c\<rparr>)) < 2 ^ 64"
  shows "start = m \<and> e \<le> ct_endTime c \<and> (run \<longleftrightarrow> m < ct_endTime c) \<and>
     (run \<longrightarrow> m < e \<and> unat e \<le> unat m + unat (controller_getMinTimeJump c'))"
proof -
  let ?j = "controller_getMinTimeJump (c\<lparr>ct_minJumpTime := ct_nextMinJumpTime c\<rparr>)"
  have e: "e = (if m + ?j > ct_endTime c then ct_endTime c else m + ?j)"
    and j: "controller_getMinTimeJump c' = ?j"
    using assms(1) by (auto simp: controller_managerFinishedCurrentRound_def controller_getMinTimeJump_def Let_def)
  have "unat e \<le> unat m + unat ?j" if "m < ct_endTime c"
  proof -
    have "unat m < unat (ct_endTime c)" using that by (simp add: word_less_nat_alt)
    then have "unat (m + ?j) = unat m + unat ?j" using assms(2) by (intro add_no_wrap) simp
    then show ?thesis using e by (auto simp: word_less_nat_alt)
  qed
  then show ?thesis using window_law [OF assms] j by simp
qed

text \<open>
  C30: \<open>controller_updateMinTimeJump\<close> does not keep the minimum. It compares a latency in milliseconds
  with the stored jump in nanoseconds, so a longer latency that is reported after a
  shorter one still replaces it, and the next windows are longer than the shortest latency.
\<close>

theorem updateMinTimeJump_not_minimum:
  assumes "ct_nextMinJumpTime c = 0" and "1 \<le> a" and "\<lfloor>a\<rfloor> < \<lfloor>b\<rfloor>" and "b < 1000000"
  shows "\<exists>c1 c2. controller_updateMinTimeJump c a = Some c1 \<and> controller_updateMinTimeJump c1 b = Some c2 \<and>
     ct_nextMinJumpTime c1 < ct_nextMinJumpTime c2"
proof -
  have "1 \<le> \<lfloor>a\<rfloor>" "\<lfloor>b\<rfloor> < 1000000" using assms(2,4) by (simp_all add: floor_less_iff)
  then have fl: "1 \<le> \<lfloor>a\<rfloor>" "1 \<le> \<lfloor>b\<rfloor>" "\<lfloor>b\<rfloor> < 1000000" using assms(3) by linarith+
  have ms: "uint (word_of_int k * SIMTIME_ONE_MILLISECOND :: simtime) = k * 1000000" if "0 \<le> k" "k < 1000000" for k
    using that by (simp add: uint_word_ariths SIMTIME_ONE_MILLISECOND_def uint_word_of_int)
  let ?j1 = "word_of_int \<lfloor>a\<rfloor> * SIMTIME_ONE_MILLISECOND :: simtime"
  have u: "uint ?j1 = \<lfloor>a\<rfloor> * 1000000" by (rule ms) (use fl assms(3) in linarith)+
  have n: "int (unat ?j1) = \<lfloor>a\<rfloor> * 1000000" using u by (simp only: of_nat_unat)
  moreover have "\<lfloor>a\<rfloor> * 1000000 < 9007199254740992" using fl(3) assms(3) by linarith
  ultimately have "int (unat ?j1) < int (2 ^ 53)" by simp
  then have "unat ?j1 < 2 ^ 53" by (simp only: of_nat_less_iff)
  then have "double_of_nat (unat ?j1) = of_nat (unat ?j1)" by (rule double_of_nat_exact)
  also have "... = of_int (\<lfloor>a\<rfloor> * 1000000)" using n by (metis of_int_of_nat_eq)
  also have "b < ..."
  proof -
    have "(1000000 :: rat) = of_int 1000000" by simp
    also have "... \<le> of_int (\<lfloor>a\<rfloor> * 1000000)" using fl(1) by (simp only: of_int_le_iff)
    finally show ?thesis using assms(4) by (rule less_le_trans [rotated])
  qed
  finally have lt: "b < double_of_nat (unat ?j1)" .
  have "1 \<le> b" using fl(2) by (simp add: le_floor_iff)
  moreover have "?j1 < word_of_int \<lfloor>b\<rfloor> * SIMTIME_ONE_MILLISECOND"
    unfolding word_less_alt u ms [OF order_trans [OF zero_le_one fl(2)] fl(3)] using assms(3) by simp
  ultimately show ?thesis using assms lt by (simp add: controller_updateMinTimeJump_def)
qed

theorem updateMinTimeJump_not_minimum_witness:
  "\<exists>c1 c2. controller_updateMinTimeJump
      \<lparr>ct_endTime = 1000000000, ct_executeWindowStart = 0, ct_executeWindowEnd = 0, ct_minJumpTimeConfig = 0,
       ct_minJumpTime = 0, ct_nextMinJumpTime = 0\<rparr> 5 = Some c1 \<and> controller_updateMinTimeJump c1 80 = Some c2 \<and>
     ct_nextMinJumpTime c1 < ct_nextMinJumpTime c2"
  by (rule updateMinTimeJump_not_minimum) simp_all

end
