(* ===== verification/Simulation.thy ===== *)
theory Simulation
  imports Scheduler
begin

text \<open>
  The rounds of \<^verbatim>\<open>manager_run\<close> (\<^verbatim>\<open>core/manager.c\<close>) with the workers' task
  \<^verbatim>\<open>_scheduler_runEventsWorkerTaskFn\<close> (\<^verbatim>\<open>core/scheduler/scheduler.c\<close>), as an interleaving of the
  workers' critical sections over any scheduler policy.

  In a round, a worker sets its round end time, pops and runs events until its policy has no
  more before the barrier, looks at each of its queues for the earliest remaining event
  and records it. While it runs an event it may push any number of new events, to its own
  host or to others. When every worker is done, the main thread takes the least
  recorded time and asks the controller for the next window.

  What an event's task does is code outside this component: a running event may push any
  events that \<^verbatim>\<open>worker_scheduleTask\<close> and \<^verbatim>\<open>worker_sendPacket\<close> can build, that is with the
  running host as source, a time of now plus a delay that does not wrap around, and an address
  that no live event has.
\<close>

datatype 'k phase = Start | Run | Exec event | Scan "'k list" simtime | Done

record ('p, 'k) sim =
  sim_sched :: "'p scheduler"
  sim_ctl :: controller
  sim_phase :: "nat \<Rightarrow> 'k phase"

abbreviation sim_policy :: "('p, 'k) sim \<Rightarrow> 'p" where "sim_policy s \<equiv> sc_policy (sim_sched s)"
abbreviation sim_pool :: "('p, 'k) sim \<Rightarrow> workerpool" where "sim_pool s \<equiv> sc_pool (sim_sched s)"
abbreviation sim_barrier :: "('p, 'k) sim \<Rightarrow> simtime" where "sim_barrier s \<equiv> sc_roundEndTime (sim_sched s)"
abbreviation sim_thread :: "('p, 'k) sim \<Rightarrow> nat \<Rightarrow> pthread" where
  "sim_thread s i \<equiv> wp_workerThreads (sim_pool s) ! i"

definition sim_upd ::
  "('p, 'k) sim \<Rightarrow> nat \<Rightarrow> 'p \<Rightarrow> workerpool \<Rightarrow> 'k phase \<Rightarrow> ('p, 'k) sim" where
  "sim_upd s i policy pool phase =
     s\<lparr>sim_sched := (sim_sched s)\<lparr>sc_policy := policy, sc_pool := pool\<rparr>,
       sim_phase := (sim_phase s)(i := phase)\<rparr>"

text \<open>\<^verbatim>\<open>manager_run\<close> opens the first window as [0, 1).\<close>

definition sim_init :: "'p scheduler \<Rightarrow> controller \<Rightarrow> ('p, 'k) sim" where
  "sim_init sched ctl =
     \<lparr>sim_sched = scheduler_continueNextRound sched 0 1, sim_ctl = ctl, sim_phase = \<lambda>_. Start\<rparr>"

inductive sim_step ::
  "'p policy_push \<Rightarrow> (pthread \<Rightarrow> 'p \<Rightarrow> simtime \<Rightarrow> ('p \<times> pop_result) option) \<Rightarrow> ('p \<Rightarrow> pthread \<Rightarrow> 'k list) \<Rightarrow>
   ('p \<Rightarrow> 'k \<Rightarrow> simtime \<Rightarrow> simtime option) \<Rightarrow> ('p \<Rightarrow> event set) \<Rightarrow> ('p, 'k) sim \<Rightarrow> ('p, 'k) sim \<Rightarrow> bool"
  for ppush ppop pscan plook ppending where
  migrate: "i < wp_nWorkers (sim_pool s) \<Longrightarrow> sim_phase s i = Start \<Longrightarrow> l < length (wp_minEventTimes (sim_pool s)) \<Longrightarrow>
    sim_step ppush ppop pscan plook ppending s
      (sim_upd s i (sim_policy s)
        ((sim_pool s)\<lparr>wp_workerLogicalProcessorIdxs := (wp_workerLogicalProcessorIdxs (sim_pool s))[i := l]\<rparr>) Start)"
| start: "i < wp_nWorkers (sim_pool s) \<Longrightarrow> sim_phase s i = Start \<Longrightarrow>
    sim_step ppush ppop pscan plook ppending s
      (sim_upd s i (sim_policy s) (worker_setRoundEndTime i (sim_barrier s) (sim_pool s)) Run)"
| pop: "i < wp_nWorkers (sim_pool s) \<Longrightarrow> sim_phase s i = Run \<Longrightarrow>
    ppop (sim_thread s i) (sim_policy s) (sim_barrier s) = Some (p', Popped e) \<Longrightarrow>
    sim_step ppush ppop pscan plook ppending s
      (sim_upd s i p' (worker_setCurrentTime i (event_getTime e) (sim_pool s)) (Exec e))"
| skip: "i < wp_nWorkers (sim_pool s) \<Longrightarrow> sim_phase s i = Run \<Longrightarrow>
    ppop (sim_thread s i) (sim_policy s) (sim_barrier s) = Some (p', Skipped) \<Longrightarrow>
    sim_step ppush ppop pscan plook ppending s (sim_upd s i p' (sim_pool s) Run)"
| exhaust: "i < wp_nWorkers (sim_pool s) \<Longrightarrow> sim_phase s i = Run \<Longrightarrow>
    ppop (sim_thread s i) (sim_policy s) (sim_barrier s) = Some (p', Exhausted) \<Longrightarrow>
    sim_step ppush ppop pscan plook ppending s
      (sim_upd s i p' (sim_pool s) (Scan (pscan p' (sim_thread s i)) SIMTIME_MAX))"
| emit: "i < wp_nWorkers (sim_pool s) \<Longrightarrow> sim_phase s i = Exec e \<Longrightarrow>
    ev_srcHost e1 = ev_dstHost e \<Longrightarrow> ev_ptr e1 \<notin> ev_ptr ` ppending (sim_policy s) \<Longrightarrow>
    unat (worker_getCurrentTime i (sim_pool s)) + unat delay < 2 ^ 64 \<Longrightarrow>
    ev_time e1 = worker_getCurrentTime i (sim_pool s) + delay \<Longrightarrow>
    scheduler_push ppush i (sim_sched s) st e1 (ev_dstHost e) (ev_dstHost e1) = Some (sched', st', r) \<Longrightarrow>
    ev_dstHost e1 \<in> set (sc_hostIDs (sim_sched s)) \<Longrightarrow>
    sim_step ppush ppop pscan plook ppending s (s\<lparr>sim_sched := sched'\<rparr>)"
| ran: "i < wp_nWorkers (sim_pool s) \<Longrightarrow> sim_phase s i = Exec e \<Longrightarrow>
    sim_step ppush ppop pscan plook ppending s
      (sim_upd s i (sim_policy s)
        (worker_setCurrentTime i SIMTIME_INVALID
          (worker_setLastEventTime i (worker_getCurrentTime i (sim_pool s)) (sim_pool s))) Run)"
| look: "i < wp_nWorkers (sim_pool s) \<Longrightarrow> sim_phase s i = Scan (k # ks) m \<Longrightarrow> plook (sim_policy s) k m = Some m' \<Longrightarrow>
    sim_step ppush ppop pscan plook ppending s (sim_upd s i (sim_policy s) (sim_pool s) (Scan ks m'))"
| record_min: "i < wp_nWorkers (sim_pool s) \<Longrightarrow> sim_phase s i = Scan [] m \<Longrightarrow>
    sim_step ppush ppop pscan plook ppending s
      (sim_upd s i (sim_policy s) (worker_setMinEventTimeNextRound i m (sim_pool s)) Done)"
| latency: "controller_updateMinTimeJump (sim_ctl s) minPathLatency = Some c' \<Longrightarrow>
    sim_step ppush ppop pscan plook ppending s (s\<lparr>sim_ctl := c'\<rparr>)"
| next_round: "(\<And>i. i < wp_nWorkers (sim_pool s) \<Longrightarrow> sim_phase s i = Done) \<Longrightarrow>
    scheduler_awaitNextRound (sim_sched s) = (sched', minNext) \<Longrightarrow>
    controller_managerFinishedCurrentRound (sim_ctl s) minNext = (c', windowStart, windowEnd, True) \<Longrightarrow>
    sim_step ppush ppop pscan plook ppending s
      \<lparr>sim_sched = scheduler_continueNextRound sched' windowStart windowEnd, sim_ctl = c', sim_phase = \<lambda>_. Start\<rparr>"

abbreviation sim_steps where
  "sim_steps ppush ppop pscan plook ppending \<equiv> (sim_step ppush ppop pscan plook ppending)\<^sup>*\<^sup>*"

section \<open>The invariant\<close>

text \<open>The part that speaks of the pool and the controller only.\<close>

definition pool_ok :: "workerpool \<Rightarrow> bool" where
  "pool_ok pool \<longleftrightarrow> length (wp_workerThreads pool) = wp_nWorkers pool \<and> distinct (wp_workerThreads pool) \<and>
     length (wp_workerLogicalProcessorIdxs pool) = wp_nWorkers pool \<and>
     length (wp_roundEndTime pool) = wp_nWorkers pool \<and> length (wp_now pool) = wp_nWorkers pool \<and>
     (\<forall>l \<in> set (wp_workerLogicalProcessorIdxs pool). l < length (wp_minEventTimes pool))"

lemma pool_ok_lpi:
  "pool_ok pool \<Longrightarrow> i < wp_nWorkers pool \<Longrightarrow> wp_workerLogicalProcessorIdxs pool ! i < length (wp_minEventTimes pool)"
  by (simp add: pool_ok_def)

lemma pool_ok_thread_eq:
  "pool_ok pool \<Longrightarrow> i < wp_nWorkers pool \<Longrightarrow> j < wp_nWorkers pool \<Longrightarrow>
   wp_workerThreads pool ! i = wp_workerThreads pool ! j \<longleftrightarrow> i = j"
  by (simp add: pool_ok_def nth_eq_iff_index_eq)

lemma pool_ok_upd [simp]:
  "pool_ok (worker_setMinEventTimeNextRound i t pool) = pool_ok pool"
  "pool_ok (worker_setRoundEndTime i t pool) = pool_ok pool"
  "pool_ok (worker_setCurrentTime i t pool) = pool_ok pool"
  "pool_ok (worker_setLastEventTime i t pool) = pool_ok pool"
  by (simp_all add: pool_ok_def worker_setRoundEndTime_def worker_setCurrentTime_def worker_setLastEventTime_def)

lemma sim_upd_fields [simp, frame_simps]:
  "sim_policy (sim_upd s i p pool ph) = p"
  "sim_pool (sim_upd s i p pool ph) = pool"
  "sim_barrier (sim_upd s i p pool ph) = sim_barrier s"
  "sc_endTime (sim_sched (sim_upd s i p pool ph)) = sc_endTime (sim_sched s)"
  "sc_hostIDs (sim_sched (sim_upd s i p pool ph)) = sc_hostIDs (sim_sched s)"
  "sim_ctl (sim_upd s i p pool ph) = sim_ctl s"
  "sim_phase (sim_upd s i p pool ph) = (sim_phase s)(i := ph)"
  by (simp_all add: sim_upd_def)

lemma worker_set_fields [simp, frame_simps]:
  "wp_nWorkers (worker_setRoundEndTime i t pool) = wp_nWorkers pool"
  "wp_nWorkers (worker_setCurrentTime i t pool) = wp_nWorkers pool"
  "wp_nWorkers (worker_setLastEventTime i t pool) = wp_nWorkers pool"
  "wp_workerThreads (worker_setRoundEndTime i t pool) = wp_workerThreads pool"
  "wp_workerThreads (worker_setCurrentTime i t pool) = wp_workerThreads pool"
  "wp_workerThreads (worker_setLastEventTime i t pool) = wp_workerThreads pool"
  "wp_roundEndTime (worker_setRoundEndTime i t pool) = (wp_roundEndTime pool)[i := t]"
  "wp_roundEndTime (worker_setCurrentTime i t pool) = wp_roundEndTime pool"
  "wp_roundEndTime (worker_setLastEventTime i t pool) = wp_roundEndTime pool"
  "wp_now (worker_setRoundEndTime i t pool) = wp_now pool"
  "wp_now (worker_setCurrentTime i t pool) = (wp_now pool)[i := t]"
  "wp_now (worker_setLastEventTime i t pool) = wp_now pool"
  "pool_min (worker_setRoundEndTime i t pool) = pool_min pool"
  "pool_min (worker_setCurrentTime i t pool) = pool_min pool"
  "pool_min (worker_setLastEventTime i t pool) = pool_min pool"
  by (simp_all add: worker_setRoundEndTime_def worker_setCurrentTime_def worker_setLastEventTime_def pool_min_def)

context scheduler_policy begin

text \<open>Thread \<open>t\<close> has no event left before the barrier.\<close>

definition quiet :: "'p \<Rightarrow> pthread \<Rightarrow> simtime \<Rightarrow> bool" where
  "quiet p t b \<longleftrightarrow> (\<forall>y \<in> pending p. owner p (ev_dstHost y) = Some t \<longrightarrow> b \<le> ev_time y)"

text \<open>What holds of worker \<open>i\<close> in each of its phases.\<close>

definition phase_ok :: "'p \<Rightarrow> workerpool \<Rightarrow> simtime \<Rightarrow> nat \<Rightarrow> 'k phase \<Rightarrow> bool" where
  "phase_ok p pool b i ph =
     (let t = wp_workerThreads pool ! i
      in case ph of
           Start \<Rightarrow> top p t < b
         | Run \<Rightarrow> settled p t b \<and> wp_roundEndTime pool ! i = b
         | Exec e \<Rightarrow> settled p t b \<and> wp_roundEndTime pool ! i = b \<and> owner p (ev_dstHost e) = Some t \<and>
             queue_of p (ev_dstHost e) \<notin> finished p t b \<and> clock p (queue_of p (ev_dstHost e)) = ev_time e \<and>
             ev_time e < b \<and> wp_now pool ! i = ev_time e
         | Scan ks m \<Rightarrow> quiet p t b \<and> wp_roundEndTime pool ! i = b \<and> b \<le> m \<and>
             (\<forall>k \<in> set ks. \<exists>h. owner p h = Some t \<and> queue_of p h = k) \<and>
             (\<forall>y \<in> pending p. owner p (ev_dstHost y) = Some t \<longrightarrow>
                queue_of p (ev_dstHost y) \<in> set ks \<or> m \<le> ev_time y \<or> pool_min pool \<le> ev_time y)
         | Done \<Rightarrow> quiet p t b \<and> (\<forall>y \<in> pending p. owner p (ev_dstHost y) = Some t \<longrightarrow> pool_min pool \<le> ev_time y))"

definition sim_ok :: "('p, 'k) sim \<Rightarrow> bool" where
  "sim_ok s \<longleftrightarrow> wf (sim_policy s) \<and> clock_ok (sim_policy s) \<and> (\<forall>k. clock (sim_policy s) k \<le> sim_barrier s) \<and>
     pool_ok (sim_pool s) \<and> sim_barrier s \<le> pool_min (sim_pool s) \<and>
     sim_barrier s \<le> sc_endTime (sim_sched s) \<and> sc_endTime (sim_sched s) \<le> SIMTIME_MAX \<and>
     ct_endTime (sim_ctl s) = sc_endTime (sim_sched s) \<and>
     (\<forall>h t. owner (sim_policy s) h = Some t \<longrightarrow> t \<in> set (wp_workerThreads (sim_pool s))) \<and>
     (\<forall>h \<in> set (sc_hostIDs (sim_sched s)). owner (sim_policy s) h \<noteq> None) \<and>
     (\<forall>i < wp_nWorkers (sim_pool s). top (sim_policy s) (sim_thread s i) \<le> sim_barrier s) \<and>
     (\<forall>i < wp_nWorkers (sim_pool s). phase_ok (sim_policy s) (sim_pool s) (sim_barrier s) i (sim_phase s i))"

text \<open>A step of another worker leaves what is known of worker \<open>j\<close> alone.\<close>

lemma phase_ok_frame:
  assumes ok: "phase_ok p pool b j ph" and wf: "wf p"
    and t: "wp_workerThreads pool ! j = t" "wp_workerThreads pool' ! j = t"
    and frame: "owner p' = owner p" "queue_of p' = queue_of p" "finished p' t = finished p t" "top p' t = top p t"
    and clk: "\<And>h. owner p h = Some t \<Longrightarrow> clock p' (queue_of p h) = clock p (queue_of p h)"
    and pend: "\<And>y. y \<in> pending p' \<Longrightarrow> owner p (ev_dstHost y) = Some t \<Longrightarrow>
                 y \<in> pending p \<or> b \<le> ev_time y \<and> pool_min pool' \<le> ev_time y"
    and pool: "wp_roundEndTime pool' ! j = wp_roundEndTime pool ! j" "wp_now pool' ! j = wp_now pool ! j"
      "pool_min pool' \<le> pool_min pool"
  shows "phase_ok p' pool' b j ph"
proof -
  have settled: "settled p t b \<Longrightarrow> settled p' t b"
    using pend unfolding settled_def frame by blast
  have quiet: "quiet p t b \<Longrightarrow> quiet p' t b"
    using pend unfolding quiet_def frame by blast
  have mins: "pool_min pool' \<le> ev_time y" if "y \<in> pending p'" "owner p (ev_dstHost y) = Some t"
      "y \<in> pending p \<Longrightarrow> pool_min pool \<le> ev_time y" for y
    using pend [OF that(1,2)] that(3) pool(3) order_trans by blast
  show ?thesis
  proof (cases ph)
    case (Scan ks m)
    have "queue_of p (ev_dstHost y) \<in> set ks \<or> m \<le> ev_time y \<or> pool_min pool' \<le> ev_time y"
      if y: "y \<in> pending p'" "owner p (ev_dstHost y) = Some t" for y
    proof (cases "y \<in> pending p")
      case True
      then have "queue_of p (ev_dstHost y) \<in> set ks \<or> m \<le> ev_time y \<or> pool_min pool \<le> ev_time y"
        using ok y(2) Scan by (simp add: phase_ok_def Let_def t)
      then show ?thesis using pool(3) order_trans by blast
    next
      case False
      then show ?thesis using pend [OF y] by blast
    qed
    then show ?thesis using ok quiet Scan pool by (simp add: phase_ok_def Let_def t frame)
  next
    case Done
    then show ?thesis using ok quiet mins by (simp add: phase_ok_def Let_def t frame)
  qed (use ok settled clk pool in \<open>auto simp: phase_ok_def Let_def t frame\<close>)
qed

lemma sim_okD:
  assumes "sim_ok s" and "i < wp_nWorkers (sim_pool s)"
  shows "phase_ok (sim_policy s) (sim_pool s) (sim_barrier s) i (sim_phase s i)"
    and "top (sim_policy s) (sim_thread s i) \<le> sim_barrier s"
  using assms by (simp_all add: sim_ok_def)

text \<open>Reassembling the invariant after a step of worker \<open>i\<close>.\<close>

lemma sim_ok_updI:
  assumes ok: "sim_ok s" and i: "i < wp_nWorkers (sim_pool s)"
    and p': "wf p'" "clock_ok p'" "\<And>k. clock p' k \<le> sim_barrier s" "owner p' = owner (sim_policy s)"
    and top: "top p' (sim_thread s i) \<le> sim_barrier s"
      "\<And>j. j < wp_nWorkers (sim_pool s) \<Longrightarrow> j \<noteq> i \<Longrightarrow> top p' (sim_thread s j) = top (sim_policy s) (sim_thread s j)"
    and pool: "pool_ok pool'" "sim_barrier s \<le> pool_min pool'" "wp_workerThreads pool' = wp_workerThreads (sim_pool s)"
      "wp_nWorkers pool' = wp_nWorkers (sim_pool s)"
    and ph: "phase_ok p' pool' (sim_barrier s) i ph"
    and others: "\<And>j. j < wp_nWorkers (sim_pool s) \<Longrightarrow> j \<noteq> i \<Longrightarrow>
        phase_ok p' pool' (sim_barrier s) j (sim_phase s j)"
  shows "sim_ok (sim_upd s i p' pool' ph)"
proof -
  have "top p' (sim_thread s j) \<le> sim_barrier s" if "j < wp_nWorkers (sim_pool s)" for j
    using top sim_okD(2) [OF ok that] that by (cases "j = i") auto
  moreover have "phase_ok p' pool' (sim_barrier s) j (((sim_phase s)(i := ph)) j)"
    if "j < wp_nWorkers (sim_pool s)" for j
    using ph others that by (cases "j = i") auto
  ultimately show ?thesis using ok p' pool unfolding sim_ok_def sim_upd_fields by simp
qed

lemma pop_pending_subset:
  assumes "wf p" and "pop_iter t p b = Some (p', r)"
  shows "pending p' \<subseteq> pending p"
  using assms pop_popped [of p t b p'] pop_skipped [of p t b p'] pop_exhausted [of p t b p']
  by (cases r) auto

lemma pop_clock_other:
  assumes wf: "wf p" and pop: "pop_iter t p b = Some (p', r)" and own: "owner p h = Some t'" and "t' \<noteq> t"
  shows "clock p' (queue_of p h) = clock p (queue_of p h)"
proof (cases r)
  case (Popped e)
  note e = pop_popped [OF wf pop [unfolded Popped]]
  have "queue_of p h \<noteq> queue_of p (ev_dstHost e)"
    using queue_owner [OF wf own, of "ev_dstHost e"] e assms(4) by auto
  with e show ?thesis by simp
qed (use pop_skipped [OF wf] pop_exhausted [OF wf] pop in auto)

lemma pop_clock_le:
  assumes wf: "wf p" and pop: "pop_iter t p b = Some (p', r)" and "\<And>k. clock p k \<le> b"
  shows "clock p' k \<le> b"
proof (cases r)
  case (Popped e)
  then show ?thesis using pop_popped [OF wf pop [unfolded Popped]] assms(3) [of k] by (simp add: less_imp_le)
qed (use pop_skipped [OF wf] pop_exhausted [OF wf] pop assms(3) in auto)

lemma sim_ok_pop:
  assumes ok: "sim_ok s" and i: "i < wp_nWorkers (sim_pool s)"
    and pop: "pop_iter (sim_thread s i) (sim_policy s) (sim_barrier s) = Some (p', r)"
    and pool: "pool_ok pool'" "pool_min pool' = pool_min (sim_pool s)"
      "wp_workerThreads pool' = wp_workerThreads (sim_pool s)" "wp_nWorkers pool' = wp_nWorkers (sim_pool s)"
      "wp_roundEndTime pool' = wp_roundEndTime (sim_pool s)"
      "\<And>j. j \<noteq> i \<Longrightarrow> wp_now pool' ! j = wp_now (sim_pool s) ! j"
    and ph: "phase_ok p' pool' (sim_barrier s) i ph"
  shows "sim_ok (sim_upd s i p' pool' ph)"
proof -
  let ?p = "sim_policy s" and ?b = "sim_barrier s" and ?T = "sim_thread s"
  have wf: "wf ?p" and clk: "clock_ok ?p" "\<And>k. clock ?p k \<le> ?b" and pok: "pool_ok (sim_pool s)"
    and min: "?b \<le> pool_min (sim_pool s)"
    using ok by (simp_all add: sim_ok_def)
  note f = pop_frame [OF wf pop]
  have ne: "?T j \<noteq> ?T i" if "j < wp_nWorkers (sim_pool s)" "j \<noteq> i" for j
    using pool_ok_thread_eq [OF pok that(1) i] that(2) by simp
  have "phase_ok p' pool' ?b j (sim_phase s j)" if j: "j < wp_nWorkers (sim_pool s)" "j \<noteq> i" for j
    by (rule phase_ok_frame [OF sim_okD(1) [OF ok j(1)] wf, of "?T j"])
       (use f ne [OF j] pool j(2) pop_clock_other [OF wf pop] pop_pending_subset [OF wf pop] in auto)
  moreover have "top p' (?T i) \<le> ?b" using f sim_okD(2) [OF ok i] by (auto simp: max_def split: if_splits)
  ultimately show ?thesis
    using f pool min ne ph pop_clock_ok [OF wf clk(1) pop] pop_clock_le [OF wf pop clk(2)]
    by (intro sim_ok_updI [OF ok i]) simp_all
qed

lemma step_popped:
  assumes ok: "sim_ok s" and i: "i < wp_nWorkers (sim_pool s)" and ph: "sim_phase s i = Run"
    and pop: "pop_iter (sim_thread s i) (sim_policy s) (sim_barrier s) = Some (p', Popped e)"
  shows "sim_ok (sim_upd s i p' (worker_setCurrentTime i (event_getTime e) (sim_pool s)) (Exec e))"
proof (rule sim_ok_pop [OF ok i pop])
  have wf: "wf (sim_policy s)" and pok: "pool_ok (sim_pool s)" using ok by (simp_all add: sim_ok_def)
  show "pool_ok (worker_setCurrentTime i (event_getTime e) (sim_pool s))" using pok by simp
  have "i < length (wp_now (sim_pool s))" using pok i by (simp add: pool_ok_def)
  then show "phase_ok p' (worker_setCurrentTime i (event_getTime e) (sim_pool s)) (sim_barrier s) i (Exec e)"
    using sim_okD(1) [OF ok i] pop_popped [OF wf pop] pop_frame [OF wf pop] ph
    by (simp add: phase_ok_def Let_def settled_def event_getTime_def)
qed simp_all

lemma step_skipped:
  assumes ok: "sim_ok s" and i: "i < wp_nWorkers (sim_pool s)" and ph: "sim_phase s i = Run"
    and pop: "pop_iter (sim_thread s i) (sim_policy s) (sim_barrier s) = Some (p', Skipped)"
  shows "sim_ok (sim_upd s i p' (sim_pool s) Run)"
proof (rule sim_ok_pop [OF ok i pop])
  have wf: "wf (sim_policy s)" and pok: "pool_ok (sim_pool s)" using ok by (simp_all add: sim_ok_def)
  show "pool_ok (sim_pool s)" by (fact pok)
  show "phase_ok p' (sim_pool s) (sim_barrier s) i Run"
    using sim_okD(1) [OF ok i] settled_skip(1) [OF wf _ pop] ph by (simp add: phase_ok_def Let_def)
qed simp_all

lemma step_exhausted:
  assumes ok: "sim_ok s" and i: "i < wp_nWorkers (sim_pool s)" and ph: "sim_phase s i = Run"
    and pop: "pop_iter (sim_thread s i) (sim_policy s) (sim_barrier s) = Some (p', Exhausted)"
  shows "sim_ok (sim_upd s i p' (sim_pool s) (Scan (scan p' (sim_thread s i)) SIMTIME_MAX))"
proof (rule sim_ok_pop [OF ok i pop])
  have wf: "wf (sim_policy s)" and pok: "pool_ok (sim_pool s)" using ok by (simp_all add: sim_ok_def)
  show "pool_ok (sim_pool s)" by (fact pok)
  note f = pop_frame [OF wf pop] and e = pop_exhausted [OF wf pop]
  have "settled (sim_policy s) (sim_thread s i) (sim_barrier s)" "wp_roundEndTime (sim_pool s) ! i = sim_barrier s"
    using sim_okD(1) [OF ok i] ph by (simp_all add: phase_ok_def Let_def)
  moreover have "sim_barrier s \<le> SIMTIME_MAX" using ok by (auto simp: sim_ok_def)
  moreover have "quiet p' (sim_thread s i) (sim_barrier s)"
    using calculation(1) e f unfolding quiet_def settled_def by metis
  ultimately show "phase_ok p' (sim_pool s) (sim_barrier s) i (Scan (scan p' (sim_thread s i)) SIMTIME_MAX)"
    using f scan_covers [OF wf] scan_owned [of p'] by (simp add: phase_ok_def Let_def)
qed simp_all

text \<open>A step that touches neither the policy nor the recorded times.\<close>

lemma sim_ok_local:
  assumes ok: "sim_ok s" and i: "i < wp_nWorkers (sim_pool s)"
    and pool: "pool_ok pool'" "pool_min pool' = pool_min (sim_pool s)"
      "wp_workerThreads pool' = wp_workerThreads (sim_pool s)" "wp_nWorkers pool' = wp_nWorkers (sim_pool s)"
      "\<And>j. j \<noteq> i \<Longrightarrow> wp_roundEndTime pool' ! j = wp_roundEndTime (sim_pool s) ! j"
      "\<And>j. j \<noteq> i \<Longrightarrow> wp_now pool' ! j = wp_now (sim_pool s) ! j"
    and ph: "phase_ok (sim_policy s) pool' (sim_barrier s) i ph"
  shows "sim_ok (sim_upd s i (sim_policy s) pool' ph)"
proof -
  have wf: "wf (sim_policy s)" using ok by (simp add: sim_ok_def)
  have "phase_ok (sim_policy s) pool' (sim_barrier s) j (sim_phase s j)"
    if j: "j < wp_nWorkers (sim_pool s)" "j \<noteq> i" for j
    by (rule phase_ok_frame [OF sim_okD(1) [OF ok j(1)] wf, of "sim_thread s j"]) (use pool j(2) in auto)
  then show ?thesis
    using ok pool ph sim_okD(2) [OF ok i] by (intro sim_ok_updI [OF ok i]) (simp_all add: sim_ok_def)
qed

lemma step_start:
  assumes ok: "sim_ok s" and i: "i < wp_nWorkers (sim_pool s)" and ph: "sim_phase s i = Start"
  shows "sim_ok (sim_upd s i (sim_policy s) (worker_setRoundEndTime i (sim_barrier s) (sim_pool s)) Run)"
proof (rule sim_ok_local [OF ok i])
  have pok: "pool_ok (sim_pool s)" and wf: "wf (sim_policy s)" using ok by (simp_all add: sim_ok_def)
  show "pool_ok (worker_setRoundEndTime i (sim_barrier s) (sim_pool s))" using pok by simp
  have "i < length (wp_roundEndTime (sim_pool s))" using pok i by (simp add: pool_ok_def)
  moreover have "finished (sim_policy s) (sim_thread s i) (sim_barrier s) = {}"
    using sim_okD(1) [OF ok i] ph finished_above_top [OF wf] by (simp add: phase_ok_def Let_def)
  ultimately show "phase_ok (sim_policy s) (worker_setRoundEndTime i (sim_barrier s) (sim_pool s)) (sim_barrier s) i Run"
    by (simp add: phase_ok_def Let_def settled_def)
qed simp_all

lemma step_migrate:
  assumes ok: "sim_ok s" and i: "i < wp_nWorkers (sim_pool s)" and ph: "sim_phase s i = Start"
    and l: "l < length (wp_minEventTimes (sim_pool s))"
  shows "sim_ok (sim_upd s i (sim_policy s)
    ((sim_pool s)\<lparr>wp_workerLogicalProcessorIdxs := (wp_workerLogicalProcessorIdxs (sim_pool s))[i := l]\<rparr>) Start)"
proof (rule sim_ok_local [OF ok i])
  let ?pool' = "(sim_pool s)\<lparr>wp_workerLogicalProcessorIdxs := (wp_workerLogicalProcessorIdxs (sim_pool s))[i := l]\<rparr>"
  have "pool_ok (sim_pool s)" using ok by (simp add: sim_ok_def)
  then show "pool_ok ?pool'"
    using l set_update_subset_insert [of "wp_workerLogicalProcessorIdxs (sim_pool s)" i l]
    by (auto simp: pool_ok_def)
  show "phase_ok (sim_policy s) ?pool' (sim_barrier s) i Start"
    using sim_okD(1) [OF ok i] ph by (simp add: phase_ok_def Let_def)
qed (simp_all add: pool_min_def)

lemma step_ran:
  assumes ok: "sim_ok s" and i: "i < wp_nWorkers (sim_pool s)" and ph: "sim_phase s i = Exec e"
  shows "sim_ok (sim_upd s i (sim_policy s)
    (worker_setCurrentTime i SIMTIME_INVALID
      (worker_setLastEventTime i (worker_getCurrentTime i (sim_pool s)) (sim_pool s))) Run)"
proof (rule sim_ok_local [OF ok i])
  have "pool_ok (sim_pool s)" using ok by (simp add: sim_ok_def)
  then show "pool_ok (worker_setCurrentTime i SIMTIME_INVALID
      (worker_setLastEventTime i (worker_getCurrentTime i (sim_pool s)) (sim_pool s)))" by simp
qed (use sim_okD(1) [OF ok i] ph in \<open>simp_all add: phase_ok_def Let_def\<close>)

lemma step_look:
  assumes ok: "sim_ok s" and i: "i < wp_nWorkers (sim_pool s)" and ph: "sim_phase s i = Scan (k # ks) m"
    and look: "look (sim_policy s) k m = Some m'"
  shows "sim_ok (sim_upd s i (sim_policy s) (sim_pool s) (Scan ks m'))"
proof (rule sim_ok_local [OF ok i])
  let ?p = "sim_policy s" and ?t = "sim_thread s i"
  show "pool_ok (sim_pool s)" using ok by (simp add: sim_ok_def)
  have wf: "wf ?p" using ok by (simp add: sim_ok_def)
  have old: "phase_ok ?p (sim_pool s) (sim_barrier s) i (Scan (k # ks) m)" using sim_okD(1) [OF ok i] ph by simp
  then obtain h where h: "owner ?p h = Some ?t" "queue_of ?p h = k" by (auto simp: phase_ok_def Let_def)
  let ?E = "ev_time ` {y \<in> pending ?p. queue_of ?p (ev_dstHost y) = k}"
  have m': "m' = Min (insert m ?E)" using look_law [OF wf, of h m] h look by simp
  have fin: "finite (insert m ?E)" using finite_pending [OF wf] by simp
  have le: "m' \<le> m" "\<And>y. y \<in> pending ?p \<Longrightarrow> queue_of ?p (ev_dstHost y) = k \<Longrightarrow> m' \<le> ev_time y"
    unfolding m' using fin by (auto intro: Min_le)
  have own: "owner ?p (ev_dstHost y) = Some ?t" if "y \<in> pending ?p" "queue_of ?p (ev_dstHost y) = k" for y
    using queue_owner [OF wf h(1)] pending_owned [OF wf] that h(2) by metis
  have "sim_barrier s \<le> m'"
    unfolding m' using fin old own by (auto simp: phase_ok_def Let_def quiet_def)
  then show "phase_ok ?p (sim_pool s) (sim_barrier s) i (Scan ks m')"
    using old le order_trans [OF le(1)] by (fastforce simp: phase_ok_def Let_def)
qed simp_all

lemma step_record:
  assumes ok: "sim_ok s" and i: "i < wp_nWorkers (sim_pool s)" and ph: "sim_phase s i = Scan [] m"
  shows "sim_ok (sim_upd s i (sim_policy s) (worker_setMinEventTimeNextRound i m (sim_pool s)) Done)"
proof -
  let ?p = "sim_policy s" and ?pool = "sim_pool s" and ?pool' = "worker_setMinEventTimeNextRound i m (sim_pool s)"
  have wf: "wf ?p" and pok: "pool_ok ?pool" using ok by (simp_all add: sim_ok_def)
  have old: "phase_ok ?p ?pool (sim_barrier s) i (Scan [] m)" using sim_okD(1) [OF ok i] ph by simp
  note mins = pool_min_setMin [OF pool_ok_lpi [OF pok i]]
  have m: "pool_min ?pool' \<le> m" using mins(2) old by (simp add: phase_ok_def Let_def)
  have "phase_ok ?p ?pool' (sim_barrier s) i Done"
    using old m mins(1) [of m] order_trans by (fastforce simp: phase_ok_def Let_def)
  moreover have "phase_ok ?p ?pool' (sim_barrier s) j (sim_phase s j)"
    if j: "j < wp_nWorkers ?pool" "j \<noteq> i" for j
    by (rule phase_ok_frame [OF sim_okD(1) [OF ok j(1)] wf, of "sim_thread s j"]) (use mins(1) in auto)
  moreover have "sim_barrier s \<le> pool_min ?pool'"
    using mins(3) [of "sim_barrier s" m] old ok by (simp add: phase_ok_def Let_def sim_ok_def)
  ultimately show ?thesis
    using ok sim_okD(2) [OF ok i] by (intro sim_ok_updI [OF ok i]) (simp_all add: sim_ok_def)
qed

lemma push_unfold:
  assumes "scheduler_push push i sc st e1 src dst = Some (sc', st', r)" and "ev_time e1 < sc_endTime sc"
  obtains p' e' where "push (wp_workerThreads (sc_pool sc) ! i) (sc_policy sc) e1 src dst (sc_roundEndTime sc) = Some (p', e')"
    and "dst = ev_dstHost e1"
    and "sc' = sc\<lparr>sc_policy := p', sc_pool := worker_setMinEventTimeNextRound i (ev_time e') (sc_pool sc)\<rparr>"
  using assms by (auto simp: scheduler_push_def workerpool_getThread_def event_getTime_def event_getHost_def
      not_le [symmetric] split: bind_splits if_splits)

lemma push_dropped:
  assumes "scheduler_push push i sc st e1 src dst = Some (sc', st', r)" and "\<not> ev_time e1 < sc_endTime sc"
  shows "sc' = sc"
  using assms by (auto simp: scheduler_push_def event_getTime_def split: bind_splits if_splits)

lemma emit_time:
  fixes now delay :: simtime
  assumes "unat now + unat delay < 2 ^ 64"
  shows "now \<le> now + delay"
  using add_no_wrap [of now delay] assms by (simp add: word_le_nat_alt)

lemma step_emit:
  assumes ok: "sim_ok s" and i: "i < wp_nWorkers (sim_pool s)" and ph: "sim_phase s i = Exec e"
    and new: "ev_ptr e1 \<notin> ev_ptr ` pending (sim_policy s)" and host: "ev_dstHost e1 \<in> set (sc_hostIDs (sim_sched s))"
    and time: "ev_time e \<le> ev_time e1"
    and push: "scheduler_push push i (sim_sched s) st e1 (ev_dstHost e) (ev_dstHost e1) = Some (sched', st', r)"
  shows "sim_ok (s\<lparr>sim_sched := sched'\<rparr>)"
proof (cases "ev_time e1 < sc_endTime (sim_sched s)")
  case False
  then show ?thesis using push_dropped [OF push] ok by simp
next
  case True
  let ?p = "sim_policy s" and ?b = "sim_barrier s" and ?T = "sim_thread s" and ?pool = "sim_pool s"
  obtain p' e' where pu: "push (?T i) ?p e1 (ev_dstHost e) (ev_dstHost e1) ?b = Some (p', e')"
    and sched': "sched' = (sim_sched s)\<lparr>sc_policy := p', sc_pool := worker_setMinEventTimeNextRound i (ev_time e') ?pool\<rparr>"
    using push_unfold [OF push True] by blast
  let ?pool' = "worker_setMinEventTimeNextRound i (ev_time e') ?pool"
  have wf: "wf ?p" and pok: "pool_ok ?pool" and clk: "clock_ok ?p" "\<And>k. clock ?p k \<le> ?b"
    and dst: "owner ?p (ev_dstHost e1) \<noteq> None" and bmin: "?b \<le> pool_min ?pool"
    using ok host by (simp_all add: sim_ok_def)
  have old: "phase_ok ?p ?pool ?b i (Exec e)" using sim_okD(1) [OF ok i] ph by simp
  then have src: "owner ?p (ev_dstHost e) = Some (?T i)" and re: "wp_roundEndTime ?pool ! i = ?b"
    and nf: "queue_of ?p (ev_dstHost e) \<notin> finished ?p (?T i) ?b" and cl: "clock ?p (queue_of ?p (ev_dstHost e)) = ev_time e"
    by (simp_all add: phase_ok_def Let_def)
  let ?remote = "queue_of ?p (ev_dstHost e) \<noteq> queue_of ?p (ev_dstHost e1)"
  have "owner ?p (ev_dstHost e) \<noteq> None" using src by simp
  note law = push_law [OF wf this dst refl new pu]
  note mins = pool_min_setMin [OF pool_ok_lpi [OF pok i], where t = "ev_time e'"]
  have dst': "ev_dstHost e' = ev_dstHost e1" using law by simp
  have far: "?remote \<Longrightarrow> ?b \<le> ev_time e'" using law by (simp add: ev_time_adjusted)
  have "clock ?p (queue_of ?p (ev_dstHost e1)) \<le> ev_time e'"
    using law cl time clk(2) by (cases ?remote) (auto simp: ev_time_adjusted le_max_iff_disj)
  then have clk': "clock_ok p'"
    using push_clock_ok [OF wf clk(1) _ dst refl new pu] src law by simp
  have other: "phase_ok p' ?pool' ?b j (sim_phase s j)" if j: "j < wp_nWorkers ?pool" "j \<noteq> i" for j
  proof (rule phase_ok_frame [OF sim_okD(1) [OF ok j(1)] wf, of "?T j"])
    fix y
    assume y: "y \<in> pending p'" "owner ?p (ev_dstHost y) = Some (?T j)"
    have "?T j \<noteq> ?T i" using pool_ok_thread_eq [OF pok j(1) i] j(2) by simp
    then have ?remote if "y = e'"
      using queue_owner [OF wf src dst] y(2) dst' that by auto
    then have "?b \<le> ev_time e' \<and> pool_min ?pool' \<le> ev_time e'" if "y = e'"
      using far mins(2) re that by simp
    moreover have "y = e' \<or> y \<in> pending ?p" using y(1) law by simp
    ultimately show "y \<in> pending ?p \<or> ?b \<le> ev_time y \<and> pool_min ?pool' \<le> ev_time y" by fastforce
  qed (use law mins(1) in auto)
  have "?b \<le> ev_time e'" if "queue_of ?p (ev_dstHost e') \<in> finished ?p (?T i) ?b"
    using that nf dst' by (intro far) auto
  moreover have "settled ?p (?T i) ?b" using old by (simp add: phase_ok_def Let_def)
  ultimately have "settled p' (?T i) ?b" using law unfolding settled_def by simp
  then have self: "phase_ok p' ?pool' ?b i (sim_phase s i)"
    using old law ph by (simp add: phase_ok_def Let_def)
  have "sim_ok (sim_upd s i p' ?pool' (sim_phase s i))"
    using law clk' clk(2) other self mins(3) [OF bmin] re pok sim_okD(2) [OF ok i]
    by (intro sim_ok_updI [OF ok i]) simp_all
  then show ?thesis by (simp add: sched' sim_upd_def)
qed

lemma step_next_round:
  assumes ok: "sim_ok s"
    and await: "scheduler_awaitNextRound (sim_sched s) = (sched', minNext)"
    and ctl: "controller_managerFinishedCurrentRound (sim_ctl s) minNext = (c', ws, we, True)"
  shows "sim_ok \<lparr>sim_sched = scheduler_continueNextRound sched' ws we, sim_ctl = c', sim_phase = \<lambda>_. Start\<rparr>"
proof -
  have aw: "minNext = pool_min (sim_pool s)" "sched' = (sim_sched s)\<lparr>sc_pool := (sim_pool s)
      \<lparr>wp_minEventTimes := replicate (length (wp_minEventTimes (sim_pool s))) SIMTIME_MAX\<rparr>, sc_minNextEventTime := minNext\<rparr>"
    using await by (auto simp: scheduler_awaitNextRound_def getGlobalNextEventTime_spec)
  have we: "minNext < we" "we \<le> ct_endTime (sim_ctl s)" "ct_endTime c' = ct_endTime (sim_ctl s)"
    using ctl by (auto simp: controller_managerFinishedCurrentRound_def Let_def not_less split: if_splits)
  have b: "sim_barrier s \<le> minNext" using ok aw(1) by (simp add: sim_ok_def)
  with we have lt: "sim_barrier s < we" by simp
  have max: "we \<le> SIMTIME_MAX" using we ok by (auto simp: sim_ok_def)
  have "pool_min ((sim_pool s)\<lparr>wp_minEventTimes := replicate n SIMTIME_MAX\<rparr>) = SIMTIME_MAX" for n
    by (simp add: pool_min_def set_replicate_conv_if)
  moreover have "pool_ok ((sim_pool s)\<lparr>wp_minEventTimes := replicate (length (wp_minEventTimes (sim_pool s))) SIMTIME_MAX\<rparr>)"
    using ok by (simp add: sim_ok_def pool_ok_def)
  moreover have "clock (sim_policy s) k \<le> we" for k
    using ok lt by (meson less_imp_le order_trans sim_ok_def)
  moreover have "top (sim_policy s) (sim_thread s i) < we" if "i < wp_nWorkers (sim_pool s)" for i
    using sim_okD(2) [OF ok that] lt by simp
  ultimately show ?thesis
    using ok we max by (simp add: sim_ok_def aw(2) scheduler_continueNextRound_def phase_ok_def Let_def less_imp_le)
qed

theorem sim_ok_step:
  assumes "sim_step push pop_iter scan look pending s s'" and ok: "sim_ok s"
  shows "sim_ok s'"
  using assms(1)
proof cases
  case (emit i e e1 delay st sched' st' r)
  have "phase_ok (sim_policy s) (sim_pool s) (sim_barrier s) i (Exec e)" using sim_okD(1) [OF ok emit(2)] emit(3) by simp
  then have "worker_getCurrentTime i (sim_pool s) = ev_time e"
    by (simp add: phase_ok_def Let_def worker_getCurrentTime_def)
  then have "ev_time e \<le> ev_time e1" using emit_time [OF emit(6)] emit(7) by simp
  then show ?thesis using step_emit [OF ok emit(2,3,5,9) _ emit(8)] emit(1) by blast
next
  case (latency lat c')
  then have "ct_endTime c' = ct_endTime (sim_ctl s)"
    by (auto simp: controller_updateMinTimeJump_def split: bind_splits if_splits)
  then show ?thesis using ok latency(1) by (simp add: sim_ok_def)
next
  case (migrate i l)
  show ?thesis unfolding migrate(1) by (rule step_migrate [OF ok migrate(2-)])
next
  case (start i)
  show ?thesis unfolding start(1) by (rule step_start [OF ok start(2-)])
next
  case (pop i p' e)
  show ?thesis unfolding pop(1) by (rule step_popped [OF ok pop(2-)])
next
  case (skip i p')
  show ?thesis unfolding skip(1) by (rule step_skipped [OF ok skip(2-)])
next
  case (exhaust i p')
  show ?thesis unfolding exhaust(1) by (rule step_exhausted [OF ok exhaust(2-)])
next
  case (ran i e)
  show ?thesis unfolding ran(1) by (rule step_ran [OF ok ran(2-)])
next
  case (look i k ks m m')
  show ?thesis unfolding look(1) by (rule step_look [OF ok look(2-)])
next
  case (record_min i m)
  show ?thesis unfolding record_min(1) by (rule step_record [OF ok record_min(2-)])
next
  case (next_round sched' minNext c' ws we)
  show ?thesis unfolding next_round(1) by (rule step_next_round [OF ok next_round(3,4)])
qed

lemma sim_ok_reachable:
  assumes "(sim_step push pop_iter scan look pending)\<^sup>*\<^sup>* s0 s" and "sim_ok s0"
  shows "sim_ok s"
  using assms by (induction rule: rtranclp_induct) (blast intro: sim_ok_step)+

text \<open>The state in which \<^verbatim>\<open>manager_run\<close> enters its loop.\<close>

lemma sim_ok_init:
  assumes wf: "wf (sc_policy sc)" and fresh: "\<And>k. clock (sc_policy sc) k = 0" "\<And>t. top (sc_policy sc) t = 0"
    and pool: "workerpool_new threads n par = Some (sc_pool sc)" "length threads = n" "distinct threads"
    and own: "\<And>h t. owner (sc_policy sc) h = Some t \<Longrightarrow> t \<in> set threads"
    and hosts: "\<And>h. h \<in> set (sc_hostIDs sc) \<Longrightarrow> owner (sc_policy sc) h \<noteq> None"
    and ends: "1 \<le> sc_endTime sc" "sc_endTime sc \<le> SIMTIME_MAX" "ct_endTime ctl = sc_endTime sc"
  shows "sim_ok (sim_init sc ctl)"
proof -
  have p: "sc_pool sc = \<lparr>wp_nWorkers = n, wp_workerThreads = threads,
      wp_workerLogicalProcessorIdxs = map (\<lambda>w. w mod min par n) [0..<n],
      wp_minEventTimes = replicate (min par n) SIMTIME_MAX, wp_roundEndTime = replicate n SIMTIME_INVALID,
      wp_now = replicate n SIMTIME_INVALID, wp_lastEventTime = replicate n SIMTIME_INVALID\<rparr>"
    and n: "0 < min par n"
    using pool(1) by (auto simp: workerpool_new_def Let_def)
  have "pool_min (sc_pool sc) = SIMTIME_MAX" by (simp add: p pool_min_def set_replicate_conv_if)
  moreover have "pool_ok (sc_pool sc)" using n pool(2,3) mod_less_divisor [OF n] by (simp add: p pool_ok_def)
  moreover have "clock_ok (sc_policy sc)" using fresh(1) by (simp add: clock_ok_def)
  moreover have "1 \<le> SIMTIME_MAX" using ends(1,2) by (rule order_trans)
  ultimately show ?thesis
    using wf fresh own hosts ends p
    by (simp add: sim_init_def sim_ok_def scheduler_continueNextRound_def phase_ok_def Let_def)
qed

text \<open>What the invariant gives in every reachable state.\<close>

lemma sim_ok_no_abort:
  assumes ok: "sim_ok s" and i: "i < wp_nWorkers (sim_pool s)"
  shows "sim_phase s i = Run \<Longrightarrow> pop_iter (sim_thread s i) (sim_policy s) (sim_barrier s) \<noteq> None"
    and "sim_phase s i = Scan (k # ks) m \<Longrightarrow> look (sim_policy s) k m \<noteq> None"
    and "sim_phase s i = Exec e \<Longrightarrow> ev_dstHost e1 \<in> set (sc_hostIDs (sim_sched s)) \<Longrightarrow>
         ev_time e1 < sc_endTime (sim_sched s) \<Longrightarrow>
         scheduler_push push i (sim_sched s) st e1 (ev_dstHost e) (ev_dstHost e1) \<noteq> None"
proof -
  have wf: "wf (sim_policy s)" and clk: "clock_ok (sim_policy s)" using ok by (simp_all add: sim_ok_def)
  show "pop_iter (sim_thread s i) (sim_policy s) (sim_barrier s) \<noteq> None" if "sim_phase s i = Run"
    using pop_total [OF wf] clk unfolding clock_ok_def by blast
  show "look (sim_policy s) k m \<noteq> None" if scanning: "sim_phase s i = Scan (k # ks) m"
  proof -
    obtain h where "owner (sim_policy s) h = Some (sim_thread s i)" "queue_of (sim_policy s) h = k"
      using sim_okD(1) [OF ok i] scanning by (auto simp: phase_ok_def Let_def)
    then show ?thesis using look_law [OF wf, of h m] by auto
  qed
  assume e: "sim_phase s i = Exec e" "ev_dstHost e1 \<in> set (sc_hostIDs (sim_sched s))"
    "ev_time e1 < sc_endTime (sim_sched s)"
  have "owner (sim_policy s) (ev_dstHost e) \<noteq> None"
    using sim_okD(1) [OF ok i] e(1) by (simp add: phase_ok_def Let_def)
  moreover have "owner (sim_policy s) (ev_dstHost e1) \<noteq> None" using ok e(2) unfolding sim_ok_def by blast
  ultimately obtain r where "push (sim_thread s i) (sim_policy s) e1 (ev_dstHost e) (ev_dstHost e1) (sim_barrier s) = Some r"
    using push_total [OF wf] by blast
  then show "scheduler_push push i (sim_sched s) st e1 (ev_dstHost e) (ev_dstHost e1) \<noteq> None"
    using e(3) i by (cases r) (simp add: scheduler_push_def workerpool_getThread_def event_getHost_def
        event_getTime_def not_le [symmetric])
qed

text \<open>While an event runs, no event of the same queue with an earlier time is pending.\<close>

lemma sim_ok_causal:
  assumes ok: "sim_ok s" and i: "i < wp_nWorkers (sim_pool s)" and ph: "sim_phase s i = Exec e"
    and y: "y \<in> pending (sim_policy s)" "queue_of (sim_policy s) (ev_dstHost y) = queue_of (sim_policy s) (ev_dstHost e)"
  shows "ev_time e \<le> ev_time y"
proof -
  have "clock (sim_policy s) (queue_of (sim_policy s) (ev_dstHost e)) = ev_time e"
    using sim_okD(1) [OF ok i] ph by (simp add: phase_ok_def Let_def)
  then show ?thesis using ok y by (auto simp: sim_ok_def clock_ok_def)
qed

text \<open>At the end of a round, the next window starts at or before every pending event.\<close>

lemma sim_ok_round_end:
  assumes ok: "sim_ok s" and fin: "\<And>i. i < wp_nWorkers (sim_pool s) \<Longrightarrow> sim_phase s i = Done"
    and await: "scheduler_awaitNextRound (sim_sched s) = (sched', minNext)"
  shows "sim_barrier s \<le> minNext" and "y \<in> pending (sim_policy s) \<Longrightarrow> minNext \<le> ev_time y"
proof -
  have m: "minNext = pool_min (sim_pool s)"
    using await by (auto simp: scheduler_awaitNextRound_def getGlobalNextEventTime_spec)
  show "sim_barrier s \<le> minNext" using ok m by (simp add: sim_ok_def)
  assume y: "y \<in> pending (sim_policy s)"
  obtain t where t: "owner (sim_policy s) (ev_dstHost y) = Some t"
    using pending_owned [of "sim_policy s" y] y ok by (auto simp: sim_ok_def)
  then have "t \<in> set (wp_workerThreads (sim_pool s))" using ok unfolding sim_ok_def by blast
  then obtain i where i: "i < wp_nWorkers (sim_pool s)" "sim_thread s i = t"
    using ok by (auto simp: in_set_conv_nth sim_ok_def pool_ok_def)
  then show "minNext \<le> ev_time y"
    using sim_okD(1) [OF ok i(1)] fin [OF i(1)] t y m by (simp add: phase_ok_def Let_def)
qed

end

end
