(* ===== verification/Policy_Host_Single.thy ===== *)
theory Policy_Host_Single
  imports Simulation
begin

text \<open>
  \<^verbatim>\<open>core/scheduler/scheduler_policy_host_single.c\<close>: every host has its own event queue and is
  assigned to one thread, which runs all events of a host before it moves to its next
  host. The three hash tables of \<^verbatim>\<open>struct _HostSinglePolicyData\<close> are maps; \<^verbatim>\<open>GQueue\<close>s of
  hosts are lists; \<open>self\<close> is \<^verbatim>\<open>pthread_self()\<close>.
\<close>

section \<open>Model\<close>

record hs_tdata =
  hst_allHosts :: "hostid list option"
  hst_unprocessedHosts :: "hostid list"
  hst_processedHosts :: "hostid list"
  hst_currentBarrier :: simtime

record hs_policy =
  hsp_hostToQueueDataMap :: "hostid \<rightharpoonup> queue_data"
  hsp_threadToThreadDataMap :: "pthread \<rightharpoonup> hs_tdata"
  hsp_hostToThreadMap :: "hostid \<rightharpoonup> pthread"

definition hostsinglethreaddata_new :: hs_tdata where
  "hostsinglethreaddata_new =
     \<lparr>hst_allHosts = None, hst_unprocessedHosts = [], hst_processedHosts = [], hst_currentBarrier = 0\<rparr>"

definition schedulerpolicyhostsingle_new :: hs_policy where
  "schedulerpolicyhostsingle_new =
     \<lparr>hsp_hostToQueueDataMap = Map.empty, hsp_threadToThreadDataMap = Map.empty,
      hsp_hostToThreadMap = Map.empty\<rparr>"

definition schedulerpolicyhostsingle_addHost ::
  "nat \<Rightarrow> pthread \<Rightarrow> hs_policy \<Rightarrow> hostid \<Rightarrow> pthread \<Rightarrow> hs_policy" where
  "schedulerpolicyhostsingle_addHost addr self p host randomThread =
     (let queues = (case hsp_hostToQueueDataMap p host of
                      None \<Rightarrow> (hsp_hostToQueueDataMap p)(host \<mapsto> queuedata_new addr)
                    | Some _ \<Rightarrow> hsp_hostToQueueDataMap p);
          assignedThread = (if randomThread \<noteq> 0 then randomThread else self);
          tdata = (case hsp_threadToThreadDataMap p assignedThread of
                     None \<Rightarrow> hostsinglethreaddata_new | Some td \<Rightarrow> td);
          tdata' = tdata\<lparr>hst_unprocessedHosts := hst_unprocessedHosts tdata @ [host]\<rparr>
      in \<lparr>hsp_hostToQueueDataMap = queues,
          hsp_threadToThreadDataMap = (hsp_threadToThreadDataMap p)(assignedThread \<mapsto> tdata'),
          hsp_hostToThreadMap = (hsp_hostToThreadMap p)(host \<mapsto> assignedThread)\<rparr>)"

definition schedulerpolicyhostsingle_getHosts ::
  "pthread \<Rightarrow> hs_policy \<Rightarrow> hs_policy \<times> hostid list option" where
  "schedulerpolicyhostsingle_getHosts self p =
     (case hsp_threadToThreadDataMap p self of
        None \<Rightarrow> (p, None)
      | Some td \<Rightarrow>
          if hst_unprocessedHosts td = [] then (p, Some (hst_processedHosts td))
          else if hst_processedHosts td = [] then (p, Some (hst_unprocessedHosts td))
          else (let allHosts = hst_processedHosts td @ hst_unprocessedHosts td
                in (p\<lparr>hsp_threadToThreadDataMap := (hsp_threadToThreadDataMap p)
                        (self \<mapsto> td\<lparr>hst_allHosts := Some allHosts\<rparr>)\<rparr>, Some allHosts)))"

definition schedulerpolicyhostsingle_push ::
  "renew_func \<Rightarrow> pthread \<Rightarrow> hs_policy \<Rightarrow> event \<Rightarrow> hostid \<Rightarrow> hostid \<Rightarrow> simtime \<Rightarrow> (hs_policy \<times> event) option" where
  "schedulerpolicyhostsingle_push renew self p event srcHost dstHost barrier =
     (let event' = adjusted (srcHost \<noteq> dstHost) barrier event
      in do {
        qdata \<leftarrow> hsp_hostToQueueDataMap p dstHost;
        Some (p\<lparr>hsp_hostToQueueDataMap := (hsp_hostToQueueDataMap p)
                  (dstHost \<mapsto> queuedata_push renew event' qdata)\<rparr>, event')
      })"

text \<open>The loop that moves every processed host back to the end of the unprocessed ones.\<close>

fun unprocess_hosts :: "hostid list \<Rightarrow> hostid list \<Rightarrow> hostid list" where
  "unprocess_hosts unprocessed [] = unprocessed"
| "unprocess_hosts unprocessed (h # processed) = unprocess_hosts (unprocessed @ [h]) processed"

definition hostsingle_new_round :: "simtime \<Rightarrow> hs_tdata \<Rightarrow> hs_tdata" where
  "hostsingle_new_round barrier td =
     (if barrier > hst_currentBarrier td
      then if hst_unprocessedHosts td = [] \<and> hst_processedHosts td \<noteq> []
           then td\<lparr>hst_currentBarrier := barrier, hst_unprocessedHosts := hst_processedHosts td,
                   hst_processedHosts := hst_unprocessedHosts td\<rparr>
           else td\<lparr>hst_currentBarrier := barrier,
                   hst_unprocessedHosts := unprocess_hosts (hst_unprocessedHosts td) (hst_processedHosts td),
                   hst_processedHosts := []\<rparr>
      else td)"

text \<open>The loop of \<open>schedulerpolicyhostsingle_pop\<close> over the unprocessed hosts.\<close>

fun hostsingle_pop_loop ::
  "renew_func \<Rightarrow> simtime \<Rightarrow> (hostid \<rightharpoonup> queue_data) \<Rightarrow> hostid list \<Rightarrow> hostid list \<Rightarrow>
   ((hostid \<rightharpoonup> queue_data) \<times> hostid list \<times> hostid list \<times> event option) option" where
  "hostsingle_pop_loop renew barrier m [] processed = Some (m, [], processed, None)"
| "hostsingle_pop_loop renew barrier m (host # unprocessed) processed = do {
     qdata \<leftarrow> m host;
     (qdata', nextEvent) \<leftarrow> queuedata_pop renew barrier qdata;
     case nextEvent of
       Some e \<Rightarrow> Some (m(host \<mapsto> qdata'), host # unprocessed, processed, Some e)
     | None \<Rightarrow> hostsingle_pop_loop renew barrier (m(host \<mapsto> qdata')) unprocessed (processed @ [host])
   }"

definition hostsingle_set ::
  "pthread \<Rightarrow> hs_tdata \<Rightarrow> (hostid \<rightharpoonup> queue_data) \<Rightarrow> hs_policy \<Rightarrow> hs_policy" where
  "hostsingle_set self td m p =
     p\<lparr>hsp_hostToQueueDataMap := m,
       hsp_threadToThreadDataMap := (hsp_threadToThreadDataMap p)(self \<mapsto> td)\<rparr>"

definition schedulerpolicyhostsingle_pop ::
  "renew_func \<Rightarrow> pthread \<Rightarrow> hs_policy \<Rightarrow> simtime \<Rightarrow> (hs_policy \<times> event option) option" where
  "schedulerpolicyhostsingle_pop renew self p barrier =
     (case hsp_threadToThreadDataMap p self of
        None \<Rightarrow> Some (p, None)
      | Some td0 \<Rightarrow> do {
          let td = hostsingle_new_round barrier td0;
          (m, unprocessed, processed, nextEvent) \<leftarrow>
            hostsingle_pop_loop renew barrier (hsp_hostToQueueDataMap p)
              (hst_unprocessedHosts td) (hst_processedHosts td);
          Some (hostsingle_set self
                  (td\<lparr>hst_unprocessedHosts := unprocessed, hst_processedHosts := processed\<rparr>) m p,
                nextEvent)
        })"

text \<open>One pass of that loop, as the other threads see it.\<close>

definition hostsingle_pop_iter ::
  "renew_func \<Rightarrow> pthread \<Rightarrow> hs_policy \<Rightarrow> simtime \<Rightarrow> (hs_policy \<times> pop_result) option" where
  "hostsingle_pop_iter renew self p barrier =
     (case hsp_threadToThreadDataMap p self of
        None \<Rightarrow> Some (p, Exhausted)
      | Some td0 \<Rightarrow>
          (let td = hostsingle_new_round barrier td0
           in case hst_unprocessedHosts td of
                [] \<Rightarrow> Some (hostsingle_set self td (hsp_hostToQueueDataMap p) p, Exhausted)
              | host # unprocessed \<Rightarrow> do {
                  qdata \<leftarrow> hsp_hostToQueueDataMap p host;
                  (qdata', nextEvent) \<leftarrow> queuedata_pop renew barrier qdata;
                  let m = (hsp_hostToQueueDataMap p)(host \<mapsto> qdata');
                  Some (case nextEvent of
                          Some e \<Rightarrow> (hostsingle_set self td m p, Popped e)
                        | None \<Rightarrow> (hostsingle_set self
                                    (td\<lparr>hst_unprocessedHosts := unprocessed,
                                        hst_processedHosts := hst_processedHosts td @ [host]\<rparr>) m p,
                                   Skipped))
                }))"

definition schedulerpolicyhostsingle_findMinTime ::
  "hs_policy \<Rightarrow> hostid \<Rightarrow> simtime \<Rightarrow> simtime option" where
  "schedulerpolicyhostsingle_findMinTime p host nextEventTime = do {
     qdata \<leftarrow> hsp_hostToQueueDataMap p host;
     Some (queuedata_minTime qdata nextEventTime)
   }"

definition hostsingle_scan :: "hs_policy \<Rightarrow> pthread \<Rightarrow> hostid list" where
  "hostsingle_scan p self =
     (case hsp_threadToThreadDataMap p self of
        None \<Rightarrow> [] | Some td \<Rightarrow> hst_unprocessedHosts td @ hst_processedHosts td)"

definition schedulerpolicyhostsingle_getNextTime :: "pthread \<Rightarrow> hs_policy \<Rightarrow> simtime option" where
  "schedulerpolicyhostsingle_getNextTime self p =
     look_all (schedulerpolicyhostsingle_findMinTime p) (hostsingle_scan p self) SIMTIME_MAX"

section \<open>Invariant\<close>

definition hs_hosts :: "hs_tdata \<Rightarrow> hostid list" where
  "hs_hosts td = hst_unprocessedHosts td @ hst_processedHosts td"

definition hs_pending :: "hs_policy \<Rightarrow> event set" where
  "hs_pending p = (\<Union>h \<in> dom (hsp_hostToQueueDataMap p). qd_events (the (hsp_hostToQueueDataMap p h)))"

definition hs_queues_ok :: "(hostid \<rightharpoonup> queue_data) \<Rightarrow> bool" where
  "hs_queues_ok m \<longleftrightarrow> finite (dom m) \<and>
     (\<forall>h qd. m h = Some qd \<longrightarrow> qd_inv qd \<and> (\<forall>e \<in> qd_events qd. ev_dstHost e = h))"

definition hs_assign_ok :: "(pthread \<rightharpoonup> hs_tdata) \<Rightarrow> (hostid \<rightharpoonup> pthread) \<Rightarrow> bool" where
  "hs_assign_ok threads own \<longleftrightarrow>
     (\<forall>t td. threads t = Some td \<longrightarrow> distinct (hs_hosts td)) \<and>
     (\<forall>h t. own h = Some t \<longleftrightarrow> (\<exists>td. threads t = Some td \<and> h \<in> set (hs_hosts td)))"

definition hs_inv :: "hs_policy \<Rightarrow> bool" where
  "hs_inv p \<longleftrightarrow> hs_queues_ok (hsp_hostToQueueDataMap p) \<and> inj_on ev_ptr (hs_pending p) \<and>
     hs_assign_ok (hsp_threadToThreadDataMap p) (hsp_hostToThreadMap p) \<and>
     dom (hsp_hostToQueueDataMap p) = dom (hsp_hostToThreadMap p)"

definition hs_clock :: "hs_policy \<Rightarrow> hostid \<Rightarrow> simtime" where
  "hs_clock p h = (case hsp_hostToQueueDataMap p h of None \<Rightarrow> 0 | Some qd \<Rightarrow> qd_lastEventTime qd)"

definition hs_finished :: "hs_policy \<Rightarrow> pthread \<Rightarrow> simtime \<Rightarrow> hostid set" where
  "hs_finished p t b =
     (case hsp_threadToThreadDataMap p t of
        None \<Rightarrow> {}
      | Some td \<Rightarrow> if hst_currentBarrier td < b then {} else set (hst_processedHosts td))"

definition hs_top :: "hs_policy \<Rightarrow> pthread \<Rightarrow> simtime" where
  "hs_top p t = (case hsp_threadToThreadDataMap p t of None \<Rightarrow> 0 | Some td \<Rightarrow> hst_currentBarrier td)"

lemma unprocess_hosts_append [simp]: "unprocess_hosts us ps = us @ ps"
  by (induction us ps rule: unprocess_hosts.induct) simp_all

lemma new_round_hosts:
  "set (hs_hosts (hostsingle_new_round b td)) = set (hs_hosts td)"
  "distinct (hs_hosts (hostsingle_new_round b td)) = distinct (hs_hosts td)"
  "hst_currentBarrier (hostsingle_new_round b td) = max (hst_currentBarrier td) b"
  "hst_processedHosts (hostsingle_new_round b td) =
     (if hst_currentBarrier td < b then [] else hst_processedHosts td)"
  by (auto simp: hostsingle_new_round_def hs_hosts_def max_def)

lemma new_round_idem [simp]:
  "hostsingle_new_round b (hostsingle_new_round b td) = hostsingle_new_round b td"
  by (simp add: hostsingle_new_round_def)

lemma hs_pending_iff:
  "e \<in> hs_pending p \<longleftrightarrow> (\<exists>h qd. hsp_hostToQueueDataMap p h = Some qd \<and> e \<in> qd_events qd)"
  by (force simp: hs_pending_def)

lemma hs_pending_upd:
  assumes "hs_queues_ok (hsp_hostToQueueDataMap p)" and "hsp_hostToQueueDataMap p h = Some qd"
    and "hsp_hostToQueueDataMap p' = (hsp_hostToQueueDataMap p)(h \<mapsto> qd')"
  shows "hs_pending p' = (hs_pending p - qd_events qd) \<union> qd_events qd'"
proof -
  have dst: "ev_dstHost e = h1" if "hsp_hostToQueueDataMap p h1 = Some q" "e \<in> qd_events q" for h1 q e
    using assms(1) that by (auto simp: hs_queues_ok_def)
  have "e \<in> hs_pending p' \<longleftrightarrow> e \<in> qd_events qd' \<or>
      (\<exists>h1 q. h1 \<noteq> h \<and> hsp_hostToQueueDataMap p h1 = Some q \<and> e \<in> qd_events q)" for e
    using assms(3) by (auto simp: hs_pending_iff)
  moreover have "(\<exists>h1 q. h1 \<noteq> h \<and> hsp_hostToQueueDataMap p h1 = Some q \<and> e \<in> qd_events q) \<longleftrightarrow>
      e \<in> hs_pending p \<and> e \<notin> qd_events qd" for e
    using assms(2) dst unfolding hs_pending_iff by (metis option.inject)
  ultimately show ?thesis by auto
qed

lemma hs_pending_host:
  assumes "hs_queues_ok (hsp_hostToQueueDataMap p)" and "hsp_hostToQueueDataMap p h = Some qd"
  shows "{e \<in> hs_pending p. ev_dstHost e = h} = qd_events qd"
  using assms by (force simp: hs_pending_iff hs_queues_ok_def)

lemma hs_pending_same: "hsp_hostToQueueDataMap p' = hsp_hostToQueueDataMap p \<Longrightarrow> hs_pending p' = hs_pending p"
  by (simp add: hs_pending_def)

lemma hs_inv_new [wf_intros]: "hs_inv schedulerpolicyhostsingle_new"
  by (simp add: hs_inv_def schedulerpolicyhostsingle_new_def hs_queues_ok_def hs_pending_def hs_assign_ok_def)

text \<open>What one pass of the loop does, seen on the queue it works on.\<close>

lemma pop_iter_cases:
  assumes "hostsingle_pop_iter renew t p b = Some (p', r)"
  obtains (idle) "hsp_threadToThreadDataMap p t = None" "p' = p" "r = Exhausted"
  | (empty) td where "hsp_threadToThreadDataMap p t = Some td" "r = Exhausted"
      "hst_unprocessedHosts (hostsingle_new_round b td) = []"
      "p' = hostsingle_set t (hostsingle_new_round b td) (hsp_hostToQueueDataMap p) p"
  | (popped) td h hs qd qd' e where "hsp_threadToThreadDataMap p t = Some td" "r = Popped e"
      "hst_unprocessedHosts (hostsingle_new_round b td) = h # hs"
      "hsp_hostToQueueDataMap p h = Some qd" "queuedata_pop renew b qd = Some (qd', Some e)"
      "p' = hostsingle_set t (hostsingle_new_round b td) ((hsp_hostToQueueDataMap p)(h \<mapsto> qd')) p"
  | (skipped) td h hs qd qd' where "hsp_threadToThreadDataMap p t = Some td" "r = Skipped"
      "hst_unprocessedHosts (hostsingle_new_round b td) = h # hs"
      "hsp_hostToQueueDataMap p h = Some qd" "queuedata_pop renew b qd = Some (qd', None)"
      "p' = hostsingle_set t ((hostsingle_new_round b td)\<lparr>hst_unprocessedHosts := hs,
              hst_processedHosts := hst_processedHosts (hostsingle_new_round b td) @ [h]\<rparr>)
              ((hsp_hostToQueueDataMap p)(h \<mapsto> qd')) p"
  using assms unfolding hostsingle_pop_iter_def Let_def
  by (auto split: option.splits list.splits bind_splits)

lemma hostsingle_set_fields [simp, frame_simps]:
  "hsp_hostToQueueDataMap (hostsingle_set t td m p) = m"
  "hsp_threadToThreadDataMap (hostsingle_set t td m p) = (hsp_threadToThreadDataMap p)(t \<mapsto> td)"
  "hsp_hostToThreadMap (hostsingle_set t td m p) = hsp_hostToThreadMap p"
  by (simp_all add: hostsingle_set_def)

lemma hs_assign_ok_upd:
  assumes "hs_assign_ok threads own" and "threads t = Some td"
    and "set (hs_hosts td') = set (hs_hosts td)" and "distinct (hs_hosts td) \<Longrightarrow> distinct (hs_hosts td')"
  shows "hs_assign_ok (threads(t \<mapsto> td')) own"
  using assms by (auto simp: hs_assign_ok_def)

lemma hs_assign_set:
  assumes "hs_inv p" and "hsp_threadToThreadDataMap p t = Some td"
    and "set (hs_hosts td') = set (hs_hosts td)" and "distinct (hs_hosts td) \<Longrightarrow> distinct (hs_hosts td')"
  shows "hs_assign_ok ((hsp_threadToThreadDataMap p)(t \<mapsto> td')) (hsp_hostToThreadMap p)"
proof -
  have "hs_assign_ok (hsp_threadToThreadDataMap p) (hsp_hostToThreadMap p)"
    using assms(1) by (simp add: hs_inv_def)
  from hs_assign_ok_upd [where t = t, OF this assms(2-4)] show ?thesis .
qed

lemma hs_queues_ok_upd:
  assumes "hs_queues_ok m" and "qd_inv qd'" and "\<And>e. e \<in> qd_events qd' \<Longrightarrow> ev_dstHost e = h"
  shows "hs_queues_ok (m(h \<mapsto> qd'))"
  using assms by (auto simp: hs_queues_ok_def)

text \<open>A step that works on one queue of a thread and rearranges the thread's hosts.\<close>

lemma hs_inv_set:
  assumes inv: "hs_inv p" and td: "hsp_threadToThreadDataMap p t = Some td"
    and hosts: "set (hs_hosts td') = set (hs_hosts td)" "distinct (hs_hosts td) \<Longrightarrow> distinct (hs_hosts td')"
    and qd: "hsp_hostToQueueDataMap p h = Some qd" "qd_inv qd'" "qd_events qd' \<subseteq> qd_events qd"
  shows "hs_inv (hostsingle_set t td' ((hsp_hostToQueueDataMap p)(h \<mapsto> qd')) p)"
    and "hs_pending (hostsingle_set t td' ((hsp_hostToQueueDataMap p)(h \<mapsto> qd')) p) =
         hs_pending p - (qd_events qd - qd_events qd')"
proof -
  let ?p' = "hostsingle_set t td' ((hsp_hostToQueueDataMap p)(h \<mapsto> qd')) p"
  have ok: "hs_queues_ok (hsp_hostToQueueDataMap p)" using inv by (simp add: hs_inv_def)
  have mem: "qd_events qd \<subseteq> hs_pending p" using qd(1) unfolding hs_pending_iff subset_eq by blast
  have dst: "ev_dstHost e = h" if "e \<in> qd_events qd" for e
    using ok qd(1) that by (simp add: hs_queues_ok_def)
  show pend: "hs_pending ?p' = hs_pending p - (qd_events qd - qd_events qd')"
    using hs_pending_upd [OF ok qd(1), of ?p' qd'] qd(3) mem by auto
  have "hs_queues_ok (hsp_hostToQueueDataMap ?p')"
    unfolding hostsingle_set_fields using dst qd(3) by (intro hs_queues_ok_upd [OF ok qd(2)]) blast
  moreover have "hs_assign_ok (hsp_threadToThreadDataMap ?p') (hsp_hostToThreadMap ?p')"
    unfolding hostsingle_set_fields by (rule hs_assign_set [OF inv td hosts])
  moreover have "inj_on ev_ptr (hs_pending ?p')"
    using inv unfolding pend hs_inv_def by (auto intro: inj_on_subset)
  moreover have "dom (hsp_hostToQueueDataMap ?p') = dom (hsp_hostToThreadMap ?p')"
    using inv qd(1) by (auto simp: hs_inv_def)
  ultimately show "hs_inv ?p'" by (simp add: hs_inv_def)
qed

lemma hs_inv_set_same:
  assumes "hs_inv p" and "hsp_threadToThreadDataMap p t = Some td"
    and "set (hs_hosts td') = set (hs_hosts td)" and "distinct (hs_hosts td) \<Longrightarrow> distinct (hs_hosts td')"
  shows "hs_inv (hostsingle_set t td' (hsp_hostToQueueDataMap p) p)"
proof -
  have "hs_pending (hostsingle_set t td' (hsp_hostToQueueDataMap p) p) = hs_pending p"
    by (rule hs_pending_same) simp
  with assms(1) hs_assign_set [OF assms] show ?thesis by (simp add: hs_inv_def)
qed

lemma skip_hosts:
  assumes "hst_unprocessedHosts td = h # hs"
  shows "set (hs_hosts (td\<lparr>hst_unprocessedHosts := hs, hst_processedHosts := hst_processedHosts td @ [h]\<rparr>)) =
         set (hs_hosts td)"
    and "distinct (hs_hosts (td\<lparr>hst_unprocessedHosts := hs, hst_processedHosts := hst_processedHosts td @ [h]\<rparr>)) =
         distinct (hs_hosts td)"
  using assms by (auto simp: hs_hosts_def)

lemma hs_pop_wf:
  assumes inv: "hs_inv p" and it: "hostsingle_pop_iter renew t p b = Some (p', r)"
  shows "hs_inv p'"
  using it
proof (cases rule: pop_iter_cases)
  case (popped td h hs qd qd' e)
  have "qd_inv qd" using inv popped(4) by (auto simp: hs_inv_def hs_queues_ok_def)
  note q = queuedata_pop_Some [OF this popped(5)]
  show ?thesis unfolding popped(6)
    by (rule hs_inv_set [OF inv popped(1) _ _ popped(4)]) (use q in \<open>auto simp: new_round_hosts\<close>)
next
  case (skipped td h hs qd qd')
  have "qd_inv qd" using inv skipped(4) by (auto simp: hs_inv_def hs_queues_ok_def)
  note q = queuedata_pop_None [OF this skipped(5)]
  show ?thesis unfolding skipped(6)
    by (rule hs_inv_set [OF inv skipped(1) _ _ skipped(4)])
       (use q(1) \<open>qd_inv qd\<close> in \<open>auto simp: new_round_hosts(1,2) skip_hosts [OF skipped(3)]\<close>)
qed (use inv in \<open>auto simp: new_round_hosts intro: hs_inv_set_same\<close>)

lemma pop_iter_tdata:
  assumes "hostsingle_pop_iter renew t p b = Some (p', r)"
  shows "hsp_hostToThreadMap p' = hsp_hostToThreadMap p"
    and "p' = p \<or> (\<exists>td td'. hsp_threadToThreadDataMap p t = Some td \<and>
           hsp_threadToThreadDataMap p' = (hsp_threadToThreadDataMap p)(t \<mapsto> td') \<and>
           set (hs_hosts td') = set (hs_hosts td) \<and>
           hst_currentBarrier td' = max (hst_currentBarrier td) b)"
  using assms
  by (cases rule: pop_iter_cases; auto simp: new_round_hosts(1,3) skip_hosts(1))+

lemma hs_pop_frame:
  assumes "hostsingle_pop_iter renew t p b = Some (p', r)"
  shows "set (hostsingle_scan p' t) = set (hostsingle_scan p t)"
    and "hs_top p' t \<le> max (hs_top p t) b"
    and "t' \<noteq> t \<Longrightarrow> hs_top p' t' = hs_top p t'"
    and "t' \<noteq> t \<Longrightarrow> hs_finished p' t' = hs_finished p t'"
proof -
  consider "p' = p" | td td' where "hsp_threadToThreadDataMap p t = Some td"
      "hsp_threadToThreadDataMap p' = (hsp_threadToThreadDataMap p)(t \<mapsto> td')"
      "set (hs_hosts td') = set (hs_hosts td)" "hst_currentBarrier td' = max (hst_currentBarrier td) b"
    using pop_iter_tdata(2) [OF assms] by blast
  note cases = this
  show "set (hostsingle_scan p' t) = set (hostsingle_scan p t)"
    by (cases rule: cases) (simp_all add: hostsingle_scan_def hs_hosts_def [symmetric])
  show "hs_top p' t \<le> max (hs_top p t) b"
    by (cases rule: cases) (simp_all add: hs_top_def)
  show "hs_top p' t' = hs_top p t'" if "t' \<noteq> t"
    using that by (cases rule: cases) (simp_all add: hs_top_def)
  show "hs_finished p' t' = hs_finished p t'" if "t' \<noteq> t"
    using that by (cases rule: cases) (simp_all add: hs_finished_def fun_eq_iff)
qed

lemma hs_inv_hosts:
  assumes "hs_inv p" and "hsp_threadToThreadDataMap p t = Some td"
  shows "distinct (hs_hosts td)" and "hsp_hostToThreadMap p h = Some t \<longleftrightarrow> h \<in> set (hs_hosts td)"
  using assms by (auto simp: hs_inv_def hs_assign_ok_def)

lemma hs_inv_idle:
  assumes "hs_inv p" and "hsp_threadToThreadDataMap p t = None"
  shows "hsp_hostToThreadMap p h \<noteq> Some t"
  using assms unfolding hs_inv_def hs_assign_ok_def by (metis option.distinct(1))

lemma hs_pop_popped:
  assumes inv: "hs_inv p" and it: "hostsingle_pop_iter renew t p b = Some (p', Popped e)"
  shows "e \<in> hs_pending p" and "hsp_hostToThreadMap p (ev_dstHost e) = Some t" and "ev_time e < b"
    and "hs_pending p' = hs_pending p - {e}" and "hs_clock p (ev_dstHost e) \<le> ev_time e"
    and "hs_clock p' = (hs_clock p)(ev_dstHost e := ev_time e)"
    and "y \<in> hs_pending p \<Longrightarrow> ev_dstHost y = ev_dstHost e \<Longrightarrow> event_le e y"
    and "hs_finished p' t b = hs_finished p t b" and "ev_dstHost e \<notin> hs_finished p t b"
proof -
  obtain td h hs qd qd' where c: "hsp_threadToThreadDataMap p t = Some td"
      "hst_unprocessedHosts (hostsingle_new_round b td) = h # hs"
      "hsp_hostToQueueDataMap p h = Some qd" "queuedata_pop renew b qd = Some (qd', Some e)"
      "p' = hostsingle_set t (hostsingle_new_round b td) ((hsp_hostToQueueDataMap p)(h \<mapsto> qd')) p"
    using it by (cases rule: pop_iter_cases) auto
  let ?td = "hostsingle_new_round b td"
  have ok: "hs_queues_ok (hsp_hostToQueueDataMap p)" using inv by (simp add: hs_inv_def)
  then have "qd_inv qd" using c(3) by (auto simp: hs_queues_ok_def)
  note q = queuedata_pop_Some [OF this c(4)]
  have dst: "ev_dstHost e = h" using ok c(3) q(2) by (auto simp: hs_queues_ok_def)
  show "e \<in> hs_pending p" using c(3) q(2) hs_pending_iff by blast
  have "h \<in> set (hs_hosts ?td)" using c(2) by (simp add: hs_hosts_def)
  then show "hsp_hostToThreadMap p (ev_dstHost e) = Some t"
    using hs_inv_hosts(2) [OF inv c(1)] dst by (simp add: new_round_hosts(1))
  have "distinct (hs_hosts ?td)" using hs_inv_hosts(1) [OF inv c(1)] by (simp add: new_round_hosts(2))
  then show "ev_dstHost e \<notin> hs_finished p t b"
    using c(1,2) dst new_round_hosts(4) [of b td] by (auto simp: hs_finished_def hs_hosts_def)
  show "hs_pending p' = hs_pending p - {e}"
    unfolding c(5) by (subst hs_inv_set(2) [OF inv c(1) _ _ c(3)]) (use q in \<open>auto simp: new_round_hosts\<close>)
  show "ev_time e < b" by (fact q(4))
  show "hs_clock p (ev_dstHost e) \<le> ev_time e" "hs_clock p' = (hs_clock p)(ev_dstHost e := ev_time e)"
    using q(5,6) c(3,5) dst by (auto simp: hs_clock_def)
  show "event_le e y" if "y \<in> hs_pending p" "ev_dstHost y = ev_dstHost e"
    using q(7) that hs_pending_host [OF ok c(3)] dst by blast
  show "hs_finished p' t b = hs_finished p t b"
    using c(1,5) by (auto simp: hs_finished_def new_round_hosts(3,4) max_def)
qed

lemma hs_pop_skipped:
  assumes inv: "hs_inv p" and it: "hostsingle_pop_iter renew t p b = Some (p', Skipped)"
  shows "hs_pending p' = hs_pending p" and "hs_clock p' = hs_clock p"
    and "\<exists>h \<in> set (hostsingle_scan p t). h \<notin> hs_finished p t b \<and>
           hs_finished p' t b = insert h (hs_finished p t b) \<and>
           (\<forall>y \<in> hs_pending p. ev_dstHost y = h \<longrightarrow> b \<le> ev_time y)"
proof -
  let ?r = "hostsingle_new_round b"
  obtain td h hs qd qd' where c: "hsp_threadToThreadDataMap p t = Some td"
      "hst_unprocessedHosts (?r td) = h # hs"
      "hsp_hostToQueueDataMap p h = Some qd" "queuedata_pop renew b qd = Some (qd', None)"
      "p' = hostsingle_set t ((?r td)\<lparr>hst_unprocessedHosts := hs,
              hst_processedHosts := hst_processedHosts (?r td) @ [h]\<rparr>)
              ((hsp_hostToQueueDataMap p)(h \<mapsto> qd')) p"
    using it by (cases rule: pop_iter_cases) auto
  have ok: "hs_queues_ok (hsp_hostToQueueDataMap p)" using inv by (simp add: hs_inv_def)
  then have "qd_inv qd" using c(3) by (auto simp: hs_queues_ok_def)
  note q = queuedata_pop_None [OF this c(4)]
  have m: "hsp_hostToQueueDataMap p' = hsp_hostToQueueDataMap p" using c(3,5) q(1) by auto
  show "hs_pending p' = hs_pending p" by (rule hs_pending_same [OF m])
  show "hs_clock p' = hs_clock p" by (simp add: hs_clock_def m fun_eq_iff)
  have "distinct (hs_hosts (?r td))" using hs_inv_hosts(1) [OF inv c(1)] by (simp add: new_round_hosts(2))
  then have "h \<notin> hs_finished p t b" and "hs_finished p' t b = insert h (hs_finished p t b)"
    using c(1,2,5) by (auto simp: hs_finished_def hs_hosts_def new_round_hosts(3,4) max_def)
  moreover have "h \<in> set (hostsingle_scan p t)"
    using new_round_hosts(1) [of b td] c(1,2) by (auto simp: hostsingle_scan_def hs_hosts_def)
  moreover have "\<forall>y \<in> hs_pending p. ev_dstHost y = h \<longrightarrow> b \<le> ev_time y"
    using q(2) hs_pending_host [OF ok c(3)] by blast
  ultimately show "\<exists>h \<in> set (hostsingle_scan p t). h \<notin> hs_finished p t b \<and>
           hs_finished p' t b = insert h (hs_finished p t b) \<and>
           (\<forall>y \<in> hs_pending p. ev_dstHost y = h \<longrightarrow> b \<le> ev_time y)" by blast
qed

lemma hs_pop_exhausted:
  assumes inv: "hs_inv p" and it: "hostsingle_pop_iter renew t p b = Some (p', Exhausted)"
  shows "hs_pending p' = hs_pending p" and "hs_clock p' = hs_clock p"
    and "hs_finished p' t b = hs_finished p t b"
    and "hsp_hostToThreadMap p h = Some t \<Longrightarrow> h \<in> hs_finished p t b"
proof -
  consider "hsp_threadToThreadDataMap p t = None" "p' = p"
    | td where "hsp_threadToThreadDataMap p t = Some td"
      "hst_unprocessedHosts (hostsingle_new_round b td) = []"
      "p' = hostsingle_set t (hostsingle_new_round b td) (hsp_hostToQueueDataMap p) p"
    using it by (cases rule: pop_iter_cases) auto
  note cases = this
  have m: "hsp_hostToQueueDataMap p' = hsp_hostToQueueDataMap p" by (cases rule: cases) simp_all
  show "hs_pending p' = hs_pending p" by (rule hs_pending_same [OF m])
  show "hs_clock p' = hs_clock p" by (simp add: hs_clock_def m fun_eq_iff)
  show "hs_finished p' t b = hs_finished p t b"
    by (cases rule: cases) (auto simp: hs_finished_def new_round_hosts(3,4) max_def)
  assume own: "hsp_hostToThreadMap p h = Some t"
  show "h \<in> hs_finished p t b"
  proof (cases rule: cases)
    case 1
    then show ?thesis using own inv by (auto simp: hs_inv_def hs_assign_ok_def)
  next
    case (2 td)
    have "h \<in> set (hs_hosts (hostsingle_new_round b td))"
      using own hs_inv_hosts(2) [OF inv 2(1)] by (simp add: new_round_hosts(1))
    then show ?thesis using 2(1,2) new_round_hosts(4) [of b td] by (auto simp: hs_hosts_def hs_finished_def)
  qed
qed

lemma hs_pop_total:
  assumes inv: "hs_inv p" and ok: "\<And>e. e \<in> hs_pending p \<Longrightarrow> hs_clock p (ev_dstHost e) \<le> ev_time e"
  shows "hostsingle_pop_iter renew t p b \<noteq> None"
proof (cases "hsp_threadToThreadDataMap p t")
  case (Some td)
  show ?thesis
  proof (cases "hst_unprocessedHosts (hostsingle_new_round b td)")
    case (Cons h hs)
    then have "h \<in> set (hs_hosts td)" using new_round_hosts(1) [of b td] by (auto simp: hs_hosts_def)
    then have "hsp_hostToThreadMap p h = Some t" using hs_inv_hosts(2) [OF inv Some] by simp
    then obtain qd where qd: "hsp_hostToQueueDataMap p h = Some qd" using inv by (force simp: hs_inv_def)
    have "qd_clock_ok qd"
      unfolding qd_clock_ok_def
    proof
      fix y
      assume "y \<in> qd_events qd"
      then have "y \<in> hs_pending p" "ev_dstHost y = h"
        using hs_pending_host [OF _ qd] inv unfolding hs_inv_def by blast+
      then show "qd_lastEventTime qd \<le> ev_time y" using ok [of y] qd by (simp add: hs_clock_def)
    qed
    then obtain qd' r where "queuedata_pop renew b qd = Some (qd', r)"
      using queuedata_pop_total [of qd renew b] by auto
    with Some Cons qd show ?thesis by (cases r) (simp_all add: hostsingle_pop_iter_def Let_def)
  qed (simp add: hostsingle_pop_iter_def Some)
qed (simp add: hostsingle_pop_iter_def)

lemma hs_push_law:
  assumes inv: "hs_inv p" and new: "ev_ptr e \<notin> ev_ptr ` hs_pending p" and dst: "ev_dstHost e = dst"
    and push: "schedulerpolicyhostsingle_push renew self p e src dst b = Some (p', e')"
  shows "e' = adjusted (src \<noteq> dst) b e" and "hs_inv p'" and "hs_pending p' = insert e' (hs_pending p)"
    and "hsp_hostToThreadMap p' = hsp_hostToThreadMap p"
    and "hsp_threadToThreadDataMap p' = hsp_threadToThreadDataMap p"
    and "hs_clock p' = hs_clock p"
proof -
  obtain qd where qd: "hsp_hostToQueueDataMap p dst = Some qd"
    using push by (cases "hsp_hostToQueueDataMap p dst") (simp_all add: schedulerpolicyhostsingle_push_def)
  have eq: "(p', e') = (p\<lparr>hsp_hostToQueueDataMap := (hsp_hostToQueueDataMap p)
      (dst \<mapsto> queuedata_push renew (adjusted (src \<noteq> dst) b e) qd)\<rparr>, adjusted (src \<noteq> dst) b e)"
    using push unfolding schedulerpolicyhostsingle_push_def qd Let_def bind.bind_lunit by (rule sym [OF option.inject [THEN iffD1]])
  show e': "e' = adjusted (src \<noteq> dst) b e" using eq by blast
  have p': "p' = p\<lparr>hsp_hostToQueueDataMap := (hsp_hostToQueueDataMap p)(dst \<mapsto> queuedata_push renew e' qd)\<rparr>"
    using eq by blast
  have ok: "hs_queues_ok (hsp_hostToQueueDataMap p)" using inv by (simp add: hs_inv_def)
  have mem: "qd_events qd \<subseteq> hs_pending p" using qd unfolding hs_pending_iff subset_eq by blast
  have "qd_inv qd" and qdst: "\<forall>y \<in> qd_events qd. ev_dstHost y = dst"
    using ok qd by (simp_all add: hs_queues_ok_def)
  moreover have new': "ev_ptr e' \<notin> ev_ptr ` hs_pending p" using new e' by simp
  ultimately have q: "qd_inv (queuedata_push renew e' qd)"
    "qd_events (queuedata_push renew e' qd) = insert e' (qd_events qd)"
    "qd_lastEventTime (queuedata_push renew e' qd) = qd_lastEventTime qd"
    using queuedata_push_spec [of qd e' renew] mem by auto
  show pend: "hs_pending p' = insert e' (hs_pending p)"
    using hs_pending_upd [OF ok qd, of p'] p' q(2) mem by auto
  show own: "hsp_hostToThreadMap p' = hsp_hostToThreadMap p"
    and threads: "hsp_threadToThreadDataMap p' = hsp_threadToThreadDataMap p"
    using p' by simp_all
  show "hs_clock p' = hs_clock p" using p' q(3) qd by (auto simp: hs_clock_def fun_eq_iff)
  have "hs_queues_ok (hsp_hostToQueueDataMap p')"
    unfolding p' using q(1,2) qdst dst e' by (auto intro!: hs_queues_ok_upd [OF ok])
  moreover have "inj_on ev_ptr (hs_pending p')"
    using inv new' unfolding pend hs_inv_def by (auto simp: inj_on_insert)
  moreover have "dom (hsp_hostToQueueDataMap p') = dom (hsp_hostToThreadMap p')"
    using inv qd p' by (auto simp: hs_inv_def)
  ultimately show "hs_inv p'" using inv own threads by (simp add: hs_inv_def)
qed

text \<open>The loop is the iteration of its passes.\<close>

lemma tdata_set_same: "hst_unprocessedHosts td = hs \<Longrightarrow> td\<lparr>hst_unprocessedHosts := hs\<rparr> = td"
  by (cases td) simp

lemma hs_pop_unfold:
  "schedulerpolicyhostsingle_pop renew t p b =
     (case hostsingle_pop_iter renew t p b of
        None \<Rightarrow> None
      | Some (p', Popped e) \<Rightarrow> Some (p', Some e)
      | Some (p', Skipped) \<Rightarrow> schedulerpolicyhostsingle_pop renew t p' b
      | Some (p', Exhausted) \<Rightarrow> Some (p', None))"
proof (cases "hsp_threadToThreadDataMap p t")
  case (Some td)
  let ?td = "hostsingle_new_round b td"
  show ?thesis
  proof (cases "hst_unprocessedHosts ?td")
    case Nil
    with Some show ?thesis
      by (simp add: schedulerpolicyhostsingle_pop_def hostsingle_pop_iter_def tdata_set_same)
  next
    case (Cons h hs)
    have bar: "\<not> hst_currentBarrier ?td < b" by (simp add: new_round_hosts(3))
    with Some Cons bar show ?thesis
      by (cases "hsp_hostToQueueDataMap p h")
         (auto simp: schedulerpolicyhostsingle_pop_def hostsingle_pop_iter_def Let_def hostsingle_set_def tdata_set_same
           hostsingle_new_round_def [of b "_\<lparr>hst_unprocessedHosts := _, hst_processedHosts := _\<rparr>"]
           split: option.splits bind_splits)
  qed
qed (simp add: schedulerpolicyhostsingle_pop_def hostsingle_pop_iter_def)

section \<open>The policy keeps the contract\<close>

lemma hs_finite_pending: "hs_inv p \<Longrightarrow> finite (hs_pending p)"
  by (simp add: hs_pending_def hs_inv_def hs_queues_ok_def)

lemma hs_pending_owned:
  assumes "hs_inv p" and "e \<in> hs_pending p"
  shows "hsp_hostToThreadMap p (ev_dstHost e) \<noteq> None"
proof -
  obtain h qd where "hsp_hostToQueueDataMap p h = Some qd" "e \<in> qd_events qd"
    using assms(2) by (auto simp: hs_pending_iff)
  then have "h \<in> dom (hsp_hostToThreadMap p)" "ev_dstHost e = h"
    using assms(1) by (auto simp: hs_inv_def hs_queues_ok_def)
  then show ?thesis by auto
qed

lemma hs_scan:
  assumes "hs_inv p"
  shows "h \<in> set (hostsingle_scan p t) \<longleftrightarrow> hsp_hostToThreadMap p h = Some t"
proof (cases "hsp_threadToThreadDataMap p t")
  case None
  then show ?thesis using hs_inv_idle [OF assms] by (simp add: hostsingle_scan_def)
next
  case (Some td)
  then show ?thesis using hs_inv_hosts(2) [OF assms Some] by (simp add: hostsingle_scan_def hs_hosts_def)
qed

lemma hs_look:
  assumes "hs_inv p" and "hsp_hostToThreadMap p h \<noteq> None"
  shows "schedulerpolicyhostsingle_findMinTime p h m =
    Some (Min (insert m (ev_time ` {y \<in> hs_pending p. ev_dstHost y = h})))"
proof -
  obtain qd where qd: "hsp_hostToQueueDataMap p h = Some qd"
    using assms unfolding hs_inv_def by blast
  have ok: "hs_queues_ok (hsp_hostToQueueDataMap p)" using assms(1) by (simp add: hs_inv_def)
  then have "qd_inv qd" using qd by (simp add: hs_queues_ok_def)
  then show ?thesis
    by (simp add: schedulerpolicyhostsingle_findMinTime_def qd queuedata_minTime_spec hs_pending_host [OF ok qd])
qed

interpretation hs: scheduler_policy hs_inv hs_pending hsp_hostToThreadMap "\<lambda>p h. h" hs_clock hs_finished hs_top
  "schedulerpolicyhostsingle_push renew" "hostsingle_pop_iter renew" hostsingle_scan
  schedulerpolicyhostsingle_findMinTime "schedulerpolicyhostsingle_pop renew" schedulerpolicyhostsingle_getNextTime
  for renew
proof (unfold_locales, goal_cases)
  case 1 then show ?case by (rule hs_finite_pending)
next
  case 2 then show ?case by (simp add: hs_inv_def)
next
  case 3 then show ?case by (rule hs_pending_owned)
next
  case 4 then show ?case by simp
next
  case 5 then show ?case by (auto simp: hs_finished_def hs_top_def split: option.splits)
next
  case (6 p src dst self e b)
  then obtain qd where "hsp_hostToQueueDataMap p dst = Some qd" unfolding hs_inv_def by blast
  then show ?case by (simp add: schedulerpolicyhostsingle_push_def Let_def)
next
  case (7 p src dst e self b p' e')
  note law = hs_push_law [OF 7(1,5,4,6)]
  show ?case
    using law by (auto simp: hs_finished_def hs_top_def fun_eq_iff)
next
  case 8 then show ?case by (rule hs_pop_total)
next
  case 9
  then show ?case using hs_pop_wf hs_pop_frame pop_iter_tdata(1) by metis
next
  case 10
  then show ?case using hs_pop_popped [OF 10] by blast
next
  case 11
  then show ?case using hs_pop_skipped [OF 11] by blast
next
  case 12
  then show ?case using hs_pop_exhausted [OF 12] by blast
next
  case 13
  then show ?case by (simp add: hs_scan)
next
  case 14
  then show ?case by (rule hs_look)
next
  case 15
  then show ?case by (simp add: hs_scan)
next
  case 16
  show ?case by (rule hs_pop_unfold)
next
  case 17
  show ?case by (rule schedulerpolicyhostsingle_getNextTime_def)
qed

lemma hs_assign_add:
  assumes ok: "hs_assign_ok threads own" and new: "own h = None"
    and td: "\<And>g. own g = Some t \<longleftrightarrow> g \<in> set (hs_hosts td)"
    and td': "set (hs_hosts td') = insert h (set (hs_hosts td))" "distinct (hs_hosts td')"
  shows "hs_assign_ok (threads(t \<mapsto> td')) (own(h \<mapsto> t))"
proof -
  have own: "own g = Some t' \<longleftrightarrow> (\<exists>td. threads t' = Some td \<and> g \<in> set (hs_hosts td))" for g t'
    using ok by (simp add: hs_assign_ok_def)
  have "(own(h \<mapsto> t)) g = Some t' \<longleftrightarrow> (\<exists>td. (threads(t \<mapsto> td')) t' = Some td \<and> g \<in> set (hs_hosts td))" for g t'
  proof (cases "t' = t")
    case True
    then show ?thesis using td [of g] td'(1) by auto
  next
    case False
    then show ?thesis using own [of g t'] own [of h t'] new by auto
  qed
  then show ?thesis using ok td'(2) by (simp add: hs_assign_ok_def)
qed

lemma addHost_inv [wf_intros]:
  assumes inv: "hs_inv p" and new: "hsp_hostToThreadMap p h = None"
  shows "hs_inv (schedulerpolicyhostsingle_addHost addr self p h t)"
    and "hs_pending (schedulerpolicyhostsingle_addHost addr self p h t) = hs_pending p"
proof -
  let ?p' = "schedulerpolicyhostsingle_addHost addr self p h t" and ?t = "if t \<noteq> 0 then t else self"
  have "hsp_hostToQueueDataMap p h = None" using inv new unfolding hs_inv_def by blast
  then have m: "hsp_hostToQueueDataMap ?p' = (hsp_hostToQueueDataMap p)(h \<mapsto> queuedata_new addr)"
    by (simp add: schedulerpolicyhostsingle_addHost_def Let_def)
  then show pend: "hs_pending ?p' = hs_pending p"
    using \<open>hsp_hostToQueueDataMap p h = None\<close>
    by (auto simp: hs_pending_iff set_eq_iff qd_inv_new split: if_splits)
       (metis option.distinct(1))
  have own: "hsp_hostToThreadMap ?p' = (hsp_hostToThreadMap p)(h \<mapsto> ?t)"
    by (simp add: schedulerpolicyhostsingle_addHost_def Let_def)
  define td where "td = (case hsp_threadToThreadDataMap p ?t of None \<Rightarrow> hostsinglethreaddata_new | Some td \<Rightarrow> td)"
  have threads: "hsp_threadToThreadDataMap ?p' = (hsp_threadToThreadDataMap p)
      (?t \<mapsto> td\<lparr>hst_unprocessedHosts := hst_unprocessedHosts td @ [h]\<rparr>)"
    by (simp add: schedulerpolicyhostsingle_addHost_def Let_def td_def)
  have td: "distinct (hs_hosts td)" "\<And>g. hsp_hostToThreadMap p g = Some ?t \<longleftrightarrow> g \<in> set (hs_hosts td)"
    using hs_inv_hosts [OF inv, of ?t] hs_inv_idle [OF inv, of ?t]
    by (cases "hsp_threadToThreadDataMap p ?t"; simp add: td_def hs_hosts_def hostsinglethreaddata_new_def)+
  have "hs_assign_ok (hsp_threadToThreadDataMap ?p') (hsp_hostToThreadMap ?p')"
    unfolding threads own
  proof (rule hs_assign_add [OF _ new td(2)])
    show "hs_assign_ok (hsp_threadToThreadDataMap p) (hsp_hostToThreadMap p)" using inv by (simp add: hs_inv_def)
    have "h \<notin> set (hs_hosts td)" using td(2) [of h] new by simp
    then show "distinct (hs_hosts (td\<lparr>hst_unprocessedHosts := hst_unprocessedHosts td @ [h]\<rparr>))"
      using td(1) by (auto simp: hs_hosts_def)
  qed (auto simp: hs_hosts_def)
  then show "hs_inv ?p'"
    using inv pend m own by (auto simp: hs_inv_def hs_queues_ok_def qd_inv_new)
qed

text \<open>The hosts that \<^verbatim>\<open>getHosts\<close> returns are exactly the thread's hosts.\<close>

lemma getHosts_spec:
  assumes "hs_inv p"
  shows "(case snd (schedulerpolicyhostsingle_getHosts t p) of
            None \<Rightarrow> \<forall>h. hsp_hostToThreadMap p h \<noteq> Some t
          | Some hs \<Rightarrow> distinct hs \<and> (\<forall>h. h \<in> set hs \<longleftrightarrow> hsp_hostToThreadMap p h = Some t))"
  using hs_inv_hosts [OF assms, of t] hs_inv_idle [OF assms, of t]
  by (cases "hsp_threadToThreadDataMap p t") (auto simp: schedulerpolicyhostsingle_getHosts_def hs_hosts_def Let_def)

end
