(* ===== verification/Policy_Thread_Single.thy ===== *)
theory Policy_Thread_Single
  imports Simulation
begin

text \<open>
  \<^verbatim>\<open>core/scheduler/scheduler_policy_thread_single.c\<close>: the hosts of a thread share one event
  queue, so only events between threads have to be delayed to the end of the round.

  \<^verbatim>\<open>_schedulerpolicythreadsingle_push\<close> reads thread identifiers back from the host-to-thread
  table with \<^verbatim>\<open>GPOINTER_TO_UINT\<close>, which keeps 32 of their 64 bits, and looks the shortened
  identifier up in the table of threads. The policy therefore works only with
  identifiers below \<open>2 ^ 32\<close>: the invariant asks for it, and
  \<open>push_aborts_on_wide_threads\<close> shows what happens otherwise.
\<close>

section \<open>Model\<close>

record ts_tdata = queue_data +
  tst_assignedHosts2 :: "hostid list"

record ts_policy =
  tsp_threadToThreadDataMap :: "pthread \<rightharpoonup> ts_tdata"
  tsp_hostToThreadMap :: "hostid \<rightharpoonup> pthread"

definition threadsinglethreaddata_new :: "nat \<Rightarrow> ts_tdata" where
  "threadsinglethreaddata_new addr =
     \<lparr>qd_pq = priorityqueue_new addr True, qd_lastEventTime = 0, qd_nPushed = 0, qd_nPopped = 0,
      tst_assignedHosts2 = []\<rparr>"

definition schedulerpolicythreadsingle_new :: ts_policy where
  "schedulerpolicythreadsingle_new =
     \<lparr>tsp_threadToThreadDataMap = Map.empty, tsp_hostToThreadMap = Map.empty\<rparr>"

definition schedulerpolicythreadsingle_addHost ::
  "nat \<Rightarrow> pthread \<Rightarrow> ts_policy \<Rightarrow> hostid \<Rightarrow> pthread \<Rightarrow> ts_policy" where
  "schedulerpolicythreadsingle_addHost addr self p host randomThread =
     (let assignedThread = (if randomThread \<noteq> 0 then randomThread else self);
          tdata = (case tsp_threadToThreadDataMap p assignedThread of
                     None \<Rightarrow> threadsinglethreaddata_new addr | Some td \<Rightarrow> td);
          tdata' = tdata\<lparr>tst_assignedHosts2 := tst_assignedHosts2 tdata @ [host]\<rparr>
      in \<lparr>tsp_threadToThreadDataMap = (tsp_threadToThreadDataMap p)(assignedThread \<mapsto> tdata'),
          tsp_hostToThreadMap = (tsp_hostToThreadMap p)(host \<mapsto> assignedThread)\<rparr>)"

definition schedulerpolicythreadsingle_getHosts :: "pthread \<Rightarrow> ts_policy \<Rightarrow> hostid list option" where
  "schedulerpolicythreadsingle_getHosts self p =
     map_option tst_assignedHosts2 (tsp_threadToThreadDataMap p self)"

text \<open>A host that is not in the table reads as \<^verbatim>\<open>NULL\<close>, that is thread \<open>0\<close>.\<close>

definition threadsingle_thread :: "ts_policy \<Rightarrow> hostid \<Rightarrow> pthread" where
  "threadsingle_thread p host =
     GPOINTER_TO_UINT (case tsp_hostToThreadMap p host of None \<Rightarrow> 0 | Some t \<Rightarrow> t)"

definition schedulerpolicythreadsingle_push ::
  "renew_func \<Rightarrow> pthread \<Rightarrow> ts_policy \<Rightarrow> event \<Rightarrow> hostid \<Rightarrow> hostid \<Rightarrow> simtime \<Rightarrow> (ts_policy \<times> event) option" where
  "schedulerpolicythreadsingle_push renew self p event srcHost dstHost barrier =
     (let srcThread = threadsingle_thread p srcHost;
          dstThread = threadsingle_thread p dstHost;
          event' = adjusted (srcThread \<noteq> dstThread) barrier event
      in do {
        tdata \<leftarrow> tsp_threadToThreadDataMap p dstThread;
        Some (p\<lparr>tsp_threadToThreadDataMap := (tsp_threadToThreadDataMap p)
                  (dstThread \<mapsto> queuedata_push renew event' tdata)\<rparr>, event')
      })"

definition schedulerpolicythreadsingle_pop ::
  "renew_func \<Rightarrow> pthread \<Rightarrow> ts_policy \<Rightarrow> simtime \<Rightarrow> (ts_policy \<times> event option) option" where
  "schedulerpolicythreadsingle_pop renew self p barrier =
     (case tsp_threadToThreadDataMap p self of
        None \<Rightarrow> Some (p, None)
      | Some tdata \<Rightarrow> do {
          (tdata', nextEvent) \<leftarrow> queuedata_pop renew barrier tdata;
          Some (p\<lparr>tsp_threadToThreadDataMap := (tsp_threadToThreadDataMap p)(self \<mapsto> tdata')\<rparr>, nextEvent)
        })"

definition schedulerpolicythreadsingle_getNextTime :: "pthread \<Rightarrow> ts_policy \<Rightarrow> simtime" where
  "schedulerpolicythreadsingle_getNextTime self p =
     (case tsp_threadToThreadDataMap p self of
        None \<Rightarrow> SIMTIME_MAX | Some tdata \<Rightarrow> queuedata_minTime tdata SIMTIME_MAX)"

section \<open>Invariant\<close>

definition ts_pending :: "ts_policy \<Rightarrow> event set" where
  "ts_pending p = (\<Union>t \<in> dom (tsp_threadToThreadDataMap p). qd_events (the (tsp_threadToThreadDataMap p t)))"

definition ts_threads_ok :: "ts_policy \<Rightarrow> bool" where
  "ts_threads_ok p \<longleftrightarrow> finite (dom (tsp_threadToThreadDataMap p)) \<and>
     (\<forall>t td. tsp_threadToThreadDataMap p t = Some td \<longrightarrow> t < 2 ^ 32 \<and> qd_inv td \<and>
        tst_assignedHosts2 td \<noteq> [] \<and> distinct (tst_assignedHosts2 td) \<and>
        (\<forall>e \<in> qd_events td. tsp_hostToThreadMap p (ev_dstHost e) = Some t))"

definition ts_owner_ok :: "ts_policy \<Rightarrow> bool" where
  "ts_owner_ok p \<longleftrightarrow> (\<forall>h t. tsp_hostToThreadMap p h = Some t \<longleftrightarrow>
     (\<exists>td. tsp_threadToThreadDataMap p t = Some td \<and> h \<in> set (tst_assignedHosts2 td)))"

definition ts_inv :: "ts_policy \<Rightarrow> bool" where
  "ts_inv p \<longleftrightarrow> ts_threads_ok p \<and> inj_on ev_ptr (ts_pending p) \<and> ts_owner_ok p"

definition ts_queue_of :: "ts_policy \<Rightarrow> hostid \<Rightarrow> pthread" where
  "ts_queue_of p h = (case tsp_hostToThreadMap p h of None \<Rightarrow> 0 | Some t \<Rightarrow> t)"

definition ts_clock :: "ts_policy \<Rightarrow> pthread \<Rightarrow> simtime" where
  "ts_clock p t = (case tsp_threadToThreadDataMap p t of None \<Rightarrow> 0 | Some td \<Rightarrow> qd_lastEventTime td)"

definition ts_scan :: "ts_policy \<Rightarrow> pthread \<Rightarrow> pthread list" where
  "ts_scan p t = (case tsp_threadToThreadDataMap p t of None \<Rightarrow> [] | Some td \<Rightarrow> [t])"

definition ts_look :: "ts_policy \<Rightarrow> pthread \<Rightarrow> simtime \<Rightarrow> simtime option" where
  "ts_look p t m = map_option (\<lambda>td. queuedata_minTime td m) (tsp_threadToThreadDataMap p t)"

definition ts_pop_iter :: "renew_func \<Rightarrow> pthread \<Rightarrow> ts_policy \<Rightarrow> simtime \<Rightarrow> (ts_policy \<times> pop_result) option" where
  "ts_pop_iter renew t p b =
     map_option (\<lambda>(p', r). (p', case r of None \<Rightarrow> Exhausted | Some e \<Rightarrow> Popped e))
       (schedulerpolicythreadsingle_pop renew t p b)"

lemma ts_pending_iff:
  "e \<in> ts_pending p \<longleftrightarrow> (\<exists>t td. tsp_threadToThreadDataMap p t = Some td \<and> e \<in> qd_events td)"
  by (force simp: ts_pending_def)

lemma ts_inv_thread:
  assumes "ts_inv p" and "tsp_threadToThreadDataMap p t = Some td"
  shows "t < 2 ^ 32" and "qd_inv td" and "tst_assignedHosts2 td \<noteq> []"
    and "e \<in> qd_events td \<Longrightarrow> tsp_hostToThreadMap p (ev_dstHost e) = Some t"
    and "tsp_hostToThreadMap p h = Some t \<longleftrightarrow> h \<in> set (tst_assignedHosts2 td)"
    and "qd_events td \<subseteq> ts_pending p"
proof -
  show "t < 2 ^ 32" "qd_inv td" "tst_assignedHosts2 td \<noteq> []"
    "e \<in> qd_events td \<Longrightarrow> tsp_hostToThreadMap p (ev_dstHost e) = Some t"
    using assms by (simp_all add: ts_inv_def ts_threads_ok_def)
  show "tsp_hostToThreadMap p h = Some t \<longleftrightarrow> h \<in> set (tst_assignedHosts2 td)"
    using assms by (simp add: ts_inv_def ts_owner_ok_def)
  show "qd_events td \<subseteq> ts_pending p" using assms(2) unfolding ts_pending_iff subset_eq by blast
qed

lemma ts_inv_owner:
  assumes "ts_inv p" and "tsp_hostToThreadMap p h = Some t"
  obtains td where "tsp_threadToThreadDataMap p t = Some td" "h \<in> set (tst_assignedHosts2 td)"
  using assms unfolding ts_inv_def ts_owner_ok_def by blast

lemma ts_pending_thread:
  assumes inv: "ts_inv p" and td: "tsp_threadToThreadDataMap p t = Some td"
  shows "{e \<in> ts_pending p. tsp_hostToThreadMap p (ev_dstHost e) = Some t} = qd_events td"
proof -
  have "e \<in> qd_events td" if e: "e \<in> ts_pending p" "tsp_hostToThreadMap p (ev_dstHost e) = Some t" for e
  proof -
    obtain t1 td1 where 1: "tsp_threadToThreadDataMap p t1 = Some td1" "e \<in> qd_events td1"
      using e(1) by (auto simp: ts_pending_iff)
    with ts_inv_thread(4) [OF inv 1(1), of e] e(2) have "t1 = t" by simp
    with 1 td show ?thesis by simp
  qed
  then show ?thesis using ts_inv_thread(4,6) [OF inv td] by auto
qed

text \<open>A step that works on the queue of thread \<open>t\<close>.\<close>

lemma ts_pending_upd:
  assumes inv: "ts_inv p" and td: "tsp_threadToThreadDataMap p t = Some td"
    and p': "p' = p\<lparr>tsp_threadToThreadDataMap := (tsp_threadToThreadDataMap p)(t \<mapsto> td')\<rparr>"
  shows "ts_pending p' = (ts_pending p - qd_events td) \<union> qd_events td'"
proof -
  have "e \<in> ts_pending p' \<longleftrightarrow> e \<in> qd_events td' \<or>
      (\<exists>t1 q. t1 \<noteq> t \<and> tsp_threadToThreadDataMap p t1 = Some q \<and> e \<in> qd_events q)" for e
    using p' by (auto simp: ts_pending_iff)
  moreover have "(\<exists>t1 q. t1 \<noteq> t \<and> tsp_threadToThreadDataMap p t1 = Some q \<and> e \<in> qd_events q) \<longleftrightarrow>
      e \<in> ts_pending p \<and> e \<notin> qd_events td" for e
    using td ts_inv_thread(4) [OF inv] unfolding ts_pending_iff by (metis option.inject)
  ultimately show ?thesis by auto
qed

lemma ts_inv_upd:
  assumes inv: "ts_inv p" and td: "tsp_threadToThreadDataMap p t = Some td"
    and p': "p' = p\<lparr>tsp_threadToThreadDataMap := (tsp_threadToThreadDataMap p)(t \<mapsto> td')\<rparr>"
    and td': "qd_inv td'" "tst_assignedHosts2 td' = tst_assignedHosts2 td"
      "\<And>e. e \<in> qd_events td' \<Longrightarrow> tsp_hostToThreadMap p (ev_dstHost e) = Some t"
    and inj: "inj_on ev_ptr (ts_pending p')"
  shows "ts_inv p'"
proof -
  have "ts_threads_ok p'"
    using inv td td' p' by (simp add: ts_inv_def ts_threads_ok_def)
  moreover have "ts_owner_ok p'"
    using inv td td'(2) p' by (simp add: ts_inv_def ts_owner_ok_def)
  ultimately show ?thesis using inj by (simp add: ts_inv_def)
qed

lemma queuedata_assigned [simp]:
  "tst_assignedHosts2 (queuedata_push renew e td) = tst_assignedHosts2 td"
  "queuedata_pop renew b td = Some (td', r) \<Longrightarrow> tst_assignedHosts2 td' = tst_assignedHosts2 td"
  by (auto simp: queuedata_push_def queuedata_pop_def Let_def split: option.splits if_splits prod.splits)

lemma ts_thread_of:
  assumes "ts_inv p" and "tsp_hostToThreadMap p h = Some t"
  shows "threadsingle_thread p h = t"
  using ts_inv_owner [OF assms] ts_inv_thread(1) [OF assms(1)]
  by (metis GPOINTER_TO_UINT_small assms(2) option.simps(5) threadsingle_thread_def)

section \<open>The policy keeps the contract\<close>

lemma ts_push_law:
  assumes inv: "ts_inv p" and src: "tsp_hostToThreadMap p src = Some s" and dst: "tsp_hostToThreadMap p dst = Some t"
    and e: "ev_dstHost e = dst" "ev_ptr e \<notin> ev_ptr ` ts_pending p"
    and push: "schedulerpolicythreadsingle_push renew self p e src dst b = Some (p', e')"
  shows "e' = adjusted (s \<noteq> t) b e" and "ts_inv p'" and "ts_pending p' = insert e' (ts_pending p)"
    and "tsp_hostToThreadMap p' = tsp_hostToThreadMap p" and "ts_clock p' = ts_clock p"
proof -
  obtain td where td: "tsp_threadToThreadDataMap p t = Some td" using ts_inv_owner [OF inv dst] .
  have eq: "(p', e') = (p\<lparr>tsp_threadToThreadDataMap := (tsp_threadToThreadDataMap p)
      (t \<mapsto> queuedata_push renew (adjusted (s \<noteq> t) b e) td)\<rparr>, adjusted (s \<noteq> t) b e)"
    using push unfolding schedulerpolicythreadsingle_push_def ts_thread_of [OF inv src]
      ts_thread_of [OF inv dst] td Let_def bind.bind_lunit
    by (rule sym [OF option.inject [THEN iffD1]])
  show e': "e' = adjusted (s \<noteq> t) b e" using eq by blast
  have p': "p' = p\<lparr>tsp_threadToThreadDataMap := (tsp_threadToThreadDataMap p)(t \<mapsto> queuedata_push renew e' td)\<rparr>"
    using eq by blast
  note th = ts_inv_thread [OF inv td]
  have new: "ev_ptr e' \<notin> ev_ptr ` ts_pending p" using e(2) e' by simp
  then have q: "qd_inv (queuedata_push renew e' td)"
    "qd_events (queuedata_push renew e' td) = insert e' (qd_events td)"
    "qd_lastEventTime (queuedata_push renew e' td) = qd_lastEventTime td"
    using queuedata_push_spec [of td e' renew] th(2,6) by blast+
  show pend: "ts_pending p' = insert e' (ts_pending p)"
    using ts_pending_upd [OF inv td p'] th(6) unfolding q(2) by blast
  show "tsp_hostToThreadMap p' = tsp_hostToThreadMap p" by (simp add: p')
  show "ts_clock p' = ts_clock p" using td q(3) by (simp add: p' ts_clock_def fun_eq_iff)
  have "inj_on ev_ptr (ts_pending p')"
    using inv new unfolding pend ts_inv_def by (auto simp: inj_on_insert)
  moreover have "tsp_hostToThreadMap p (ev_dstHost y) = Some t" if "y \<in> qd_events (queuedata_push renew e' td)" for y
    using that th(4) dst e(1) e' unfolding q(2) by auto
  ultimately show "ts_inv p'" using ts_inv_upd [OF inv td p' q(1)] by simp
qed

lemma ts_pop_cases:
  assumes "ts_inv p" and "schedulerpolicythreadsingle_pop renew t p b = Some (p', r)"
  obtains (idle) "tsp_threadToThreadDataMap p t = None" "p' = p" "r = None"
  | (busy) td td' where "tsp_threadToThreadDataMap p t = Some td" "queuedata_pop renew b td = Some (td', r)"
      "p' = p\<lparr>tsp_threadToThreadDataMap := (tsp_threadToThreadDataMap p)(t \<mapsto> td')\<rparr>"
  using assms(2) by (auto simp: schedulerpolicythreadsingle_pop_def split: option.splits bind_splits)

lemma ts_pop_inv:
  assumes inv: "ts_inv p" and pop: "schedulerpolicythreadsingle_pop renew t p b = Some (p', r)"
  shows "ts_inv p'" and "tsp_hostToThreadMap p' = tsp_hostToThreadMap p"
    and "tsp_threadToThreadDataMap p' s = None \<longleftrightarrow> tsp_threadToThreadDataMap p s = None"
proof -
  show "tsp_hostToThreadMap p' = tsp_hostToThreadMap p"
    "tsp_threadToThreadDataMap p' s = None \<longleftrightarrow> tsp_threadToThreadDataMap p s = None"
    using inv pop by (cases rule: ts_pop_cases; simp)+
  show "ts_inv p'" using inv pop
  proof (cases rule: ts_pop_cases)
    case (busy td td')
    note th = ts_inv_thread [OF inv busy(1)]
    have q: "qd_inv td'" "qd_events td' \<subseteq> qd_events td"
      using queuedata_pop_Some(1,3) [OF th(2)] queuedata_pop_None(1) [OF th(2)] th(2) busy(2)
      by (cases r; blast)+
    have "ts_pending p' \<subseteq> ts_pending p" using ts_pending_upd [OF inv busy(1,3)] q(2) th(6) by blast
    then have "inj_on ev_ptr (ts_pending p')" using inv unfolding ts_inv_def by (blast intro: inj_on_subset)
    then show ?thesis using ts_inv_upd [OF inv busy(1,3) q(1)] q(2) th(4) busy(2) by auto
  qed (use inv in simp)
qed

lemma ts_pop_Some:
  assumes inv: "ts_inv p" and pop: "schedulerpolicythreadsingle_pop renew t p b = Some (p', Some e)"
  shows "e \<in> ts_pending p" and "tsp_hostToThreadMap p (ev_dstHost e) = Some t" and "ev_time e < b"
    and "ts_pending p' = ts_pending p - {e}" and "ts_clock p t \<le> ev_time e"
    and "ts_clock p' = (ts_clock p)(t := ev_time e)"
    and "y \<in> ts_pending p \<Longrightarrow> tsp_hostToThreadMap p (ev_dstHost y) = Some t \<Longrightarrow> event_le e y"
proof -
  obtain td td' where c: "tsp_threadToThreadDataMap p t = Some td" "queuedata_pop renew b td = Some (td', Some e)"
      "p' = p\<lparr>tsp_threadToThreadDataMap := (tsp_threadToThreadDataMap p)(t \<mapsto> td')\<rparr>"
    using inv pop by (cases rule: ts_pop_cases) auto
  note th = ts_inv_thread [OF inv c(1)]
  note q = queuedata_pop_Some [OF th(2) c(2)]
  show "e \<in> ts_pending p" using q(2) th(6) by blast
  show "tsp_hostToThreadMap p (ev_dstHost e) = Some t" by (rule th(4) [OF q(2)])
  show "ev_time e < b" by (fact q(4))
  show "ts_pending p' = ts_pending p - {e}"
    using ts_pending_upd [OF inv c(1,3)] q(2,3) th(6) by blast
  show "ts_clock p t \<le> ev_time e" "ts_clock p' = (ts_clock p)(t := ev_time e)"
    using c(1,3) q(5,6) by (simp_all add: ts_clock_def fun_eq_iff)
  show "event_le e y" if "y \<in> ts_pending p" "tsp_hostToThreadMap p (ev_dstHost y) = Some t"
    using q(7) that ts_pending_thread [OF inv c(1)] by blast
qed

lemma ts_pop_None:
  assumes inv: "ts_inv p" and pop: "schedulerpolicythreadsingle_pop renew t p b = Some (p', None)"
  shows "p' = p"
    and "y \<in> ts_pending p \<Longrightarrow> tsp_hostToThreadMap p (ev_dstHost y) = Some t \<Longrightarrow> b \<le> ev_time y"
proof -
  show "p' = p" using inv pop
  proof (cases rule: ts_pop_cases)
    case (busy td td')
    then have "td' = td" using queuedata_pop_None(1) ts_inv_thread(2) inv by blast
    with busy(1,3) show ?thesis by (simp add: fun_upd_idem)
  qed
  assume y: "y \<in> ts_pending p" "tsp_hostToThreadMap p (ev_dstHost y) = Some t"
  obtain td where td: "tsp_threadToThreadDataMap p t = Some td" using ts_inv_owner [OF inv y(2)] .
  from inv pop show "b \<le> ev_time y"
  proof (cases rule: ts_pop_cases)
    case (busy td td')
    then show ?thesis
      using queuedata_pop_None(2) [OF ts_inv_thread(2) [OF inv busy(1)]] y ts_pending_thread [OF inv busy(1)]
      by blast
  qed (use td in simp)
qed

lemma ts_queue_of_owned: "tsp_hostToThreadMap p h = Some t \<Longrightarrow> ts_queue_of p h = t"
  by (simp add: ts_queue_of_def)

lemma ts_pop_total:
  assumes inv: "ts_inv p" and ok: "\<And>e. e \<in> ts_pending p \<Longrightarrow> ts_clock p (ts_queue_of p (ev_dstHost e)) \<le> ev_time e"
  shows "schedulerpolicythreadsingle_pop renew t p b \<noteq> None"
proof (cases "tsp_threadToThreadDataMap p t")
  case (Some td)
  note th = ts_inv_thread [OF inv Some]
  have "qd_lastEventTime td \<le> ev_time y" if "y \<in> qd_events td" for y
    using ok [of y] th(4) [OF that] th(6) that Some by (auto simp: ts_queue_of_def ts_clock_def)
  then have "qd_clock_ok td" by (simp add: qd_clock_ok_def)
  then obtain td' r where "queuedata_pop renew b td = Some (td', r)"
    using queuedata_pop_total [of td renew b] by auto
  with Some show ?thesis by (simp add: schedulerpolicythreadsingle_pop_def)
qed (simp add: schedulerpolicythreadsingle_pop_def)

lemma ts_pop_iter_eq:
  "ts_pop_iter renew t p b = Some (p', Popped e) \<longleftrightarrow> schedulerpolicythreadsingle_pop renew t p b = Some (p', Some e)"
  "ts_pop_iter renew t p b = Some (p', Exhausted) \<longleftrightarrow> schedulerpolicythreadsingle_pop renew t p b = Some (p', None)"
  "ts_pop_iter renew t p b \<noteq> Some (p', Skipped)"
  by (auto simp: ts_pop_iter_def split: option.splits)

lemma ts_pending_queue:
  assumes "ts_inv p" and "y \<in> ts_pending p"
  shows "tsp_hostToThreadMap p (ev_dstHost y) = Some (ts_queue_of p (ev_dstHost y))"
proof -
  obtain t where "tsp_hostToThreadMap p (ev_dstHost y) = Some t"
    using assms(2) ts_inv_thread(4) [OF assms(1)] unfolding ts_pending_iff by blast
  then show ?thesis by (simp add: ts_queue_of_owned)
qed

lemma ts_look:
  assumes inv: "ts_inv p" and own: "tsp_hostToThreadMap p h = Some t"
  shows "ts_look p t m = Some (Min (insert m (ev_time ` {y \<in> ts_pending p. ts_queue_of p (ev_dstHost y) = t})))"
proof -
  obtain td where td: "tsp_threadToThreadDataMap p t = Some td" using ts_inv_owner [OF inv own] .
  have "{y \<in> ts_pending p. ts_queue_of p (ev_dstHost y) = t} =
      {y \<in> ts_pending p. tsp_hostToThreadMap p (ev_dstHost y) = Some t}"
    using ts_pending_queue [OF inv] by auto
  then have "{y \<in> ts_pending p. ts_queue_of p (ev_dstHost y) = t} = qd_events td"
    using ts_pending_thread [OF inv td] by simp
  then show ?thesis
    using td queuedata_minTime_spec [OF ts_inv_thread(2) [OF inv td]] by (simp add: ts_look_def)
qed

interpretation ts: scheduler_policy ts_inv ts_pending tsp_hostToThreadMap ts_queue_of ts_clock
  "\<lambda>p t b. {}" "\<lambda>p t. 0" "schedulerpolicythreadsingle_push renew" "ts_pop_iter renew" ts_scan
  ts_look "schedulerpolicythreadsingle_pop renew" "\<lambda>t p. Some (schedulerpolicythreadsingle_getNextTime t p)"
  for renew
proof (unfold_locales, goal_cases)
  case (1 p)
  then show ?case by (simp add: ts_pending_def ts_inv_def ts_threads_ok_def)
next
  case 2 then show ?case by (simp add: ts_inv_def)
next
  case (3 p e)
  then show ?case using ts_inv_thread(4) unfolding ts_pending_iff by blast
next
  case 4 then show ?case by (auto simp: ts_queue_of_def)
next
  case 5 show ?case ..
next
  case (6 p src dst self e b)
  then obtain t td where "tsp_hostToThreadMap p dst = Some t" "tsp_threadToThreadDataMap p t = Some td"
    by (auto elim: ts_inv_owner)
  with 6(1) show ?case by (simp add: schedulerpolicythreadsingle_push_def ts_thread_of Let_def)
next
  case (7 p src dst e self b p' e')
  then obtain s t where st: "tsp_hostToThreadMap p src = Some s" "tsp_hostToThreadMap p dst = Some t" by auto
  note law = ts_push_law [OF 7(1) st 7(4,5,6)]
  show ?case using law st by (simp add: ts_queue_of_owned) (simp add: ts_queue_of_def fun_eq_iff)
next
  case (8 p t b)
  then show ?case using ts_pop_total [of p renew t b] by (auto simp: ts_pop_iter_def)
next
  case (9 p t b p' r)
  then obtain r' where "schedulerpolicythreadsingle_pop renew t p b = Some (p', r')"
    by (auto simp: ts_pop_iter_def)
  note f = ts_pop_inv [OF 9(1) this]
  moreover have "ts_scan p' t = ts_scan p t"
    using f(3) [of t] by (cases "tsp_threadToThreadDataMap p' t"; cases "tsp_threadToThreadDataMap p t")
      (simp_all add: ts_scan_def)
  ultimately show ?case by (simp add: ts_queue_of_def fun_eq_iff)
next
  case (10 p t b p' e)
  note s = ts_pop_Some [OF 10(1) 10(2) [unfolded ts_pop_iter_eq]]
  have "event_le e y" if "y \<in> ts_pending p" "ts_queue_of p (ev_dstHost y) = t" for y
    using s(7) ts_pending_queue [OF 10(1)] that by blast
  with s(1-6) show ?case by (simp add: ts_queue_of_owned)
next
  case 11 then show ?case by (simp add: ts_pop_iter_eq)
next
  case 12
  then show ?case using ts_pop_None [OF 12(1)] unfolding ts_pop_iter_eq by blast
next
  case (13 p h t)
  then obtain td where "tsp_threadToThreadDataMap p t = Some td" by (blast elim: ts_inv_owner)
  with 13 show ?case by (simp add: ts_scan_def ts_queue_of_owned)
next
  case (14 p h m)
  then show ?case by (auto simp: ts_queue_of_owned ts_look)
next
  case (15 p k t)
  then obtain td where td: "tsp_threadToThreadDataMap p t = Some td" and "k = t"
    by (cases "tsp_threadToThreadDataMap p t") (auto simp: ts_scan_def)
  then obtain h where "h \<in> set (tst_assignedHosts2 td)" using ts_inv_thread(3) [OF 15(1) td] by fastforce
  then have "tsp_hostToThreadMap p h = Some t" using ts_inv_thread(5) [OF 15(1) td] by simp
  then show ?case using \<open>k = t\<close> ts_queue_of_owned by blast
next
  case (16 t p b)
  show ?case by (auto simp: ts_pop_iter_def split: option.splits)
next
  case (17 t p)
  show ?case by (simp add: ts_scan_def ts_look_def schedulerpolicythreadsingle_getNextTime_def split: option.splits)
qed

lemma ts_inv_new [wf_intros]: "ts_inv schedulerpolicythreadsingle_new"
  by (simp add: ts_inv_def schedulerpolicythreadsingle_new_def ts_threads_ok_def ts_pending_def ts_owner_ok_def)

lemma qd_inv_threaddata_new: "qd_inv (threadsinglethreaddata_new addr)" "qd_events (threadsinglethreaddata_new addr) = {}"
  by (simp_all add: qd_inv_def qd_events_def threadsinglethreaddata_new_def pq_inv_new)
     (simp_all add: priorityqueue_new_def)

lemma ts_addHost_inv [wf_intros]:
  assumes inv: "ts_inv p" and new: "tsp_hostToThreadMap p h = None"
    and small: "(if t \<noteq> 0 then t else self) < 2 ^ 32"
  shows "ts_inv (schedulerpolicythreadsingle_addHost addr self p h t)"
proof -
  let ?p' = "schedulerpolicythreadsingle_addHost addr self p h t"
  define u where "u = (if t \<noteq> 0 then t else self)"
  define td where "td = (case tsp_threadToThreadDataMap p u of None \<Rightarrow> threadsinglethreaddata_new addr | Some td \<Rightarrow> td)"
  let ?td' = "td\<lparr>tst_assignedHosts2 := tst_assignedHosts2 td @ [h]\<rparr>"
  have own: "tsp_hostToThreadMap ?p' = (tsp_hostToThreadMap p)(h \<mapsto> u)"
    and threads: "tsp_threadToThreadDataMap ?p' = (tsp_threadToThreadDataMap p)(u \<mapsto> ?td')"
    by (simp_all add: schedulerpolicythreadsingle_addHost_def Let_def td_def u_def)
  have idle: "tsp_hostToThreadMap p g \<noteq> Some u" if "tsp_threadToThreadDataMap p u = None" for g
    using that ts_inv_owner [OF inv, of g u] by (metis option.distinct(1))
  have td: "qd_inv td" "distinct (tst_assignedHosts2 td)"
    "tsp_hostToThreadMap p g = Some u \<longleftrightarrow> g \<in> set (tst_assignedHosts2 td)"
    "e \<in> qd_events td \<Longrightarrow> tsp_hostToThreadMap p (ev_dstHost e) = Some u" for g e
    using ts_inv_thread [OF inv, of u] inv idle
    by (cases "tsp_threadToThreadDataMap p u";
        simp add: td_def qd_inv_threaddata_new ts_inv_def ts_threads_ok_def;
        simp add: threadsinglethreaddata_new_def)+
  have ev: "qd_events ?td' = qd_events td" "qd_inv ?td' = qd_inv td" by (simp_all add: qd_events_def qd_inv_def)
  have "h \<notin> set (tst_assignedHosts2 td)" using td(3) [of h] new by simp
  then have "ts_threads_ok ?p'"
    using inv td small [folded u_def] new unfolding ts_threads_ok_def own threads ts_inv_def
    by (auto simp: ev dest!: spec [where x = h])
  moreover have "ts_owner_ok ?p'"
    unfolding ts_owner_ok_def own threads
  proof (intro allI)
    fix g s
    have ok: "tsp_hostToThreadMap p g = Some s \<longleftrightarrow>
        (\<exists>td. tsp_threadToThreadDataMap p s = Some td \<and> g \<in> set (tst_assignedHosts2 td))" for g s
      using inv by (simp add: ts_inv_def ts_owner_ok_def)
    show "((tsp_hostToThreadMap p)(h \<mapsto> u)) g = Some s \<longleftrightarrow>
        (\<exists>td. ((tsp_threadToThreadDataMap p)(u \<mapsto> ?td')) s = Some td \<and> g \<in> set (tst_assignedHosts2 td))"
    proof (cases "s = u")
      case True
      then show ?thesis using td(3) [of g] by auto
    next
      case False
      then show ?thesis using ok [of g s] ok [of h s] new by auto
    qed
  qed
  moreover have "ts_pending ?p' = ts_pending p"
  proof -
    have "e \<in> qd_events td \<longleftrightarrow> (\<exists>q. tsp_threadToThreadDataMap p u = Some q \<and> e \<in> qd_events q)" for e
      by (cases "tsp_threadToThreadDataMap p u") (simp_all add: td_def qd_inv_threaddata_new(2))
    moreover have "e \<in> ts_pending ?p' \<longleftrightarrow> e \<in> qd_events td \<or>
        (\<exists>s q. s \<noteq> u \<and> tsp_threadToThreadDataMap p s = Some q \<and> e \<in> qd_events q)" for e
      unfolding ts_pending_iff threads map_upd_ex ev(1) ..
    moreover have "e \<in> ts_pending p \<longleftrightarrow> (\<exists>q. tsp_threadToThreadDataMap p u = Some q \<and> e \<in> qd_events q) \<or>
        (\<exists>s q. s \<noteq> u \<and> tsp_threadToThreadDataMap p s = Some q \<and> e \<in> qd_events q)" for e
      unfolding ts_pending_iff by (rule map_ex_split)
    ultimately show ?thesis by (intro set_eqI) (simp only:)
  qed
  ultimately show ?thesis using inv by (simp add: ts_inv_def)
qed

section \<open>Wide thread identifiers\<close>

lemma GPOINTER_TO_UINT_less: "GPOINTER_TO_UINT p < 2 ^ 32"
proof -
  have "uint (take_bit 32 p) < 2 ^ 32" unfolding unsigned_take_bit_eq by (rule take_bit_int_less_exp)
  then show ?thesis by (simp add: GPOINTER_TO_UINT_def word_less_alt)
qed

text \<open>
  C31: where \<^verbatim>\<open>pthread_t\<close> is an address beyond four gigabytes, as it is on the usual 64-bit platforms, no
  event can be scheduled with this policy: the assertion of \<^verbatim>\<open>_schedulerpolicythreadsingle_push\<close> fails
  for every event and every pair of hosts.
\<close>

theorem push_aborts_on_wide_threads:
  assumes "\<forall>t \<in> dom (tsp_threadToThreadDataMap p). 2 ^ 32 \<le> t"
  shows "schedulerpolicythreadsingle_push renew self p event srcHost dstHost barrier = None"
proof -
  have "threadsingle_thread p dstHost < 2 ^ 32" by (simp only: threadsingle_thread_def GPOINTER_TO_UINT_less)
  then have "threadsingle_thread p dstHost \<notin> dom (tsp_threadToThreadDataMap p)"
    using assms by (metis linorder_not_le)
  then have "tsp_threadToThreadDataMap p (threadsingle_thread p dstHost) = None" by blast
  then show ?thesis by (simp add: schedulerpolicythreadsingle_push_def Let_def)
qed

theorem push_aborts_on_wide_threads_witness:
  "schedulerpolicythreadsingle_push (\<lambda>a n. a) 140000000000000
     (schedulerpolicythreadsingle_addHost 0 0 schedulerpolicythreadsingle_new 1 140000000000000)
     \<lparr>ev_ptr = 1, ev_srcHost = 1, ev_dstHost = 1, ev_task = 1, ev_time = 5, ev_srcHostEventID = 0,
      ev_referenceCount = 1\<rparr> 1 1 10 = None"
  by (rule push_aborts_on_wide_threads)
     (simp add: schedulerpolicythreadsingle_addHost_def schedulerpolicythreadsingle_new_def Let_def word_le_nat_alt)

end
