(* ===== verification/Simulation_Runs.thy ===== *)
theory Simulation_Runs
  imports Policy_Host_Single Policy_Thread_Single
begin

text \<open>
  Whole runs of the simulator with the two policies: how \<^verbatim>\<open>scheduler_start\<close> assigns the hosts
  to the workers, the states in which \<^verbatim>\<open>manager_run\<close> enters its loop, and what holds in
  every state reachable from them. \<open>renew\<close> is the address GLib's \<^verbatim>\<open>g_renew\<close> returns.
\<close>

section \<open>Start of a run\<close>

definition pool_started :: "pthread list \<Rightarrow> nat \<Rightarrow> 'p scheduler \<Rightarrow> controller \<Rightarrow> bool" where
  "pool_started threads par sc ctl \<longleftrightarrow>
     workerpool_new threads (length threads) par = Some (sc_pool sc) \<and> distinct threads \<and>
     1 \<le> sc_endTime sc \<and> sc_endTime sc \<le> SIMTIME_MAX \<and> ct_endTime ctl = sc_endTime sc"

definition hs_started :: "pthread list \<Rightarrow> nat \<Rightarrow> hs_policy scheduler \<Rightarrow> controller \<Rightarrow> bool" where
  "hs_started threads par sc ctl \<longleftrightarrow> pool_started threads par sc ctl \<and>
     hs_inv (sc_policy sc) \<and> hs_clock (sc_policy sc) = (\<lambda>_. 0) \<and> hs_top (sc_policy sc) = (\<lambda>_. 0) \<and>
     (\<forall>h t. hsp_hostToThreadMap (sc_policy sc) h = Some t \<longrightarrow> t \<in> set threads) \<and>
     (\<forall>h \<in> set (sc_hostIDs sc). hsp_hostToThreadMap (sc_policy sc) h \<noteq> None)"

definition ts_started :: "pthread list \<Rightarrow> nat \<Rightarrow> ts_policy scheduler \<Rightarrow> controller \<Rightarrow> bool" where
  "ts_started threads par sc ctl \<longleftrightarrow> pool_started threads par sc ctl \<and>
     ts_inv (sc_policy sc) \<and> ts_clock (sc_policy sc) = (\<lambda>_. 0) \<and>
     (\<forall>h t. tsp_hostToThreadMap (sc_policy sc) h = Some t \<longrightarrow> t \<in> set threads) \<and>
     (\<forall>h \<in> set (sc_hostIDs sc). tsp_hostToThreadMap (sc_policy sc) h \<noteq> None)"

abbreviation hs_steps :: "renew_func \<Rightarrow> (hs_policy, hostid) sim \<Rightarrow> (hs_policy, hostid) sim \<Rightarrow> bool" where
  "hs_steps renew \<equiv> sim_steps (schedulerpolicyhostsingle_push renew) (hostsingle_pop_iter renew) hostsingle_scan
     schedulerpolicyhostsingle_findMinTime hs_pending"

abbreviation ts_steps :: "renew_func \<Rightarrow> (ts_policy, pthread) sim \<Rightarrow> (ts_policy, pthread) sim \<Rightarrow> bool" where
  "ts_steps renew \<equiv> sim_steps (schedulerpolicythreadsingle_push renew) (ts_pop_iter renew) ts_scan ts_look ts_pending"

lemma hs_run_ok:
  assumes "hs_started threads par sc ctl" and "hs_steps renew (sim_init sc ctl) s"
  shows "hs.sim_ok s"
proof (rule hs.sim_ok_reachable [OF assms(2)])
  show "hs.sim_ok (sim_init sc ctl)"
    using assms(1)
    by (intro hs.sim_ok_init [where threads = threads and n = "length threads" and par = par])
       (auto simp: hs_started_def pool_started_def)
qed

lemma ts_run_ok:
  assumes "ts_started threads par sc ctl" and "ts_steps renew (sim_init sc ctl) s"
  shows "ts.sim_ok s"
proof (rule ts.sim_ok_reachable [OF assms(2)])
  show "ts.sim_ok (sim_init sc ctl)"
    using assms(1)
    by (intro ts.sim_ok_init [where threads = threads and n = "length threads" and par = par])
       (auto simp: ts_started_def pool_started_def)
qed

section \<open>Assigning the hosts\<close>

text \<open>The fold that \<^verbatim>\<open>_scheduler_assignHosts\<close> runs over the shuffled hosts.\<close>

lemma addHost_fields:
  "t \<noteq> 0 \<Longrightarrow> hsp_hostToThreadMap (schedulerpolicyhostsingle_addHost addr self p h t) = (hsp_hostToThreadMap p)(h \<mapsto> t)"
  "hs_inv p \<Longrightarrow> hs_clock p = (\<lambda>_. 0) \<Longrightarrow> hs_clock (schedulerpolicyhostsingle_addHost addr self p h t) = (\<lambda>_. 0)"
  "hs_top p = (\<lambda>_. 0) \<Longrightarrow> hs_top (schedulerpolicyhostsingle_addHost addr self p h t) = (\<lambda>_. 0)"
  by (auto simp: schedulerpolicyhostsingle_addHost_def Let_def hs_clock_def hs_top_def fun_eq_iff
      queuedata_new_def hostsinglethreaddata_new_def split: option.splits)

lemma hs_new_fields:
  "hs_pending schedulerpolicyhostsingle_new = {}" "hs_clock schedulerpolicyhostsingle_new = (\<lambda>_. 0)"
  "hs_top schedulerpolicyhostsingle_new = (\<lambda>_. 0)" "hsp_hostToThreadMap schedulerpolicyhostsingle_new = Map.empty"
  by (simp_all add: schedulerpolicyhostsingle_new_def hs_pending_def hs_clock_def hs_top_def fun_eq_iff)

lemma assign_fold:
  assumes "hs_inv p" and "hs_clock p = (\<lambda>_. 0)" and "hs_top p = (\<lambda>_. 0)"
    and "distinct hosts" and "\<And>h. h \<in> set hosts \<Longrightarrow> hsp_hostToThreadMap p h = None"
    and "\<And>k. T k \<noteq> 0"
  shows "let p' = fold (\<lambda>(k, h) p. schedulerpolicyhostsingle_addHost (addr h) self p h (T k)) (enumerate w hosts) p
         in hs_inv p' \<and> hs_clock p' = (\<lambda>_. 0) \<and> hs_top p' = (\<lambda>_. 0) \<and> hs_pending p' = hs_pending p \<and>
            (\<forall>j < length hosts. hsp_hostToThreadMap p' (hosts ! j) = Some (T (w + j))) \<and>
            (\<forall>h. h \<notin> set hosts \<longrightarrow> hsp_hostToThreadMap p' h = hsp_hostToThreadMap p h)"
  using assms
proof (induction hosts arbitrary: p w)
  case (Cons h hosts)
  let ?p1 = "schedulerpolicyhostsingle_addHost (addr h) self p h (T w)"
  have own: "hsp_hostToThreadMap ?p1 = (hsp_hostToThreadMap p)(h \<mapsto> T w)" using addHost_fields(1) Cons.prems(6) by blast
  have "hs_inv ?p1" "hs_clock ?p1 = (\<lambda>_. 0)" "hs_top ?p1 = (\<lambda>_. 0)" "hs_pending ?p1 = hs_pending p"
    using addHost_inv addHost_fields(2,3) Cons.prems(1,2,3,5) by (simp_all)
  moreover have "hsp_hostToThreadMap ?p1 g = None" if "g \<in> set hosts" for g
    using Cons.prems(4,5) own that by auto
  ultimately show ?case
    using Cons.IH [of ?p1 "Suc w"] Cons.prems(4,6) own by (auto simp: Let_def nth_Cons split: nat.splits)
qed simp

section \<open>A sample run\<close>

text \<open>
  One worker, one host and two pending events, at times 0 and 50: the run in which the worker
  executes the first event and ends the first round. The properties below are
  applied to it.
\<close>

definition sample_renew :: renew_func where "sample_renew addr n = addr"

definition sample_event :: "nat \<Rightarrow> simtime \<Rightarrow> event" where
  "sample_event ptr time = \<lparr>ev_ptr = ptr, ev_srcHost = 1, ev_dstHost = 1, ev_task = 1, ev_time = time,
     ev_srcHostEventID = of_nat ptr, ev_referenceCount = 1\<rparr>"

definition sample_ctl :: controller where
  "sample_ctl = \<lparr>ct_endTime = 1000, ct_executeWindowStart = 0, ct_executeWindowEnd = 0,
     ct_minJumpTimeConfig = 0, ct_minJumpTime = 0, ct_nextMinJumpTime = 0\<rparr>"

definition sample_pool :: workerpool where "sample_pool = the (workerpool_new [7] 1 1)"

definition sample_sched :: "'p \<Rightarrow> 'p scheduler" where
  "sample_sched p = scheduler_addHost (scheduler_new p sample_pool 1000) 1"

definition sample_hs0 :: hs_policy where
  "sample_hs0 = schedulerpolicyhostsingle_addHost 0 0 schedulerpolicyhostsingle_new 1 7"
definition sample_hs1 :: hs_policy where
  "sample_hs1 = fst (the (schedulerpolicyhostsingle_push sample_renew 7 sample_hs0 (sample_event 1 0) 1 1 1000))"
definition sample_hs2 :: hs_policy where
  "sample_hs2 = fst (the (schedulerpolicyhostsingle_push sample_renew 7 sample_hs1 (sample_event 2 50) 1 1 1000))"
definition sample_hs3 :: hs_policy where
  "sample_hs3 = fst (the (hostsingle_pop_iter sample_renew 7 sample_hs2 1))"
definition sample_hs4 :: hs_policy where
  "sample_hs4 = fst (the (hostsingle_pop_iter sample_renew 7 sample_hs3 1))"
definition sample_hs5 :: hs_policy where
  "sample_hs5 = fst (the (hostsingle_pop_iter sample_renew 7 sample_hs4 1))"

lemma sample_event_fields [simp]:
  "ev_ptr (sample_event n t) = n" "ev_dstHost (sample_event n t) = 1" "ev_time (sample_event n t) = t"
  by (simp_all add: sample_event_def)

abbreviation sample_init :: "(hs_policy, hostid) sim" where
  "sample_init \<equiv> sim_init (sample_sched sample_hs2) sample_ctl"
definition sample_s1 :: "(hs_policy, hostid) sim" where
  "sample_s1 = sim_upd sample_init 0 (sim_policy sample_init)
     (worker_setRoundEndTime 0 (sim_barrier sample_init) (sim_pool sample_init)) Run"
definition sample_s2 :: "(hs_policy, hostid) sim" where
  "sample_s2 = sim_upd sample_s1 0 sample_hs3
     (worker_setCurrentTime 0 (event_getTime (sample_event 1 0)) (sim_pool sample_s1)) (Exec (sample_event 1 0))"
definition sample_s3 :: "(hs_policy, hostid) sim" where
  "sample_s3 = sim_upd sample_s2 0 (sim_policy sample_s2)
     (worker_setCurrentTime 0 SIMTIME_INVALID
       (worker_setLastEventTime 0 (worker_getCurrentTime 0 (sim_pool sample_s2)) (sim_pool sample_s2))) Run"
definition sample_s4 :: "(hs_policy, hostid) sim" where
  "sample_s4 = sim_upd sample_s3 0 sample_hs4 (sim_pool sample_s3) Run"
definition sample_s5 :: "(hs_policy, hostid) sim" where
  "sample_s5 = sim_upd sample_s4 0 sample_hs5 (sim_pool sample_s4)
     (Scan (hostsingle_scan sample_hs5 (sim_thread sample_s4 0)) SIMTIME_MAX)"
definition sample_s6 :: "(hs_policy, hostid) sim" where
  "sample_s6 = sim_upd sample_s5 0 (sim_policy sample_s5) (sim_pool sample_s5) (Scan [] 50)"
definition sample_s7 :: "(hs_policy, hostid) sim" where
  "sample_s7 = sim_upd sample_s6 0 (sim_policy sample_s6) (worker_setMinEventTimeNextRound 0 50 (sim_pool sample_s6)) Done"

lemmas sample_defs = sample_s1_def sample_s2_def sample_s3_def sample_s4_def sample_s5_def sample_s6_def sample_s7_def

lemma sample_pool_eq: "workerpool_new [7] 1 1 = Some sample_pool"
  by (simp add: sample_pool_def workerpool_new_def Let_def)

lemma sample_init_fields [simp]:
  "sim_policy (sim_init (sample_sched p) c) = p"
  "sim_barrier (sim_init (sample_sched p) c) = 1"
  "sim_pool (sim_init (sample_sched p) c) = sample_pool"
  "sim_phase (sim_init sc c) i = Start"
  "wp_nWorkers sample_pool = 1" "wp_workerThreads sample_pool = [7]"
  by (simp_all add: sim_init_def sample_sched_def scheduler_addHost_def scheduler_new_def
      scheduler_continueNextRound_def sample_pool_def workerpool_new_def)

lemma option_snd: "map_option snd x = Some r \<Longrightarrow> x = Some (fst (the x), r)"
  by (cases x) auto

lemma sample_pops:
  "hostsingle_pop_iter sample_renew 7 sample_hs2 1 = Some (sample_hs3, Popped (sample_event 1 0))"
  "hostsingle_pop_iter sample_renew 7 sample_hs3 1 = Some (sample_hs4, Skipped)"
  "hostsingle_pop_iter sample_renew 7 sample_hs4 1 = Some (sample_hs5, Exhausted)"
  "hostsingle_scan sample_hs5 7 = [1]"
  "schedulerpolicyhostsingle_findMinTime sample_hs5 1 SIMTIME_MAX = Some 50"
proof -
  have "map_option snd (hostsingle_pop_iter sample_renew 7 sample_hs2 1) = Some (Popped (sample_event 1 0))"
    "map_option snd (hostsingle_pop_iter sample_renew 7 sample_hs3 1) = Some Skipped"
    "map_option snd (hostsingle_pop_iter sample_renew 7 sample_hs4 1) = Some Exhausted"
    by code_simp+
  from this [THEN option_snd]
  show "hostsingle_pop_iter sample_renew 7 sample_hs2 1 = Some (sample_hs3, Popped (sample_event 1 0))"
    "hostsingle_pop_iter sample_renew 7 sample_hs3 1 = Some (sample_hs4, Skipped)"
    "hostsingle_pop_iter sample_renew 7 sample_hs4 1 = Some (sample_hs5, Exhausted)"
    by (simp_all add: sample_hs3_def [symmetric] sample_hs4_def [symmetric] sample_hs5_def [symmetric])
  show "hostsingle_scan sample_hs5 7 = [1]"
    "schedulerpolicyhostsingle_findMinTime sample_hs5 1 SIMTIME_MAX = Some 50" by code_simp+
qed

lemma sample_steps:
  "hs_steps sample_renew sample_init sample_s1" "hs_steps sample_renew sample_s1 sample_s2"
  "hs_steps sample_renew sample_s2 sample_s7"
proof -
  let ?st = "sim_step (schedulerpolicyhostsingle_push sample_renew) (hostsingle_pop_iter sample_renew) hostsingle_scan
     schedulerpolicyhostsingle_findMinTime hs_pending"
  show "?st\<^sup>*\<^sup>* sample_init sample_s1"
    unfolding sample_s1_def by (intro r_into_rtranclp sim_step.start) simp_all
  show "?st\<^sup>*\<^sup>* sample_s1 sample_s2"
    unfolding sample_s2_def
    by (intro r_into_rtranclp sim_step.pop) (simp_all add: sample_defs sample_pops)
  have "?st sample_s2 sample_s3" unfolding sample_s3_def by (intro sim_step.ran) (simp_all add: sample_defs)
  moreover have "?st sample_s3 sample_s4" unfolding sample_s4_def by (intro sim_step.skip) (simp_all add: sample_defs sample_pops)
  moreover have "?st sample_s4 sample_s5" unfolding sample_s5_def by (intro sim_step.exhaust) (simp_all add: sample_defs sample_pops)
  moreover have "?st sample_s5 sample_s6" unfolding sample_s6_def
    by (intro sim_step.look [where k = 1 and m = SIMTIME_MAX]) (simp_all add: sample_defs sample_pops)
  moreover have "?st sample_s6 sample_s7" unfolding sample_s7_def by (intro sim_step.record_min) (simp_all add: sample_defs)
  ultimately show "?st\<^sup>*\<^sup>* sample_s2 sample_s7" by (meson converse_rtranclp_into_rtranclp rtranclp.rtrancl_refl)
qed

lemma sample_started: "hs_started [7] 1 (sample_sched sample_hs2) sample_ctl"
proof -
  have own: "hsp_hostToThreadMap sample_hs0 = [1 \<mapsto> 7]"
    by (simp add: sample_hs0_def addHost_fields schedulerpolicyhostsingle_new_def)
  have 0: "hs_inv sample_hs0" "hs_pending sample_hs0 = {}" "hs_clock sample_hs0 = (\<lambda>_. 0)" "hs_top sample_hs0 = (\<lambda>_. 0)"
    unfolding sample_hs0_def using hs_new_fields hs_inv_new
    by (simp_all add: addHost_inv addHost_fields)
  have "map_option snd (schedulerpolicyhostsingle_push sample_renew 7 sample_hs0 (sample_event 1 0) 1 1 1000) = Some (sample_event 1 0)"
    "map_option snd (schedulerpolicyhostsingle_push sample_renew 7 sample_hs1 (sample_event 2 50) 1 1 1000) = Some (sample_event 2 50)"
    by code_simp+
  note p = this [THEN option_snd, folded sample_hs1_def sample_hs2_def]
  note 1 = hs_push_law [OF 0(1) _ _ p(1), unfolded 0(2), simplified]
  note 2 = hs_push_law [OF 1(2) _ _ p(2), unfolded 1(3) 0(2), simplified]
  have top: "hs_top sample_hs2 = (\<lambda>_. 0)" using 0(4) 1(5) 2(5) by (simp add: hs_top_def fun_eq_iff)
  show ?thesis
    using 2 1(4,6) 0(3) own top sample_pool_eq
    by (auto simp: hs_started_def pool_started_def sample_sched_def scheduler_addHost_def scheduler_new_def
        sample_ctl_def SIMTIME_MAX_def)
qed

section \<open>Properties of runs\<close>

text \<open>
  C1: With the host-single policy no assertion fails in any reachable state of a run,
  whatever the interleaving of the workers: the pass of \<^verbatim>\<open>pop\<close> that a running worker makes
  returns (its event is not earlier than the queue's \<^verbatim>\<open>lastEventTime\<close>), every queue that a
  scanning worker looks at exists, and pushing an event to a known host succeeds.
\<close>

theorem hostsingle_run_no_abort:
  assumes "hs_started threads par sc ctl" and "hs_steps renew (sim_init sc ctl) s"
    and "i < wp_nWorkers (sim_pool s)"
  shows "(sim_phase s i = Run \<longrightarrow>
            hostsingle_pop_iter renew (sim_thread s i) (sim_policy s) (sim_barrier s) \<noteq> None) \<and>
         (\<forall>h hs m. sim_phase s i = Scan (h # hs) m \<longrightarrow>
            schedulerpolicyhostsingle_findMinTime (sim_policy s) h m \<noteq> None) \<and>
         (\<forall>e e1 st. sim_phase s i = Exec e \<longrightarrow> ev_dstHost e1 \<in> set (sc_hostIDs (sim_sched s)) \<longrightarrow>
            ev_time e1 < sc_endTime (sim_sched s) \<longrightarrow>
            scheduler_push (schedulerpolicyhostsingle_push renew) i (sim_sched s) st e1
              (ev_dstHost e) (ev_dstHost e1) \<noteq> None)"
  using hs.sim_ok_no_abort [OF hs_run_ok [OF assms(1,2)] assms(3)] by blast

theorem hostsingle_run_no_abort_witness:
  "hostsingle_pop_iter sample_renew 7 (sim_policy sample_s1) (sim_barrier sample_s1) \<noteq> None"
  using hostsingle_run_no_abort [OF sample_started sample_steps(1), of 0] by (simp add: sample_defs)

text \<open>
  C2: Causality under the host-single policy: while a worker executes an event of a host, no
  pending event of that host has an earlier time, so a host never receives an event in its past.
\<close>

theorem hostsingle_run_causal:
  assumes "hs_started threads par sc ctl" and "hs_steps renew (sim_init sc ctl) s"
    and "i < wp_nWorkers (sim_pool s)" and "sim_phase s i = Exec e"
    and "y \<in> hs_pending (sim_policy s)" and "ev_dstHost y = ev_dstHost e"
  shows "ev_time e \<le> ev_time y"
  using hs.sim_ok_causal [OF hs_run_ok [OF assms(1,2)] assms(3-6)] .

lemma sample_pending: "sample_event 2 50 \<in> hs_pending sample_hs3" "sample_event 2 50 \<in> hs_pending sample_hs5"
proof -
  have "list_ex (\<lambda>e. e = sample_event 2 50) (pq_heap (qd_pq (the (hsp_hostToQueueDataMap sample_hs3 1))))"
    "hsp_hostToQueueDataMap sample_hs3 1 \<noteq> None"
    "list_ex (\<lambda>e. e = sample_event 2 50) (pq_heap (qd_pq (the (hsp_hostToQueueDataMap sample_hs5 1))))"
    "hsp_hostToQueueDataMap sample_hs5 1 \<noteq> None"
    by code_simp+
  then show "sample_event 2 50 \<in> hs_pending sample_hs3" "sample_event 2 50 \<in> hs_pending sample_hs5"
    unfolding hs_pending_iff qd_events_def list_ex_iff by (metis option.exhaust_sel)+
qed

theorem hostsingle_run_causal_witness: "ev_time (sample_event 1 0) \<le> ev_time (sample_event 2 50)"
proof (rule hostsingle_run_causal [OF sample_started rtranclp_trans [OF sample_steps(1,2)], of 0])
  show "sample_event 2 50 \<in> hs_pending (sim_policy sample_s2)" using sample_pending(1) by (simp add: sample_s2_def)
qed (simp_all add: sample_defs)

text \<open>
  C3: No event is lost between rounds under the host-single policy: when all workers are done, the
  least recorded time that \<^verbatim>\<open>scheduler_awaitNextRound\<close> returns is not before the end of the
  round and is at or before every pending event, so the next window, which starts there,
  skips none.
\<close>

theorem hostsingle_run_round_end:
  assumes "hs_started threads par sc ctl" and "hs_steps renew (sim_init sc ctl) s"
    and "\<And>i. i < wp_nWorkers (sim_pool s) \<Longrightarrow> sim_phase s i = Done"
  shows "sim_barrier s \<le> snd (scheduler_awaitNextRound (sim_sched s)) \<and>
         (\<forall>y \<in> hs_pending (sim_policy s). snd (scheduler_awaitNextRound (sim_sched s)) \<le> ev_time y)"
  using hs.sim_ok_round_end [OF hs_run_ok [OF assms(1,2)] assms(3)] by (metis prod.collapse)

theorem hostsingle_run_round_end_witness:
  "snd (scheduler_awaitNextRound (sim_sched sample_s7)) \<le> ev_time (sample_event 2 50)"
proof -
  have "sim_phase sample_s7 i = Done" if "i < wp_nWorkers (sim_pool sample_s7)" for i
    using that by (simp add: sample_defs)
  note end_of_round = hostsingle_run_round_end [OF sample_started
    rtranclp_trans [OF sample_steps(1) rtranclp_trans [OF sample_steps(2,3)]] this]
  moreover have "sample_event 2 50 \<in> hs_pending (sim_policy sample_s7)"
    using sample_pending(2) by (simp add: sample_s7_def sample_s6_def sample_s5_def)
  ultimately show ?thesis by blast
qed


definition sample_ts :: ts_policy where
  "sample_ts = schedulerpolicythreadsingle_addHost 0 0 schedulerpolicythreadsingle_new 1 7"

lemma sample_ts_started: "ts_started [7] 1 (sample_sched sample_ts) sample_ctl"
proof -
  have "ts_inv sample_ts" unfolding sample_ts_def by (intro ts_addHost_inv ts_inv_new) (simp_all add: schedulerpolicythreadsingle_new_def)
  moreover have "tsp_hostToThreadMap sample_ts = [1 \<mapsto> 7]" "ts_clock sample_ts = (\<lambda>_. 0)"
    by (simp_all add: sample_ts_def schedulerpolicythreadsingle_addHost_def schedulerpolicythreadsingle_new_def
        ts_clock_def threadsinglethreaddata_new_def fun_eq_iff)
  ultimately show ?thesis
    using sample_pool_eq
    by (auto simp: ts_started_def pool_started_def sample_sched_def scheduler_addHost_def scheduler_new_def
        sample_ctl_def SIMTIME_MAX_def)
qed




end
