(* ===== verification/Policy_Mailbox.thy ===== *)
theory Policy_Mailbox
  imports Policy_Thread_Single
begin

text \<open>
  \<^verbatim>\<open>core/scheduler/scheduler_policy_thread_perthread.c\<close> and \<^verbatim>\<open>core/scheduler/scheduler_policy_thread_perhost.c\<close>:
  the hosts of a thread share an event queue that only the thread itself touches. An event from
  another thread goes to a mailbox of the destination thread, one per source thread or one per
  source host, and \<^verbatim>\<open>getNextTime\<close> empties the mailboxes into the queue. The two files
  differ only in the key of the mailboxes, the type \<open>'k\<close>; the lock of a thread is held for
  a mailbox operation and has no other effect. As in the thread-single policy, thread identifiers are read
  back with 32 bits.
\<close>

section \<open>Model\<close>

record 'k mb_tdata =
  mbt_assignedHosts :: "hostid list"
  mbt_qdata :: queue_data
  mbt_mailboxes :: "'k \<rightharpoonup> event pqueue"

record 'k mb_policy =
  mbp_threadToThreadDataMap :: "pthread \<rightharpoonup> 'k mb_tdata"
  mbp_hostToThreadMap :: "hostid \<rightharpoonup> pthread"

definition mailbox_threaddata_new :: "nat \<Rightarrow> 'k mb_tdata" where
  "mailbox_threaddata_new addr =
     \<lparr>mbt_assignedHosts = [], mbt_qdata = queuedata_new addr, mbt_mailboxes = Map.empty\<rparr>"

definition mailbox_policy_new :: "'k mb_policy" where
  "mailbox_policy_new = \<lparr>mbp_threadToThreadDataMap = Map.empty, mbp_hostToThreadMap = Map.empty\<rparr>"

definition mailbox_addHost :: "nat \<Rightarrow> pthread \<Rightarrow> 'k mb_policy \<Rightarrow> hostid \<Rightarrow> pthread \<Rightarrow> 'k mb_policy" where
  "mailbox_addHost addr self p host randomThread =
     (let assignedThread = (if randomThread \<noteq> 0 then randomThread else self);
          tdata = (case mbp_threadToThreadDataMap p assignedThread of
                     None \<Rightarrow> mailbox_threaddata_new addr | Some td \<Rightarrow> td);
          tdata' = tdata\<lparr>mbt_assignedHosts := mbt_assignedHosts tdata @ [host]\<rparr>
      in \<lparr>mbp_threadToThreadDataMap = (mbp_threadToThreadDataMap p)(assignedThread \<mapsto> tdata'),
          mbp_hostToThreadMap = (mbp_hostToThreadMap p)(host \<mapsto> assignedThread)\<rparr>)"

definition mailbox_getHosts :: "pthread \<Rightarrow> 'k mb_policy \<Rightarrow> hostid list option" where
  "mailbox_getHosts self p = map_option mbt_assignedHosts (mbp_threadToThreadDataMap p self)"

text \<open>A host that is not in the table reads as \<^verbatim>\<open>NULL\<close>, that is thread \<open>0\<close>.\<close>

definition mailbox_thread :: "'k mb_policy \<Rightarrow> hostid \<Rightarrow> pthread" where
  "mailbox_thread p host = GPOINTER_TO_UINT (case mbp_hostToThreadMap p host of None \<Rightarrow> 0 | Some t \<Rightarrow> t)"

text \<open>Delivery to the mailbox with key \<open>key\<close>, which is made, at the address \<open>addr\<close>, when it is missing.\<close>

definition mailbox_deliver :: "nat \<Rightarrow> renew_func \<Rightarrow> 'k \<Rightarrow> event \<Rightarrow> 'k mb_tdata \<Rightarrow> 'k mb_tdata" where
  "mailbox_deliver addr renew key e td =
     (let futureEvents = (case mbt_mailboxes td key of
                            None \<Rightarrow> priorityqueue_new addr True | Some box \<Rightarrow> box)
      in td\<lparr>mbt_mailboxes := (mbt_mailboxes td)
              (key \<mapsto> fst (priorityqueue_push event_compare renew futureEvents e))\<rparr>)"

definition mailbox_push ::
  "'k \<Rightarrow> nat \<Rightarrow> renew_func \<Rightarrow> pthread \<Rightarrow> 'k mb_policy \<Rightarrow> event \<Rightarrow> hostid \<Rightarrow> hostid \<Rightarrow> simtime \<Rightarrow>
   ('k mb_policy \<times> event) option" where
  "mailbox_push key addr renew self p event srcHost dstHost barrier =
     (let srcThread = mailbox_thread p srcHost;
          dstThread = mailbox_thread p dstHost;
          event' = adjusted (srcThread \<noteq> dstThread) barrier event
      in do {
        tdata \<leftarrow> mbp_threadToThreadDataMap p dstThread;
        let tdata' = (if dstThread = self
                      then tdata\<lparr>mbt_qdata := queuedata_push renew event' (mbt_qdata tdata)\<rparr>
                      else mailbox_deliver addr renew key event' tdata);
        Some (p\<lparr>mbp_threadToThreadDataMap := (mbp_threadToThreadDataMap p)(dstThread \<mapsto> tdata')\<rparr>, event')
      })"

definition mailbox_pop ::
  "renew_func \<Rightarrow> pthread \<Rightarrow> 'k mb_policy \<Rightarrow> simtime \<Rightarrow> ('k mb_policy \<times> event option) option" where
  "mailbox_pop renew self p barrier =
     (case mbp_threadToThreadDataMap p self of
        None \<Rightarrow> Some (p, None)
      | Some tdata \<Rightarrow> do {
          (qdata, nextEvent) \<leftarrow> queuedata_pop renew barrier (mbt_qdata tdata);
          Some (p\<lparr>mbp_threadToThreadDataMap := (mbp_threadToThreadDataMap p)(self \<mapsto> tdata\<lparr>mbt_qdata := qdata\<rparr>)\<rparr>,
                nextEvent)
        })"

lemma priorityqueue_pop_length:
  assumes "priorityqueue_pop cmp renew q = (q', Some x)"
  shows "length (pq_heap q') < length (pq_heap q)"
proof -
  have ne: "pq_heap q \<noteq> []" using assms by (auto simp: pop_empty)
  have "length (pq_heap (fst (priorityqueue_pop cmp renew q))) = length (pq_heap (pop_cut q))"
    using pop_unfold [OF ne, of cmp renew] pq_shuffled_length [OF heapify_down_root_shuffles [of "pop_cut q" cmp]]
    by (simp add: Let_def)
  also have "\<dots> < length (pq_heap q)" using ne by (simp add: pop_cut_def Let_def)
  finally show ?thesis using assms by simp
qed

function drain_mailbox :: "renew_func \<Rightarrow> event pqueue \<Rightarrow> queue_data \<Rightarrow> event pqueue \<times> queue_data" where
  "drain_mailbox renew futureEvents qdata =
     (case priorityqueue_pop event_compare renew futureEvents of
        (futureEvents', None) \<Rightarrow> (futureEvents', qdata)
      | (futureEvents', Some e) \<Rightarrow> drain_mailbox renew futureEvents' (queuedata_push renew e qdata))"
  by pat_completeness auto
termination
  by (relation "measure (\<lambda>(renew, box, qdata). length (pq_heap box))") (auto dest: priorityqueue_pop_length [OF sym])

declare drain_mailbox.simps [simp del]

fun drain_mailboxes ::
  "renew_func \<Rightarrow> 'k list \<Rightarrow> ('k \<rightharpoonup> event pqueue) \<Rightarrow> queue_data \<Rightarrow> ('k \<rightharpoonup> event pqueue) \<times> queue_data" where
  "drain_mailboxes renew [] boxes qdata = (boxes, qdata)"
| "drain_mailboxes renew (k # ks) boxes qdata =
     (case boxes k of
        None \<Rightarrow> drain_mailboxes renew ks boxes qdata
      | Some box \<Rightarrow>
          (let (box', qdata') = drain_mailbox renew box qdata
           in drain_mailboxes renew ks (boxes(k \<mapsto> box')) qdata'))"

text \<open>
  The order in which \<^verbatim>\<open>g_hash_table_get_values\<close> lists the mailboxes depends on GLib: \<open>vals\<close> lists
  the keys of a table in that order.
\<close>

definition mailbox_getNextTime ::
  "(('k \<rightharpoonup> event pqueue) \<Rightarrow> 'k list) \<Rightarrow> renew_func \<Rightarrow> pthread \<Rightarrow> 'k mb_policy \<Rightarrow> 'k mb_policy \<times> simtime" where
  "mailbox_getNextTime vals renew self p =
     (case mbp_threadToThreadDataMap p self of
        None \<Rightarrow> (p, SIMTIME_MAX)
      | Some tdata \<Rightarrow>
          (let (boxes, qdata) = drain_mailboxes renew (vals (mbt_mailboxes tdata)) (mbt_mailboxes tdata) (mbt_qdata tdata)
           in (p\<lparr>mbp_threadToThreadDataMap := (mbp_threadToThreadDataMap p)
                   (self \<mapsto> tdata\<lparr>mbt_qdata := qdata, mbt_mailboxes := boxes\<rparr>)\<rparr>,
               queuedata_minTime qdata SIMTIME_MAX)))"

subsection \<open>One mailbox per source thread\<close>

type_synonym perthread_policy = "pthread mb_policy"

definition schedulerpolicythreadperthread_new :: perthread_policy where
  "schedulerpolicythreadperthread_new = mailbox_policy_new"

definition schedulerpolicythreadperthread_addHost ::
  "nat \<Rightarrow> pthread \<Rightarrow> perthread_policy \<Rightarrow> hostid \<Rightarrow> pthread \<Rightarrow> perthread_policy" where
  "schedulerpolicythreadperthread_addHost = mailbox_addHost"

definition schedulerpolicythreadperthread_getHosts :: "pthread \<Rightarrow> perthread_policy \<Rightarrow> hostid list option" where
  "schedulerpolicythreadperthread_getHosts = mailbox_getHosts"

definition schedulerpolicythreadperthread_push ::
  "nat \<Rightarrow> renew_func \<Rightarrow> pthread \<Rightarrow> perthread_policy \<Rightarrow> event \<Rightarrow> hostid \<Rightarrow> hostid \<Rightarrow> simtime \<Rightarrow>
   (perthread_policy \<times> event) option" where
  "schedulerpolicythreadperthread_push addr renew self p event srcHost dstHost barrier =
     mailbox_push (mailbox_thread p srcHost) addr renew self p event srcHost dstHost barrier"

definition schedulerpolicythreadperthread_pop ::
  "renew_func \<Rightarrow> pthread \<Rightarrow> perthread_policy \<Rightarrow> simtime \<Rightarrow> (perthread_policy \<times> event option) option" where
  "schedulerpolicythreadperthread_pop = mailbox_pop"

definition schedulerpolicythreadperthread_getNextTime ::
  "((pthread \<rightharpoonup> event pqueue) \<Rightarrow> pthread list) \<Rightarrow> renew_func \<Rightarrow> pthread \<Rightarrow> perthread_policy \<Rightarrow> perthread_policy \<times> simtime" where
  "schedulerpolicythreadperthread_getNextTime = mailbox_getNextTime"

subsection \<open>One mailbox per source host\<close>

type_synonym perhost_policy = "hostid mb_policy"

definition schedulerpolicythreadperhost_new :: perhost_policy where
  "schedulerpolicythreadperhost_new = mailbox_policy_new"

definition schedulerpolicythreadperhost_addHost ::
  "nat \<Rightarrow> pthread \<Rightarrow> perhost_policy \<Rightarrow> hostid \<Rightarrow> pthread \<Rightarrow> perhost_policy" where
  "schedulerpolicythreadperhost_addHost = mailbox_addHost"

definition schedulerpolicythreadperhost_getHosts :: "pthread \<Rightarrow> perhost_policy \<Rightarrow> hostid list option" where
  "schedulerpolicythreadperhost_getHosts = mailbox_getHosts"

definition schedulerpolicythreadperhost_push ::
  "nat \<Rightarrow> renew_func \<Rightarrow> pthread \<Rightarrow> perhost_policy \<Rightarrow> event \<Rightarrow> hostid \<Rightarrow> hostid \<Rightarrow> simtime \<Rightarrow>
   (perhost_policy \<times> event) option" where
  "schedulerpolicythreadperhost_push addr renew self p event srcHost dstHost barrier =
     mailbox_push srcHost addr renew self p event srcHost dstHost barrier"

definition schedulerpolicythreadperhost_pop ::
  "renew_func \<Rightarrow> pthread \<Rightarrow> perhost_policy \<Rightarrow> simtime \<Rightarrow> (perhost_policy \<times> event option) option" where
  "schedulerpolicythreadperhost_pop = mailbox_pop"

definition schedulerpolicythreadperhost_getNextTime ::
  "((hostid \<rightharpoonup> event pqueue) \<Rightarrow> hostid list) \<Rightarrow> renew_func \<Rightarrow> pthread \<Rightarrow> perhost_policy \<Rightarrow> perhost_policy \<times> simtime" where
  "schedulerpolicythreadperhost_getNextTime = mailbox_getNextTime"

section \<open>Emptying the mailboxes\<close>

definition box_events :: "('k \<rightharpoonup> event pqueue) \<Rightarrow> event set" where
  "box_events boxes = {e. \<exists>k box. boxes k = Some box \<and> e \<in> set (pq_heap box)}"

lemma drain_mailbox_spec:
  assumes "pq_inv event_le box" and "qd_inv qd" and "set (pq_heap box) \<inter> qd_events qd = {}"
    and "inj_on ev_ptr (set (pq_heap box) \<union> qd_events qd)" and "drain_mailbox renew box qd = (box', qd')"
  shows "pq_heap box' = [] \<and> pq_inv event_le box' \<and> qd_inv qd' \<and>
    qd_events qd' = qd_events qd \<union> set (pq_heap box) \<and> qd_lastEventTime qd' = qd_lastEventTime qd"
  using assms
proof (induction renew box qd rule: drain_mailbox.induct)
  case (1 renew box qd)
  obtain box1 r where pop: "priorityqueue_pop event_compare renew box = (box1, r)"
    by (cases "priorityqueue_pop event_compare renew box")
  show ?case
  proof (cases r)
    case None
    then have "priorityqueue_peek box = None" using pop_eq_peek [of event_compare renew box] pop by simp
    then have "pq_heap box = []" by (simp add: peek_None_iff)
    moreover have "drain_mailbox renew box qd = (box, qd)"
      by (subst drain_mailbox.simps) (simp add: pop_empty [OF calculation])
    ultimately show ?thesis using 1(2,3,6) by simp
  next
    case (Some e)
    note p = evq.pop_correct [OF 1(2) pop [unfolded Some]]
    have set1: "set (pq_heap box1) = set (pq_heap box) - {e}" using set_mset_remove [OF p(5,4)] by simp
    have "ev_ptr e \<notin> ev_ptr ` qd_events qd"
      using 1(4,5) p(2) by (auto simp: inj_on_def)
    note q = queuedata_push_spec [OF 1(3) this, of renew]
    have "set (pq_heap box1) \<inter> qd_events (queuedata_push renew e qd) = {}"
      using 1(4) by (auto simp: set1 q(2))
    moreover have "set (pq_heap box1) \<union> qd_events (queuedata_push renew e qd) = set (pq_heap box) \<union> qd_events qd"
      using p(2) by (auto simp: set1 q(2))
    moreover have "drain_mailbox renew box1 (queuedata_push renew e qd) = (box', qd')"
      using 1(6) by (subst (asm) drain_mailbox.simps) (simp add: pop Some)
    ultimately have "pq_heap box' = [] \<and> pq_inv event_le box' \<and> qd_inv qd' \<and>
        qd_events qd' = qd_events (queuedata_push renew e qd) \<union> set (pq_heap box1) \<and>
        qd_lastEventTime qd' = qd_lastEventTime (queuedata_push renew e qd)"
      using 1(1) [OF pop [symmetric] Some p(1) q(1)] 1(5) by simp
    then show ?thesis using p(2) by (auto simp: q(2,3) set1)
  qed
qed

definition boxes_ok :: "('k \<rightharpoonup> event pqueue) \<Rightarrow> queue_data \<Rightarrow> bool" where
  "boxes_ok boxes qd \<longleftrightarrow> finite (dom boxes) \<and> qd_inv qd \<and>
     (\<forall>k box. boxes k = Some box \<longrightarrow> pq_inv event_le box) \<and>
     (\<forall>k k' box box'. boxes k = Some box \<longrightarrow> boxes k' = Some box' \<longrightarrow> k \<noteq> k' \<longrightarrow>
        set (pq_heap box) \<inter> set (pq_heap box') = {}) \<and>
     box_events boxes \<inter> qd_events qd = {} \<and> inj_on ev_ptr (box_events boxes \<union> qd_events qd)"

lemma drain_one_ok:
  assumes ok: "boxes_ok boxes qd" and box: "boxes k = Some box" and drain: "drain_mailbox renew box qd = (box', qd')"
  shows "boxes_ok (boxes(k \<mapsto> box')) qd'" and "pq_heap box' = []"
    and "qd_events qd' = qd_events qd \<union> set (pq_heap box)"
    and "box_events boxes = box_events (boxes(k \<mapsto> box')) \<union> set (pq_heap box)"
    and "qd_lastEventTime qd' = qd_lastEventTime qd"
proof -
  have sub: "set (pq_heap box) \<subseteq> box_events boxes" using box by (auto simp: box_events_def)
  have "set (pq_heap box) \<inter> qd_events qd = {}" "inj_on ev_ptr (set (pq_heap box) \<union> qd_events qd)"
    using ok sub by (auto simp: boxes_ok_def intro: inj_on_subset)
  then have d: "pq_heap box' = []" "pq_inv event_le box'" "qd_inv qd'"
      "qd_events qd' = qd_events qd \<union> set (pq_heap box)" "qd_lastEventTime qd' = qd_lastEventTime qd"
    using drain_mailbox_spec [OF _ _ _ _ drain] ok box by (auto simp: boxes_ok_def)
  show "pq_heap box' = []" "qd_events qd' = qd_events qd \<union> set (pq_heap box)"
    "qd_lastEventTime qd' = qd_lastEventTime qd" by (fact d)+
  have be: "e \<in> box_events (boxes(k \<mapsto> box')) \<longleftrightarrow> (\<exists>k' b. k' \<noteq> k \<and> boxes k' = Some b \<and> e \<in> set (pq_heap b))" for e
    using d(1) by (auto simp: box_events_def)
  have split: "e \<in> box_events boxes \<longleftrightarrow> e \<in> set (pq_heap box) \<or> e \<in> box_events (boxes(k \<mapsto> box'))" for e
    using map_ex_split [of boxes "\<lambda>b. e \<in> set (pq_heap b)" k] box unfolding be by (simp add: box_events_def)
  then show eq: "box_events boxes = box_events (boxes(k \<mapsto> box')) \<union> set (pq_heap box)" by blast
  have "box_events (boxes(k \<mapsto> box')) \<inter> set (pq_heap box) = {}"
    using ok box unfolding be boxes_ok_def disjoint_iff by metis
  then have "box_events (boxes(k \<mapsto> box')) \<inter> qd_events qd' = {}"
    using ok eq by (auto simp: boxes_ok_def d(4))
  moreover have "box_events (boxes(k \<mapsto> box')) \<union> qd_events qd' = box_events boxes \<union> qd_events qd"
    using eq by (auto simp: d(4))
  ultimately show "boxes_ok (boxes(k \<mapsto> box')) qd'"
    using ok d(1-3) by (simp add: boxes_ok_def)
qed

lemma drain_mailboxes_spec:
  assumes "boxes_ok boxes qd" and "drain_mailboxes renew ks boxes qd = (boxes', qd')"
  shows "boxes_ok boxes' qd' \<and> dom boxes' = dom boxes \<and>
    box_events boxes' \<union> qd_events qd' = box_events boxes \<union> qd_events qd \<and>
    qd_lastEventTime qd' = qd_lastEventTime qd \<and>
    (\<forall>k. k \<in> set ks \<or> map_option pq_heap (boxes k) = Some [] \<longrightarrow>
       boxes k \<noteq> None \<longrightarrow> map_option pq_heap (boxes' k) = Some [])"
  using assms
proof (induction ks arbitrary: boxes qd)
  case (Cons k ks)
  show ?case
  proof (cases "boxes k")
    case None
    then show ?thesis using Cons.IH [of boxes qd] Cons.prems by auto
  next
    case (Some box)
    obtain box1 qd1 where d: "drain_mailbox renew box qd = (box1, qd1)" by (cases "drain_mailbox renew box qd")
    define boxes1 where "boxes1 = boxes(k \<mapsto> box1)"
    note o = drain_one_ok [OF Cons.prems(1) Some d, folded boxes1_def]
    have "drain_mailboxes renew ks boxes1 qd1 = (boxes', qd')"
      using Cons.prems(2) Some d by (simp add: boxes1_def)
    note ih = Cons.IH [OF o(1) this]
    have all: "box_events boxes' \<union> qd_events qd' = box_events boxes \<union> qd_events qd"
      using ih unfolding o(3,4) by blast
    have "dom boxes1 = dom boxes" using Some by (auto simp: boxes1_def)
    moreover have "map_option pq_heap (boxes' j) = Some []"
      if "j \<in> set (k # ks) \<or> map_option pq_heap (boxes j) = Some []" "boxes j \<noteq> None" for j
    proof -
      have "j \<in> set ks \<or> map_option pq_heap (boxes1 j) = Some []" "boxes1 j \<noteq> None"
        using that o(2) by (auto simp: boxes1_def)
      then show ?thesis using ih by blast
    qed
    ultimately show ?thesis using ih o(5) all by simp
  qed
qed simp

lemma box_events_empty:
  assumes "\<And>k. boxes k \<noteq> None \<Longrightarrow> map_option pq_heap (boxes k) = Some []"
  shows "box_events boxes = {}"
proof (rule equals0I)
  fix e
  assume "e \<in> box_events boxes"
  then obtain k box where "boxes k = Some box" "e \<in> set (pq_heap box)" unfolding box_events_def by blast
  then show False using assms [of k] by simp
qed

lemma inj_on_insert_new: "inj_on f A \<Longrightarrow> f x \<notin> f ` A \<Longrightarrow> inj_on f (insert x A)"
  unfolding inj_on_insert by blast

text \<open>The other two operations on the queue and the mailboxes of a thread.\<close>

lemma boxes_ok_queue_push:
  assumes ok: "boxes_ok boxes qd" and new: "ev_ptr e \<notin> ev_ptr ` (box_events boxes \<union> qd_events qd)"
  shows "boxes_ok boxes (queuedata_push renew e qd)"
    and "qd_events (queuedata_push renew e qd) = insert e (qd_events qd)"
proof -
  have q: "qd_inv (queuedata_push renew e qd)" "qd_events (queuedata_push renew e qd) = insert e (qd_events qd)"
    using queuedata_push_spec [of qd e renew] ok new by (auto simp: boxes_ok_def)
  show "qd_events (queuedata_push renew e qd) = insert e (qd_events qd)" by (fact q(2))
  have "inj_on ev_ptr (insert e (box_events boxes \<union> qd_events qd))"
    using ok new by (intro inj_on_insert_new) (simp_all add: boxes_ok_def)
  moreover have "e \<notin> box_events boxes" using new by blast
  ultimately show "boxes_ok boxes (queuedata_push renew e qd)" using ok q by (simp add: boxes_ok_def)
qed

lemma boxes_ok_deliver:
  assumes ok: "boxes_ok (mbt_mailboxes td) (mbt_qdata td)"
    and new: "ev_ptr e \<notin> ev_ptr ` (box_events (mbt_mailboxes td) \<union> qd_events (mbt_qdata td))"
    and td': "td' = mailbox_deliver addr renew key e td"
  shows "boxes_ok (mbt_mailboxes td') (mbt_qdata td')" and "mbt_qdata td' = mbt_qdata td"
    and "box_events (mbt_mailboxes td') = insert e (box_events (mbt_mailboxes td))"
proof -
  let ?b = "mbt_mailboxes td" and ?q = "mbt_qdata td"
  define box where "box = (case ?b key of None \<Rightarrow> priorityqueue_new addr True | Some box \<Rightarrow> box)"
  obtain box' r where push: "priorityqueue_push event_compare renew box e = (box', r)"
    by (cases "priorityqueue_push event_compare renew box e")
  have b': "mbt_mailboxes td' = ?b(key \<mapsto> box')" and q': "mbt_qdata td' = ?q"
    using push by (simp_all add: td' mailbox_deliver_def Let_def box_def)
  have inv: "pq_inv event_le box" using ok by (cases "?b key") (simp_all add: box_def pq_inv_new boxes_ok_def)
  have keyed: "set (pq_heap box) = {y. \<exists>v. ?b key = Some v \<and> y \<in> set (pq_heap v)}"
    by (cases "?b key") (simp_all add: box_def priorityqueue_new_def)
  then have sub: "set (pq_heap box) \<subseteq> box_events ?b" by (auto simp: box_events_def)
  have apart: "set (pq_heap c) \<inter> set (pq_heap box) = {}" if "k \<noteq> key" "?b k = Some c" for k c
    using ok that unfolding keyed boxes_ok_def disjoint_iff mem_Collect_eq by metis
  have old: "e \<notin> box_events ?b" using new by blast
  then have "e \<notin> set (pq_heap box)" using sub by blast
  note p = evq.push_new [OF inv this push]
  have heap: "set (pq_heap box') = insert e (set (pq_heap box))" using p(3) by (metis set_mset_mset set_mset_add_mset_insert)
  have "y \<in> box_events (?b(key \<mapsto> box')) \<longleftrightarrow> y = e \<or> y \<in> box_events ?b" for y
    using map_upd_ex [of ?b key box' "\<lambda>v. y \<in> set (pq_heap v)"] map_ex_split [of ?b "\<lambda>v. y \<in> set (pq_heap v)" key]
    unfolding box_events_def heap keyed by blast
  then show ev: "box_events (mbt_mailboxes td') = insert e (box_events ?b)" unfolding b' by blast
  have "inj_on ev_ptr (insert e (box_events ?b \<union> qd_events ?q))"
    using ok new by (intro inj_on_insert_new) (simp_all add: boxes_ok_def)
  moreover have "e \<notin> qd_events ?q" using new by blast
  moreover have "set (pq_heap c) \<inter> set (pq_heap box') = {}" if "k \<noteq> key" "?b k = Some c" for k c
    using apart [OF that] old that(2) unfolding heap by (auto simp: box_events_def)
  ultimately show "boxes_ok (mbt_mailboxes td') (mbt_qdata td')"
    using ok p(2) ev unfolding b' q' boxes_ok_def by (simp add: Int_commute)
  show "mbt_qdata td' = ?q" by (fact q')
qed

lemma boxes_ok_pop:
  assumes ok: "boxes_ok boxes qd" and pop: "queuedata_pop renew b qd = Some (qd', r)"
  shows "boxes_ok boxes qd'"
proof -
  have q: "qd_inv qd'" "qd_events qd' \<subseteq> qd_events qd"
    using queuedata_pop_Some(1,3) queuedata_pop_None(1) ok pop by (cases r; fastforce simp: boxes_ok_def)+
  then have "box_events boxes \<union> qd_events qd' \<subseteq> box_events boxes \<union> qd_events qd" by blast
  then have "inj_on ev_ptr (box_events boxes \<union> qd_events qd')" using ok unfolding boxes_ok_def by (blast intro: inj_on_subset)
  then show ?thesis using ok q by (auto simp: boxes_ok_def)
qed

text \<open>A queue whose clock is past one of its events fails the assertion of the next pop.\<close>

lemma queuedata_pop_aborts:
  assumes inv: "qd_inv qd" and e: "e \<in> qd_events qd" "ev_time e < qd_lastEventTime qd" "ev_time e < b"
  shows "queuedata_pop renew b qd = None"
proof -
  obtain z where z: "priorityqueue_peek (qd_pq qd) = Some z"
    using e(1) by (cases "priorityqueue_peek (qd_pq qd)") (auto simp: peek_None_iff qd_events_def)
  have "ev_time z \<le> ev_time e"
    using evq.peek_least(2) [OF _ z] inv e(1) by (auto simp: qd_inv_def qd_events_def intro: event_le_time)
  then have "\<not> qd_lastEventTime qd \<le> ev_time z" "ev_time z < b" using e by auto
  with z show ?thesis by (simp add: queuedata_pop_def Let_def event_getTime_def utility_assert_def)
qed

section \<open>Invariant of a policy\<close>

definition td_events :: "'k mb_tdata \<Rightarrow> event set" where
  "td_events td = box_events (mbt_mailboxes td) \<union> qd_events (mbt_qdata td)"

definition mb_pending :: "'k mb_policy \<Rightarrow> event set" where
  "mb_pending p = {e. \<exists>t td. mbp_threadToThreadDataMap p t = Some td \<and> e \<in> td_events td}"

definition mb_inv :: "'k mb_policy \<Rightarrow> bool" where
  "mb_inv p \<longleftrightarrow>
     (\<forall>t td. mbp_threadToThreadDataMap p t = Some td \<longrightarrow> t < 2 ^ 32 \<and> boxes_ok (mbt_mailboxes td) (mbt_qdata td) \<and>
        (\<forall>e \<in> td_events td. mbp_hostToThreadMap p (ev_dstHost e) = Some t)) \<and>
     (\<forall>h t. mbp_hostToThreadMap p h = Some t \<longrightarrow> mbp_threadToThreadDataMap p t \<noteq> None) \<and>
     inj_on ev_ptr (mb_pending p)"

lemma mb_inv_thread:
  assumes "mb_inv p" and "mbp_threadToThreadDataMap p t = Some td"
  shows "t < 2 ^ 32" and "boxes_ok (mbt_mailboxes td) (mbt_qdata td)" and "td_events td \<subseteq> mb_pending p"
    and "e \<in> td_events td \<Longrightarrow> mbp_hostToThreadMap p (ev_dstHost e) = Some t"
  using assms by (auto simp: mb_inv_def mb_pending_def)

lemma mb_inv_owner:
  assumes "mb_inv p" and "mbp_hostToThreadMap p h = Some t"
  obtains td where "mbp_threadToThreadDataMap p t = Some td"
  using assms unfolding mb_inv_def by blast

lemma mb_thread_of:
  assumes "mb_inv p" and "mbp_hostToThreadMap p h = Some t"
  shows "mailbox_thread p h = t"
  using mb_inv_owner [OF assms] mb_inv_thread(1) [OF assms(1)] assms(2)
  by (metis GPOINTER_TO_UINT_small mailbox_thread_def option.simps(5))

lemma mb_pending_thread:
  assumes inv: "mb_inv p" and td: "mbp_threadToThreadDataMap p t = Some td"
  shows "{e \<in> mb_pending p. mbp_hostToThreadMap p (ev_dstHost e) = Some t} = td_events td"
  using mb_inv_thread(3,4) [OF inv] td unfolding mb_pending_def by (auto dest: mb_inv_thread(4) [OF inv])

lemma mb_upd:
  assumes inv: "mb_inv p" and td: "mbp_threadToThreadDataMap p t = Some td"
    and p': "p' = p\<lparr>mbp_threadToThreadDataMap := (mbp_threadToThreadDataMap p)(t \<mapsto> td')\<rparr>"
    and ok: "boxes_ok (mbt_mailboxes td') (mbt_qdata td')"
    and own: "\<And>e. e \<in> td_events td' \<Longrightarrow> mbp_hostToThreadMap p (ev_dstHost e) = Some t"
    and inj: "inj_on ev_ptr ((mb_pending p - td_events td) \<union> td_events td')"
  shows "mb_inv p'" and "mb_pending p' = (mb_pending p - td_events td) \<union> td_events td'"
    and "mbp_hostToThreadMap p' = mbp_hostToThreadMap p"
proof -
  have threads: "mbp_threadToThreadDataMap p' = (mbp_threadToThreadDataMap p)(t \<mapsto> td')" by (simp add: p')
  let ?rest = "\<lambda>e. \<exists>t1 q. t1 \<noteq> t \<and> mbp_threadToThreadDataMap p t1 = Some q \<and> e \<in> td_events q"
  have old: "e \<in> mb_pending p \<longleftrightarrow> e \<in> td_events td \<or> ?rest e" for e
    using map_ex_split [of "mbp_threadToThreadDataMap p" "\<lambda>q. e \<in> td_events q" t] td by (simp add: mb_pending_def)
  have new: "e \<in> mb_pending p' \<longleftrightarrow> e \<in> td_events td' \<or> ?rest e" for e
    unfolding mb_pending_def mem_Collect_eq threads by (rule map_upd_ex)
  have apart: "e \<notin> td_events td" if "?rest e" for e
  proof
    assume "e \<in> td_events td"
    then have "mbp_hostToThreadMap p (ev_dstHost e) = Some t" by (rule mb_inv_thread(4) [OF inv td])
    with that show False using mb_inv_thread(4) [OF inv, of _ _ e] by auto
  qed
  have "e \<in> mb_pending p' \<longleftrightarrow> e \<in> mb_pending p - td_events td \<union> td_events td'" for e
    using old [of e] new [of e] apart [of e] by blast
  then show pend: "mb_pending p' = (mb_pending p - td_events td) \<union> td_events td'" by blast
  show "mbp_hostToThreadMap p' = mbp_hostToThreadMap p" by (simp add: p')
  show "mb_inv p'" using inv td ok own inj unfolding mb_inv_def pend by (simp add: p')
qed

section \<open>The operations on a policy\<close>

lemma mailbox_push_law:
  assumes inv: "mb_inv p" and src: "mbp_hostToThreadMap p src = Some s" and dst: "mbp_hostToThreadMap p dst = Some t"
    and td: "mbp_threadToThreadDataMap p t = Some td"
    and e: "ev_dstHost e = dst" "ev_ptr e \<notin> ev_ptr ` mb_pending p"
  obtains p' td' where "mailbox_push key addr renew self p e src dst b = Some (p', adjusted (s \<noteq> t) b e)"
    and "mb_inv p'" and "mb_pending p' = insert (adjusted (s \<noteq> t) b e) (mb_pending p)"
    and "mbp_hostToThreadMap p' = mbp_hostToThreadMap p" and "mbp_threadToThreadDataMap p' t = Some td'"
    and "self = t \<Longrightarrow> mbt_qdata td' = queuedata_push renew (adjusted (s \<noteq> t) b e) (mbt_qdata td)"
    and "self \<noteq> t \<Longrightarrow> mbt_qdata td' = mbt_qdata td"
    and "self \<noteq> t \<Longrightarrow> adjusted (s \<noteq> t) b e \<in> box_events (mbt_mailboxes td')"
proof -
  define e' where "e' = adjusted (s \<noteq> t) b e"
  define td' where "td' = (if t = self then td\<lparr>mbt_qdata := queuedata_push renew e' (mbt_qdata td)\<rparr>
      else mailbox_deliver addr renew key e' td)"
  define p' where "p' = p\<lparr>mbp_threadToThreadDataMap := (mbp_threadToThreadDataMap p)(t \<mapsto> td')\<rparr>"
  have push: "mailbox_push key addr renew self p e src dst b = Some (p', e')"
    using td by (simp add: mailbox_push_def mb_thread_of [OF inv src] mb_thread_of [OF inv dst] Let_def p'_def td'_def e'_def)
  note th = mb_inv_thread [OF inv td]
  have fresh: "ev_ptr e' \<notin> ev_ptr ` mb_pending p" using e(2) by (simp add: e'_def)
  then have new: "ev_ptr e' \<notin> ev_ptr ` (box_events (mbt_mailboxes td) \<union> qd_events (mbt_qdata td))"
    using th(3) by (auto simp: td_events_def)
  note q = boxes_ok_queue_push [OF th(2) new, of renew] and d = boxes_ok_deliver [OF th(2) new refl, of addr renew key]
  have ok: "boxes_ok (mbt_mailboxes td') (mbt_qdata td')" and ev: "td_events td' = insert e' (td_events td)"
    using q d by (simp_all add: td'_def td_events_def)
  have "mb_pending p - td_events td \<union> td_events td' = insert e' (mb_pending p)" using th(3) ev by blast
  moreover have "inj_on ev_ptr (insert e' (mb_pending p))"
    using inv fresh by (intro inj_on_insert_new) (simp_all add: mb_inv_def)
  moreover have "mbp_hostToThreadMap p (ev_dstHost y) = Some t" if "y \<in> td_events td'" for y
    using that th(4) dst e(1) unfolding ev by (auto simp: e'_def)
  ultimately have u: "mb_inv p'" "mb_pending p' = insert e' (mb_pending p)" "mbp_hostToThreadMap p' = mbp_hostToThreadMap p"
    using mb_upd [OF inv td p'_def ok] by simp_all
  show thesis
  proof (rule that [of p' td'])
    show "mbt_qdata td' = queuedata_push renew (adjusted (s \<noteq> t) b e) (mbt_qdata td)" if "self = t"
      using that by (simp add: td'_def e'_def)
    show "mbt_qdata td' = mbt_qdata td" if "self \<noteq> t" using that d(2) by (simp add: td'_def)
    show "adjusted (s \<noteq> t) b e \<in> box_events (mbt_mailboxes td')" if "self \<noteq> t"
      using that d(3) by (simp add: td'_def e'_def)
    show "mbp_threadToThreadDataMap p' t = Some td'" by (simp add: p'_def)
  qed (use push u in \<open>simp_all add: e'_def\<close>)
qed

lemma mailbox_pop_law:
  assumes inv: "mb_inv p" and td: "mbp_threadToThreadDataMap p t = Some td"
    and pop: "queuedata_pop renew b (mbt_qdata td) = Some (qd, r)"
  obtains p' where "mailbox_pop renew t p b = Some (p', r)" and "mb_inv p'"
    and "mb_pending p' = (case r of None \<Rightarrow> mb_pending p | Some e \<Rightarrow> mb_pending p - {e})"
    and "mbp_hostToThreadMap p' = mbp_hostToThreadMap p"
    and "mbp_threadToThreadDataMap p' t = Some (td\<lparr>mbt_qdata := qd\<rparr>)"
proof -
  define p' where "p' = p\<lparr>mbp_threadToThreadDataMap := (mbp_threadToThreadDataMap p)(t \<mapsto> td\<lparr>mbt_qdata := qd\<rparr>)\<rparr>"
  note th = mb_inv_thread [OF inv td]
  have ok: "boxes_ok (mbt_mailboxes (td\<lparr>mbt_qdata := qd\<rparr>)) (mbt_qdata (td\<lparr>mbt_qdata := qd\<rparr>))"
    using boxes_ok_pop [OF th(2) pop] by simp
  have qi: "qd_inv (mbt_qdata td)" and disj: "box_events (mbt_mailboxes td) \<inter> qd_events (mbt_qdata td) = {}"
    using th(2) by (simp_all add: boxes_ok_def)
  have ev: "td_events (td\<lparr>mbt_qdata := qd\<rparr>) = (case r of None \<Rightarrow> td_events td | Some e \<Rightarrow> td_events td - {e})"
    and mem: "r = Some e \<Longrightarrow> e \<in> td_events td" for e
  proof (cases r)
    case None
    then show "td_events (td\<lparr>mbt_qdata := qd\<rparr>) = (case r of None \<Rightarrow> td_events td | Some e \<Rightarrow> td_events td - {e})"
      using queuedata_pop_None(1) [OF qi pop [unfolded None]] by (simp add: td_events_def)
  next
    case (Some x)
    note q = queuedata_pop_Some [OF qi pop [unfolded Some]]
    show "td_events (td\<lparr>mbt_qdata := qd\<rparr>) = (case r of None \<Rightarrow> td_events td | Some e \<Rightarrow> td_events td - {e})"
      using q(2,3) disj Some by (auto simp: td_events_def)
    show "r = Some e \<Longrightarrow> e \<in> td_events td" using q(2) Some by (simp add: td_events_def)
  qed
  have sub: "td_events (td\<lparr>mbt_qdata := qd\<rparr>) \<subseteq> td_events td" unfolding ev by (cases r) auto
  have "inj_on ev_ptr (mb_pending p - td_events td \<union> td_events (td\<lparr>mbt_qdata := qd\<rparr>))"
    using inv sub th(3) unfolding mb_inv_def by (blast intro: inj_on_subset)
  then have u: "mb_inv p'" "mb_pending p' = mb_pending p - td_events td \<union> td_events (td\<lparr>mbt_qdata := qd\<rparr>)"
      "mbp_hostToThreadMap p' = mbp_hostToThreadMap p"
    using mb_upd [OF inv td p'_def ok] th(4) sub by auto
  show thesis
  proof (rule that [of p'])
    show "mailbox_pop renew t p b = Some (p', r)" using td pop by (simp add: mailbox_pop_def p'_def)
    show "mb_pending p' = (case r of None \<Rightarrow> mb_pending p | Some e \<Rightarrow> mb_pending p - {e})"
      using th(3) mem unfolding u(2) ev by (cases r) auto
    show "mbp_threadToThreadDataMap p' t = Some (td\<lparr>mbt_qdata := qd\<rparr>)" by (simp add: p'_def)
  qed (use u in simp_all)
qed

lemma mailbox_getNextTime_law:
  assumes inv: "mb_inv p" and td: "mbp_threadToThreadDataMap p t = Some td"
    and vals: "dom (mbt_mailboxes td) \<subseteq> set (vals (mbt_mailboxes td))"
  obtains p' td' where "mailbox_getNextTime vals renew t p =
        (p', Min (insert SIMTIME_MAX (ev_time ` {y \<in> mb_pending p. mbp_hostToThreadMap p (ev_dstHost y) = Some t})))"
    and "mb_inv p'" and "mb_pending p' = mb_pending p" and "mbp_hostToThreadMap p' = mbp_hostToThreadMap p"
    and "mbp_threadToThreadDataMap p' t = Some td'" and "qd_events (mbt_qdata td') = td_events td"
    and "qd_lastEventTime (mbt_qdata td') = qd_lastEventTime (mbt_qdata td)"
proof -
  obtain boxes qd where d: "drain_mailboxes renew (vals (mbt_mailboxes td)) (mbt_mailboxes td) (mbt_qdata td) = (boxes, qd)"
    by (cases "drain_mailboxes renew (vals (mbt_mailboxes td)) (mbt_mailboxes td) (mbt_qdata td)")
  define td' where "td' = td\<lparr>mbt_qdata := qd, mbt_mailboxes := boxes\<rparr>"
  define p' where "p' = p\<lparr>mbp_threadToThreadDataMap := (mbp_threadToThreadDataMap p)(t \<mapsto> td')\<rparr>"
  note th = mb_inv_thread [OF inv td]
  note s = drain_mailboxes_spec [OF th(2) d]
  have "box_events boxes = {}"
  proof (rule box_events_empty)
    show "map_option pq_heap (boxes k) = Some []" if "boxes k \<noteq> None" for k
      using s vals that by blast
  qed
  then have q: "qd_events qd = td_events td" and ev: "td_events td' = td_events td"
    using s by (simp_all add: td_events_def td'_def)
  have ok: "boxes_ok (mbt_mailboxes td') (mbt_qdata td')" using s by (simp add: td'_def)
  have "mb_pending p - td_events td \<union> td_events td' = mb_pending p" using th(3) ev by blast
  then have u: "mb_inv p'" "mb_pending p' = mb_pending p" "mbp_hostToThreadMap p' = mbp_hostToThreadMap p"
    using mb_upd [OF inv td p'_def ok] inv th(4) ev by (simp_all add: mb_inv_def)
  have "qd_inv qd" using s by (simp add: boxes_ok_def)
  note m = queuedata_minTime_spec [OF this, of SIMTIME_MAX, unfolded q, folded mb_pending_thread [OF inv td]]
  show thesis
  proof (rule that [of p' td'])
    show "mailbox_getNextTime vals renew t p =
        (p', Min (insert SIMTIME_MAX (ev_time ` {y \<in> mb_pending p. mbp_hostToThreadMap p (ev_dstHost y) = Some t})))"
      using td d m by (simp add: mailbox_getNextTime_def p'_def td'_def)
    show "mbp_threadToThreadDataMap p' t = Some td'" by (simp add: p'_def)
    show "qd_events (mbt_qdata td') = td_events td" by (simp add: td'_def q)
    show "qd_lastEventTime (mbt_qdata td') = qd_lastEventTime (mbt_qdata td)" using s by (simp add: td'_def)
  qed (use u in simp_all)
qed

section \<open>Events that arrive late\<close>

text \<open>
  A mailbox is read only by \<^verbatim>\<open>getNextTime\<close>, which a thread calls at the end of its own round. A
  thread that is still running may deliver after that; the event then stays in the mailbox
  for the whole next round.
\<close>

lemma mailbox_late_event:
  assumes inv: "mb_inv p" and own: "mbp_hostToThreadMap p src = Some s" "mbp_hostToThreadMap p dst = Some t"
    and diff: "s \<noteq> t" "self \<noteq> t" and td: "mbp_threadToThreadDataMap p t = Some td"
    and e: "ev_dstHost e = dst" "ev_ptr e \<notin> ev_ptr ` mb_pending p"
    and clk: "qd_clock_ok (mbt_qdata td)"
    and later: "\<And>y. y \<in> qd_events (mbt_qdata td) \<Longrightarrow> max b (ev_time e) < ev_time y"
    and some: "head \<in> qd_events (mbt_qdata td)" "ev_time head < b2"
    and vals: "\<forall>m. finite (dom m) \<longrightarrow> set (vals m) = dom m"
  shows "\<exists>p1 e' p2 x p3 m. mailbox_push key addr renew self p e src dst b = Some (p1, e') \<and>
    mailbox_pop renew t p1 b2 = Some (p2, Some x) \<and> ev_time e' < ev_time x \<and>
    mailbox_getNextTime vals renew t p2 = (p3, m) \<and> m \<le> ev_time e' \<and>
    (\<forall>b3. ev_time e' < b3 \<longrightarrow> mailbox_pop renew t p3 b3 = None)"
proof -
  let ?e = "adjusted (s \<noteq> t) b e"
  obtain p1 td1 where 1: "mailbox_push key addr renew self p e src dst b = Some (p1, ?e)" "mb_inv p1"
      "mbp_threadToThreadDataMap p1 t = Some td1" "mbt_qdata td1 = mbt_qdata td"
      "?e \<in> box_events (mbt_mailboxes td1)" "mbp_hostToThreadMap p1 = mbp_hostToThreadMap p"
    by (rule mailbox_push_law [OF inv own td e, of key addr renew self b]) (use diff(2) in blast)
  have qi: "qd_inv (mbt_qdata td)" using mb_inv_thread(2) [OF inv td] by (simp add: boxes_ok_def)
  obtain qd r where pop: "queuedata_pop renew b2 (mbt_qdata td) = Some (qd, r)"
    using queuedata_pop_total [OF clk, of renew b2] by auto
  have "r \<noteq> None"
  proof
    assume "r = None"
    then have "b2 \<le> ev_time head" using queuedata_pop_None(2) [OF qi _ some(1), of renew b2 qd] pop by simp
    then show False using some(2) by simp
  qed
  then obtain x where x: "r = Some x" by auto
  note q = queuedata_pop_Some [OF qi pop [unfolded x]]
  have lt: "ev_time ?e < ev_time x" using later [OF q(2)] diff(1) by (simp add: ev_time_adjusted)
  define td2 where "td2 = td1\<lparr>mbt_qdata := qd\<rparr>"
  have "queuedata_pop renew b2 (mbt_qdata td1) = Some (qd, Some x)" using pop x 1(4) by simp
  from mailbox_pop_law [OF 1(2,3) this, folded td2_def]
  obtain p2 where 2: "mailbox_pop renew t p1 b2 = Some (p2, Some x)" "mb_inv p2"
      "mbp_threadToThreadDataMap p2 t = Some td2" .
  have ev: "?e \<in> td_events td2" using 1(5) by (simp add: td2_def td_events_def)
  have clk2: "qd_lastEventTime (mbt_qdata td2) = ev_time x" using q(6) by (simp add: td2_def)
  have "dom (mbt_mailboxes td2) \<subseteq> set (vals (mbt_mailboxes td2))"
    using vals mb_inv_thread(2) [OF 2(2,3)] by (simp add: boxes_ok_def)
  from mailbox_getNextTime_law [where vals = vals and renew = renew, OF 2(2,3) this, unfolded clk2]
  obtain p3 td3 where 3: "mailbox_getNextTime vals renew t p2 =
        (p3, Min (insert SIMTIME_MAX (ev_time ` {y \<in> mb_pending p2. mbp_hostToThreadMap p2 (ev_dstHost y) = Some t})))"
      "mb_inv p3" "mbp_threadToThreadDataMap p3 t = Some td3"
      "qd_events (mbt_qdata td3) = td_events td2" "qd_lastEventTime (mbt_qdata td3) = ev_time x" .
  have "?e \<in> {y \<in> mb_pending p2. mbp_hostToThreadMap p2 (ev_dstHost y) = Some t}"
    using ev unfolding mb_pending_thread [OF 2(2,3)] .
  moreover have "finite {y \<in> mb_pending p2. mbp_hostToThreadMap p2 (ev_dstHost y) = Some t}"
    unfolding mb_pending_thread [OF 2(2,3)] using finite_qd_events [of "mbt_qdata td3"] by (simp add: 3(4))
  ultimately have m: "Min (insert SIMTIME_MAX (ev_time ` {y \<in> mb_pending p2. mbp_hostToThreadMap p2 (ev_dstHost y) = Some t})) \<le> ev_time ?e"
    by (intro Min_le) auto
  have "qd_inv (mbt_qdata td3)" using mb_inv_thread(2) [OF 3(2,3)] by (simp add: boxes_ok_def)
  then have "mailbox_pop renew t p3 b3 = None" if "ev_time ?e < b3" for b3
    using queuedata_pop_aborts [of "mbt_qdata td3" ?e b3 renew] ev lt that 3(3-5) by (simp add: mailbox_pop_def)
  then show ?thesis using 1(1) 2(1) lt 3(1) m by blast
qed

text \<open>What a pop returns once the mailboxes are empty.\<close>

lemma mailbox_collects:
  assumes inv: "mb_inv p" and td: "mbp_threadToThreadDataMap p t = Some td"
    and vals: "\<forall>m. finite (dom m) \<longrightarrow> set (vals m) = dom m"
    and E: "E = {y \<in> mb_pending p. mbp_hostToThreadMap p (ev_dstHost y) = Some t}"
    and clk: "\<forall>y \<in> E. qd_lastEventTime (mbt_qdata td) \<le> ev_time y"
  shows "\<exists>p'. mailbox_getNextTime vals renew t p = (p', Min (insert SIMTIME_MAX (ev_time ` E))) \<and>
    mb_inv p' \<and> mb_pending p' = mb_pending p \<and>
    (case mailbox_pop renew t p' b of
       None \<Rightarrow> False
     | Some (p'', None) \<Rightarrow> mb_pending p'' = mb_pending p \<and> (\<forall>y \<in> E. b \<le> ev_time y)
     | Some (p'', Some x) \<Rightarrow> mb_pending p'' = mb_pending p - {x} \<and> x \<in> E \<and> ev_time x < b \<and> (\<forall>y \<in> E. event_le x y))"
proof -
  have "dom (mbt_mailboxes td) \<subseteq> set (vals (mbt_mailboxes td))"
    using vals mb_inv_thread(2) [OF inv td] by (simp add: boxes_ok_def)
  from mailbox_getNextTime_law [where vals = vals and renew = renew, OF inv td this, folded E]
  obtain p' td' where 1: "mailbox_getNextTime vals renew t p = (p', Min (insert SIMTIME_MAX (ev_time ` E)))"
      "mb_inv p'" "mb_pending p' = mb_pending p" "mbp_threadToThreadDataMap p' t = Some td'"
      "qd_events (mbt_qdata td') = td_events td" "qd_lastEventTime (mbt_qdata td') = qd_lastEventTime (mbt_qdata td)" .
  have ev: "qd_events (mbt_qdata td') = E" unfolding E 1(5) by (rule mb_pending_thread [OF inv td, symmetric])
  have qi: "qd_inv (mbt_qdata td')" using mb_inv_thread(2) [OF 1(2,4)] by (simp add: boxes_ok_def)
  have "qd_clock_ok (mbt_qdata td')" using clk by (simp add: qd_clock_ok_def ev 1(6))
  then obtain qd r where pop: "queuedata_pop renew b (mbt_qdata td') = Some (qd, r)"
    using queuedata_pop_total [of "mbt_qdata td'" renew b] by auto
  from mailbox_pop_law [OF 1(2,4) pop]
  obtain p'' where 2: "mailbox_pop renew t p' b = Some (p'', r)"
      "mb_pending p'' = (case r of None \<Rightarrow> mb_pending p' | Some e \<Rightarrow> mb_pending p' - {e})" .
  have "case r of None \<Rightarrow> mb_pending p'' = mb_pending p \<and> (\<forall>y \<in> E. b \<le> ev_time y)
     | Some x \<Rightarrow> mb_pending p'' = mb_pending p - {x} \<and> x \<in> E \<and> ev_time x < b \<and> (\<forall>y \<in> E. event_le x y)"
  proof (cases r)
    case None
    then show ?thesis using queuedata_pop_None(2) [OF qi] pop 2(2) 1(3) by (simp add: ev [symmetric])
  next
    case (Some x)
    note q = queuedata_pop_Some [OF qi pop [unfolded Some], unfolded ev]
    show ?thesis using q(2,4,7) 2(2) 1(3) Some by simp
  qed
  then show ?thesis using 1(1-3) 2(1) by (intro exI [where x = p']) (simp split: option.splits)
qed

lemma mb_inv_new [wf_intros]: "mb_inv mailbox_policy_new"
  by (simp add: mb_inv_def mailbox_policy_new_def mb_pending_def)

lemma boxes_ok_empty: "boxes_ok Map.empty (queuedata_new addr)" "box_events Map.empty = {}"
  by (simp_all add: boxes_ok_def box_events_def qd_inv_new)

lemma mailbox_addHost_inv [wf_intros]:
  assumes inv: "mb_inv p" and new: "mbp_hostToThreadMap p h = None"
    and u: "u = (if t \<noteq> 0 then t else self)" "u < 2 ^ 32"
    and p': "p' = mailbox_addHost addr self p h t"
  shows "mb_inv p'" and "mb_pending p' = mb_pending p"
    and "mbp_hostToThreadMap p' = (mbp_hostToThreadMap p)(h \<mapsto> u)"
proof -
  define td where "td = (case mbp_threadToThreadDataMap p u of None \<Rightarrow> mailbox_threaddata_new addr | Some td \<Rightarrow> td)"
  let ?td' = "td\<lparr>mbt_assignedHosts := mbt_assignedHosts td @ [h]\<rparr>"
  show own: "mbp_hostToThreadMap p' = (mbp_hostToThreadMap p)(h \<mapsto> u)"
    by (simp add: p' mailbox_addHost_def Let_def u(1))
  have threads: "mbp_threadToThreadDataMap p' = (mbp_threadToThreadDataMap p)(u \<mapsto> ?td')"
    by (simp add: p' mailbox_addHost_def Let_def td_def u(1))
  have td: "boxes_ok (mbt_mailboxes td) (mbt_qdata td)"
    "td_events td = {e. \<exists>q. mbp_threadToThreadDataMap p u = Some q \<and> e \<in> td_events q}"
  proof (atomize (full), cases "mbp_threadToThreadDataMap p u")
    case None
    then have "td = mailbox_threaddata_new addr" by (simp add: td_def)
    then show "boxes_ok (mbt_mailboxes td) (mbt_qdata td) \<and>
        td_events td = {e. \<exists>q. mbp_threadToThreadDataMap p u = Some q \<and> e \<in> td_events q}"
      using None by (simp add: mailbox_threaddata_new_def boxes_ok_empty td_events_def qd_inv_new)
  next
    case (Some q)
    then have "td = q" by (simp add: td_def)
    then show "boxes_ok (mbt_mailboxes td) (mbt_qdata td) \<and>
        td_events td = {e. \<exists>q. mbp_threadToThreadDataMap p u = Some q \<and> e \<in> td_events q}"
      using mb_inv_thread(2) [OF inv Some] Some by simp
  qed
  have ev: "td_events ?td' = td_events td" by (simp add: td_events_def)
  show pend: "mb_pending p' = mb_pending p"
  proof (intro set_eqI)
    fix e
    show "e \<in> mb_pending p' \<longleftrightarrow> e \<in> mb_pending p"
      using map_upd_ex [of "mbp_threadToThreadDataMap p" u ?td' "\<lambda>q. e \<in> td_events q"]
        map_ex_split [of "mbp_threadToThreadDataMap p" "\<lambda>q. e \<in> td_events q" u]
      unfolding mb_pending_def mem_Collect_eq threads ev td(2) by blast
  qed
  have other: "mbp_hostToThreadMap p' (ev_dstHost e) = Some s"
    if "mbp_threadToThreadDataMap p s = Some q" "e \<in> td_events q" for e s q
    using mb_inv_thread(4) [OF inv that] new by (auto simp: own)
  have mine: "mbp_hostToThreadMap p' (ev_dstHost e) = Some u" if "e \<in> td_events ?td'" for e
    using that other unfolding ev td(2) by blast
  have "s < 2 ^ 32 \<and> boxes_ok (mbt_mailboxes q) (mbt_qdata q) \<and>
      (\<forall>e \<in> td_events q. mbp_hostToThreadMap p' (ev_dstHost e) = Some s)"
    if "mbp_threadToThreadDataMap p' s = Some q" for s q
  proof (cases "s = u")
    case True
    then have "q = ?td'" using that threads by simp
    then show ?thesis using u(2) td(1) mine True by simp
  next
    case False
    then have "mbp_threadToThreadDataMap p s = Some q" using that threads by simp
    then show ?thesis using mb_inv_thread(1,2) [OF inv] other by blast
  qed
  moreover have "mbp_threadToThreadDataMap p' s \<noteq> None" if "mbp_hostToThreadMap p' g = Some s" for g s
    using that mb_inv_owner [OF inv, of g s] unfolding own threads by (cases "s = u"; cases "g = h") auto
  ultimately show "mb_inv p'" using inv unfolding mb_inv_def pend by blast
qed

section \<open>Properties\<close>

text \<open>
  A sample: host 1 runs on thread 5 and host 2 on thread 7, whose queue holds an event at time 50.
\<close>

definition sample_mail_event :: "nat \<Rightarrow> hostid \<Rightarrow> simtime \<Rightarrow> event" where
  "sample_mail_event ptr src time =
     \<lparr>ev_ptr = ptr, ev_srcHost = src, ev_dstHost = 2, ev_task = 1, ev_time = time, ev_srcHostEventID = 0,
      ev_referenceCount = 1\<rparr>"

definition sample_hosts :: perthread_policy where
  "sample_hosts = mailbox_addHost 0 0 (mailbox_addHost 0 0 mailbox_policy_new 1 5) 2 7"

definition sample_mail :: perthread_policy where
  "sample_mail = fst (the (schedulerpolicythreadperthread_push 0 (\<lambda>a n. a) 7 sample_hosts (sample_mail_event 1 2 50) 2 2 10))"

abbreviation listed_keys :: "('k::linorder \<rightharpoonup> event pqueue) \<Rightarrow> 'k list" where
  "listed_keys boxes \<equiv> sorted_list_of_set (dom boxes)"

lemma sample_hosts_facts:
  "mb_inv sample_hosts" "mb_pending sample_hosts = {}" "mbp_hostToThreadMap sample_hosts = [1 \<mapsto> 5, 2 \<mapsto> 7]"
  "mbp_threadToThreadDataMap sample_hosts 7 = Some ((mailbox_threaddata_new 0)\<lparr>mbt_assignedHosts := [2]\<rparr>)"
proof -
  have 1: "mb_inv (mailbox_addHost 0 0 mailbox_policy_new 1 5)" "mb_pending (mailbox_addHost 0 0 mailbox_policy_new 1 5) = {}"
    "mbp_hostToThreadMap (mailbox_addHost 0 0 mailbox_policy_new 1 5) = [1 \<mapsto> 5]"
    using mailbox_addHost_inv [OF mb_inv_new _ _ _ refl, of 1 5 5 0 0]
    by (simp_all add: mailbox_policy_new_def mb_pending_def)
  show "mb_inv sample_hosts" "mb_pending sample_hosts = {}" "mbp_hostToThreadMap sample_hosts = [1 \<mapsto> 5, 2 \<mapsto> 7]"
    using mailbox_addHost_inv [OF 1(1) _ _ _ refl, of 2 7 7 0 0] by (simp_all add: sample_hosts_def 1(2,3))
  show "mbp_threadToThreadDataMap sample_hosts 7 = Some ((mailbox_threaddata_new 0)\<lparr>mbt_assignedHosts := [2]\<rparr>)"
    by (simp add: sample_hosts_def mailbox_addHost_def mailbox_policy_new_def mailbox_threaddata_new_def)
qed

lemma sample_mail_facts:
  obtains td where "mb_inv sample_mail" and "mb_pending sample_mail = {sample_mail_event 1 2 50}"
    and "mbp_hostToThreadMap sample_mail = [1 \<mapsto> 5, 2 \<mapsto> 7]" and "mbp_threadToThreadDataMap sample_mail 7 = Some td"
    and "qd_events (mbt_qdata td) = {sample_mail_event 1 2 50}" and "qd_lastEventTime (mbt_qdata td) = 0"
proof -
  have own: "mbp_hostToThreadMap sample_hosts 2 = Some 7" by (simp add: sample_hosts_facts(3))
  obtain p' td' where p': "mailbox_push 7 0 (\<lambda>a n. a) 7 sample_hosts (sample_mail_event 1 2 50) 2 2 10 = Some (p', adjusted (7 \<noteq> (7::pthread)) 10 (sample_mail_event 1 2 50))"
      "mb_inv p'" "mb_pending p' = insert (adjusted (7 \<noteq> (7::pthread)) 10 (sample_mail_event 1 2 50)) (mb_pending sample_hosts)"
      "mbp_hostToThreadMap p' = mbp_hostToThreadMap sample_hosts" "mbp_threadToThreadDataMap p' 7 = Some td'"
      "mbt_qdata td' = queuedata_push (\<lambda>a n. a) (adjusted (7 \<noteq> (7::pthread)) 10 (sample_mail_event 1 2 50)) (queuedata_new 0)"
    by (rule mailbox_push_law [OF sample_hosts_facts(1) own own sample_hosts_facts(4),
          of "sample_mail_event 1 2 50" 7 0 "\<lambda>a n. a" 7 10])
       (simp_all add: sample_mail_event_def sample_hosts_facts(2) mailbox_threaddata_new_def)
  have e: "adjusted (7 \<noteq> (7::pthread)) 10 (sample_mail_event 1 2 50) = sample_mail_event 1 2 50" by (simp add: adjusted_def)
  have "mailbox_thread sample_hosts 2 = 7" by (rule mb_thread_of [OF sample_hosts_facts(1) own])
  then have s: "sample_mail = p'" using p'(1) by (simp add: sample_mail_def schedulerpolicythreadperthread_push_def)
  have "ev_ptr (sample_mail_event 1 2 50) \<notin> ev_ptr ` qd_events (queuedata_new 0)" by (simp add: qd_inv_new(2))
  note q = queuedata_push_spec(2,3) [OF qd_inv_new(1) this, where renew = "\<lambda>a n. a"]
  have "qd_events (mbt_qdata td') = {sample_mail_event 1 2 50}" using q(1) unfolding p'(6) e qd_inv_new(2) .
  moreover have "qd_lastEventTime (mbt_qdata td') = 0" using q(2) unfolding p'(6) e by (simp add: queuedata_new_def)
  moreover have "mb_pending p' = {sample_mail_event 1 2 50}" using p'(3) unfolding e sample_hosts_facts(2) .
  ultimately show thesis using that [of td'] p'(2,4,5) sample_hosts_facts(3) by (simp only: s)
qed



text \<open>
  C39: an event that reaches a mailbox after the destination thread has read it is overtaken: in the next round
  \<^verbatim>\<open>pop\<close> returns a later event of the same thread, the next \<^verbatim>\<open>getNextTime\<close> reports a time in the past,
  and the \<^verbatim>\<open>pop\<close> after that fails its assertion. The sending thread only has to be still running when the
  destination thread ends its round, which the comment in \<^verbatim>\<open>getNextTime\<close> rules out and the scheduler does not.
\<close>

theorem perthread_late_event_aborts:
  assumes "mb_inv p" and "mbp_hostToThreadMap p src = Some s" and "mbp_hostToThreadMap p dst = Some t"
    and "s \<noteq> t" and "self \<noteq> t" and "mbp_threadToThreadDataMap p t = Some td"
    and "ev_dstHost e = dst" and "ev_ptr e \<notin> ev_ptr ` mb_pending p"
    and "qd_clock_ok (mbt_qdata td)"
    and "\<And>y. y \<in> qd_events (mbt_qdata td) \<Longrightarrow> max b (ev_time e) < ev_time y"
    and "head \<in> qd_events (mbt_qdata td)" and "ev_time head < b2"
    and "\<forall>m. finite (dom m) \<longrightarrow> set (vals m) = dom m"
  shows "\<exists>p1 e' p2 x p3 m. schedulerpolicythreadperthread_push addr renew self p e src dst b = Some (p1, e') \<and>
    schedulerpolicythreadperthread_pop renew t p1 b2 = Some (p2, Some x) \<and> ev_time e' < ev_time x \<and>
    schedulerpolicythreadperthread_getNextTime vals renew t p2 = (p3, m) \<and> m \<le> ev_time e' \<and>
    (\<forall>b3. ev_time e' < b3 \<longrightarrow> schedulerpolicythreadperthread_pop renew t p3 b3 = None)"
  unfolding schedulerpolicythreadperthread_push_def schedulerpolicythreadperthread_pop_def
    schedulerpolicythreadperthread_getNextTime_def
  using assms by (rule mailbox_late_event)

theorem perthread_late_event_aborts_witness:
  "\<exists>p1 e' p2 x p3 m. schedulerpolicythreadperthread_push 9 (\<lambda>a n. a) 5 sample_mail (sample_mail_event 2 1 5) 1 2 10 = Some (p1, e') \<and>
    schedulerpolicythreadperthread_pop (\<lambda>a n. a) 7 p1 100 = Some (p2, Some x) \<and> ev_time e' < ev_time x \<and>
    schedulerpolicythreadperthread_getNextTime listed_keys (\<lambda>a n. a) 7 p2 = (p3, m) \<and> m \<le> ev_time e' \<and>
    (\<forall>b3. ev_time e' < b3 \<longrightarrow> schedulerpolicythreadperthread_pop (\<lambda>a n. a) 7 p3 b3 = None)"
proof -
  obtain td where f: "mb_inv sample_mail" "mb_pending sample_mail = {sample_mail_event 1 2 50}"
    "mbp_hostToThreadMap sample_mail = [1 \<mapsto> 5, 2 \<mapsto> 7]" "mbp_threadToThreadDataMap sample_mail 7 = Some td"
    "qd_events (mbt_qdata td) = {sample_mail_event 1 2 50}" "qd_lastEventTime (mbt_qdata td) = 0"
    by (rule sample_mail_facts)
  show ?thesis
    by (rule perthread_late_event_aborts [OF f(1) _ _ _ _ f(4), where s = 5 and head = "sample_mail_event 1 2 50"])
       (simp_all add: f sample_mail_event_def qd_clock_ok_def)
qed

text \<open>The same holds for the mailboxes by source host.\<close>

lemma perhost_late_event_aborts:
  assumes "mb_inv p" and "mbp_hostToThreadMap p src = Some s" and "mbp_hostToThreadMap p dst = Some t"
    and "s \<noteq> t" and "self \<noteq> t" and "mbp_threadToThreadDataMap p t = Some td"
    and "ev_dstHost e = dst" and "ev_ptr e \<notin> ev_ptr ` mb_pending p"
    and "qd_clock_ok (mbt_qdata td)"
    and "\<And>y. y \<in> qd_events (mbt_qdata td) \<Longrightarrow> max b (ev_time e) < ev_time y"
    and "head \<in> qd_events (mbt_qdata td)" and "ev_time head < b2"
    and "\<forall>m. finite (dom m) \<longrightarrow> set (vals m) = dom m"
  shows "\<exists>p1 e' p2 x p3 m. schedulerpolicythreadperhost_push addr renew self p e src dst b = Some (p1, e') \<and>
    schedulerpolicythreadperhost_pop renew t p1 b2 = Some (p2, Some x) \<and> ev_time e' < ev_time x \<and>
    schedulerpolicythreadperhost_getNextTime vals renew t p2 = (p3, m) \<and> m \<le> ev_time e' \<and>
    (\<forall>b3. ev_time e' < b3 \<longrightarrow> schedulerpolicythreadperhost_pop renew t p3 b3 = None)"
  unfolding schedulerpolicythreadperhost_push_def schedulerpolicythreadperhost_pop_def
    schedulerpolicythreadperhost_getNextTime_def
  using assms by (rule mailbox_late_event)

end
