(* ===== verification/Event_Order.thy ===== *)
theory Event_Order
  imports Event_Queue
begin

text \<open>
  What the event queue of the scheduler promises: on any sequence of pushes and pops the binary
  heap of \<^verbatim>\<open>utility/priority_queue.c\<close> with the comparison of \<^verbatim>\<open>core/work/event.c\<close> answers like a
  list that is kept sorted by time, destination, source and event number.
\<close>

datatype queue_op = Push event | Pop

fun heap_run :: "renew_func \<Rightarrow> queue_op list \<Rightarrow> event pqueue \<Rightarrow> event option list" where
  "heap_run renew [] q = []"
| "heap_run renew (Push e # ops) q = heap_run renew ops (fst (priorityqueue_push event_compare renew q e))"
| "heap_run renew (Pop # ops) q =
     (let (q', r) = priorityqueue_pop event_compare renew q in r # heap_run renew ops q')"

fun sorted_run :: "queue_op list \<Rightarrow> event list \<Rightarrow> event option list" where
  "sorted_run [] xs = []"
| "sorted_run (Push e # ops) xs = sorted_run ops (insort_key event_key e xs)"
| "sorted_run (Pop # ops) [] = None # sorted_run ops []"
| "sorted_run (Pop # ops) (x # xs) = Some x # sorted_run ops xs"

fun pushed :: "queue_op list \<Rightarrow> event list" where
  "pushed [] = []"
| "pushed (Push e # ops) = e # pushed ops"
| "pushed (Pop # ops) = pushed ops"

text \<open>The heap holds the events of the sorted list.\<close>

definition sim_rel :: "event pqueue \<Rightarrow> event list \<Rightarrow> bool" where
  "sim_rel q xs \<longleftrightarrow> pq_inv event_le q \<and> mset (pq_heap q) = mset xs \<and> sorted (map event_key xs)"

lemma sim_rel_push:
  assumes "sim_rel q xs" and "e \<notin> set xs"
  shows "sim_rel (fst (priorityqueue_push event_compare renew q e)) (insort_key event_key e xs)"
proof -
  obtain q' b where p: "priorityqueue_push event_compare renew q e = (q', b)" by (meson surj_pair)
  have "e \<notin> set (pq_heap q)" using assms by (metis mset_eq_setD sim_rel_def)
  then have "pq_inv event_le q'" "mset (pq_heap q') = add_mset e (mset (pq_heap q))"
    using assms(1) evq.push_new [OF _ _ p] by (simp_all add: sim_rel_def)
  then show ?thesis using assms(1) p by (simp add: sim_rel_def sorted_insort_key)
qed

lemma sim_rel_pop:
  assumes rel: "sim_rel q (x # xs)" and inj: "inj_on event_key (set (x # xs))"
  obtains q' where "priorityqueue_pop event_compare renew q = (q', Some x)" "sim_rel q' xs"
proof -
  have inv: "pq_inv event_le q" and ms: "mset (pq_heap q) = add_mset x (mset xs)"
    and le: "\<And>y. y \<in> set xs \<Longrightarrow> event_key x \<le> event_key y" and so: "sorted (map event_key xs)"
    using rel by (auto simp: sim_rel_def)
  have "pq_heap q \<noteq> []" using ms by auto
  then obtain q' y where pop: "priorityqueue_pop event_compare renew q = (q', Some y)"
    using evq.pop_SomeE [OF inv] by metis
  note ok = evq.pop_correct [OF inv pop]
  have set: "set (pq_heap q) = set (x # xs)" using ms by (metis mset.simps(2) mset_eq_setD)
  have "event_key y \<le> event_key x" using ok(3) [of x] set by (simp add: event_le_key)
  moreover have "event_key x \<le> event_key y" using ok(2) set le by auto
  ultimately have "y = x" using inj ok(2) set by (metis antisym inj_onD list.set_intros(1))
  then show thesis using that pop ok(1,4) ms so by (simp add: sim_rel_def)
qed

lemma heap_run_sorted_run:
  assumes "sim_rel q xs" and "distinct (xs @ pushed ops)" and "inj_on event_key (set (xs @ pushed ops))"
  shows "heap_run renew ops q = sorted_run ops xs"
  using assms
proof (induction ops xs arbitrary: q rule: sorted_run.induct)
  case (2 e ops xs)
  have "sim_rel (fst (priorityqueue_push event_compare renew q e)) (insort_key event_key e xs)"
    using sim_rel_push 2 by simp
  moreover have "distinct (insort_key event_key e xs @ pushed ops)"
    using "2.prems"(2) by (auto simp: set_insort_key distinct_insort)
  moreover have "set (insort_key event_key e xs @ pushed ops) = set (xs @ pushed (Push e # ops))"
    by (auto simp: set_insort_key)
  ultimately show ?case using 2 by simp
next
  case (3 ops)
  then have "pq_heap q = []" by (simp add: sim_rel_def)
  then show ?case using 3 by (simp add: pop_empty)
next
  case (4 ops x xs)
  have "inj_on event_key (set (x # xs))" using "4.prems"(3) by (rule inj_on_subset) auto
  then obtain q' where "priorityqueue_pop event_compare renew q = (q', Some x)" "sim_rel q' xs"
    using sim_rel_pop "4.prems"(1) by blast
  moreover have "inj_on event_key (set (xs @ pushed ops))"
    using "4.prems"(3) by (rule inj_on_subset) auto
  ultimately show ?case using 4 by simp
qed simp

text \<open>
  C10: the heap refines the sorted list. Whatever pushes and pops are made on a new event queue, in any
  order, and however the allocator moves the array, the pops answer what a list sorted by
  \<open>event_key\<close> answers, as long as no event is pushed twice and no two events have
  the same time, hosts and number.
\<close>

theorem event_queue_refines_sorted_list:
  assumes "distinct (pushed ops)" and "inj_on event_key (set (pushed ops))"
  shows "heap_run renew ops (priorityqueue_new addr hasFree) = sorted_run ops []"
proof (rule heap_run_sorted_run)
  show "sim_rel (priorityqueue_new addr hasFree) []"
    using pq_inv_new [of event_le addr hasFree] by (simp add: sim_rel_def priorityqueue_new_def)
qed (use assms in simp_all)

definition order_event :: "nat \<Rightarrow> simtime \<Rightarrow> event" where
  "order_event ptr time = \<lparr>ev_ptr = ptr, ev_srcHost = 1, ev_dstHost = 2, ev_task = 1, ev_time = time,
     ev_srcHostEventID = 0, ev_referenceCount = 1\<rparr>"

theorem event_queue_refines_sorted_list_witness:
  "heap_run (\<lambda>a n. a + 5) [Push (order_event 1 9), Push (order_event 2 4), Pop, Push (order_event 3 7), Pop, Pop, Pop]
     (priorityqueue_new 0 True) = [Some (order_event 2 4), Some (order_event 3 7), Some (order_event 1 9), None]"
  using event_queue_refines_sorted_list
    [of "[Push (order_event 1 9), Push (order_event 2 4), Pop, Push (order_event 3 7), Pop, Pop, Pop]" "\<lambda>a n. a + 5" 0 True]
  by (simp add: order_event_def event_key_def less_eq_prod_simp)

lemma event_compare_range: "event_compare a b = - 1 \<or> event_compare a b = 0 \<or> event_compare a b = 1"
  by (simp add: event_compare_def Let_def)

lemma event_compare_eq:
  "event_compare a b = (if event_key a < event_key b then - 1 else if event_key a = event_key b then 0 else 1)"
  unfolding event_compare_neg [symmetric] event_compare_zero [symmetric] using event_compare_range by fastforce

lemma three_way_flip:
  fixes x y :: "'a::linorder"
  shows "(if x < y then - 1 else if x = y then 0 else 1) = - (if y < x then - 1 else if y = x then 0 else (1 :: int))"
  by auto

text \<open>
  C29: \<open>event_compare\<close> is the three-way comparison of a total preorder that depends only on the time, the
  two hosts and the event number, so that it does not depend on addresses or on threads: it is
  antisymmetric in sign, transitive, and zero exactly between events that agree in all four.
\<close>

theorem event_compare_total_order:
  "event_compare a b = - event_compare b a \<and>
   (event_compare a b = 0 \<longleftrightarrow> ev_time a = ev_time b \<and> ev_dstHost a = ev_dstHost b \<and>
      ev_srcHost a = ev_srcHost b \<and> ev_srcHostEventID a = ev_srcHostEventID b) \<and>
   \<not> (event_compare a b \<le> 0 \<and> event_compare b c \<le> 0 \<and> \<not> event_compare a c \<le> 0)"
proof (intro conjI)
  show "event_compare a b = - event_compare b a"
    unfolding event_compare_eq by (rule three_way_flip)
  show "event_compare a b = 0 \<longleftrightarrow> ev_time a = ev_time b \<and> ev_dstHost a = ev_dstHost b \<and>
      ev_srcHost a = ev_srcHost b \<and> ev_srcHostEventID a = ev_srcHostEventID b"
    unfolding event_compare_zero by (simp add: event_key_def)
  show "\<not> (event_compare a b \<le> 0 \<and> event_compare b c \<le> 0 \<and> \<not> event_compare a c \<le> 0)"
    using event_le_trans [of a b c] by (auto simp: event_le_def)
qed

end
