(* ===== verification/Timer.thy ===== *)
theory Timer
  imports Descriptor
begin

text \<open>
  \<^verbatim>\<open>host/descriptor/timer.c\<close>: timer descriptors. \<open>now\<close> is \<^verbatim>\<open>worker_getCurrentTime()\<close>. The expiration
  tasks a routine hands to \<^verbatim>\<open>worker_scheduleTask\<close> are part of its result, as pairs of the time at
  which the event runs and the expire id; each holds a reference to the timer. Seconds and
  nanoseconds of a \<^verbatim>\<open>struct timespec\<close> are signed 64-bit numbers; the products with the unsigned
  constants of the code wrap at 64 bits.
\<close>

section \<open>Timers\<close>

record timespec =
  tv_sec :: int
  tv_nsec :: int

record itimerspec =
  it_interval :: timespec
  it_value :: timespec

record timer =
  tm_super :: descriptor
  tm_nextExpireTime :: simtime
  tm_expireInterval :: simtime
  tm_expireCountSinceLastSet :: u64
  tm_nextExpireID :: u32
  tm_minValidExpireID :: u32
  tm_numEventsScheduled :: u32
  tm_isClosed :: bool

type_synonym timer_world = "timer \<times> listener_store"
type_synonym expire_event = "simtime \<times> u32"

definition TFD_TIMER_ABSTIME :: int where "TFD_TIMER_ABSTIME = 1"

definition timer_adjustStatus :: "desc_callback \<Rightarrow> timer_world \<Rightarrow> u32 \<Rightarrow> bool \<Rightarrow> timer_world option" where
  "timer_adjustStatus cb w status on = do {
     ((d, ls), called) \<leftarrow> descriptor_adjustStatus cb (tm_super (fst w), snd w) status on;
     Some ((fst w)\<lparr>tm_super := d\<rparr>, ls)
   }"

definition timer_close :: "desc_callback \<Rightarrow> timer_world \<Rightarrow> (timer_world \<times> bool) option" where
  "timer_close cb w = do {
     utility_assert (ds_type (tm_super (fst w)) = DT_TIMER);
     w' \<leftarrow> timer_adjustStatus cb ((fst w)\<lparr>tm_isClosed := True\<rparr>, snd w) STATUS_DESCRIPTOR_ACTIVE False;
     Some (w', ds_handle (tm_super (fst w')) > 0)
   }"

definition timer_free :: "timer_world \<Rightarrow> (listener_store \<times> (gpointer \<times> gpointer) list) option" where
  "timer_free w = do {
     utility_assert (ds_type (tm_super (fst w)) = DT_TIMER);
     descriptor_clear (tm_super (fst w), snd w)
   }"

definition timer_new :: "desc_callback \<Rightarrow> listener_store \<Rightarrow> timer_world option" where
  "timer_new cb ls =
     timer_adjustStatus cb
       (\<lparr>tm_super = descriptor_init DT_TIMER, tm_nextExpireTime = 0, tm_expireInterval = 0,
         tm_expireCountSinceLastSet = 0, tm_nextExpireID = 0, tm_minValidExpireID = 0,
         tm_numEventsScheduled = 0, tm_isClosed = False\<rparr>, ls) STATUS_DESCRIPTOR_ACTIVE True"

definition simtime_to_timespec :: "simtime \<Rightarrow> timespec" where
  "simtime_to_timespec t = \<lparr>tv_sec = uint (t div SIMTIME_ONE_SECOND), tv_nsec = uint (t mod SIMTIME_ONE_SECOND)\<rparr>"

definition timer_getCurrentTime :: "timer \<Rightarrow> simtime \<Rightarrow> timespec option" where
  "timer_getCurrentTime t now =
     (if tm_nextExpireTime t = 0 then Some \<lparr>tv_sec = 0, tv_nsec = 0\<rparr>
      else do {
        utility_assert (now \<le> tm_nextExpireTime t);
        Some (simtime_to_timespec (tm_nextExpireTime t - now))
      })"

definition timer_getCurrentInterval :: "timer \<Rightarrow> timespec" where
  "timer_getCurrentInterval t =
     (if tm_expireInterval t = 0 then \<lparr>tv_sec = 0, tv_nsec = 0\<rparr>
      else simtime_to_timespec (tm_expireInterval t))"

definition timer_getTime :: "timer \<Rightarrow> simtime \<Rightarrow> itimerspec option" where
  "timer_getTime t now = do {
     v \<leftarrow> timer_getCurrentTime t now;
     Some \<lparr>it_interval = timer_getCurrentInterval t, it_value = v\<rparr>
   }"

definition timer_disarm :: "timer \<Rightarrow> timer" where
  "timer_disarm t = t\<lparr>tm_nextExpireTime := 0, tm_expireInterval := 0, tm_minValidExpireID := tm_nextExpireID t\<rparr>"

definition timer_timespecToSimTime :: "timespec \<Rightarrow> bool \<Rightarrow> simtime" where
  "timer_timespecToSimTime config configTimeIsEmulatedTime =
     (let nanos = word_of_int (tv_sec config) * SIMTIME_ONE_SECOND + word_of_int (tv_nsec config)
      in if configTimeIsEmulatedTime
         then (if nanos \<ge> EMULATED_TIME_OFFSET then EMULATED_TIME_TO_SIMULATED_TIME nanos else 0)
         else nanos)"

definition timer_setCurrentTime :: "timer \<Rightarrow> simtime \<Rightarrow> timespec \<Rightarrow> int \<Rightarrow> timer" where
  "timer_setCurrentTime t now config flags =
     (if flags = TFD_TIMER_ABSTIME
      then let e = timer_timespecToSimTime config True in t\<lparr>tm_nextExpireTime := if e < now then now else e\<rparr>
      else t\<lparr>tm_nextExpireTime := now + timer_timespecToSimTime config False\<rparr>)"

definition timer_setCurrentInterval :: "timer \<Rightarrow> timespec \<Rightarrow> timer" where
  "timer_setCurrentInterval t config = t\<lparr>tm_expireInterval := timer_timespecToSimTime config False\<rparr>"

definition timer_scheduleNewExpireEvent :: "timer \<Rightarrow> simtime \<Rightarrow> timer \<times> expire_event" where
  "timer_scheduleNewExpireEvent t now =
     (let delay = min (tm_nextExpireTime t - now) SIMTIME_ONE_SECOND
      in (t\<lparr>tm_super := descriptor_ref (tm_super t), tm_nextExpireID := tm_nextExpireID t + 1,
            tm_numEventsScheduled := tm_numEventsScheduled t + 1\<rparr>,
          (now + delay, tm_nextExpireID t)))"

definition timer_expire ::
  "desc_callback \<Rightarrow> timer_world \<Rightarrow> simtime \<Rightarrow> u32 \<Rightarrow> (timer_world \<times> expire_event list) option" where
  "timer_expire cb w now expireID = do {
     let t = (fst w)\<lparr>tm_numEventsScheduled := tm_numEventsScheduled (fst w) - 1\<rparr>;
     if \<not> tm_isClosed t \<and> expireID \<ge> tm_minValidExpireID t
     then if tm_nextExpireTime t \<le> now
          then do {
            (t1, ls1) \<leftarrow> timer_adjustStatus cb
                (t\<lparr>tm_expireCountSinceLastSet := tm_expireCountSinceLastSet t + 1\<rparr>, snd w)
                STATUS_DESCRIPTOR_READABLE True;
            if tm_expireInterval t1 > 0
            then do {
              let next = tm_nextExpireTime t1 + tm_expireInterval t1;
              let t2 = t1\<lparr>tm_nextExpireTime := if next < now then now else next\<rparr>;
              let (t3, ev) = timer_scheduleNewExpireEvent t2 now;
              Some ((t3, ls1), [ev])
            }
            else Some ((timer_disarm t1, ls1), [])
          }
          else (let (t1, ev) = timer_scheduleNewExpireEvent t now in Some ((t1, snd w), [ev]))
     else Some ((t, snd w), [])
   }"

definition timer_arm :: "timer \<Rightarrow> simtime \<Rightarrow> itimerspec \<Rightarrow> int \<Rightarrow> timer \<times> expire_event list" where
  "timer_arm t now config flags =
     (let t1 = timer_setCurrentTime t now (it_value config) flags;
          t2 = (if tv_sec (it_interval config) > 0 \<or> tv_nsec (it_interval config) > 0
                then timer_setCurrentInterval t1 (it_interval config) else t1)
      in if tm_nextExpireTime t2 \<ge> now
         then let (t3, ev) = timer_scheduleNewExpireEvent t2 now in (t3, [ev])
         else (t2, []))"

definition timer_timeIsValid :: "timespec \<Rightarrow> bool" where
  "timer_timeIsValid config \<longleftrightarrow> \<not> (tv_nsec config < 0 \<or> tv_nsec config \<ge> uint SIMTIME_ONE_SECOND)"

text \<open>
  \<open>new_value\<close> is \<open>None\<close> for the null pointer; \<open>wantOld\<close> says whether \<^verbatim>\<open>old_value\<close> is given. The result
  has the timer, the scheduled events, the return value and the old setting where it was asked for.
\<close>

definition timer_setTime ::
  "desc_callback \<Rightarrow> timer_world \<Rightarrow> simtime \<Rightarrow> int \<Rightarrow> itimerspec option \<Rightarrow> bool \<Rightarrow>
   (timer_world \<times> expire_event list \<times> int \<times> itimerspec option) option" where
  "timer_setTime cb w now flags new_value wantOld =
     (case new_value of
        None \<Rightarrow> Some (w, [], - EFAULT, None)
      | Some v \<Rightarrow>
          if \<not> timer_timeIsValid (it_value v) \<or> \<not> timer_timeIsValid (it_interval v)
          then Some (w, [], - EINVAL, None)
          else if flags \<noteq> 0 \<and> flags \<noteq> TFD_TIMER_ABSTIME then Some (w, [], - EINVAL, None)
          else do {
            old \<leftarrow> (if wantOld then map_option Some (timer_getTime (fst w) now) else Some None);
            (t, ls) \<leftarrow> timer_adjustStatus cb
                ((timer_disarm (fst w))\<lparr>tm_expireCountSinceLastSet := 0\<rparr>, snd w)
                STATUS_DESCRIPTOR_READABLE False;
            let (t', evs) = (if tv_sec (it_value v) > 0 \<or> tv_nsec (it_value v) > 0
                             then timer_arm t now v flags else (t, []));
            Some ((t', ls), evs, 0, old)
          })"

text \<open>The result has the bytes of the counter, given as the number they hold.\<close>

definition timer_read :: "desc_callback \<Rightarrow> timer_world \<Rightarrow> nat \<Rightarrow> (timer_world \<times> int \<times> u64 option) option" where
  "timer_read cb w n =
     (if tm_expireCountSinceLastSet (fst w) > 0
      then if n < 8 then Some (w, - EINVAL, None)
           else do {
             w' \<leftarrow> timer_adjustStatus cb ((fst w)\<lparr>tm_expireCountSinceLastSet := 0\<rparr>, snd w)
                     STATUS_DESCRIPTOR_READABLE False;
             Some (w', 8, Some (tm_expireCountSinceLastSet (fst w)))
           }
      else Some (w, - EWOULDBLOCK, None))"

definition timer_getExpirationCount :: "timer \<Rightarrow> u64" where
  "timer_getExpirationCount t = tm_expireCountSinceLastSet t"

section \<open>Histories of a timer\<close>

text \<open>
  A timer with the expiration events that are scheduled and have not run yet. Events run at their
  time, so the time never passes a scheduled event. A relative or periodic expiration stays within
  64 bits of nanoseconds and fewer than \<open>2 ^ 32\<close> events are scheduled. Other components register
  listeners and take references; they leave the status bits alone and keep the references of the
  scheduled events.
\<close>

type_synonym timer_state = "timer_world \<times> expire_event list \<times> simtime"

definition sane_setting :: "simtime \<Rightarrow> int \<Rightarrow> itimerspec option \<Rightarrow> bool" where
  "sane_setting now flags new_value \<longleftrightarrow>
     (case new_value of None \<Rightarrow> True
      | Some v \<Rightarrow> flags = TFD_TIMER_ABSTIME \<or> unat now + unat (timer_timespecToSimTime (it_value v) False) < 2 ^ 64)"

inductive timer_step :: "desc_callback \<Rightarrow> timer_state \<Rightarrow> timer_state \<Rightarrow> bool" for cb where
  set_time: "timer_setTime cb (t, ls) now flags v wantOld = Some ((t', ls'), evs, r, old) \<Longrightarrow>
     \<not> tm_isClosed t \<Longrightarrow> tm_nextExpireID t + 1 \<noteq> 0 \<Longrightarrow> sane_setting now flags v \<Longrightarrow>
     timer_step cb ((t, ls), pending, now) ((t', ls'), pending @ evs, now)"
| read: "timer_read cb (t, ls) n = Some ((t', ls'), r, c) \<Longrightarrow>
     timer_step cb ((t, ls), pending, now) ((t', ls'), pending, now)"
| fire: "(now, i) \<in> set pending \<Longrightarrow> timer_expire cb (t, ls) now i = Some ((t', ls'), evs) \<Longrightarrow>
     tm_nextExpireID t + 1 \<noteq> 0 \<Longrightarrow> tm_expireCountSinceLastSet t + 1 \<noteq> 0 \<Longrightarrow> unat (tm_nextExpireTime t) + unat (tm_expireInterval t) < 2 ^ 64 \<Longrightarrow>
     descriptor_unref (tm_super t', ls') = Some (Some d, ls'', calls) \<Longrightarrow>
     timer_step cb ((t, ls), pending, now) ((t'\<lparr>tm_super := d\<rparr>, ls''), remove1 (now, i) pending @ evs, now)"
| close: "timer_close cb (t, ls) = Some ((t', ls'), r) \<Longrightarrow>
     timer_step cb ((t, ls), pending, now) ((t', ls'), pending, now)"
| tick: "now \<le> now' \<Longrightarrow> (\<And>e. e \<in> set pending \<Longrightarrow> now' \<le> fst e) \<Longrightarrow>
     timer_step cb ((t, ls), pending, now) ((t, ls), pending, now')"
| elsewhere: "desc_ok (d, ls') \<Longrightarrow> ds_status d = ds_status (tm_super t) \<Longrightarrow> ds_type d = DT_TIMER \<Longrightarrow>
     timer_step cb ((t, ls), pending, now) ((t\<lparr>tm_super := d\<rparr>, ls'), pending, now)"

abbreviation timer_steps where "timer_steps cb \<equiv> (timer_step cb)\<^sup>*\<^sup>*"

section \<open>The invariant\<close>

definition valid_events :: "timer \<Rightarrow> expire_event list \<Rightarrow> expire_event list" where
  "valid_events t pending = filter (\<lambda>e. tm_minValidExpireID t \<le> snd e) pending"

text \<open>What holds of a timer that is not closed, apart from the identifiers.\<close>

definition armed_ok :: "timer \<Rightarrow> expire_event list \<Rightarrow> bool" where
  "armed_ok t pending \<longleftrightarrow> length (valid_events t pending) \<le> 1 \<and>
     (\<forall>e \<in> set (valid_events t pending). fst e \<le> tm_nextExpireTime t) \<and>
     (tm_nextExpireTime t \<noteq> 0 \<longrightarrow> valid_events t pending \<noteq> [])"

fun timer_inv :: "timer_state \<Rightarrow> bool" where
  "timer_inv ((t, ls), pending, now) \<longleftrightarrow>
     desc_ok (tm_super t, ls) \<and> ds_type (tm_super t) = DT_TIMER \<and>
     tm_minValidExpireID t \<le> tm_nextExpireID t \<and>
     (\<forall>e \<in> set pending. snd e < tm_nextExpireID t \<and> now \<le> fst e) \<and>
     (\<not> tm_isClosed t \<longrightarrow> armed_ok t pending) \<and>
     (bit (ds_status (tm_super t)) 1 \<longleftrightarrow> tm_expireCountSinceLastSet t > 0)"

definition with_status :: "timer \<Rightarrow> u32 \<Rightarrow> bool \<Rightarrow> timer" where
  "with_status t status on = t\<lparr>tm_super := (tm_super t)\<lparr>ds_status := set_bits (ds_status (tm_super t)) status on\<rparr>\<rparr>"

lemma timer_adjustStatus_eq:
  assumes "idle_callback cb" and "desc_ok (tm_super t, ls)"
  shows "timer_adjustStatus cb (t, ls) status on = Some (with_status t status on, ls)"
  using adjustStatus_idle [OF assms, of status on] by (simp add: timer_adjustStatus_def with_status_def)

lemma with_status_simps [simp]:
  "tm_nextExpireTime (with_status t s on) = tm_nextExpireTime t"
  "tm_expireInterval (with_status t s on) = tm_expireInterval t"
  "tm_expireCountSinceLastSet (with_status t s on) = tm_expireCountSinceLastSet t"
  "tm_nextExpireID (with_status t s on) = tm_nextExpireID t"
  "tm_minValidExpireID (with_status t s on) = tm_minValidExpireID t"
  "tm_isClosed (with_status t s on) = tm_isClosed t"
  "ds_type (tm_super (with_status t s on)) = ds_type (tm_super t)"
  "desc_ok (tm_super (with_status t s on), ls) = desc_ok (tm_super t, ls)"
  "valid_events (with_status t s on) pending = valid_events t pending"
  "bit (ds_status (tm_super (with_status t s on))) n =
     (if on then bit (ds_status (tm_super t)) n \<or> bit s n else bit (ds_status (tm_super t)) n \<and> \<not> bit s n)"
  by (simp_all add: with_status_def desc_ok_def bit_set_bits valid_events_def)

text \<open>A new event is valid, within the expiration time and not before the current time.\<close>

lemma schedule_event_time:
  assumes "now \<le> (next :: simtime)"
  shows "now \<le> now + min (next - now) d" and "now + min (next - now) d \<le> next"
proof -
  let ?m = "min (next - now) d"
  have "unat ?m \<le> unat (next - now)" by (simp add: min_def word_le_nat_alt)
  then have m: "unat now + unat ?m \<le> unat next" using assms by (simp add: unat_sub word_le_nat_alt)
  then have "unat now + unat ?m < 2 ^ 64" using unsigned_less [of "next", where 'a = nat] by simp
  then have "unat (now + ?m) = unat now + unat ?m" by (intro unat_add_lem [THEN iffD1]) simp
  then show "now \<le> now + ?m" "now + ?m \<le> next" using m by (simp_all add: word_le_nat_alt)
qed

lemma id_increases: "(i :: u32) + 1 \<noteq> 0 \<Longrightarrow> i < i + 1"
  using unatSuc [of i] by (simp add: word_less_nat_alt add.commute)

lemma desc_ok_count [simp]: "desc_ok (d\<lparr>ds_referenceCount := n\<rparr>, ls) = desc_ok (d, ls)"
  by (simp add: desc_ok_def)

text \<open>The part of the invariant that does not depend on the expiration time.\<close>

definition base_ok :: "timer \<Rightarrow> listener_store \<Rightarrow> expire_event list \<Rightarrow> simtime \<Rightarrow> bool" where
  "base_ok t ls pending now \<longleftrightarrow>
     desc_ok (tm_super t, ls) \<and> ds_type (tm_super t) = DT_TIMER \<and> tm_minValidExpireID t \<le> tm_nextExpireID t \<and>
     (\<forall>e \<in> set pending. snd e < tm_nextExpireID t \<and> now \<le> fst e) \<and>
     (bit (ds_status (tm_super t)) 1 \<longleftrightarrow> tm_expireCountSinceLastSet t > 0)"

lemma timer_inv_iff:
  "timer_inv ((t, ls), pending, now) \<longleftrightarrow> base_ok t ls pending now \<and> (\<not> tm_isClosed t \<longrightarrow> armed_ok t pending)"
  by (auto simp: base_ok_def)

lemma schedule_inv:
  assumes b: "base_ok t ls pending now" and v: "valid_events t pending = []" and n: "now \<le> tm_nextExpireTime t"
    and i: "tm_nextExpireID t + 1 \<noteq> 0" and s: "timer_scheduleNewExpireEvent t now = (t', ev)"
  shows "timer_inv ((t', ls), pending @ [ev], now)"
proof -
  have t': "t' = t\<lparr>tm_super := descriptor_ref (tm_super t), tm_nextExpireID := tm_nextExpireID t + 1,
      tm_numEventsScheduled := tm_numEventsScheduled t + 1\<rparr>"
    and ev: "ev = (now + min (tm_nextExpireTime t - now) SIMTIME_ONE_SECOND, tm_nextExpireID t)"
    using s by (simp_all add: timer_scheduleNewExpireEvent_def Let_def)
  note less = id_increases [OF i]
  have "tm_minValidExpireID t \<le> tm_nextExpireID t" using b by (simp add: base_ok_def)
  then have "valid_events t' (pending @ [ev]) = [ev]"
    using v by (simp add: t' ev valid_events_def)
  then have "armed_ok t' (pending @ [ev])"
    using schedule_event_time(2) [OF n] by (simp add: armed_ok_def t' ev)
  moreover have "base_ok t' ls (pending @ [ev]) now"
    using b less schedule_event_time(1) [OF n] by (auto simp: base_ok_def t' ev descriptor_ref_def)
  ultimately show ?thesis by (simp add: timer_inv_iff del: timer_inv.simps)
qed

lemma valid_disarmed: "base_ok t ls pending now \<Longrightarrow> tm_minValidExpireID t = tm_nextExpireID t \<Longrightarrow> valid_events t pending = []"
  by (auto simp: valid_events_def base_ok_def filter_empty_conv not_le)

lemma base_ok_disarm: "base_ok t ls pending now \<Longrightarrow> base_ok (timer_disarm t) ls pending now"
  by (simp add: base_ok_def timer_disarm_def)

lemma timer_disarm_inv:
  assumes "base_ok t ls pending now"
  shows "timer_inv ((timer_disarm t, ls), pending, now)"
proof -
  have "valid_events (timer_disarm t) pending = []"
    by (rule valid_disarmed [OF base_ok_disarm [OF assms]]) (simp add: timer_disarm_def)
  moreover have "tm_nextExpireTime (timer_disarm t) = 0" by (simp add: timer_disarm_def)
  ultimately show ?thesis using base_ok_disarm [OF assms]
    by (simp add: timer_inv_iff armed_ok_def del: timer_inv.simps)
qed

lemma base_ok_status:
  "base_ok t ls pending now \<Longrightarrow>
   base_ok (with_status (t\<lparr>tm_expireCountSinceLastSet := c\<rparr>) STATUS_DESCRIPTOR_READABLE (c > 0)) ls pending now"
  by (auto simp: base_ok_def bit_statuses)

lemma timer_arm_inv:
  assumes b: "base_ok t ls pending now" and m: "tm_minValidExpireID t = tm_nextExpireID t"
    and i: "tm_nextExpireID t + 1 \<noteq> 0" and sane: "sane_setting now flags (Some v)"
    and arm: "timer_arm t now v flags = (t', evs)"
  shows "timer_inv ((t', ls), pending @ evs, now)"
proof -
  define t1 where "t1 = timer_setCurrentTime t now (it_value v) flags"
  define t2 where "t2 = (if tv_sec (it_interval v) > 0 \<or> tv_nsec (it_interval v) > 0
                         then timer_setCurrentInterval t1 (it_interval v) else t1)"
  have n: "now \<le> tm_nextExpireTime t1"
  proof (cases "flags = TFD_TIMER_ABSTIME")
    case True
    then show ?thesis by (simp add: t1_def timer_setCurrentTime_def Let_def not_less)
  next
    case False
    let ?d = "timer_timespecToSimTime (it_value v) False"
    have "unat now + unat ?d < 2 ^ 64" using sane False by (simp add: sane_setting_def)
    then have "unat (now + ?d) = unat now + unat ?d" by (intro unat_add_lem [THEN iffD1]) simp
    then show ?thesis using False by (simp add: t1_def timer_setCurrentTime_def word_le_nat_alt)
  qed
  have same: "tm_super t2 = tm_super t" "tm_nextExpireID t2 = tm_nextExpireID t"
    "tm_minValidExpireID t2 = tm_minValidExpireID t" "tm_nextExpireTime t2 = tm_nextExpireTime t1"
    "tm_expireCountSinceLastSet t2 = tm_expireCountSinceLastSet t"
    by (simp_all add: t2_def t1_def timer_setCurrentInterval_def timer_setCurrentTime_def Let_def)
  have b2: "base_ok t2 ls pending now" using b same by (simp add: base_ok_def)
  have v2: "valid_events t2 pending = []" using valid_disarmed [OF b2] same m by simp
  obtain t3 ev where s: "timer_scheduleNewExpireEvent t2 now = (t3, ev)" by (meson surj_pair)
  have "t' = t3 \<and> evs = [ev]"
    using arm s n same unfolding timer_arm_def Let_def t1_def [symmetric] t2_def [symmetric] by simp
  then show ?thesis using schedule_inv [OF b2 v2 _ _ s] n i same by simp
qed

lemma timer_setTime_inv:
  assumes cb: "idle_callback cb" and inv: "timer_inv ((t, ls), pending, now)"
    and set: "timer_setTime cb (t, ls) now flags v wantOld = Some ((t', ls'), evs, r, old)"
    and i: "tm_nextExpireID t + 1 \<noteq> 0" and sane: "sane_setting now flags v"
  shows "timer_inv ((t', ls'), pending @ evs, now)"
proof (cases "r = 0")
  case False
  then have "t' = t" "ls' = ls" "evs = []"
    using set by (auto simp: timer_setTime_def Let_def bind_eq_Some_conv split: option.splits if_splits prod.splits)
  then show ?thesis using inv by simp
next
  case True
  have b: "base_ok t ls pending now" using inv by (simp add: timer_inv_iff del: timer_inv.simps)
  define t1 where "t1 = with_status ((timer_disarm t)\<lparr>tm_expireCountSinceLastSet := 0\<rparr>) STATUS_DESCRIPTOR_READABLE False"
  have b1: "base_ok t1 ls pending now"
    using base_ok_status [OF base_ok_disarm [OF b], of 0] by (simp add: t1_def)
  have m1: "tm_minValidExpireID t1 = tm_nextExpireID t1" "tm_nextExpireID t1 = tm_nextExpireID t"
    "tm_nextExpireTime t1 = 0" by (simp_all add: t1_def timer_disarm_def)
  have ok: "desc_ok (tm_super ((timer_disarm t)\<lparr>tm_expireCountSinceLastSet := 0\<rparr>), ls)"
    using b by (simp add: base_ok_def timer_disarm_def)
  obtain x where v: "v = Some x" using set True by (cases v) (auto simp: timer_setTime_def EFAULT_def)
  have "(if tv_sec (it_value x) > 0 \<or> tv_nsec (it_value x) > 0 then timer_arm t1 now x flags else (t1, [])) = (t', evs)
        \<and> ls' = ls"
    using set True v timer_adjustStatus_eq [OF cb ok] unfolding t1_def timer_setTime_def
    by (auto simp: Let_def EINVAL_def bind_eq_Some_conv case_prod_unfold prod_eq_iff split: if_splits)
  then show ?thesis
    using timer_arm_inv [OF b1 m1(1) _ sane [unfolded v]] i m1 b1 valid_disarmed [OF b1 m1(1)]
    by (auto simp: timer_inv_iff armed_ok_def simp del: timer_inv.simps split: if_splits)
qed

lemma filter_remove1_other: "\<not> P x \<Longrightarrow> filter P (remove1 x xs) = filter P xs"
  by (induction xs) auto

lemma filter_remove1_only: "length (filter P xs) \<le> 1 \<Longrightarrow> P x \<Longrightarrow> x \<in> set xs \<Longrightarrow> filter P (remove1 x xs) = []"
  by (metis One_nat_def diff_is_0_eq filter_remove1 length_0_conv length_remove1 mem_Collect_eq set_filter)

lemma base_ok_less:
  "base_ok t ls pending now \<Longrightarrow> base_ok (t\<lparr>tm_numEventsScheduled := n\<rparr>) ls (remove1 e pending) now"
  using notin_set_remove1 [of _ pending e] by (auto simp: base_ok_def)

lemma timer_expire_inv:
  assumes cb: "idle_callback cb" and inv: "timer_inv ((t, ls), pending, now)" and e: "(now, i) \<in> set pending"
    and ex: "timer_expire cb (t, ls) now i = Some ((t', ls'), evs)"
    and nid: "tm_nextExpireID t + 1 \<noteq> 0" and cnt: "tm_expireCountSinceLastSet t + 1 \<noteq> 0"
    and room: "unat (tm_nextExpireTime t) + unat (tm_expireInterval t) < 2 ^ 64"
  shows "timer_inv ((t', ls'), remove1 (now, i) pending @ evs, now)"
proof -
  define t0 where "t0 = t\<lparr>tm_numEventsScheduled := tm_numEventsScheduled t - 1\<rparr>"
  let ?p = "remove1 (now, i) pending"
  have b0: "base_ok t0 ls ?p now" and arm: "\<not> tm_isClosed t \<longrightarrow> armed_ok t pending"
    using inv base_ok_less unfolding timer_inv_iff t0_def by blast+
  have f0: "tm_isClosed t0 = tm_isClosed t" "tm_minValidExpireID t0 = tm_minValidExpireID t"
    "tm_nextExpireTime t0 = tm_nextExpireTime t" "tm_expireInterval t0 = tm_expireInterval t"
    "tm_nextExpireID t0 = tm_nextExpireID t" "tm_expireCountSinceLastSet t0 = tm_expireCountSinceLastSet t"
    by (simp_all add: t0_def)
  show ?thesis
  proof (cases "\<not> tm_isClosed t \<and> tm_minValidExpireID t \<le> i")
    case False
    then have "t' = t0" "ls' = ls" "evs = []" using ex by (simp_all add: timer_expire_def t0_def Let_def split: if_splits)
    moreover have "valid_events t0 ?p = valid_events t pending" if "\<not> tm_isClosed t"
      using that False filter_remove1_other [of "\<lambda>e. tm_minValidExpireID t \<le> snd e" "(now, i)"]
      by (simp add: valid_events_def f0)
    ultimately show ?thesis using b0 arm f0 by (simp add: timer_inv_iff armed_ok_def del: timer_inv.simps)
  next
    case True
    have v0: "valid_events t0 ?p = []"
      using True arm filter_remove1_only [of "\<lambda>e. tm_minValidExpireID t \<le> snd e" pending "(now, i)"] e
      by (simp add: valid_events_def armed_ok_def f0)
    have "(now, i) \<in> set (valid_events t pending)" using True e by (simp add: valid_events_def)
    then have le: "now \<le> tm_nextExpireTime t" using True arm by (auto simp: armed_ok_def)
    show ?thesis
    proof (cases "tm_nextExpireTime t \<le> now")
      case late: False
      obtain t1 ev where s: "timer_scheduleNewExpireEvent t0 now = (t1, ev)" by (meson surj_pair)
      then have "t' = t1" "ls' = ls" "evs = [ev]"
        using ex True late f0 by (simp_all add: timer_expire_def t0_def [symmetric] Let_def)
      then show ?thesis using schedule_inv [OF b0 v0 _ _ s] le nid f0 by simp
    next
      case now: True
      define t1 where "t1 = with_status (t0\<lparr>tm_expireCountSinceLastSet := tm_expireCountSinceLastSet t + 1\<rparr>)
                              STATUS_DESCRIPTOR_READABLE True"
      have "tm_expireCountSinceLastSet t + 1 > 0" using cnt by (simp add: word_neq_0_conv)
      then have b1: "base_ok t1 ls ?p now" using base_ok_status [OF b0] unfolding t1_def by metis
      have f1: "tm_nextExpireTime t1 = tm_nextExpireTime t" "tm_expireInterval t1 = tm_expireInterval t"
        "tm_nextExpireID t1 = tm_nextExpireID t" "valid_events t1 ?p = []"
        using v0 by (simp_all add: t1_def f0 valid_events_def)
      have adj: "timer_adjustStatus cb (t0\<lparr>tm_expireCountSinceLastSet := tm_expireCountSinceLastSet t0 + 1\<rparr>, ls)
          STATUS_DESCRIPTOR_READABLE True = Some (t1, ls)"
        unfolding t1_def f0 by (rule timer_adjustStatus_eq [OF cb]) (use b0 in \<open>simp add: base_ok_def\<close>)
      show ?thesis
      proof (cases "tm_expireInterval t > 0")
        case periodic: True
        let ?next = "tm_nextExpireTime t + tm_expireInterval t"
        have "unat ?next = unat (tm_nextExpireTime t) + unat (tm_expireInterval t)"
          using room by (intro unat_add_lem [THEN iffD1]) simp
        then have nx: "now \<le> ?next" using le by (simp add: word_le_nat_alt)
        then have nl: "\<not> ?next < now" by (simp add: not_less)
        define t2 where "t2 = t1\<lparr>tm_nextExpireTime := ?next\<rparr>"
        obtain t3 ev where s: "timer_scheduleNewExpireEvent t2 now = (t3, ev)" by (meson surj_pair)
        have "t' = t3" "ls' = ls" "evs = [ev]"
          using ex True periodic now f0 f1 adj nl s
          by (simp_all add: timer_expire_def t0_def [symmetric] Let_def t2_def)
        moreover have "base_ok t2 ls ?p now" "valid_events t2 ?p = []"
          using b1 f1 by (simp_all add: t2_def base_ok_def valid_events_def)
        ultimately show ?thesis using schedule_inv [OF _ _ _ _ s] nx nid f1 by (simp add: t2_def)
      next
        case False
        then have "t' = timer_disarm t1" "ls' = ls" "evs = []"
          using ex True now f0 f1 adj by (simp_all add: timer_expire_def t0_def [symmetric] Let_def)
        then show ?thesis using timer_disarm_inv [OF b1] by simp
      qed
    qed
  qed
qed

lemma armed_ok_frame [simp]:
  "armed_ok (with_status t s on) pending = armed_ok t pending"
  "armed_ok (t\<lparr>tm_expireCountSinceLastSet := c\<rparr>) pending = armed_ok t pending"
  "armed_ok (t\<lparr>tm_super := d\<rparr>) pending = armed_ok t pending"
  by (simp_all add: armed_ok_def valid_events_def with_status_def)

lemma timer_inv_step:
  assumes cb: "idle_callback cb" and st: "timer_step cb s s'" and inv: "timer_inv s"
  shows "timer_inv s'"
  using st inv
proof (induction rule: timer_step.induct)
  case (set_time t ls now flags v wantOld t' ls' evs r old pending)
  then show ?case using timer_setTime_inv [OF cb] by blast
next
  case (read t ls n t' ls' r c pending now)
  have b: "base_ok t ls pending now" using read.prems by (simp add: timer_inv_iff del: timer_inv.simps)
  have "t' = t \<and> ls' = ls \<or>
     t' = with_status (t\<lparr>tm_expireCountSinceLastSet := 0\<rparr>) STATUS_DESCRIPTOR_READABLE False \<and> ls' = ls"
    using read.hyps timer_adjustStatus_eq [OF cb, of "t\<lparr>tm_expireCountSinceLastSet := 0\<rparr>" ls] b
    by (auto simp: timer_read_def base_ok_def split: if_splits)
  then show ?case using read.prems base_ok_status [OF b, of 0]
    by (auto simp: timer_inv_iff simp del: timer_inv.simps)
next
  case (fire now i pending t ls t' ls' evs d ls'' calls)
  have inv': "timer_inv ((t', ls'), remove1 (now, i) pending @ evs, now)"
    using timer_expire_inv [OF cb fire.prems fire.hyps(1,2,3,4,5)] .
  have "d = (tm_super t')\<lparr>ds_referenceCount := ds_referenceCount (tm_super t') - 1\<rparr>" "ls'' = ls'"
    using fire.hyps(6) by (auto simp: descriptor_unref_def Let_def bind_eq_Some_conv split: if_splits)
  then show ?case using inv' by (simp add: timer_inv_iff base_ok_def armed_ok_def valid_events_def del: timer_inv.simps)
next
  case (close t ls t' ls' r pending now)
  have b: "base_ok t ls pending now" using close.prems by (simp add: timer_inv_iff del: timer_inv.simps)
  have "t' = with_status (t\<lparr>tm_isClosed := True\<rparr>) STATUS_DESCRIPTOR_ACTIVE False \<and> ls' = ls"
    using close.hyps timer_adjustStatus_eq [OF cb, of "t\<lparr>tm_isClosed := True\<rparr>" ls] b
    by (auto simp: timer_close_def base_ok_def)
  then show ?case using b by (auto simp: timer_inv_iff base_ok_def bit_statuses simp del: timer_inv.simps)
next
  case (tick now now' pending t ls)
  then show ?case by (auto simp: timer_inv_iff base_ok_def simp del: timer_inv.simps)
next
  case (elsewhere d ls' t ls pending now)
  then show ?case by (auto simp: timer_inv_iff base_ok_def armed_ok_def valid_events_def simp del: timer_inv.simps)
qed

lemma timer_inv_new:
  assumes "idle_callback cb" and "timer_new cb ls = Some w"
  shows "timer_inv (w, [], now)"
proof -
  let ?t = "\<lparr>tm_super = descriptor_init DT_TIMER, tm_nextExpireTime = 0, tm_expireInterval = 0,
         tm_expireCountSinceLastSet = 0, tm_nextExpireID = 0, tm_minValidExpireID = 0,
         tm_numEventsScheduled = 0, tm_isClosed = False\<rparr>"
  have ok: "desc_ok (tm_super ?t, ls)" by (simp add: desc_ok_def descriptor_init_def)
  have "w = (with_status ?t STATUS_DESCRIPTOR_ACTIVE True, ls)"
    using assms(2) timer_adjustStatus_eq [OF assms(1) ok] by (simp add: timer_new_def)
  then show ?thesis using ok
    by (simp add: armed_ok_def bit_statuses) (simp add: valid_events_def descriptor_init_def)
qed

lemma timer_inv_steps:
  assumes "idle_callback cb" and "timer_new cb ls0 = Some w0" and "timer_steps cb (w0, [], now0) s"
  shows "timer_inv s"
  using assms(3) timer_inv_new [OF assms(1,2)]
  by (induction rule: rtranclp_induct) (simp_all add: timer_inv_step [OF assms(1)])

section \<open>Properties\<close>

text \<open>C18: while a timer is armed, exactly one of its scheduled events is valid, and it runs neither
  before the current time nor after the expiration time; so no expiration is missed, asking for the
  remaining time never fails an assertion, and the answer is the true difference.\<close>

theorem timer_armed_has_event:
  assumes "idle_callback cb" and "timer_new cb ls0 = Some w0"
    and "timer_steps cb (w0, [], now0) ((t, ls), pending, now)"
    and "\<not> tm_isClosed t" and "tm_nextExpireTime t \<noteq> 0"
  shows "\<exists>time i. valid_events t pending = [(time, i)] \<and> now \<le> time \<and> time \<le> tm_nextExpireTime t \<and>
     timer_getTime t now = Some \<lparr>it_interval = timer_getCurrentInterval t,
                                 it_value = simtime_to_timespec (tm_nextExpireTime t - now)\<rparr>"
proof -
  have inv: "timer_inv ((t, ls), pending, now)" using timer_inv_steps [OF assms(1-3)] .
  then obtain e where e: "valid_events t pending = [e]"
    using assms(4,5) by (cases "valid_events t pending") (auto simp: armed_ok_def)
  then have m: "e \<in> set (valid_events t pending)" by simp
  then have "e \<in> set pending" by (simp add: valid_events_def)
  moreover have "fst e \<le> tm_nextExpireTime t" using inv assms(4) m by (cases e) (auto simp: armed_ok_def)
  moreover from calculation(1) have "now \<le> fst e" using inv by auto
  moreover obtain time i where "e = (time, i)" by (meson surj_pair)
  ultimately show ?thesis using e assms(5)
    by (auto simp: timer_getTime_def timer_getCurrentTime_def intro: order_trans)
qed


text \<open>A time of day below \<open>2 ^ 32\<close> seconds and its number of nanoseconds.\<close>

definition small_timespec :: "timespec \<Rightarrow> bool" where
  "small_timespec v \<longleftrightarrow> 0 \<le> tv_sec v \<and> tv_sec v < 2 ^ 32 \<and> 0 \<le> tv_nsec v \<and> tv_nsec v < 1000000000"

lemma timespec_nanos:
  assumes "small_timespec v"
  shows "uint (timer_timespecToSimTime v False) = tv_sec v * 1000000000 + tv_nsec v"
proof -
  have "word_of_int (tv_sec v) * SIMTIME_ONE_SECOND + word_of_int (tv_nsec v) =
      (word_of_int (tv_sec v * 1000000000 + tv_nsec v) :: simtime)"
    by (simp add: SIMTIME_ONE_SECOND_def)
  moreover have "0 \<le> tv_sec v * 1000000000 + tv_nsec v" "tv_sec v * 1000000000 + tv_nsec v < 2 ^ 64"
    using assms by (simp_all add: small_timespec_def)
  ultimately show ?thesis
    by (simp only: timer_timespecToSimTime_def Let_def if_False uint_word_of_int_eq)
      (simp add: take_bit_int_eq_self)
qed

lemma timespec_roundtrip:
  assumes "small_timespec v"
  shows "simtime_to_timespec (timer_timespecToSimTime v False) = v"
proof -
  have "(tv_sec v * 1000000000 + tv_nsec v) div 1000000000 = tv_sec v"
    "(tv_sec v * 1000000000 + tv_nsec v) mod 1000000000 = tv_nsec v"
    using assms by (simp_all add: small_timespec_def)
  then show ?thesis
    by (simp add: simtime_to_timespec_def uint_div uint_mod timespec_nanos [OF assms] SIMTIME_ONE_SECOND_def)
qed

text \<open>Setting a relative time and asking for it at the same instant gives back the very setting,
  value and interval, for every valid setting below \<open>2 ^ 32\<close> seconds.\<close>

lemma timer_set_get_roundtrip:
  assumes "idle_callback cb" and "desc_ok (tm_super t, ls)"
    and "small_timespec (it_value v)" and "small_timespec (it_interval v)"
    and "tv_sec (it_value v) > 0 \<or> tv_nsec (it_value v) > 0" and "unat now < 2 ^ 63"
  shows "\<exists>t' ev. timer_setTime cb (t, ls) now 0 (Some v) False = Some ((t', ls), [ev], 0, None) \<and>
     timer_getTime t' now = Some v"
proof -
  let ?val = "timer_timespecToSimTime (it_value v) False" and ?int = "timer_timespecToSimTime (it_interval v) False"
  define t1 where "t1 = with_status ((timer_disarm t)\<lparr>tm_expireCountSinceLastSet := 0\<rparr>) STATUS_DESCRIPTOR_READABLE False"
  have ok: "desc_ok (tm_super ((timer_disarm t)\<lparr>tm_expireCountSinceLastSet := 0\<rparr>), ls)"
    using assms(2) by (simp add: timer_disarm_def)
  have valid: "timer_timeIsValid (it_value v)" "timer_timeIsValid (it_interval v)"
    using assms(3,4) by (simp_all add: timer_timeIsValid_def small_timespec_def SIMTIME_ONE_SECOND_def)
  have val: "0 < uint ?val" "uint ?val < 2 ^ 63"
    using timespec_nanos [OF assms(3)] assms(3,5) by (auto simp: small_timespec_def)
  have u: "int (unat ?val) = uint ?val" by (rule of_nat_unat)
  then have "int (unat ?val) < int (2 ^ 63)" using val by simp
  then have "unat ?val < 2 ^ 63" by (simp only: of_nat_less_iff)
  then have "unat now + unat ?val < 2 ^ 64" using assms(6) by simp
  then have add: "unat (now + ?val) = unat now + unat ?val" by (intro unat_add_lem [THEN iffD1]) simp
  have "0 < unat ?val" using val(1) u by linarith
  then have ne: "now + ?val \<noteq> 0" using add by (metis add_gr_0 less_irrefl unat_0)
  have le: "now \<le> now + ?val" using add by (simp add: word_le_nat_alt)
  have int: "(if ?int = 0 then \<lparr>tv_sec = 0, tv_nsec = 0\<rparr> else simtime_to_timespec ?int) = it_interval v"
    using timespec_roundtrip [OF assms(4)] by (auto simp: simtime_to_timespec_def)
  have nz: "?int = 0" if "\<not> (tv_sec (it_interval v) > 0 \<or> tv_nsec (it_interval v) > 0)"
  proof -
    have "tv_sec (it_interval v) = 0" "tv_nsec (it_interval v) = 0"
      using that assms(4) by (auto simp: small_timespec_def)
    then have "uint ?int = 0" using timespec_nanos [OF assms(4)] by simp
    then show ?thesis by (simp add: uint_0_iff)
  qed
  define t2 where "t2 = t1\<lparr>tm_nextExpireTime := now + ?val\<rparr>"
  define t3 where "t3 = (if tv_sec (it_interval v) > 0 \<or> tv_nsec (it_interval v) > 0
      then timer_setCurrentInterval t2 (it_interval v) else t2)"
  have t3: "tm_nextExpireTime t3 = now + ?val" "tm_expireInterval t3 = ?int"
    using nz by (auto simp: t3_def t2_def t1_def timer_setCurrentInterval_def timer_disarm_def)
  obtain t' ev where s: "timer_scheduleNewExpireEvent t3 now = (t', ev)" by (meson surj_pair)
  have cur: "timer_setCurrentTime t1 now (it_value v) 0 = t2"
    by (simp add: timer_setCurrentTime_def TFD_TIMER_ABSTIME_def t2_def)
  have arm: "timer_arm t1 now v 0 = (t', [ev])"
    unfolding timer_arm_def Let_def cur t3_def [symmetric] using s t3 le by simp
  have "timer_setTime cb (t, ls) now 0 (Some v) False = Some ((t', ls), [ev], 0, None)"
    unfolding timer_setTime_def using valid assms(5) timer_adjustStatus_eq [OF assms(1) ok] arm
    by (simp add: t1_def [symmetric] Let_def)
  moreover have t': "tm_nextExpireTime t' = now + ?val" "tm_expireInterval t' = ?int"
    using s t3 by (auto simp: timer_scheduleNewExpireEvent_def Let_def)
  have "timer_getCurrentInterval t' = it_interval v"
    unfolding timer_getCurrentInterval_def t'(2) by (rule int)
  moreover have "timer_getCurrentTime t' now = Some (it_value v)"
    using ne le t'(1) timespec_roundtrip [OF assms(3)] by (simp add: timer_getCurrentTime_def)
  ultimately show ?thesis by (simp add: timer_getTime_def)
qed

section \<open>Witnesses\<close>

text \<open>A timer set at ten nanoseconds to expire after half a second and then every two seconds.\<close>

definition sample_cb :: desc_callback where "sample_cb l w = w"

definition sample_setting :: itimerspec where
  "sample_setting = \<lparr>it_interval = \<lparr>tv_sec = 2, tv_nsec = 0\<rparr>, it_value = \<lparr>tv_sec = 0, tv_nsec = 500000000\<rparr>\<rparr>"

definition sample_timer :: timer_world where
  "sample_timer = the (timer_new sample_cb (\<lambda>_. None))"

definition sample_set :: "timer_world \<times> expire_event list \<times> int \<times> itimerspec option" where
  "sample_set = the (timer_setTime sample_cb sample_timer 10 0 (Some sample_setting) False)"

lemma sample_cb_idle: "idle_callback sample_cb"
  by (simp add: idle_callback_def sample_cb_def)

lemma sample_timer_new: "timer_new sample_cb (\<lambda>_. None) = Some sample_timer"
  by (simp add: sample_timer_def timer_new_def timer_adjustStatus_def descriptor_adjustStatus_def
      descriptor_handleStatusChange_def descriptor_init_def Let_def)

lemma sample_timer_fields:
  "\<not> tm_isClosed (fst sample_timer)" "tm_nextExpireID (fst sample_timer) = 0"
  "desc_ok (tm_super (fst sample_timer), snd sample_timer)"
  by (simp_all add: sample_timer_def timer_new_def timer_adjustStatus_def descriptor_adjustStatus_def
      descriptor_handleStatusChange_def descriptor_init_def Let_def desc_ok_def)

lemma sample_set_fields:
  "map_option (\<lambda>((t, ls), evs, r, old). (tm_nextExpireTime t, evs, tm_isClosed t))
     (timer_setTime sample_cb sample_timer 10 0 (Some sample_setting) False) =
   Some (500000010, [(500000010, 0)], False)"
  unfolding sample_timer_def sample_setting_def by code_simp

lemma sample_set_eq:
  "\<exists>t ls r old. timer_setTime sample_cb sample_timer 10 0 (Some sample_setting) False =
     Some ((t, ls), [(500000010, 0)], r, old) \<and> sample_set = ((t, ls), [(500000010, 0)], r, old) \<and>
     tm_nextExpireTime t = 500000010 \<and> \<not> tm_isClosed t"
  using sample_set_fields by (auto simp: sample_set_def)

lemma sample_timer_steps:
  "timer_steps sample_cb (sample_timer, [], 10) (fst sample_set, [(500000010, 0)], 10)"
proof -
  obtain t ls r old where s: "timer_setTime sample_cb sample_timer 10 0 (Some sample_setting) False =
     Some ((t, ls), [(500000010, 0)], r, old)" "sample_set = ((t, ls), [(500000010, 0)], r, old)"
    using sample_set_eq by blast
  have "sane_setting 10 0 (Some sample_setting)" unfolding sane_setting_def sample_setting_def
    by (simp add: timer_timespecToSimTime_def)
  then have "timer_step sample_cb ((fst sample_timer, snd sample_timer), [], 10) ((t, ls), [] @ [(500000010, 0)], 10)"
    using s(1) sample_timer_fields by (intro timer_step.set_time) simp_all
  then show ?thesis unfolding s(2) prod.sel prod.collapse append_Nil by (rule r_into_rtranclp)
qed

lemma sample_timer_fires:
  "timer_steps sample_cb (sample_timer, [], 10) (fst sample_set, [(500000010, 0)], 500000010)"
proof -
  have "timer_step sample_cb ((fst (fst sample_set), snd (fst sample_set)), [(500000010, 0)], 10)
      ((fst (fst sample_set), snd (fst sample_set)), [(500000010, 0)], 500000010)"
    by (rule timer_step.tick) simp_all
  then show ?thesis unfolding prod.collapse by (rule rtranclp.rtrancl_into_rtrancl [OF sample_timer_steps])
qed

theorem timer_armed_has_event_witness:
  "\<exists>time i. valid_events (fst (fst sample_set)) [(500000010, 0)] = [(time, i)] \<and> 10 \<le> time \<and> time \<le> 500000010"
proof -
  obtain t ls r old where s: "sample_set = ((t, ls), [(500000010, 0)], r, old)"
    "tm_nextExpireTime t = 500000010" "\<not> tm_isClosed t" using sample_set_eq by blast
  have "timer_steps sample_cb (sample_timer, [], 10) ((t, ls), [(500000010, 0)], 10)"
    using sample_timer_steps unfolding s(1) prod.sel .
  from timer_armed_has_event [OF sample_cb_idle sample_timer_new this s(3)] s(2)
  show ?thesis unfolding s(1) prod.sel by auto
qed


end
