(* ===== verification/Eventd.thy ===== *)
theory Eventd
  imports Descriptor
begin

text \<open>
  \<^verbatim>\<open>host/descriptor/eventd.c\<close>: the event counter of \<^verbatim>\<open>eventfd(2)\<close>. The eight bytes that are read or
  written are given as the number they hold; a read that stores nothing in the buffer gives \<open>None\<close>.
\<close>

section \<open>Model\<close>

record eventd =
  ed_super :: descriptor
  ed_counter :: u64
  ed_is_closed :: bool
  ed_is_semaphore :: bool

type_synonym eventd_world = "eventd \<times> listener_store"

definition eventd_adjustStatus :: "desc_callback \<Rightarrow> eventd_world \<Rightarrow> u32 \<Rightarrow> bool \<Rightarrow> eventd_world option" where
  "eventd_adjustStatus cb w status on = do {
     ((d, ls), called) \<leftarrow> descriptor_adjustStatus cb (ed_super (fst w), snd w) status on;
     Some ((fst w)\<lparr>ed_super := d\<rparr>, ls)
   }"

definition eventd_close :: "desc_callback \<Rightarrow> eventd_world \<Rightarrow> (eventd_world \<times> bool) option" where
  "eventd_close cb w = do {
     utility_assert (ds_type (ed_super (fst w)) = DT_EVENTD);
     w' \<leftarrow> eventd_adjustStatus cb ((fst w)\<lparr>ed_is_closed := True\<rparr>, snd w) STATUS_DESCRIPTOR_ACTIVE False;
     Some (w', ds_handle (ed_super (fst w')) > 0)
   }"

definition eventd_free :: "eventd_world \<Rightarrow> (listener_store \<times> (gpointer \<times> gpointer) list) option" where
  "eventd_free w = do {
     utility_assert (ds_type (ed_super (fst w)) = DT_EVENTD);
     descriptor_clear (ed_super (fst w), snd w)
   }"

definition UINT64_MAX :: u64 where "UINT64_MAX = - 1"

lemma unat_UINT64_MAX: "unat UINT64_MAX = 2 ^ 64 - 1"
  by (simp add: UINT64_MAX_def unsigned_minus_1_eq_mask mask_eq_exp_minus_1)

definition eventd_updateStatus :: "desc_callback \<Rightarrow> eventd_world \<Rightarrow> eventd_world option" where
  "eventd_updateStatus cb w = do {
     w1 \<leftarrow> eventd_adjustStatus cb w STATUS_DESCRIPTOR_READABLE (ed_counter (fst w) > 0);
     eventd_adjustStatus cb w1 STATUS_DESCRIPTOR_WRITABLE (ed_counter (fst w1) < UINT64_MAX - 1)
   }"

definition eventd_new :: "desc_callback \<Rightarrow> listener_store \<Rightarrow> u32 \<Rightarrow> bool \<Rightarrow> eventd_world option" where
  "eventd_new cb ls counter_init_val is_semaphore = do {
     w \<leftarrow> eventd_adjustStatus cb
            (\<lparr>ed_super = descriptor_init DT_EVENTD, ed_counter = ucast counter_init_val, ed_is_closed = False,
              ed_is_semaphore = is_semaphore\<rparr>, ls) STATUS_DESCRIPTOR_ACTIVE True;
     eventd_updateStatus cb w
   }"

definition eventd_read :: "desc_callback \<Rightarrow> eventd_world \<Rightarrow> nat \<Rightarrow> (eventd_world \<times> int \<times> u64 option) option" where
  "eventd_read cb w buflen =
     (if buflen < 8 then Some (w, - EINVAL, None)
      else if ed_counter (fst w) = 0 then Some (w, - EWOULDBLOCK, None)
      else let (e, value) =
             (if ed_is_semaphore (fst w) then ((fst w)\<lparr>ed_counter := ed_counter (fst w) - 1\<rparr>, 1)
              else ((fst w)\<lparr>ed_counter := 0\<rparr>, ed_counter (fst w)))
           in do {
             w' \<leftarrow> eventd_updateStatus cb (e, snd w);
             Some (w', 8, Some value)
           })"

definition eventd_write :: "desc_callback \<Rightarrow> eventd_world \<Rightarrow> u64 \<Rightarrow> nat \<Rightarrow> (eventd_world \<times> int) option" where
  "eventd_write cb w value buflen =
     (if buflen < 8 then Some (w, - EINVAL)
      else if value = UINT64_MAX then Some (w, - EINVAL)
      else let max_allowed = UINT64_MAX - 1
           in if value > max_allowed - ed_counter (fst w) then Some (w, - EWOULDBLOCK)
              else do {
                w' \<leftarrow> eventd_updateStatus cb ((fst w)\<lparr>ed_counter := ed_counter (fst w) + value\<rparr>, snd w);
                Some (w', 8)
              })"

section \<open>Histories of an event counter\<close>

text \<open>
  An event counter with the sum of the values written to it and the sum of the values read from it.
  Other components register listeners and take references; they leave the status bits alone.
\<close>

type_synonym eventd_state = "eventd_world \<times> nat \<times> nat"

inductive eventd_step :: "desc_callback \<Rightarrow> eventd_state \<Rightarrow> eventd_state \<Rightarrow> bool" for cb where
  reading: "eventd_read cb w n = Some (w', r, v) \<Longrightarrow>
     eventd_step cb (w, written, taken) (w', written, taken + (case v of None \<Rightarrow> 0 | Some x \<Rightarrow> unat x))"
| writing: "eventd_write cb w x n = Some (w', r) \<Longrightarrow>
     eventd_step cb (w, written, taken) (w', written + (if r = 8 then unat x else 0), taken)"
| close: "eventd_close cb w = Some (w', r) \<Longrightarrow> eventd_step cb (w, written, taken) (w', written, taken)"
| elsewhere: "desc_ok (d, ls') \<Longrightarrow> ds_status d = ds_status (ed_super (fst w)) \<Longrightarrow> ds_type d = DT_EVENTD \<Longrightarrow>
     eventd_step cb (w, written, taken) (((fst w)\<lparr>ed_super := d\<rparr>, ls'), written, taken)"

abbreviation eventd_steps where "eventd_steps cb \<equiv> (eventd_step cb)\<^sup>*\<^sup>*"

section \<open>The invariant\<close>

definition eventd_ok :: "eventd_world \<Rightarrow> bool" where
  "eventd_ok w \<longleftrightarrow> desc_ok (ed_super (fst w), snd w) \<and> ds_type (ed_super (fst w)) = DT_EVENTD \<and>
     ed_counter (fst w) \<le> UINT64_MAX - 1 \<and>
     (bit (ds_status (ed_super (fst w))) 1 \<longleftrightarrow> ed_counter (fst w) > 0) \<and>
     (bit (ds_status (ed_super (fst w))) 2 \<longleftrightarrow> ed_counter (fst w) < UINT64_MAX - 1)"

lemma eventd_adjustStatus_eq:
  assumes "idle_callback cb" and "desc_ok (ed_super e, ls)"
  shows "eventd_adjustStatus cb (e, ls) status on =
     Some (e\<lparr>ed_super := (ed_super e)\<lparr>ds_status := set_bits (ds_status (ed_super e)) status on\<rparr>\<rparr>, ls)"
  using adjustStatus_idle [OF assms, of status on] by (simp add: eventd_adjustStatus_def)

lemma desc_ok_status [simp]: "desc_ok (d\<lparr>ds_status := s\<rparr>, ls) = desc_ok (d, ls)"
  by (simp add: desc_ok_def)

lemma updateStatus_ok:
  assumes "idle_callback cb" and "desc_ok (ed_super e, ls)" and "ds_type (ed_super e) = DT_EVENTD"
    and "ed_counter e \<le> UINT64_MAX - 1"
  obtains e' where "eventd_updateStatus cb (e, ls) = Some (e', ls)" "eventd_ok (e', ls)"
    "ed_counter e' = ed_counter e" "ed_is_semaphore e' = ed_is_semaphore e"
proof -
  let ?s = "\<lambda>s. e\<lparr>ed_super := (ed_super e)\<lparr>ds_status := s\<rparr>\<rparr>"
  let ?s1 = "set_bits (ds_status (ed_super e)) STATUS_DESCRIPTOR_READABLE (ed_counter e > 0)"
  let ?s2 = "set_bits ?s1 STATUS_DESCRIPTOR_WRITABLE (ed_counter e < UINT64_MAX - 1)"
  have "eventd_updateStatus cb (e, ls) = Some (?s ?s2, ls)"
    using assms(1,2) by (simp add: eventd_updateStatus_def eventd_adjustStatus_eq)
  moreover have "eventd_ok (?s ?s2, ls)"
    using assms by (simp add: eventd_ok_def bit_set_bits bit_statuses)
  ultimately show thesis by (rule that) simp_all
qed

lemma eventd_new_ok:
  assumes "idle_callback cb"
  obtains e where "eventd_new cb ls v sem = Some (e, ls)" "eventd_ok (e, ls)" "unat (ed_counter e) = unat v"
    "ed_is_semaphore e = sem"
proof -
  let ?e = "\<lparr>ed_super = descriptor_init DT_EVENTD, ed_counter = ucast v, ed_is_closed = False, ed_is_semaphore = sem\<rparr>"
  let ?e1 = "?e\<lparr>ed_super := (descriptor_init DT_EVENTD)\<lparr>ds_status := set_bits 0 STATUS_DESCRIPTOR_ACTIVE True\<rparr>\<rparr>"
  have v: "unat v < 2 ^ 32" using unsigned_less [of v, where 'a = nat] by simp
  then have u: "unat (ucast v :: u64) = unat v" by (simp add: unsigned_ucast_eq take_bit_nat_eq_self)
  have init: "desc_ok (descriptor_init DT_EVENTD, ls)" "ds_type (descriptor_init DT_EVENTD) = DT_EVENTD"
    "ds_status (descriptor_init DT_EVENTD) = 0"
    by (simp_all add: desc_ok_def descriptor_init_def)
  have "eventd_adjustStatus cb (?e, ls) STATUS_DESCRIPTOR_ACTIVE True = Some (?e1, ls)"
    using init by (simp add: eventd_adjustStatus_eq [OF assms])
  moreover have "ed_counter ?e1 \<le> UINT64_MAX - 1"
    using u v by (simp add: word_le_nat_alt UINT64_MAX_def)
  then obtain e' where "eventd_updateStatus cb (?e1, ls) = Some (e', ls)" "eventd_ok (e', ls)"
    "ed_counter e' = ed_counter ?e1" "ed_is_semaphore e' = ed_is_semaphore ?e1"
    using updateStatus_ok [OF assms, of ?e1 ls] init by auto
  ultimately show thesis using that u by (simp add: eventd_new_def)
qed

lemma eventd_read_fails:
  "n < 8 \<or> ed_counter e = 0 \<Longrightarrow>
     eventd_read cb (e, ls) n = Some ((e, ls), if n < 8 then - EINVAL else - EWOULDBLOCK, None)"
  by (auto simp: eventd_read_def)

lemma eventd_read_ok:
  assumes cb: "idle_callback cb" and ok: "eventd_ok (e, ls)" and ready: "\<not> (n < 8 \<or> ed_counter e = 0)"
  obtains e' v where "eventd_read cb (e, ls) n = Some ((e', ls), 8, Some v)" "eventd_ok (e', ls)"
    "v = (if ed_is_semaphore e then 1 else ed_counter e)"
    "ed_counter e' = (if ed_is_semaphore e then ed_counter e - 1 else 0)"
    "unat (ed_counter e) = unat (ed_counter e') + unat v"
proof -
  let ?c = "if ed_is_semaphore e then ed_counter e - 1 else 0" and ?v = "if ed_is_semaphore e then 1 else ed_counter e"
  have pos: "0 < unat (ed_counter e)" using ready by (simp add: unat_gt_0)
  then have c: "unat (ed_counter e - 1) = unat (ed_counter e) - 1" by (simp add: unat_sub word_le_nat_alt)
  have sum: "unat (ed_counter e) = unat ?c + unat ?v" using c pos by simp
  then have "?c \<le> UINT64_MAX - 1" using ok by (auto simp: eventd_ok_def word_le_nat_alt)
  then obtain e' where e': "eventd_updateStatus cb (e\<lparr>ed_counter := ?c\<rparr>, ls) = Some (e', ls)" "eventd_ok (e', ls)"
    "ed_counter e' = ?c"
    using updateStatus_ok [OF cb, of "e\<lparr>ed_counter := ?c\<rparr>" ls] ok by (auto simp: eventd_ok_def)
  have "eventd_read cb (e, ls) n = Some ((e', ls), 8, Some ?v)"
    using e'(1) ready by (simp add: eventd_read_def split: if_splits)
  then show thesis by (rule that) (use e' sum in auto)
qed

lemma eventd_room:
  assumes "eventd_ok (e, ls)"
  shows "x \<noteq> UINT64_MAX \<and> \<not> UINT64_MAX - 1 - ed_counter e < x \<longleftrightarrow> unat (ed_counter e) + unat x < 2 ^ 64 - 1"
proof -
  have "ed_counter e \<le> UINT64_MAX - 1" using assms by (simp add: eventd_ok_def)
  moreover have "unat (UINT64_MAX - 1) = 2 ^ 64 - 2" by (simp add: UINT64_MAX_def)
  ultimately have "unat (UINT64_MAX - 1 - ed_counter e) = 2 ^ 64 - 2 - unat (ed_counter e)"
    "unat (ed_counter e) \<le> 2 ^ 64 - 2" by (simp_all add: unat_sub word_le_nat_alt)
  then show ?thesis using unat_UINT64_MAX by (auto simp: word_less_nat_alt)
qed

lemma eventd_write_fails:
  assumes "eventd_ok (e, ls)" and "n < 8 \<or> 2 ^ 64 - 1 \<le> unat (ed_counter e) + unat x"
  shows "eventd_write cb (e, ls) x n =
     Some ((e, ls), if n < 8 \<or> x = UINT64_MAX then - EINVAL else - EWOULDBLOCK)"
  using eventd_room [OF assms(1), of x] assms(2) by (auto simp: eventd_write_def Let_def)

lemma eventd_write_ok:
  assumes cb: "idle_callback cb" and ok: "eventd_ok (e, ls)"
    and fits: "\<not> (n < 8 \<or> 2 ^ 64 - 1 \<le> unat (ed_counter e) + unat x)"
  obtains e' where "eventd_write cb (e, ls) x n = Some ((e', ls), 8)" "eventd_ok (e', ls)"
    "unat (ed_counter e') = unat (ed_counter e) + unat x" "ed_is_semaphore e' = ed_is_semaphore e"
proof -
  have u: "unat (ed_counter e + x) = unat (ed_counter e) + unat x"
    using fits by (intro unat_add_lem [THEN iffD1]) simp
  moreover have "unat (UINT64_MAX - 1) = 2 ^ 64 - 2" by (simp add: UINT64_MAX_def)
  ultimately have "ed_counter e + x \<le> UINT64_MAX - 1" using fits by (simp add: word_le_nat_alt)
  then obtain e' where e': "eventd_updateStatus cb (e\<lparr>ed_counter := ed_counter e + x\<rparr>, ls) = Some (e', ls)"
    "eventd_ok (e', ls)" "ed_counter e' = ed_counter e + x" "ed_is_semaphore e' = ed_is_semaphore e"
    using updateStatus_ok [OF cb, of "e\<lparr>ed_counter := ed_counter e + x\<rparr>" ls] ok by (auto simp: eventd_ok_def)
  have "eventd_write cb (e, ls) x n = Some ((e', ls), 8)"
    using e'(1) fits eventd_room [OF ok, of x] by (auto simp: eventd_write_def Let_def)
  then show thesis by (rule that) (use e' u in simp_all)
qed

lemma eventd_close_ok:
  assumes cb: "idle_callback cb" and ok: "eventd_ok (e, ls)"
  obtains e' r where "eventd_close cb (e, ls) = Some ((e', ls), r)" "eventd_ok (e', ls)" "ed_counter e' = ed_counter e"
proof -
  let ?e' = "e\<lparr>ed_is_closed := True, ed_super := (ed_super e)\<lparr>ds_status := set_bits (ds_status (ed_super e)) STATUS_DESCRIPTOR_ACTIVE False\<rparr>\<rparr>"
  have "eventd_close cb (e, ls) = Some ((?e', ls), ds_handle (ed_super e) > 0)"
    using ok by (simp add: eventd_close_def eventd_ok_def eventd_adjustStatus_eq [OF cb])
  moreover have "eventd_ok (?e', ls)" using ok by (simp add: eventd_ok_def bit_set_bits bit_statuses)
  ultimately show thesis by (rule that) simp
qed

text \<open>What a step keeps: the invariant and the balance of writes and reads.\<close>

definition eventd_balance :: "nat \<Rightarrow> eventd_state \<Rightarrow> bool" where
  "eventd_balance start s = (case s of (w, written, taken) \<Rightarrow>
     eventd_ok w \<and> start + written = unat (ed_counter (fst w)) + taken)"

lemma eventd_step_balance:
  assumes cb: "idle_callback cb" and step: "eventd_step cb s s'" and bal: "eventd_balance start s"
  shows "eventd_balance start s'"
proof -
  obtain e ls written taken where s: "s = ((e, ls), written, taken)" by (metis prod_cases3 surj_pair)
  have ok: "eventd_ok (e, ls)" and sum: "start + written = unat (ed_counter e) + taken"
    using bal by (simp_all add: s eventd_balance_def)
  from step [unfolded s] show ?thesis
  proof (cases rule: eventd_step.cases)
    case (reading n w' r v)
    show ?thesis
    proof (cases "n < 8 \<or> ed_counter e = 0")
      case True
      then show ?thesis using reading eventd_read_fails [OF True, of cb ls] ok sum by (auto simp: eventd_balance_def)
    next
      case False
      obtain e' x where "eventd_read cb (e, ls) n = Some ((e', ls), 8, Some x)" "eventd_ok (e', ls)"
        "unat (ed_counter e) = unat (ed_counter e') + unat x"
        using eventd_read_ok [OF cb ok False] by metis
      then show ?thesis using reading sum by (simp add: eventd_balance_def)
    qed
  next
    case (writing x n w' r)
    show ?thesis
    proof (cases "n < 8 \<or> 2 ^ 64 - 1 \<le> unat (ed_counter e) + unat x")
      case True
      then show ?thesis using writing eventd_write_fails [OF ok True, of cb] ok sum
        by (auto simp: eventd_balance_def EINVAL_def EWOULDBLOCK_def split: if_splits)
    next
      case False
      obtain e' where "eventd_write cb (e, ls) x n = Some ((e', ls), 8)" "eventd_ok (e', ls)"
        "unat (ed_counter e') = unat (ed_counter e) + unat x"
        using eventd_write_ok [OF cb ok False] by metis
      then show ?thesis using writing sum by (simp add: eventd_balance_def)
    qed
  next
    case (close w' r)
    obtain e' r' where e': "eventd_close cb (e, ls) = Some ((e', ls), r')" "eventd_ok (e', ls)"
      "ed_counter e' = ed_counter e" using eventd_close_ok [OF cb ok] by metis
    then show ?thesis using close sum by (simp add: eventd_balance_def)
  next
    case (elsewhere d ls')
    then show ?thesis using ok sum by (simp add: eventd_balance_def eventd_ok_def)
  qed
qed

section \<open>Properties\<close>

text \<open>
  C32: an event counter loses and invents nothing. In every history of reads, writes and closes of a new
  event counter the initial value and all that was written is what was read and the value of the
  counter, which never reaches \<open>2 ^ 64 - 1\<close>; the descriptor is readable exactly when
  the counter is not zero and writable exactly when one more fits.
\<close>

theorem eventd_conserves:
  assumes "idle_callback cb" and "eventd_new cb ls v sem = Some w0"
    and "eventd_steps cb (w0, 0, 0) (w, written, taken)"
  shows "unat v + written = unat (ed_counter (fst w)) + taken \<and> unat (ed_counter (fst w)) < 2 ^ 64 - 1 \<and>
     (bit (ds_status (ed_super (fst w))) 1 \<longleftrightarrow> ed_counter (fst w) \<noteq> 0) \<and>
     (bit (ds_status (ed_super (fst w))) 2 \<longleftrightarrow> unat (ed_counter (fst w)) + 1 < 2 ^ 64 - 1)"
proof -
  obtain e where "eventd_new cb ls v sem = Some (e, ls)" "eventd_ok (e, ls)" "unat (ed_counter e) = unat v"
    using eventd_new_ok [OF assms(1)] by metis
  then have "eventd_balance (unat v) (w0, 0, 0)" using assms(2) by (simp add: eventd_balance_def)
  with assms(3) have "eventd_balance (unat v) (w, written, taken)"
    by (induction rule: rtranclp_induct) (auto intro: eventd_step_balance [OF assms(1)])
  then have ok: "eventd_ok w" and sum: "unat v + written = unat (ed_counter (fst w)) + taken"
    by (simp_all add: eventd_balance_def)
  have m: "unat (UINT64_MAX - 1) = 2 ^ 64 - 2" by (simp add: UINT64_MAX_def)
  have "unat (ed_counter (fst w)) < 2 ^ 64 - 1" using ok m by (simp add: eventd_ok_def word_le_nat_alt)
  moreover have "bit (ds_status (ed_super (fst w))) 2 \<longleftrightarrow> unat (ed_counter (fst w)) + 1 < 2 ^ 64 - 1"
    using ok unfolding eventd_ok_def word_less_nat_alt m by simp
  moreover have "bit (ds_status (ed_super (fst w))) 1 \<longleftrightarrow> ed_counter (fst w) \<noteq> 0"
    using ok unfolding eventd_ok_def word_greater_zero_iff by blast
  ultimately show ?thesis using sum by blast
qed

definition eventd_cb :: desc_callback where "eventd_cb l w = w"

theorem eventd_conserves_witness:
  "\<exists>w0 w1 w2. eventd_new eventd_cb (\<lambda>_. None) 3 True = Some w0 \<and>
     eventd_write eventd_cb w0 4 8 = Some (w1, 8) \<and> eventd_read eventd_cb w1 8 = Some (w2, 8, Some 1) \<and>
     unat (3 :: u32) + (0 + unat (4 :: u64)) = unat (ed_counter (fst w2)) + (0 + 1)"
proof -
  have cb: "idle_callback eventd_cb" by (simp add: idle_callback_def eventd_cb_def)
  obtain e0 where e0: "eventd_new eventd_cb (\<lambda>_. None) 3 True = Some (e0, \<lambda>_. None)" "eventd_ok (e0, \<lambda>_. None)"
    "unat (ed_counter e0) = unat (3 :: u32)" "ed_is_semaphore e0" using eventd_new_ok [OF cb] by metis
  have "\<not> ((8 :: nat) < 8 \<or> 2 ^ 64 - 1 \<le> unat (ed_counter e0) + unat (4 :: u64))" using e0(3) by simp
  then obtain e1 where e1: "eventd_write eventd_cb (e0, \<lambda>_. None) 4 8 = Some ((e1, \<lambda>_. None), 8)" "eventd_ok (e1, \<lambda>_. None)"
    "unat (ed_counter e1) = unat (ed_counter e0) + unat (4 :: u64)" "ed_is_semaphore e1"
    using eventd_write_ok [OF cb e0(2)] e0(4) by metis
  have "\<not> ((8 :: nat) < 8 \<or> ed_counter e1 = 0)" using e1(3) by auto
  then obtain e2 where e2: "eventd_read eventd_cb (e1, \<lambda>_. None) 8 = Some ((e2, \<lambda>_. None), 8, Some 1)"
    using eventd_read_ok [OF cb e1(2)] e1(4) by metis
  have "eventd_step eventd_cb ((e0, \<lambda>_. None), 0, 0) ((e1, \<lambda>_. None), 0 + unat (4 :: u64), 0)"
    using eventd_step.writing [OF e1(1), of 0 0] by simp
  moreover have "eventd_step eventd_cb ((e1, \<lambda>_. None), 0 + unat (4 :: u64), 0) ((e2, \<lambda>_. None), 0 + unat (4 :: u64), 0 + 1)"
    using eventd_step.reading [OF e2(1), of "0 + unat (4 :: u64)" 0] by simp
  ultimately have "eventd_steps eventd_cb ((e0, \<lambda>_. None), 0, 0) ((e2, \<lambda>_. None), 0 + unat (4 :: u64), 0 + 1)"
    by (meson converse_rtranclp_into_rtranclp r_into_rtranclp)
  from eventd_conserves [OF cb e0(1) this] show ?thesis using e0(1) e1(1) e2(1) by auto
qed

text \<open>
  Reading and writing follow \<^verbatim>\<open>man eventfd\<close>: a read needs eight bytes of room and a value that is not
  zero, and takes one from a semaphore and everything from a counter; a write needs eight bytes, refuses
  the largest value and a sum that would reach it, and then changes nothing.
\<close>

lemma eventd_read_write_outcome:
  assumes "idle_callback cb" and "eventd_ok (e, ls)"
  shows "(\<exists>e'. eventd_read cb (e, ls) n =
      (if n < 8 then Some ((e, ls), - EINVAL, None)
       else if ed_counter e = 0 then Some ((e, ls), - EWOULDBLOCK, None)
       else Some ((e', ls), 8, Some (if ed_is_semaphore e then 1 else ed_counter e))) \<and>
      (n < 8 \<or> ed_counter e = 0 \<or> ed_counter e' = (if ed_is_semaphore e then ed_counter e - 1 else 0))) \<and>
    (\<exists>e'. eventd_write cb (e, ls) x n =
      (if n < 8 \<or> x = UINT64_MAX then Some ((e, ls), - EINVAL)
       else if 2 ^ 64 - 1 \<le> unat (ed_counter e) + unat x then Some ((e, ls), - EWOULDBLOCK)
       else Some ((e', ls), 8)) \<and>
      (n < 8 \<or> 2 ^ 64 - 1 \<le> unat (ed_counter e) + unat x \<or> unat (ed_counter e') = unat (ed_counter e) + unat x))"
proof
  show "\<exists>e'. eventd_read cb (e, ls) n =
      (if n < 8 then Some ((e, ls), - EINVAL, None)
       else if ed_counter e = 0 then Some ((e, ls), - EWOULDBLOCK, None)
       else Some ((e', ls), 8, Some (if ed_is_semaphore e then 1 else ed_counter e))) \<and>
      (n < 8 \<or> ed_counter e = 0 \<or> ed_counter e' = (if ed_is_semaphore e then ed_counter e - 1 else 0))"
  proof (cases "n < 8 \<or> ed_counter e = 0")
    case False
    obtain e' where "eventd_read cb (e, ls) n = Some ((e', ls), 8, Some (if ed_is_semaphore e then 1 else ed_counter e))"
      "ed_counter e' = (if ed_is_semaphore e then ed_counter e - 1 else 0)" by (rule eventd_read_ok [OF assms False]) simp
    then show ?thesis using False by (intro exI [of _ e']) simp
  qed (auto simp: eventd_read_fails)
  show "\<exists>e'. eventd_write cb (e, ls) x n =
      (if n < 8 \<or> x = UINT64_MAX then Some ((e, ls), - EINVAL)
       else if 2 ^ 64 - 1 \<le> unat (ed_counter e) + unat x then Some ((e, ls), - EWOULDBLOCK)
       else Some ((e', ls), 8)) \<and>
      (n < 8 \<or> 2 ^ 64 - 1 \<le> unat (ed_counter e) + unat x \<or> unat (ed_counter e') = unat (ed_counter e) + unat x)"
  proof (cases "n < 8 \<or> 2 ^ 64 - 1 \<le> unat (ed_counter e) + unat x")
    case True
    then show ?thesis using eventd_write_fails [OF assms(2) True]
      by (cases "n < 8 \<or> x = UINT64_MAX") auto
  next
    case False
    have "x \<noteq> UINT64_MAX" using False unat_UINT64_MAX by auto
    moreover obtain e' where "eventd_write cb (e, ls) x n = Some ((e', ls), 8)"
      "unat (ed_counter e') = unat (ed_counter e) + unat x" using eventd_write_ok [OF assms False] by metis
    ultimately show ?thesis using False by (intro exI [of _ e']) simp
  qed
qed

end
