(* ===== verification/Futex.thy ===== *)
theory Futex
  imports Descriptor "HOL-Library.AList"
begin

text \<open>
  \<^verbatim>\<open>host/futex.c\<close> and \<^verbatim>\<open>host/futex_table.c\<close>: futexes with the listeners that wait for them, and the
  table of the futexes of a host by physical address. The hash table of listeners is an association
  list from listeners to the flag that says whether they were already woken; the hash table of futexes
  is one from addresses to futex pointers. Live futexes are in a store indexed by their pointers.
\<close>

section \<open>Futexes\<close>

record futex =
  fx_word :: u64
  fx_listeners :: "(gpointer \<times> bool) list"
  fx_referenceCount :: int

type_synonym futex_world = "futex \<times> listener_store"
type_synonym futex_callback = "status_listener \<Rightarrow> futex_world \<Rightarrow> futex_world"
type_synonym futex_store = "gpointer \<rightharpoonup> futex"

definition futex_new :: "u64 \<Rightarrow> futex" where
  "futex_new word = \<lparr>fx_word = word, fx_listeners = [], fx_referenceCount = 1\<rparr>"

definition futex_ref :: "futex_store \<Rightarrow> gpointer \<Rightarrow> futex_store option" where
  "futex_ref fs p = do {
     fx \<leftarrow> fs p;
     Some (fs(p \<mapsto> fx\<lparr>fx_referenceCount := fx_referenceCount fx + 1\<rparr>))
   }"

text \<open>Freeing a futex does not touch its table of listeners.\<close>

definition futex_free :: "futex_store \<Rightarrow> gpointer \<Rightarrow> futex_store" where
  "futex_free fs p = fs(p := None)"

definition futex_unref :: "futex_store \<Rightarrow> gpointer \<Rightarrow> futex_store option" where
  "futex_unref fs p = do {
     fx \<leftarrow> fs p;
     utility_assert (fx_referenceCount fx > 0);
     let fx' = fx\<lparr>fx_referenceCount := fx_referenceCount fx - 1\<rparr>;
     Some (if fx_referenceCount fx' = 0 then futex_free fs p else fs(p \<mapsto> fx'))
   }"

definition futex_getAddress :: "futex \<Rightarrow> u64" where "futex_getAddress fx = fx_word fx"

text \<open>
  The loop of \<open>futex_wake\<close> over the keys of the table. Stealing a listener and inserting it again
  changes its flag in place, or adds it when the callback has removed it.
\<close>

fun wake_loop ::
  "futex_callback \<Rightarrow> u32 \<Rightarrow> gpointer list \<Rightarrow> u32 \<Rightarrow> futex_world \<Rightarrow> (futex_world \<times> gpointer list \<times> u32) option" where
  "wake_loop cb numWakeups [] numWoken w = Some (w, [], numWoken)"
| "wake_loop cb numWakeups (p # ps) numWoken w =
     (if numWoken < numWakeups
      then case map_of (fx_listeners (fst w)) p of
             Some False \<Rightarrow> do {
               (w1, called) \<leftarrow> statuslistener_onStatusChanged cb p w STATUS_FUTEX_WAKEUP STATUS_FUTEX_WAKEUP;
               (w2, rest, n) \<leftarrow> wake_loop cb numWakeups ps (numWoken + 1)
                 ((fst w1)\<lparr>fx_listeners := AList.update p True (fx_listeners (fst w1))\<rparr>, snd w1);
               Some (w2, called @ rest, n)
             }
           | _ \<Rightarrow> wake_loop cb numWakeups ps numWoken w
      else Some (w, [], numWoken))"

definition futex_wake :: "futex_callback \<Rightarrow> futex_world \<Rightarrow> u32 \<Rightarrow> (futex_world \<times> gpointer list \<times> u32) option" where
  "futex_wake cb w numWakeups = wake_loop cb numWakeups (map fst (fx_listeners (fst w))) 0 w"

text \<open>Inserting a key that is in the table replaces its flag and releases the new reference to the key.\<close>

definition futex_addListener :: "futex_world \<Rightarrow> gpointer \<Rightarrow> (futex_world \<times> (gpointer \<times> gpointer) list) option" where
  "futex_addListener w p = do {
     ls \<leftarrow> statuslistener_ref (snd w) p;
     (ls', calls) \<leftarrow> (if p \<in> fst ` set (fx_listeners (fst w)) then statuslistener_unref ls p else Some (ls, []));
     Some (((fst w)\<lparr>fx_listeners := AList.update p False (fx_listeners (fst w))\<rparr>, ls'), calls)
   }"

definition futex_removeListener :: "futex_world \<Rightarrow> gpointer \<Rightarrow> (futex_world \<times> (gpointer \<times> gpointer) list) option" where
  "futex_removeListener w p =
     (if p \<in> fst ` set (fx_listeners (fst w))
      then do {
        (ls, calls) \<leftarrow> statuslistener_unref (snd w) p;
        Some (((fst w)\<lparr>fx_listeners := AList.delete p (fx_listeners (fst w))\<rparr>, ls), calls)
      }
      else Some (w, []))"

definition futex_getListenerCount :: "futex \<Rightarrow> nat" where
  "futex_getListenerCount fx = length (fx_listeners fx)"

section \<open>The table of futexes\<close>

text \<open>The hash table is made by the first \<open>futextable_add\<close>.\<close>

record futextable =
  ft_futexes :: "(u64 \<times> gpointer) list option"
  ft_referenceCount :: int

definition futextable_new :: futextable where
  "futextable_new = \<lparr>ft_futexes = None, ft_referenceCount = 1\<rparr>"

fun unref_futexes :: "futex_store \<Rightarrow> gpointer list \<Rightarrow> futex_store option" where
  "unref_futexes fs [] = Some fs"
| "unref_futexes fs (p # ps) = do { fs' \<leftarrow> futex_unref fs p; unref_futexes fs' ps }"

definition futextable_free :: "futex_store \<Rightarrow> futextable \<Rightarrow> futex_store option" where
  "futextable_free fs t =
     (case ft_futexes t of None \<Rightarrow> Some fs | Some m \<Rightarrow> unref_futexes fs (map snd m))"

definition futextable_ref :: "futextable \<Rightarrow> futextable" where
  "futextable_ref t = t\<lparr>ft_referenceCount := ft_referenceCount t + 1\<rparr>"

definition futextable_unref :: "futex_store \<Rightarrow> futextable \<Rightarrow> (futex_store \<times> futextable option) option" where
  "futextable_unref fs t = do {
     let t' = t\<lparr>ft_referenceCount := ft_referenceCount t - 1\<rparr>;
     utility_assert (ft_referenceCount t' \<ge> 0);
     if ft_referenceCount t' = 0 then do { fs' \<leftarrow> futextable_free fs t'; Some (fs', None) }
     else Some (fs, Some t')
   }"

definition futextable_add :: "futex_store \<Rightarrow> futextable \<Rightarrow> gpointer \<Rightarrow> (futextable \<times> bool) option" where
  "futextable_add fs t p = do {
     fx \<leftarrow> fs p;
     let index = futex_getAddress fx;
     let m = (case ft_futexes t of None \<Rightarrow> [] | Some m \<Rightarrow> m);
     Some (if map_of m index \<noteq> None then (t\<lparr>ft_futexes := Some m\<rparr>, False)
           else (t\<lparr>ft_futexes := Some (m @ [(index, p)])\<rparr>, True))
   }"

definition futextable_remove :: "futex_store \<Rightarrow> futextable \<Rightarrow> gpointer \<Rightarrow> (futex_store \<times> futextable \<times> bool) option" where
  "futextable_remove fs t p = do {
     fx \<leftarrow> fs p;
     let index = futex_getAddress fx;
     case ft_futexes t of
       None \<Rightarrow> Some (fs, t, False)
     | Some m \<Rightarrow>
         (case map_of m index of
            None \<Rightarrow> Some (fs, t, False)
          | Some q \<Rightarrow> do {
              fs' \<leftarrow> futex_unref fs q;
              Some (fs', t\<lparr>ft_futexes := Some (AList.delete index m)\<rparr>, True)
            })
   }"

definition futextable_get :: "futextable \<Rightarrow> u64 \<Rightarrow> gpointer option" where
  "futextable_get t ptr = (case ft_futexes t of None \<Rightarrow> None | Some m \<Rightarrow> map_of m ptr)"

section \<open>Waking\<close>

definition futex_ok :: "futex_world \<Rightarrow> bool" where
  "futex_ok w \<longleftrightarrow> distinct (map fst (fx_listeners (fst w))) \<and>
     (\<forall>p \<in> fst ` set (fx_listeners (fst w)). \<exists>l. snd w p = Some l \<and> 1 \<le> sl_referenceCount l)"

definition idle_futex_callback :: "futex_callback \<Rightarrow> bool" where
  "idle_futex_callback cb \<longleftrightarrow> (\<forall>l w. cb l w = w)"

definition sleeping :: "futex \<Rightarrow> gpointer list" where
  "sleeping fx = map fst (filter (\<lambda>(p, woken). \<not> woken) (fx_listeners fx))"

text \<open>Whether a listener's callback runs when it is told of the wakeup.\<close>

definition woken_by :: "listener_store \<Rightarrow> gpointer \<Rightarrow> bool" where
  "woken_by ls p = statuslistener_shouldNotify (the (ls p)) STATUS_FUTEX_WAKEUP STATUS_FUTEX_WAKEUP"

abbreviation mark :: "gpointer list \<Rightarrow> (gpointer \<times> bool) list \<Rightarrow> (gpointer \<times> bool) list" where
  "mark ps m \<equiv> fold (\<lambda>p. AList.update p True) ps m"

lemma map_of_mark: "map_of (mark ps m) q = (if q \<in> set ps then Some True else map_of m q)"
  by (induction ps arbitrary: m) (auto simp: update_conv')

lemma mark_keys: "set ps \<subseteq> fst ` set m \<Longrightarrow> map fst (mark ps m) = map fst m"
proof (induction ps arbitrary: m)
  case (Cons p ps)
  have "map fst (AList.update p True m) = map fst m" using Cons.prems by (simp add: update_keys)
  moreover from this have "fst ` set (AList.update p True m) = fst ` set m" by (metis list.set_map)
  ultimately show ?case using Cons by simp
qed simp

lemma sleeping_eq:
  "distinct (map fst m) \<Longrightarrow> filter (\<lambda>p. map_of m p = Some False) (map fst m) = map fst (filter (\<lambda>(p, woken). \<not> woken) m)"
proof (induction m)
  case (Cons a m)
  obtain p b where a: "a = (p, b)" by (cases a)
  have "filter (\<lambda>q. map_of (a # m) q = Some False) (map fst m) = filter (\<lambda>q. map_of m q = Some False) (map fst m)"
    using Cons.prems a by (intro filter_cong) auto
  then show ?case using Cons a by auto
qed simp

lemma wake_loop_idle:
  assumes cb: "idle_futex_callback cb" and live: "\<And>p. p \<in> set ps \<Longrightarrow> ls p \<noteq> None"
    and "distinct ps" and "k \<le> n"
  shows "\<exists>W. W = take (unat n - unat k) (filter (\<lambda>p. map_of (fx_listeners fx) p = Some False) ps) \<and>
     wake_loop cb n ps k (fx, ls) =
       Some ((fx\<lparr>fx_listeners := mark W (fx_listeners fx)\<rparr>, ls), filter (woken_by ls) W, k + of_nat (length W))"
  using assms(2-4)
proof (induction ps arbitrary: k fx)
  case (Cons p ps)
  obtain l where l: "ls p = Some l" using Cons.prems(1) by (metis list.set_intros(1) option.exhaust)
  show ?case
  proof (cases "k < n \<and> map_of (fx_listeners fx) p = Some False")
    case True
    let ?fx = "fx\<lparr>fx_listeners := AList.update p True (fx_listeners fx)\<rparr>"
    let ?W = "take (unat n - unat (k + 1)) (filter (\<lambda>q. map_of (fx_listeners fx) q = Some False) ps)"
    have lt: "unat k < unat n" using True by (simp add: word_less_nat_alt)
    then have "unat k + unat (1 :: u32) < 2 ^ 32" using unsigned_less [of n, where 'a = nat] by simp
    then have "unat (k + 1) = unat k + unat (1 :: u32)" by (intro unat_add_lem [THEN iffD1]) simp
    then have u: "unat (k + 1) = Suc (unat k)" "k + 1 \<le> n" using lt by (simp_all add: word_le_nat_alt)
    have "filter (\<lambda>q. map_of (fx_listeners ?fx) q = Some False) ps = filter (\<lambda>q. map_of (fx_listeners fx) q = Some False) ps"
      using Cons.prems(2) by (intro filter_cong) (auto simp: update_conv')
    then have rec: "wake_loop cb n ps (k + 1) (?fx, ls) =
       Some ((?fx\<lparr>fx_listeners := mark ?W (fx_listeners ?fx)\<rparr>, ls), filter (woken_by ls) ?W, k + 1 + of_nat (length ?W))"
      using Cons.IH [of "k + 1" ?fx] Cons.prems u by simp
    have on: "statuslistener_onStatusChanged cb p (fx, ls) STATUS_FUTEX_WAKEUP STATUS_FUTEX_WAKEUP =
       Some ((fx, ls), if woken_by ls p then [p] else [])"
      using l cb by (simp add: statuslistener_onStatusChanged_def statuslistener_invokeNotifyFunc_def woken_by_def
          idle_futex_callback_def)
    have W: "take (unat n - unat k) (filter (\<lambda>p. map_of (fx_listeners fx) p = Some False) (p # ps)) = p # ?W"
      using True u(1) by (simp add: word_less_nat_alt take_Cons')
    have step: "wake_loop cb n (p # ps) k (fx, ls) =
       Some ((fx\<lparr>fx_listeners := mark (p # ?W) (fx_listeners fx)\<rparr>, ls), filter (woken_by ls) (p # ?W), k + of_nat (length (p # ?W)))"
      using True rec on by (simp add: ac_simps)
    show ?thesis unfolding W using step by blast
  next
    case False
    then consider (enough) "\<not> k < n" | (skip) "k < n" "map_of (fx_listeners fx) p \<noteq> Some False" by blast
    then show ?thesis
    proof cases
      case enough
      then have "k = n" using Cons.prems(3) by simp
      then show ?thesis by simp
    next
      case skip
      have "wake_loop cb n (p # ps) k (fx, ls) = wake_loop cb n ps k (fx, ls)"
        using skip by (auto split: option.splits bool.splits)
      then show ?thesis using Cons skip by simp
    qed
  qed
qed simp

text \<open>
  C33: \<open>futex_wake\<close> wakes the first \<open>numWakeups\<close> listeners that were not woken before, or all of them where
  there are fewer, returns how many they are, calls each of them that monitors the wakeup once, marks exactly
  them as woken and keeps the table otherwise: nobody is woken twice and no wakeup is lost.
\<close>

theorem futex_wake_exact:
  assumes "idle_futex_callback cb" and "futex_ok (fx, ls)"
  shows "\<exists>fx' W numWoken. futex_wake cb (fx, ls) n = Some ((fx', ls), filter (woken_by ls) W, numWoken) \<and>
     W = take (unat n) (sleeping fx) \<and> unat numWoken = min (unat n) (length (sleeping fx)) \<and>
     map fst (fx_listeners fx') = map fst (fx_listeners fx) \<and> sleeping fx' = drop (unat n) (sleeping fx)"
proof -
  let ?m = "fx_listeners fx" and ?W = "take (unat n) (sleeping fx)"
  let ?m' = "mark ?W ?m"
  have d: "distinct (map fst ?m)" using assms(2) by (simp add: futex_ok_def)
  have sl: "sleeping fx = filter (\<lambda>p. map_of ?m p = Some False) (map fst ?m)"
    using sleeping_eq [OF d] by (simp add: sleeping_def)
  have live: "ls p \<noteq> None" if "p \<in> set (map fst ?m)" for p using assms(2) that by (force simp: futex_ok_def)
  have "wake_loop cb n (map fst ?m) 0 (fx, ls) =
       Some ((fx\<lparr>fx_listeners := ?m'\<rparr>, ls), filter (woken_by ls) ?W, 0 + of_nat (length ?W))"
    using wake_loop_idle [OF assms(1) live d, where k = 0 and n = n and fx = fx] sl by simp
  moreover have sub: "set ?W \<subseteq> fst ` set ?m" using set_take_subset [of "unat n" "sleeping fx"] sl by auto
  then have keys: "map fst ?m' = map fst ?m" by (rule mark_keys)
  moreover have "sleeping (fx\<lparr>fx_listeners := ?m'\<rparr>) = drop (unat n) (sleeping fx)"
  proof -
    have ds: "distinct (sleeping fx)" using d sl by simp
    have "sleeping (fx\<lparr>fx_listeners := ?m'\<rparr>) = filter (\<lambda>p. map_of ?m' p = Some False) (map fst ?m)"
      using sleeping_eq [of ?m'] keys d by (simp add: sleeping_def)
    also have "... = filter (\<lambda>p. p \<notin> set ?W) (sleeping fx)"
      unfolding sl map_of_mark filter_filter by (intro filter_cong) auto
    also have "... = filter (\<lambda>p. p \<notin> set ?W) (?W @ drop (unat n) (sleeping fx))" by simp
    also have "... = drop (unat n) (sleeping fx)"
      using ds set_take_disj_set_drop_if_distinct [of "sleeping fx" "unat n" "unat n"]
      unfolding filter_append by (simp add: filter_empty_conv) (auto simp: filter_id_conv)
    finally show ?thesis .
  qed
  moreover have "unat (0 + of_nat (length ?W) :: u32) = min (unat n) (length (sleeping fx))"
  proof -
    have "length ?W < 2 ^ 32" using unsigned_less [of n, where 'a = nat] by simp
    then show ?thesis by (simp add: unat_of_nat min.commute)
  qed
  ultimately show ?thesis by (auto simp: futex_wake_def)
qed

definition futex_listener :: status_listener where
  "futex_listener = \<lparr>sl_monitoring = STATUS_FUTEX_WAKEUP, sl_filter = SLF_OFF_TO_ON, sl_notifyFunc = 1,
     sl_callbackObject = NULL, sl_objectFreeFunc = NULL, sl_callbackArgument = NULL, sl_argumentFreeFunc = NULL,
     sl_referenceCount = 1\<rparr>"

theorem futex_wake_exact_witness:
  "\<exists>fx' numWoken. futex_wake (\<lambda>l w. w) ((futex_new 64)\<lparr>fx_listeners := [(1, False), (2, True), (3, False), (4, False)]\<rparr>,
       (\<lambda>_. Some futex_listener)) 2 = Some ((fx', \<lambda>_. Some futex_listener), [1, 3], numWoken) \<and> unat numWoken = 2 \<and>
     sleeping fx' = [4]"
proof -
  let ?fx = "(futex_new 64)\<lparr>fx_listeners := [(1, False), (2, True), (3, False), (4, False)]\<rparr>"
  have "futex_ok (?fx, \<lambda>_. Some futex_listener)" by (simp add: futex_ok_def futex_listener_def)
  moreover have "idle_futex_callback (\<lambda>l w. w)" by (simp add: idle_futex_callback_def)
  moreover have "filter (woken_by (\<lambda>_. Some futex_listener)) (take (unat (2 :: u32)) (sleeping ?fx)) = [1, 3]"
    by (simp add: sleeping_def woken_by_def statuslistener_shouldNotify_def futex_listener_def STATUS_FUTEX_WAKEUP_def)
  moreover have "sleeping ?fx = [1, 3, 4]" by (simp add: sleeping_def)
  ultimately show ?thesis using futex_wake_exact [of "\<lambda>l w. w" ?fx "\<lambda>_. Some futex_listener" 2] by fastforce
qed

section \<open>The table is a map of live futexes\<close>

definition table_ok :: "futex_store \<Rightarrow> futextable \<Rightarrow> bool" where
  "table_ok fs t \<longleftrightarrow> (case ft_futexes t of None \<Rightarrow> True
     | Some m \<Rightarrow> distinct (map fst m) \<and>
         (\<forall>(index, p) \<in> set m. \<exists>fx. fs p = Some fx \<and> fx_word fx = index \<and> 1 \<le> fx_referenceCount fx))"

text \<open>
  The table maps addresses to futexes. A futex is added unless its address is taken, and is then found
  under its address and nowhere else; a second futex with the same address is refused and changes nothing;
  removing the futex empties the address, keeps the other entries and releases one reference.
\<close>

lemma futextable_add_get_remove:
  assumes "table_ok fs t" and "fs p = Some fx" and "1 \<le> fx_referenceCount fx"
  shows "\<exists>t' added. futextable_add fs t p = Some (t', added) \<and> table_ok fs t' \<and>
     (added \<longleftrightarrow> futextable_get t (fx_word fx) = None) \<and>
     futextable_get t' = (if added then (futextable_get t)(fx_word fx \<mapsto> p) else futextable_get t) \<and>
     (added \<longrightarrow> (\<exists>fs' t''. futextable_remove fs t' p = Some (fs', t'', True) \<and> futextable_get t'' = futextable_get t \<and>
        fs' = fs(p := if fx_referenceCount fx = 1 then None
                      else Some (fx\<lparr>fx_referenceCount := fx_referenceCount fx - 1\<rparr>))))"
proof -
  define m where "m = (case ft_futexes t of None \<Rightarrow> [] | Some m \<Rightarrow> m)"
  have get: "futextable_get t = map_of m" by (auto simp: futextable_get_def m_def fun_eq_iff split: option.splits)
  have ok: "distinct (map fst m)"
    "\<forall>(index, q) \<in> set m. \<exists>fx. fs q = Some fx \<and> fx_word fx = index \<and> 1 \<le> fx_referenceCount fx"
    using assms(1) by (auto simp: table_ok_def m_def split: option.splits)
  show ?thesis
  proof (cases "map_of m (fx_word fx)")
    case (Some q)
    then have "futextable_add fs t p = Some (t\<lparr>ft_futexes := Some m\<rparr>, False)"
      using assms(2) by (simp add: futextable_add_def futex_getAddress_def m_def)
    moreover have "table_ok fs (t\<lparr>ft_futexes := Some m\<rparr>)" using ok by (simp add: table_ok_def)
    ultimately show ?thesis using Some get by (auto simp: futextable_get_def fun_eq_iff)
  next
    case None
    let ?m = "m @ [(fx_word fx, p)]"
    have nk: "fx_word fx \<notin> fst ` set m" using None by (simp add: map_of_eq_None_iff)
    have add: "futextable_add fs t p = Some (t\<lparr>ft_futexes := Some ?m\<rparr>, True)"
      using assms(2) None by (simp add: futextable_add_def futex_getAddress_def m_def)
    have ok': "table_ok fs (t\<lparr>ft_futexes := Some ?m\<rparr>)" using ok nk assms by (auto simp: table_ok_def)
    have get': "map_of ?m = (map_of m)(fx_word fx \<mapsto> p)"
      using None by (auto simp: fun_eq_iff map_add_def split: option.splits)
    have del: "AList.delete (fx_word fx) ?m = m" using nk by (simp add: AList.delete_eq filter_id_conv) force
    have "futextable_remove fs (t\<lparr>ft_futexes := Some ?m\<rparr>) p =
       Some (fs(p := if fx_referenceCount fx = 1 then None
                     else Some (fx\<lparr>fx_referenceCount := fx_referenceCount fx - 1\<rparr>)), t\<lparr>ft_futexes := Some m\<rparr>, True)"
      using assms(2,3) get' del
      by (simp add: futextable_remove_def futex_getAddress_def futex_unref_def futex_free_def Let_def)
    moreover have "futextable_get (t\<lparr>ft_futexes := Some l\<rparr>) = map_of l" for l by (simp add: futextable_get_def fun_eq_iff)
    ultimately show ?thesis using add ok' get get' None
      by (intro exI [of _ "t\<lparr>ft_futexes := Some ?m\<rparr>"] exI [of _ True]) simp
  qed
qed

end
