(* ===== verification/Byte_Queue.thy ===== *)
theory Byte_Queue
  imports Prelude "HOL-Library.Monad_Syntax"
begin

text \<open>
  \<^verbatim>\<open>utility/byte_queue.rs\<close>: the chunked buffer behind pipes. Chunks are written at the front of the list and
  read from its end. A chunk holds \<^verbatim>\<open>chunk_capacity\<close> bytes. The source of a push and the
  destination of a pop are slices, which never fail. A push into a queue with chunks of capacity zero would
  add chunks forever: not returning is \<open>None\<close>.
\<close>

section \<open>Model\<close>

record bytequeue =
  bq_chunks :: "byte list list"
  bq_tail_read_offset :: nat
  bq_length :: nat
  bq_chunk_capacity :: nat

definition bytequeue_new :: "nat \<Rightarrow> bytequeue" where
  "bytequeue_new chunk_capacity =
     \<lparr>bq_chunks = [], bq_tail_read_offset = 0, bq_length = 0, bq_chunk_capacity = chunk_capacity\<rparr>"

definition create_new_head :: "bytequeue \<Rightarrow> bytequeue" where
  "create_new_head q =
     q\<lparr>bq_tail_read_offset := (if bq_chunks q = [] then 0 else bq_tail_read_offset q),
       bq_chunks := [] # bq_chunks q\<rparr>"

definition destroy_old_tail :: "bytequeue \<Rightarrow> bytequeue" where
  "destroy_old_tail q = q\<lparr>bq_chunks := butlast (bq_chunks q), bq_tail_read_offset := 0\<rparr>"

definition get_available_bytes_tail :: "bytequeue \<Rightarrow> nat" where
  "get_available_bytes_tail q =
     (case bq_chunks q of
        [] \<Rightarrow> 0
      | [front] \<Rightarrow> length front - bq_tail_read_offset q
      | _ \<Rightarrow> bq_chunk_capacity q - bq_tail_read_offset q)"

partial_function (option) push_loop :: "bytequeue \<Rightarrow> byte list \<Rightarrow> nat \<Rightarrow> (bytequeue \<times> nat) option" where
  "push_loop q src total_written =
     (case bq_chunks q of
        [] \<Rightarrow> None
      | head # rest \<Rightarrow>
          (let head_space = bq_chunk_capacity q - length head
           in if head_space = 0 then push_loop (create_new_head q) src total_written
              else let written = take head_space src;
                       q' = q\<lparr>bq_chunks := (head @ written) # rest, bq_length := bq_length q + length written\<rparr>
                   in if written = [] then Some (if head = [] then q'\<lparr>bq_chunks := rest\<rparr> else q', total_written)
                      else push_loop q' (drop head_space src) (total_written + length written)))"

definition bytequeue_push :: "bytequeue \<Rightarrow> byte list \<Rightarrow> (bytequeue \<times> nat) option" where
  "bytequeue_push q src = push_loop (if bq_chunks q = [] then create_new_head q else q) src 0"

function pop_loop :: "bytequeue \<Rightarrow> nat \<Rightarrow> byte list \<Rightarrow> bytequeue \<times> byte list" where
  "pop_loop q n dst =
     (case bq_chunks q of
        [] \<Rightarrow> (q, dst)
      | _ \<Rightarrow>
          (let copied = take n (drop (bq_tail_read_offset q) (last (bq_chunks q)));
               q1 = q\<lparr>bq_tail_read_offset := bq_tail_read_offset q + length copied,
                      bq_length := bq_length q - length copied\<rparr>;
               q2 = (if get_available_bytes_tail q1 = 0 then destroy_old_tail q1 else q1)
           in if copied = [] then (q2, dst) else pop_loop q2 (n - length copied) (dst @ copied)))"
  by pat_completeness auto
termination by (relation "measure (\<lambda>(q, n, dst). n)") auto

declare pop_loop.simps [simp del]

text \<open>The bytes that are popped; \<^verbatim>\<open>pop\<close> returns their number.\<close>

definition bytequeue_pop :: "bytequeue \<Rightarrow> nat \<Rightarrow> bytequeue \<times> byte list" where
  "bytequeue_pop q n = pop_loop q n []"

section \<open>The queue of bytes\<close>

definition bq_bytes :: "bytequeue \<Rightarrow> byte list" where
  "bq_bytes q = drop (bq_tail_read_offset q) (concat (rev (bq_chunks q)))"

text \<open>
  All chunks but the first are full and something is left to read in the last one; while bytes are
  being pushed the first chunk may still be empty.
\<close>

definition bq_pushing :: "bytequeue \<Rightarrow> bool" where
  "bq_pushing q \<longleftrightarrow> 0 < bq_chunk_capacity q \<and> bq_length q = length (bq_bytes q) \<and>
     (case bq_chunks q of
        [] \<Rightarrow> True
      | head # rest \<Rightarrow> length head \<le> bq_chunk_capacity q \<and> (\<forall>c \<in> set rest. length c = bq_chunk_capacity q) \<and>
          (if rest = [] \<and> head = [] then bq_tail_read_offset q = 0
           else bq_tail_read_offset q < length (last (head # rest))))"

definition bq_ok :: "bytequeue \<Rightarrow> bool" where
  "bq_ok q \<longleftrightarrow> bq_pushing q \<and> [] \<notin> set (bq_chunks q)"

lemma bq_ok_new: "0 < n \<Longrightarrow> bq_ok (bytequeue_new n)" "bq_bytes (bytequeue_new n) = []"
  by (simp_all add: bq_ok_def bq_pushing_def bytequeue_new_def bq_bytes_def)

lemma bq_length: "bq_ok q \<Longrightarrow> bq_length q = length (bq_bytes q)"
  by (simp add: bq_ok_def bq_pushing_def)

lemma concat_rev_last: "xs \<noteq> [] \<Longrightarrow> concat (rev xs) = last xs @ concat (rev (butlast xs))"
  by (induction xs rule: rev_induct) simp_all

lemma take_then_drop: "xs = take n xs @ drop (length (take n xs)) xs"
  by (cases "n \<le> length xs") simp_all

text \<open>The offset lies within the bytes that are there, so that appending bytes appends to what is left.\<close>

lemma bq_offset:
  assumes "bq_pushing q"
  shows "bq_chunks q = [] \<or> bq_tail_read_offset q \<le> length (concat (rev (bq_chunks q)))"
proof (cases "bq_chunks q")
  case (Cons head rest)
  have "bq_tail_read_offset q \<le> length (last (bq_chunks q))"
    using assms Cons by (auto simp: bq_pushing_def split: if_splits)
  also have "... \<le> length (concat (rev (bq_chunks q)))"
  proof -
    have "concat (rev (bq_chunks q)) = last (bq_chunks q) @ concat (rev (butlast (bq_chunks q)))"
      by (rule concat_rev_last) (simp add: Cons)
    then show ?thesis by (simp only: length_append le_add1)
  qed
  finally show ?thesis by simp
qed simp

lemma bq_write:
  assumes ok: "bq_pushing q" and c: "bq_chunks q = head # rest"
    and w: "length head + length w \<le> bq_chunk_capacity q"
  defines "q' \<equiv> q\<lparr>bq_chunks := (head @ w) # rest, bq_length := bq_length q + length w\<rparr>"
  shows "bq_pushing q'" and "bq_bytes q' = bq_bytes q @ w"
proof -
  show b: "bq_bytes q' = bq_bytes q @ w" using bq_offset [OF ok] c by (simp add: bq_bytes_def q'_def)
  show "bq_pushing q'" using ok c w b
    by (cases "rest = []"; cases "head = []") (simp_all add: bq_pushing_def q'_def)
qed

lemma bq_new_head:
  assumes ok: "bq_pushing q" and c: "bq_chunks q = [] \<or> length (hd (bq_chunks q)) = bq_chunk_capacity q"
  shows "bq_pushing (create_new_head q)" and "bq_bytes (create_new_head q) = bq_bytes q"
proof -
  show b: "bq_bytes (create_new_head q) = bq_bytes q"
    by (simp add: create_new_head_def bq_bytes_def)
  show "bq_pushing (create_new_head q)"
  proof (cases "bq_chunks q")
    case Nil
    then show ?thesis using ok b by (simp add: bq_pushing_def create_new_head_def)
  next
    case (Cons h r)
    then have "length h = bq_chunk_capacity q" "h \<noteq> []" using c ok by (auto simp: bq_pushing_def)
    then show ?thesis using ok b Cons by (simp add: bq_pushing_def create_new_head_def)
  qed
qed

lemma bq_drop_empty_head:
  assumes "bq_pushing q" and "bq_chunks q = [] # rest"
  shows "bq_ok (q\<lparr>bq_chunks := rest\<rparr>)" and "bq_bytes (q\<lparr>bq_chunks := rest\<rparr>) = bq_bytes q"
proof -
  show b: "bq_bytes (q\<lparr>bq_chunks := rest\<rparr>) = bq_bytes q" using assms(2) by (simp add: bq_bytes_def)
  show "bq_ok (q\<lparr>bq_chunks := rest\<rparr>)"
    using assms b by (cases rest) (auto simp: bq_ok_def bq_pushing_def)
qed

lemma bq_pushing_full:
  assumes "bq_pushing q" and "bq_chunks q = head # rest" and "head \<noteq> []"
  shows "bq_ok q"
  using assms by (auto simp: bq_ok_def bq_pushing_def)

lemma push_loop_ok:
  assumes "bq_pushing q" and "bq_chunks q \<noteq> []"
  shows "\<exists>q'. push_loop q src total_written = Some (q', total_written + length src) \<and> bq_ok q' \<and> bq_bytes q' = bq_bytes q @ src \<and>
     bq_chunk_capacity q' = bq_chunk_capacity q"
  using assms
proof (induction "2 * length src + (if bq_chunk_capacity q = length (hd (bq_chunks q)) then 1 else 0)"
    arbitrary: q src total_written rule: less_induct)
  case less
  obtain head rest where c: "bq_chunks q = head # rest" using less.prems(2) by (cases "bq_chunks q") auto
  let ?space = "bq_chunk_capacity q - length head" and ?w = "take (bq_chunk_capacity q - length head) src"
  let ?q' = "q\<lparr>bq_chunks := (head @ ?w) # rest, bq_length := bq_length q + length ?w\<rparr>"
  have le: "length head \<le> bq_chunk_capacity q" and cap: "0 < bq_chunk_capacity q"
    using less.prems(1) c by (simp_all add: bq_pushing_def)
  have unfold: "push_loop q src total_written =
      (if ?space = 0 then push_loop (create_new_head q) src total_written
       else if ?w = [] then Some (if head = [] then ?q'\<lparr>bq_chunks := rest\<rparr> else ?q', total_written)
       else push_loop ?q' (drop ?space src) (total_written + length ?w))"
    using c by (subst push_loop.simps) (simp add: Let_def)
  show ?case
  proof (cases "?space = 0")
    case True
    then have full: "length head = bq_chunk_capacity q" using le by simp
    then have new: "bq_pushing (create_new_head q)" "bq_bytes (create_new_head q) = bq_bytes q"
      using bq_new_head less.prems(1) c by simp_all
    have "\<exists>q'. push_loop (create_new_head q) src total_written = Some (q', total_written + length src) \<and> bq_ok q' \<and>
       bq_bytes q' = bq_bytes (create_new_head q) @ src \<and> bq_chunk_capacity q' = bq_chunk_capacity (create_new_head q)"
      using new(1) full cap c by (intro less.hyps) (simp_all add: create_new_head_def)
    then show ?thesis using unfold True new(2) by (simp add: create_new_head_def)
  next
    case False
    have q': "bq_pushing ?q'" "bq_bytes ?q' = bq_bytes q @ ?w"
      using bq_write [OF less.prems(1) c, of ?w] le by simp_all
    show ?thesis
    proof (cases "?w = []")
      case True
      then have src: "src = []" using False by simp
      show ?thesis
      proof (cases "head = []")
        case empty: True
        have "bq_ok (?q'\<lparr>bq_chunks := rest\<rparr>)" "bq_bytes (?q'\<lparr>bq_chunks := rest\<rparr>) = bq_bytes ?q'"
          using bq_drop_empty_head [OF q'(1)] empty src by simp_all
        then show ?thesis using unfold False True empty src q'(2) by simp
      next
        case nonempty: False
        have "bq_ok ?q'" using bq_pushing_full [OF q'(1), of "head @ ?w" rest] nonempty by simp
        then show ?thesis using unfold False True nonempty src q'(2) by simp
      qed
    next
      case written: False
      then have "0 < length ?w" by simp
      then have "length (drop ?space src) < length src" by (metis diff_less length_drop length_greater_0_conv False neq0_conv take_Nil)
      then have "2 * length (drop ?space src) + 1 < 2 * length src" by linarith
      then have "\<exists>q2. push_loop ?q' (drop ?space src) (total_written + length ?w) =
           Some (q2, total_written + length ?w + length (drop ?space src)) \<and> bq_ok q2 \<and>
         bq_bytes q2 = bq_bytes ?q' @ drop ?space src \<and> bq_chunk_capacity q2 = bq_chunk_capacity ?q'"
        using q'(1) by (intro less.hyps) auto
      moreover have "total_written + length ?w + length (drop ?space src) = total_written + length src" by simp
      moreover have "bq_bytes ?q' @ drop ?space src = bq_bytes q @ src" using q'(2) by simp
      moreover have "push_loop q src total_written = push_loop ?q' (drop ?space src) (total_written + length ?w)"
        unfolding unfold using False written by (simp only: if_False)
      ultimately show ?thesis by (simp only:) simp
    qed
  qed
qed

lemma bytequeue_push_ok:
  assumes "bq_ok q"
  obtains q' where "bytequeue_push q src = Some (q', length src)" "bq_ok q'" "bq_bytes q' = bq_bytes q @ src"
proof -
  let ?q = "if bq_chunks q = [] then create_new_head q else q"
  have "bq_pushing ?q" "bq_bytes ?q = bq_bytes q" "bq_chunks ?q \<noteq> []"
    using assms bq_new_head [of q] by (auto simp: bq_ok_def create_new_head_def)
  then show thesis using push_loop_ok [of ?q src 0] that by (auto simp: bytequeue_push_def)
qed

lemma pop_tail:
  fixes n :: nat
  assumes ok: "bq_ok q" and c: "bq_chunks q \<noteq> []"
  defines "w \<equiv> take n (drop (bq_tail_read_offset q) (last (bq_chunks q)))"
  defines "q1 \<equiv> q\<lparr>bq_tail_read_offset := bq_tail_read_offset q + length w, bq_length := bq_length q - length w\<rparr>"
  defines "q2 \<equiv> (if get_available_bytes_tail q1 = 0 then destroy_old_tail q1 else q1)"
  shows "bq_ok q2" and "bq_bytes q = w @ bq_bytes q2" and "w = [] \<longleftrightarrow> n = 0"
    and "length w < n \<Longrightarrow> w = drop (bq_tail_read_offset q) (last (bq_chunks q))"
proof -
  let ?tail = "last (bq_chunks q)" and ?off = "bq_tail_read_offset q" and ?cap = "bq_chunk_capacity q"
  have split: "bq_chunks q = butlast (bq_chunks q) @ [?tail]" using c by simp
  have off: "?off < length ?tail" and cap: "0 < ?cap" and len: "bq_length q = length (bq_bytes q)"
    and ne: "[] \<notin> set (bq_chunks q)"
    using ok c by (auto simp: bq_ok_def bq_pushing_def neq_Nil_conv split: if_splits)
  have bytes: "bq_bytes q = drop ?off ?tail @ concat (rev (butlast (bq_chunks q)))"
  proof -
    note concat_rev_last [OF c]
    then show ?thesis using off by (simp add: bq_bytes_def)
  qed
  have full: "butlast (bq_chunks q) \<noteq> [] \<Longrightarrow> length ?tail = ?cap"
    using ok c by (cases "bq_chunks q") (auto simp: bq_ok_def bq_pushing_def split: if_splits)
  have avail: "get_available_bytes_tail q1 = length ?tail - (?off + length w)"
    using c full by (auto simp: get_available_bytes_tail_def q1_def split: list.splits)
  show "w = [] \<longleftrightarrow> n = 0" using off by (simp add: w_def)
  show "length w < n \<Longrightarrow> w = drop ?off ?tail" by (auto simp: w_def)
  have wl: "length w \<le> length ?tail - ?off" by (simp add: w_def)
  show b: "bq_bytes q = w @ bq_bytes q2"
  proof (cases "?off + length w < length ?tail")
    case True
    then have q2: "q2 = q1" using avail by (simp add: q2_def)
    have "bq_bytes q1 = drop (?off + length w) ?tail @ concat (rev (butlast (bq_chunks q)))"
      using True concat_rev_last [OF c] by (simp add: bq_bytes_def q1_def)
    moreover have "drop ?off ?tail = w @ drop (length w) (drop ?off ?tail)"
      unfolding w_def by (rule take_then_drop)
    then have "drop ?off ?tail = w @ drop (?off + length w) ?tail" by (simp add: add.commute)
    ultimately show ?thesis using bytes q2 by simp
  next
    case False
    then have w: "w = drop ?off ?tail" using wl off by (simp add: w_def)
    have "q2 = destroy_old_tail q1" using False avail by (simp add: q2_def)
    then have "bq_bytes q2 = concat (rev (butlast (bq_chunks q)))" by (simp add: destroy_old_tail_def bq_bytes_def q1_def)
    then show ?thesis using bytes w by simp
  qed
  have "bq_length q2 = bq_length q - length w" by (simp add: q2_def destroy_old_tail_def q1_def)
  then have l2: "bq_length q2 = length (bq_bytes q2)" using len unfolding b by simp
  show "bq_ok q2"
  proof (cases "?off + length w < length ?tail")
    case True
    then have "q2 = q1" using avail by (simp add: q2_def)
    then show ?thesis using ok l2 True c by (auto simp: bq_ok_def bq_pushing_def q1_def split: list.splits if_splits)
  next
    case False
    then have q2: "q2 = destroy_old_tail q1" using avail by (simp add: q2_def)
    have "\<forall>x \<in> set (butlast (bq_chunks q)). x \<noteq> []" using ne by (metis in_set_butlastD)
    moreover have "case butlast (bq_chunks q) of [] \<Rightarrow> True | h # r \<Rightarrow> length h \<le> ?cap \<and> (\<forall>x \<in> set r. length x = ?cap)"
      using ok c by (cases "bq_chunks q") (auto simp: bq_ok_def bq_pushing_def dest: in_set_butlastD)
    ultimately show ?thesis using l2 cap q2
      by (auto simp: bq_ok_def bq_pushing_def destroy_old_tail_def q1_def split: list.splits)
  qed
qed

lemma pop_loop_ok:
  assumes "bq_ok q"
  shows "\<exists>q'. pop_loop q n dst = (q', dst @ take n (bq_bytes q)) \<and> bq_ok q' \<and> bq_bytes q' = drop n (bq_bytes q)"
  using assms
proof (induction n arbitrary: q dst rule: less_induct)
  case (less n)
  show ?case
  proof (cases "bq_chunks q")
    case Nil
    then show ?thesis using less.prems by (simp add: pop_loop.simps bq_bytes_def)
  next
    case (Cons h r)
    define w where "w = take n (drop (bq_tail_read_offset q) (last (bq_chunks q)))"
    define q1 where "q1 = q\<lparr>bq_tail_read_offset := bq_tail_read_offset q + length w, bq_length := bq_length q - length w\<rparr>"
    define q2 where "q2 = (if get_available_bytes_tail q1 = 0 then destroy_old_tail q1 else q1)"
    have ne: "bq_chunks q \<noteq> []" using Cons by simp
    note tail = pop_tail [OF less.prems ne, of n, folded w_def, folded q1_def, folded q2_def]
    have unfold: "pop_loop q n dst = (if w = [] then (q2, dst) else pop_loop q2 (n - length w) (dst @ w))"
      unfolding pop_loop.simps [of q n dst] Cons list.case Let_def
      unfolding Cons [symmetric] w_def [symmetric] q1_def [symmetric] q2_def [symmetric] ..
    show ?thesis
    proof (cases "n = 0")
      case True
      then show ?thesis using unfold tail(1-3) by auto
    next
      case False
      have le: "length w \<le> n" by (simp add: w_def)
      have "0 < length w" using False tail(3) by simp
      then have "\<exists>q'. pop_loop q2 (n - length w) (dst @ w) = (q', (dst @ w) @ take (n - length w) (bq_bytes q2)) \<and>
         bq_ok q' \<and> bq_bytes q' = drop (n - length w) (bq_bytes q2)"
        using False tail(1) by (intro less.IH) simp_all
      then show ?thesis using unfold False tail(2,3) le by simp
    qed
  qed
qed

lemma bytequeue_pop_ok:
  assumes "bq_ok q"
  obtains q' where "bytequeue_pop q n = (q', take n (bq_bytes q))" "bq_ok q'" "bq_bytes q' = drop n (bq_bytes q)"
  using pop_loop_ok [OF assms, of n "[]"] that by (auto simp: bytequeue_pop_def)

section \<open>Refinement\<close>

text \<open>
  C34: the chunked buffer is a queue of bytes. From every well-formed buffer, and so after any sequence of
  pushes and pops on a new one, a push returns, takes all bytes of the source and appends them, whatever the
  chunks; a pop of \<open>n\<close> bytes takes the \<open>n\<close> oldest bytes, or all there are; the length is always the
  number of bytes that are left.
\<close>

theorem bytequeue_refines_fifo:
  assumes "bq_ok q"
  shows "(\<exists>q'. bytequeue_push q src = Some (q', length src) \<and> bq_ok q' \<and> bq_bytes q' = bq_bytes q @ src \<and>
            bq_length q' = bq_length q + length src) \<and>
         (\<exists>q'. bytequeue_pop q n = (q', take n (bq_bytes q)) \<and> bq_ok q' \<and> bq_bytes q' = drop n (bq_bytes q) \<and>
            bq_length q' = bq_length q - n)"
proof -
  obtain q1 where "bytequeue_push q src = Some (q1, length src)" "bq_ok q1" "bq_bytes q1 = bq_bytes q @ src"
    using bytequeue_push_ok [OF assms] by metis
  moreover obtain q2 where "bytequeue_pop q n = (q2, take n (bq_bytes q))" "bq_ok q2" "bq_bytes q2 = drop n (bq_bytes q)"
    using bytequeue_pop_ok [OF assms] by metis
  ultimately show ?thesis using assms by (simp add: bq_length)
qed

theorem bytequeue_refines_fifo_witness:
  "\<exists>q q'. bytequeue_push (bytequeue_new 2) [1, 2, 3, 4, 5] = Some (q, 5) \<and> bytequeue_pop q 3 = (q', [1, 2, 3]) \<and>
     bq_bytes q' = [4, 5]"
proof -
  obtain q where q: "bytequeue_push (bytequeue_new 2) [1, 2, 3, 4, 5] = Some (q, length [1, 2, 3, 4, 5 :: byte])" "bq_ok q"
    "bq_bytes q = bq_bytes (bytequeue_new 2) @ [1, 2, 3, 4, 5]"
    using bytequeue_refines_fifo [OF bq_ok_new(1) [of 2], of "[1, 2, 3, 4, 5]"] by auto
  then show ?thesis using bytequeue_refines_fifo [OF q(2), of "[]" 3] by (auto simp: bq_ok_new)
qed

end
