(* ===== verification/Channel.thy ===== *)
theory Channel
  imports Descriptor Byte_Queue
begin

text \<open>
  \<^verbatim>\<open>host/descriptor/channel.c\<close>: the two linked ends of a pipe or of a pair of unix sockets, each with the
  buffer that the other end writes into. Channels are in a store indexed by their pointers.
  \<open>readPtr n\<close> is the memory of the process at the buffer that is sent, or \<open>None\<close> where it cannot be read;
  \<open>writePtr n\<close> says whether the buffer that receives can be written. A received value comes with the bytes
  stored there. The virtual functions of \<^verbatim>\<open>host/descriptor/transport.c\<close> lead straight to the ones here.
\<close>

section \<open>Model\<close>

datatype ChannelType = CT_NONE | CT_READONLY | CT_WRITEONLY

record channel =
  ch_super :: descriptor
  ch_type :: ChannelType
  ch_linkedChannel :: gpointer
  ch_buffer :: bytequeue
  ch_bufferSize :: u64
  ch_bufferLength :: u64

type_synonym chan_world = "(gpointer \<rightharpoonup> channel) \<times> listener_store"

definition channel_fromLegacyDescriptor :: "chan_world \<Rightarrow> gpointer \<Rightarrow> channel option" where
  "channel_fromLegacyDescriptor w p = do {
     ch \<leftarrow> fst w p;
     utility_assert (ds_type (ch_super ch) = DT_PIPE \<or> ds_type (ch_super ch) = DT_UNIXSOCKET);
     Some ch
   }"

definition channel_put :: "chan_world \<Rightarrow> gpointer \<Rightarrow> channel \<Rightarrow> chan_world" where
  "channel_put w p ch = ((fst w)(p \<mapsto> ch), snd w)"

definition channel_adjustStatus :: "desc_callback \<Rightarrow> chan_world \<Rightarrow> gpointer \<Rightarrow> u32 \<Rightarrow> bool \<Rightarrow> chan_world option" where
  "channel_adjustStatus cb w p status on = do {
     ch \<leftarrow> fst w p;
     ((d, ls), called) \<leftarrow> descriptor_adjustStatus cb (ch_super ch, snd w) status on;
     Some ((fst w)(p \<mapsto> ch\<lparr>ch_super := d\<rparr>), ls)
   }"

definition channel_free :: "chan_world \<Rightarrow> gpointer \<Rightarrow> chan_world option" where
  "channel_free w p = do {
     ch \<leftarrow> channel_fromLegacyDescriptor w p;
     (ls, calls) \<leftarrow> descriptor_clear (ch_super ch, snd w);
     Some ((fst w)(p := None), ls)
   }"

text \<open>\<^verbatim>\<open>descriptor_unref\<close> of a channel: the last reference calls \<open>channel_free\<close>.\<close>

definition channel_unref :: "chan_world \<Rightarrow> gpointer \<Rightarrow> chan_world option" where
  "channel_unref w p = do {
     ch \<leftarrow> fst w p;
     let d = (ch_super ch)\<lparr>ds_referenceCount := ds_referenceCount (ch_super ch) - 1\<rparr>;
     let w' = channel_put w p (ch\<lparr>ch_super := d\<rparr>);
     utility_assert (ds_referenceCount d \<ge> 0);
     if ds_referenceCount d = 0 then channel_free w' p else Some w'
   }"

definition channel_close :: "chan_world \<Rightarrow> gpointer \<Rightarrow> (chan_world \<times> bool) option" where
  "channel_close w p = do {
     ch \<leftarrow> channel_fromLegacyDescriptor w p;
     let q = ch_linkedChannel ch;
     if q \<noteq> NULL then do {
       linked \<leftarrow> fst w q;
       w1 \<leftarrow> (if ch_linkedChannel linked = p then do {
                w' \<leftarrow> channel_unref w p;
                linked' \<leftarrow> fst w' q;
                Some (channel_put w' q (linked'\<lparr>ch_linkedChannel := NULL\<rparr>))
              } else Some w);
       w2 \<leftarrow> channel_unref w1 q;
       ch2 \<leftarrow> fst w2 p;
       Some (channel_put w2 p (ch2\<lparr>ch_linkedChannel := NULL\<rparr>), True)
     } else Some (w, True)
   }"

definition channel_linkedWrite ::
  "desc_callback \<Rightarrow> chan_world \<Rightarrow> gpointer \<Rightarrow> (u64 \<Rightarrow> byte list option) \<Rightarrow> u64 \<Rightarrow> (chan_world \<times> int) option" where
  "channel_linkedWrite cb w p readPtr nBytes = do {
     ch \<leftarrow> fst w p;
     utility_assert (ch_type ch \<noteq> CT_WRITEONLY);
     let available = ch_bufferSize ch - ch_bufferLength ch;
     if available = 0 then Some (w, - EWOULDBLOCK)
     else let copyLength = min nBytes available
       in case readPtr copyLength of
            None \<Rightarrow> Some (w, - EFAULT)
          | Some bytes \<Rightarrow> do {
              (buffer, pushed) \<leftarrow> bytequeue_push (ch_buffer ch) bytes;
              w' \<leftarrow> channel_adjustStatus cb
                (channel_put w p (ch\<lparr>ch_buffer := buffer, ch_bufferLength := ch_bufferLength ch + copyLength\<rparr>))
                p STATUS_DESCRIPTOR_READABLE True;
              Some (w', uint copyLength)
            }
   }"

definition channel_sendUserData ::
  "desc_callback \<Rightarrow> chan_world \<Rightarrow> gpointer \<Rightarrow> (u64 \<Rightarrow> byte list option) \<Rightarrow> u64 \<Rightarrow> (chan_world \<times> int) option" where
  "channel_sendUserData cb w p readPtr nBytes = do {
     ch \<leftarrow> channel_fromLegacyDescriptor w p;
     utility_assert (ch_type ch \<noteq> CT_READONLY);
     if nBytes = 0 then Some (w, 0)
     else do {
       (w1, result) \<leftarrow> (if ch_linkedChannel ch \<noteq> NULL
                        then channel_linkedWrite cb w (ch_linkedChannel ch) readPtr nBytes
                        else Some (w, - EPIPE));
       w2 \<leftarrow> (if result \<le> 0 then channel_adjustStatus cb w1 p STATUS_DESCRIPTOR_WRITABLE False else Some w1);
       Some (w2, result)
     }
   }"

definition channel_receiveUserData ::
  "desc_callback \<Rightarrow> chan_world \<Rightarrow> gpointer \<Rightarrow> (u64 \<Rightarrow> bool) \<Rightarrow> u64 \<Rightarrow> (chan_world \<times> int \<times> byte list) option" where
  "channel_receiveUserData cb w p writePtr nBytes = do {
     ch \<leftarrow> channel_fromLegacyDescriptor w p;
     utility_assert (ch_type ch \<noteq> CT_WRITEONLY);
     if nBytes = 0 then Some (w, 0, [])
     else let available = ch_bufferLength ch
       in if available = 0 then Some (w, if ch_linkedChannel ch = NULL then 0 else - EWOULDBLOCK, [])
          else let copyLength = min nBytes available
            in if \<not> writePtr copyLength then Some (w, - EFAULT, [])
               else let (buffer, bytes) = bytequeue_pop (ch_buffer ch) (unat copyLength);
                        len = ch_bufferLength ch - of_nat (length bytes);
                        w1 = channel_put w p (ch\<lparr>ch_buffer := buffer, ch_bufferLength := len\<rparr>)
                 in do {
                   w2 \<leftarrow> (if len \<le> 0 then channel_adjustStatus cb w1 p STATUS_DESCRIPTOR_READABLE False else Some w1);
                   Some (w2, int (length bytes), bytes)
                 }
   }"

definition channel_new :: "desc_callback \<Rightarrow> chan_world \<Rightarrow> gpointer \<Rightarrow> ChannelType \<Rightarrow> LegacyDescriptorType \<Rightarrow> chan_world option" where
  "channel_new cb w p type dtype = do {
     w1 \<leftarrow> channel_adjustStatus cb
       (channel_put w p \<lparr>ch_super = descriptor_init dtype, ch_type = type, ch_linkedChannel = NULL,
          ch_buffer = bytequeue_new 8192, ch_bufferSize = of_nat CONFIG_PIPE_BUFFER_SIZE, ch_bufferLength = 0\<rparr>)
       p STATUS_DESCRIPTOR_ACTIVE True;
     if type \<noteq> CT_READONLY then channel_adjustStatus cb w1 p STATUS_DESCRIPTOR_WRITABLE True else Some w1
   }"

definition channel_setLinkedChannel :: "chan_world \<Rightarrow> gpointer \<Rightarrow> gpointer \<Rightarrow> chan_world option" where
  "channel_setLinkedChannel w p linkedChannel = do {
     ch \<leftarrow> fst w p;
     w1 \<leftarrow> (if ch_linkedChannel ch \<noteq> NULL then do {
              w' \<leftarrow> channel_unref w (ch_linkedChannel ch);
              ch' \<leftarrow> fst w' p;
              Some (channel_put w' p (ch'\<lparr>ch_linkedChannel := NULL\<rparr>))
            } else Some w);
     if linkedChannel \<noteq> NULL then do {
       ch1 \<leftarrow> fst w1 p;
       let w2 = channel_put w1 p (ch1\<lparr>ch_linkedChannel := linkedChannel\<rparr>);
       other \<leftarrow> fst w2 linkedChannel;
       Some (channel_put w2 linkedChannel (other\<lparr>ch_super := descriptor_ref (ch_super other)\<rparr>))
     } else Some w1
   }"

definition channel_getLinkedChannel :: "channel \<Rightarrow> gpointer" where
  "channel_getLinkedChannel ch = ch_linkedChannel ch"

section \<open>Histories of a pair of channels\<close>

text \<open>
  The channels \<open>a\<close> and \<open>b\<close>, with the bytes that \<open>a\<close> has accepted for sending and the bytes that \<open>b\<close> has
  received. Memory that can be read has the length asked for. Closing needs a reference of the caller on
  top of the ones the channels hold on each other. Other components register listeners and take references.
\<close>

type_synonym chan_state = "chan_world \<times> byte list \<times> byte list"

definition sane_memory :: "(u64 \<Rightarrow> byte list option) \<Rightarrow> bool" where
  "sane_memory readPtr \<longleftrightarrow> (\<forall>n bytes. readPtr n = Some bytes \<longrightarrow> length bytes = unat n)"

inductive chan_step :: "desc_callback \<Rightarrow> gpointer \<Rightarrow> gpointer \<Rightarrow> chan_state \<Rightarrow> chan_state \<Rightarrow> bool" for cb a b where
  send: "channel_sendUserData cb w a readPtr n = Some (w', r) \<Longrightarrow> sane_memory readPtr \<Longrightarrow>
     chan_step cb a b (w, sent, got) (w', sent @ (if r > 0 then the (readPtr (word_of_int r)) else []), got)"
| receive: "channel_receiveUserData cb w b writePtr n = Some (w', r, bytes) \<Longrightarrow>
     chan_step cb a b (w, sent, got) (w', sent, got @ bytes)"
| send_back: "channel_sendUserData cb w b readPtr n = Some (w', r) \<Longrightarrow> sane_memory readPtr \<Longrightarrow>
     chan_step cb a b (w, sent, got) (w', sent, got)"
| receive_back: "channel_receiveUserData cb w a writePtr n = Some (w', r, bytes) \<Longrightarrow>
     chan_step cb a b (w, sent, got) (w', sent, got)"
| close: "channel_close w p = Some (w', r) \<Longrightarrow> p = a \<or> p = b \<Longrightarrow>
     chan_step cb a b (w, sent, got) (w', sent, got)"
| elsewhere: "fst w p = Some ch \<Longrightarrow> p = a \<or> p = b \<Longrightarrow> desc_ok (d, snd w) \<Longrightarrow> ds_status d = ds_status (ch_super ch) \<Longrightarrow>
     ds_type d = ds_type (ch_super ch) \<Longrightarrow> ds_referenceCount d \<ge> 2 \<Longrightarrow>
     chan_step cb a b (w, sent, got) (channel_put w p (ch\<lparr>ch_super := d\<rparr>), sent, got)"

abbreviation chan_steps where "chan_steps cb a b \<equiv> (chan_step cb a b)\<^sup>*\<^sup>*"

section \<open>The invariant\<close>

text \<open>One end by itself; \<open>link\<close> is the other end or \<open>NULL\<close>.\<close>

definition end_ok :: "listener_store \<Rightarrow> channel \<Rightarrow> gpointer \<Rightarrow> bool" where
  "end_ok ls ch link \<longleftrightarrow> desc_ok (ch_super ch, ls) \<and>
     (ds_type (ch_super ch) = DT_PIPE \<or> ds_type (ch_super ch) = DT_UNIXSOCKET) \<and>
     ch_linkedChannel ch = link \<and> (link \<noteq> NULL \<longrightarrow> 2 \<le> ds_referenceCount (ch_super ch)) \<and>
     bq_ok (ch_buffer ch) \<and> unat (ch_bufferLength ch) = length (bq_bytes (ch_buffer ch)) \<and>
     ch_bufferSize ch = of_nat CONFIG_PIPE_BUFFER_SIZE \<and> length (bq_bytes (ch_buffer ch)) \<le> CONFIG_PIPE_BUFFER_SIZE \<and>
     (bit (ds_status (ch_super ch)) 1 \<longleftrightarrow> bq_bytes (ch_buffer ch) \<noteq> [])"

definition pair_ok :: "gpointer \<Rightarrow> gpointer \<Rightarrow> chan_world \<Rightarrow> bool" where
  "pair_ok a b w \<longleftrightarrow> a \<noteq> NULL \<and> b \<noteq> NULL \<and> a \<noteq> b \<and>
     (\<exists>ca cb. fst w a = Some ca \<and> fst w b = Some cb \<and>
        (end_ok (snd w) ca b \<and> end_ok (snd w) cb a \<or> end_ok (snd w) ca NULL \<and> end_ok (snd w) cb NULL))"

lemma pair_ok_sym: "pair_ok a b w \<Longrightarrow> pair_ok b a w"
  unfolding pair_ok_def by blast

definition with_bits :: "channel \<Rightarrow> u32 \<Rightarrow> bool \<Rightarrow> channel" where
  "with_bits ch status on = ch\<lparr>ch_super := (ch_super ch)\<lparr>ds_status := set_bits (ds_status (ch_super ch)) status on\<rparr>\<rparr>"

lemma with_bits_simps [simp]:
  "ch_type (with_bits ch s on) = ch_type ch" "ch_linkedChannel (with_bits ch s on) = ch_linkedChannel ch"
  "ch_buffer (with_bits ch s on) = ch_buffer ch" "ch_bufferSize (with_bits ch s on) = ch_bufferSize ch"
  "ch_bufferLength (with_bits ch s on) = ch_bufferLength ch"
  "ds_type (ch_super (with_bits ch s on)) = ds_type (ch_super ch)"
  "ds_referenceCount (ch_super (with_bits ch s on)) = ds_referenceCount (ch_super ch)"
  "desc_ok (ch_super (with_bits ch s on), ls) = desc_ok (ch_super ch, ls)"
  "bit (ds_status (ch_super (with_bits ch s on))) n =
     (if on then bit (ds_status (ch_super ch)) n \<or> bit s n else bit (ds_status (ch_super ch)) n \<and> \<not> bit s n)"
  by (simp_all add: with_bits_def desc_ok_def bit_set_bits)

lemma channel_adjustStatus_eq:
  assumes "idle_callback cb" and "fst w p = Some ch" and "desc_ok (ch_super ch, snd w)"
  shows "channel_adjustStatus cb w p status on = Some (channel_put w p (with_bits ch status on))"
  using adjustStatus_idle [OF assms(1,3), of status on] assms(2)
  by (simp add: channel_adjustStatus_def channel_put_def with_bits_def)

lemma channel_put_simps [simp]:
  "fst (channel_put w p ch) p = Some ch" "q \<noteq> p \<Longrightarrow> fst (channel_put w p ch) q = fst w q"
  "snd (channel_put w p ch) = snd w" "channel_put (channel_put w p ch) p ch' = channel_put w p ch'"
  by (simp_all add: channel_put_def)

lemma fromLegacyDescriptor_eq:
  "fst w p = Some ch \<Longrightarrow> end_ok ls ch link \<Longrightarrow> channel_fromLegacyDescriptor w p = Some ch"
  by (simp add: channel_fromLegacyDescriptor_def end_ok_def)

section \<open>The operations\<close>

text \<open>The free space of a buffer.\<close>

lemma end_space:
  assumes "end_ok ls ch link"
  shows "unat (ch_bufferSize ch - ch_bufferLength ch) = CONFIG_PIPE_BUFFER_SIZE - length (bq_bytes (ch_buffer ch))"
    and "length (bq_bytes (ch_buffer ch)) \<le> CONFIG_PIPE_BUFFER_SIZE"
proof -
  have "unat (of_nat CONFIG_PIPE_BUFFER_SIZE :: u64) = CONFIG_PIPE_BUFFER_SIZE"
    by (simp add: CONFIG_PIPE_BUFFER_SIZE_def)
  then have "unat (ch_bufferSize ch) = CONFIG_PIPE_BUFFER_SIZE" "length (bq_bytes (ch_buffer ch)) \<le> CONFIG_PIPE_BUFFER_SIZE"
    "unat (ch_bufferLength ch) = length (bq_bytes (ch_buffer ch))"
    using assms unfolding end_ok_def by metis+
  then show "unat (ch_bufferSize ch - ch_bufferLength ch) = CONFIG_PIPE_BUFFER_SIZE - length (bq_bytes (ch_buffer ch))"
    "length (bq_bytes (ch_buffer ch)) \<le> CONFIG_PIPE_BUFFER_SIZE" by (simp_all add: unat_sub word_le_nat_alt)
qed

lemma linkedWrite_ok:
  assumes cb: "idle_callback cb" and mem: "sane_memory readPtr" and q: "fst w q = Some ch"
    and ok: "end_ok (snd w) ch link" and ty: "ch_type ch \<noteq> CT_WRITEONLY" and n: "n \<noteq> 0"
  obtains ch' r where "channel_linkedWrite cb w q readPtr n = Some (channel_put w q ch', r)" "end_ok (snd w) ch' link"
    "ch_type ch' = ch_type ch"
    "bq_bytes (ch_buffer ch') = bq_bytes (ch_buffer ch) @ (if r > 0 then the (readPtr (word_of_int r)) else [])"
    "\<And>k. k \<noteq> 1 \<Longrightarrow> bit (ds_status (ch_super ch')) k = bit (ds_status (ch_super ch)) k"
    "r = (if length (bq_bytes (ch_buffer ch)) = CONFIG_PIPE_BUFFER_SIZE then - EWOULDBLOCK
          else let k = min n (of_nat (CONFIG_PIPE_BUFFER_SIZE - length (bq_bytes (ch_buffer ch))))
               in if readPtr k = None then - EFAULT else uint k)"
proof -
  let ?free = "ch_bufferSize ch - ch_bufferLength ch" and ?len = "length (bq_bytes (ch_buffer ch))"
  note space = end_space [OF ok]
  have free: "?free = of_nat (CONFIG_PIPE_BUFFER_SIZE - ?len)"
    using space(1) by (metis of_nat_unat ucast_id)
  have zero: "?free = 0 \<longleftrightarrow> ?len = CONFIG_PIPE_BUFFER_SIZE"
    using space by (metis diff_is_0_eq le_antisym order_refl unat_eq_zero diff_self_eq_0)
  have w: "channel_put w q ch = w" using q by (cases w) (auto simp: channel_put_def)
  let ?k = "min n ?free"
  consider (full) "?free = 0" | (fault) "?free \<noteq> 0" "readPtr ?k = None" | (copied) bytes where "?free \<noteq> 0" "readPtr ?k = Some bytes"
    by blast
  then show thesis
  proof cases
    case full
    then have "channel_linkedWrite cb w q readPtr n = Some (channel_put w q ch, - EWOULDBLOCK)"
      using q ty w by (simp add: channel_linkedWrite_def)
    then show thesis by (rule that) (use ok full zero in \<open>simp_all add: EWOULDBLOCK_def\<close>)
  next
    case fault
    then have "channel_linkedWrite cb w q readPtr n = Some (channel_put w q ch, - EFAULT)"
      using q ty w by (simp add: channel_linkedWrite_def Let_def)
    then show thesis by (rule that) (use ok fault zero free in \<open>simp_all add: EFAULT_def Let_def\<close>)
  next
    case (copied bytes)
    have len: "length bytes = unat ?k" using mem copied by (simp add: sane_memory_def)
    have bq: "bq_ok (ch_buffer ch)" using ok by (simp add: end_ok_def)
    obtain buffer where b: "bytequeue_push (ch_buffer ch) bytes = Some (buffer, length bytes)" "bq_ok buffer"
      "bq_bytes buffer = bq_bytes (ch_buffer ch) @ bytes" using bytequeue_push_ok [OF bq] by metis
    let ?ch = "ch\<lparr>ch_buffer := buffer, ch_bufferLength := ch_bufferLength ch + ?k\<rparr>"
    have kle: "unat ?k \<le> CONFIG_PIPE_BUFFER_SIZE - ?len" using space(1) by (simp add: min_def word_le_nat_alt)
    have bl: "unat (ch_bufferLength ch) = ?len" using ok by (simp add: end_ok_def)
    have "unat (ch_bufferLength ch) + unat ?k < 2 ^ 64"
      using kle bl space(2) by (simp add: CONFIG_PIPE_BUFFER_SIZE_def)
    then have add: "unat (ch_bufferLength ch + ?k) = ?len + unat ?k"
      using bl add_no_wrap [of "ch_bufferLength ch" ?k] by simp
    have k0: "0 < unat ?k" using n copied(1) by (simp add: min_def unat_gt_0)
    have ok1: "desc_ok (ch_super ?ch, snd w)" using ok by (simp add: end_ok_def)
    have adj: "channel_adjustStatus cb (channel_put w q ?ch) q STATUS_DESCRIPTOR_READABLE True =
       Some (channel_put w q (with_bits ?ch STATUS_DESCRIPTOR_READABLE True))"
      using channel_adjustStatus_eq [OF cb, of "channel_put w q ?ch" q ?ch] ok1 by simp
    have res: "channel_linkedWrite cb w q readPtr n =
       Some (channel_put w q (with_bits ?ch STATUS_DESCRIPTOR_READABLE True), uint ?k)"
      using q ty copied b(1) adj by (simp add: channel_linkedWrite_def Let_def)
    have "length (bq_bytes (ch_buffer ch) @ bytes) \<le> CONFIG_PIPE_BUFFER_SIZE" using len kle space(2) by simp
    moreover have "bytes \<noteq> []" using len k0 by auto
    ultimately have ok': "end_ok (snd w) (with_bits ?ch STATUS_DESCRIPTOR_READABLE True) link"
      using ok b add len by (simp add: end_ok_def bit_statuses)
    have "0 < uint ?k" using k0 by (metis of_nat_0_less_iff of_nat_unat)
    then show thesis using res ok' b(3) copied zero free
      by (intro that [OF res]) (simp_all add: bit_statuses Let_def)
  qed
qed

lemma receive_ok:
  assumes cb: "idle_callback cb" and p: "fst w p = Some ch" and ok: "end_ok (snd w) ch link"
    and ty: "ch_type ch \<noteq> CT_WRITEONLY"
  obtains ch' r bytes where "channel_receiveUserData cb w p writePtr n = Some (channel_put w p ch', r, bytes)"
    "end_ok (snd w) ch' link" "bq_bytes (ch_buffer ch) = bytes @ bq_bytes (ch_buffer ch')"
    "\<And>k. k \<noteq> 1 \<Longrightarrow> bit (ds_status (ch_super ch')) k = bit (ds_status (ch_super ch)) k"
    "r = (if n = 0 then 0
          else if bq_bytes (ch_buffer ch) = [] then (if link = NULL then 0 else - EWOULDBLOCK)
          else if writePtr (min n (of_nat (length (bq_bytes (ch_buffer ch))))) then int (length bytes) else - EFAULT)"
    "bytes = (if n = 0 \<or> bq_bytes (ch_buffer ch) = [] \<or> \<not> writePtr (min n (of_nat (length (bq_bytes (ch_buffer ch)))))
              then [] else take (unat n) (bq_bytes (ch_buffer ch)))"
    "ch_type ch' = ch_type ch"
proof -
  have desc: "channel_fromLegacyDescriptor w p = Some ch" using p ok by (rule fromLegacyDescriptor_eq)
  have bl: "unat (ch_bufferLength ch) = length (bq_bytes (ch_buffer ch))" and bq: "bq_ok (ch_buffer ch)"
    and lk: "ch_linkedChannel ch = link" using ok by (simp_all add: end_ok_def)
  have blw: "ch_bufferLength ch = of_nat (length (bq_bytes (ch_buffer ch)))" using bl by (metis of_nat_unat ucast_id)
  have zero: "ch_bufferLength ch = 0 \<longleftrightarrow> bq_bytes (ch_buffer ch) = []"
    using bl by (metis length_0_conv unat_eq_zero)
  have w: "channel_put w p ch = w" using p by (cases w) (auto simp: channel_put_def)
  let ?k = "min n (ch_bufferLength ch)"
  show thesis
  proof (cases "n = 0 \<or> ch_bufferLength ch = 0 \<or> \<not> writePtr ?k")
    case True
    then obtain r where r: "channel_receiveUserData cb w p writePtr n = Some (channel_put w p ch, r, [])"
      "r = (if n = 0 then 0 else if bq_bytes (ch_buffer ch) = [] then (if link = NULL then 0 else - EWOULDBLOCK) else - EFAULT)"
      using desc ty lk zero w by (auto simp: channel_receiveUserData_def Let_def)
    show thesis by (rule that [OF r(1) ok])
      (use True r(2) zero blw in \<open>auto simp: EWOULDBLOCK_def EFAULT_def\<close>)
  next
    case False
    obtain buffer where b: "bytequeue_pop (ch_buffer ch) (unat ?k) = (buffer, take (unat ?k) (bq_bytes (ch_buffer ch)))"
      "bq_ok buffer" "bq_bytes buffer = drop (unat ?k) (bq_bytes (ch_buffer ch))" using bytequeue_pop_ok [OF bq] by metis
    let ?bytes = "take (unat ?k) (bq_bytes (ch_buffer ch))"
    have kle: "unat ?k \<le> length (bq_bytes (ch_buffer ch))" and k0: "0 < unat ?k"
      using bl False by (auto simp: min_def word_le_nat_alt unat_gt_0)
    have take: "?bytes = take (unat n) (bq_bytes (ch_buffer ch))"
      using bl by (auto simp: min_def word_le_nat_alt)
    have len: "length ?bytes = unat ?k" using kle by simp
    define l where "l = ch_bufferLength ch - of_nat (length ?bytes)"
    have l: "unat l = length (bq_bytes buffer)"
    proof -
      have "of_nat (length ?bytes) = ?k" unfolding len by (metis of_nat_unat ucast_id)
      moreover have "?k \<le> ch_bufferLength ch" by simp
      ultimately show ?thesis using bl b(3) by (simp add: l_def unat_sub word_le_nat_alt)
    qed
    then have l0: "l \<le> 0 \<longleftrightarrow> bq_bytes buffer = []" by (metis length_0_conv unat_eq_zero word_le_0_iff)
    let ?ch = "ch\<lparr>ch_buffer := buffer, ch_bufferLength := l\<rparr>"
    define ch' where "ch' = (if l \<le> 0 then with_bits ?ch STATUS_DESCRIPTOR_READABLE False else ?ch)"
    have adj: "channel_adjustStatus cb (channel_put w p ?ch) p STATUS_DESCRIPTOR_READABLE False =
       Some (channel_put w p (with_bits ?ch STATUS_DESCRIPTOR_READABLE False))"
      using channel_adjustStatus_eq [OF cb, of "channel_put w p ?ch" p ?ch] ok by (simp add: end_ok_def)
    have res: "channel_receiveUserData cb w p writePtr n = Some (channel_put w p ch', int (length ?bytes), ?bytes)"
      using desc ty False b(1) adj
      by (simp add: channel_receiveUserData_def Let_def l_def ch'_def del: word_le_0_iff)
    have rd: "bit (ds_status (ch_super ch)) 1" using ok False zero by (simp add: end_ok_def)
    have "end_ok (snd w) ch' link"
      using ok b(2,3) l l0 rd by (auto simp: end_ok_def ch'_def bit_statuses)
    then show thesis
    proof (rule that [OF res])
      show "bq_bytes (ch_buffer ch) = ?bytes @ bq_bytes (ch_buffer ch')" using b(3) by (simp add: ch'_def)
      show "k \<noteq> 1 \<Longrightarrow> bit (ds_status (ch_super ch')) k = bit (ds_status (ch_super ch)) k" for k
        by (simp add: ch'_def bit_statuses)
      show "int (length ?bytes) = (if n = 0 then 0
          else if bq_bytes (ch_buffer ch) = [] then (if link = NULL then 0 else - EWOULDBLOCK)
          else if writePtr (min n (of_nat (length (bq_bytes (ch_buffer ch))))) then int (length ?bytes) else - EFAULT)"
        using False zero unfolding blw [symmetric] by simp
      show "?bytes = (if n = 0 \<or> bq_bytes (ch_buffer ch) = [] \<or> \<not> writePtr (min n (of_nat (length (bq_bytes (ch_buffer ch)))))
          then [] else take (unat n) (bq_bytes (ch_buffer ch)))"
        using False zero take unfolding blw [symmetric] by simp
      show "ch_type ch' = ch_type ch" by (simp add: ch'_def)
    qed
  qed
qed

text \<open>What the two ends of a pair look like from outside.\<close>

definition chan_buf :: "chan_world \<Rightarrow> gpointer \<Rightarrow> byte list" where
  "chan_buf w p = bq_bytes (ch_buffer (the (fst w p)))"

definition chan_status :: "chan_world \<Rightarrow> gpointer \<Rightarrow> u32" where
  "chan_status w p = ds_status (ch_super (the (fst w p)))"

definition chan_type :: "chan_world \<Rightarrow> gpointer \<Rightarrow> ChannelType" where
  "chan_type w p = ch_type (the (fst w p))"

definition chan_link :: "chan_world \<Rightarrow> gpointer \<Rightarrow> gpointer" where
  "chan_link w p = ch_linkedChannel (the (fst w p))"

lemma chan_view_put [simp]:
  "chan_buf (channel_put w p ch) q = (if q = p then bq_bytes (ch_buffer ch) else chan_buf w q)"
  "chan_status (channel_put w p ch) q = (if q = p then ds_status (ch_super ch) else chan_status w q)"
  "chan_type (channel_put w p ch) q = (if q = p then ch_type ch else chan_type w q)"
  "chan_link (channel_put w p ch) q = (if q = p then ch_linkedChannel ch else chan_link w q)"
  by (simp_all add: chan_buf_def chan_status_def chan_type_def chan_link_def)

lemma pair_okE:
  assumes "pair_ok p q w"
  obtains cp cq lp lq where "fst w p = Some cp" "fst w q = Some cq" "end_ok (snd w) cp lp" "end_ok (snd w) cq lq"
    "p \<noteq> NULL" "q \<noteq> NULL" "p \<noteq> q" "lp = q \<and> lq = p \<or> lp = NULL \<and> lq = NULL"
  using assms unfolding pair_ok_def by blast

lemma pair_okI:
  assumes "fst w p = Some cp" "fst w q = Some cq" "end_ok (snd w) cp lp" "end_ok (snd w) cq lq"
    "p \<noteq> NULL" "q \<noteq> NULL" "p \<noteq> q" "lp = q \<and> lq = p \<or> lp = NULL \<and> lq = NULL"
  shows "pair_ok p q w"
  using assms unfolding pair_ok_def by blast

lemma receive_pair:
  assumes cb: "idle_callback cb" and ok: "pair_ok p q w"
    and rcv: "channel_receiveUserData cb w p writePtr n = Some (w', r, bytes)"
  shows "pair_ok p q w'" and "chan_buf w p = bytes @ chan_buf w' p" and "chan_buf w' q = chan_buf w q"
    and "bit (chan_status w' x) 2 = bit (chan_status w x) 2" and "chan_type w' x = chan_type w x"
proof -
  obtain cp cq lp lq where e: "fst w p = Some cp" "fst w q = Some cq" "end_ok (snd w) cp lp" "end_ok (snd w) cq lq"
    "p \<noteq> NULL" "q \<noteq> NULL" "p \<noteq> q" "lp = q \<and> lq = p \<or> lp = NULL \<and> lq = NULL" by (rule pair_okE [OF ok])
  have ty: "ch_type cp \<noteq> CT_WRITEONLY"
    using rcv fromLegacyDescriptor_eq [OF e(1,3)] by (auto simp: channel_receiveUserData_def)
  obtain ch' r' bytes' where r: "channel_receiveUserData cb w p writePtr n = Some (channel_put w p ch', r', bytes')"
    "end_ok (snd w) ch' lp" "bq_bytes (ch_buffer cp) = bytes' @ bq_bytes (ch_buffer ch')"
    "\<And>k. k \<noteq> 1 \<Longrightarrow> bit (ds_status (ch_super ch')) k = bit (ds_status (ch_super cp)) k" "ch_type ch' = ch_type cp"
    by (rule receive_ok [OF cb e(1,3) ty, of writePtr n]) (rule that)
  have w': "w' = channel_put w p ch'" "bytes = bytes'" using rcv r(1) by simp_all
  show "pair_ok p q w'" using e r(2) unfolding w' by (intro pair_okI [of _ _ ch' _ cq lp lq]) simp_all
  show "chan_buf w p = bytes @ chan_buf w' p" "chan_buf w' q = chan_buf w q"
    using e r(3) by (simp_all add: w') (simp add: chan_buf_def)
  show "bit (chan_status w' x) 2 = bit (chan_status w x) 2" using e(1) r(4) [of 2] by (simp add: w') (simp add: chan_status_def)
  show "chan_type w' x = chan_type w x" using e(1) r(5) by (simp add: w') (simp add: chan_type_def)
qed

lemma send_pair:
  assumes cb: "idle_callback cb" and mem: "sane_memory readPtr" and ok: "pair_ok p q w"
    and snd: "channel_sendUserData cb w p readPtr n = Some (w', r)"
  shows "pair_ok p q w'" and "chan_buf w' q = chan_buf w q @ (if r > 0 then the (readPtr (word_of_int r)) else [])"
    and "chan_buf w' p = chan_buf w p" and "bit (chan_status w' x) 2 \<Longrightarrow> bit (chan_status w x) 2"
    and "n \<noteq> 0 \<Longrightarrow> r \<le> 0 \<Longrightarrow> \<not> bit (chan_status w' p) 2"
    and "chan_type w' x = chan_type w x" and "chan_link w' x = chan_link w x"
proof -
  obtain cp cq lp lq where e: "fst w p = Some cp" "fst w q = Some cq" "end_ok (snd w) cp lp" "end_ok (snd w) cq lq"
    "p \<noteq> NULL" "q \<noteq> NULL" "p \<noteq> q" "lp = q \<and> lq = p \<or> lp = NULL \<and> lq = NULL" by (rule pair_okE [OF ok])
  have desc: "channel_fromLegacyDescriptor w p = Some cp" by (rule fromLegacyDescriptor_eq [OF e(1,3)])
  have lk: "ch_linkedChannel cp = lp" using e(3) by (simp add: end_ok_def)
  have ty: "ch_type cp \<noteq> CT_READONLY" using snd desc by (auto simp: channel_sendUserData_def)
  have "pair_ok p q w' \<and> chan_buf w' q = chan_buf w q @ (if r > 0 then the (readPtr (word_of_int r)) else []) \<and>
    chan_buf w' p = chan_buf w p \<and> (bit (chan_status w' x) 2 \<longrightarrow> bit (chan_status w x) 2) \<and>
    (n \<noteq> 0 \<and> r \<le> 0 \<longrightarrow> \<not> bit (chan_status w' p) 2) \<and> chan_type w' x = chan_type w x \<and> chan_link w' x = chan_link w x"
  proof (cases "n = 0")
    case True
    then have "w' = w" "r = 0" using snd desc ty by (simp_all add: channel_sendUserData_def)
    then show ?thesis using ok True by simp
  next
    case n: False
    obtain cq' where cq': "end_ok (snd w) cq' lq" "bq_bytes (ch_buffer cq') = bq_bytes (ch_buffer cq) @ (if r > 0 then the (readPtr (word_of_int r)) else [])"
      "bit (ds_status (ch_super cq')) 2 = bit (ds_status (ch_super cq)) 2" "ch_type cq' = ch_type cq"
      and w': "w' = (if r \<le> 0 then channel_put (channel_put w q cq') p (with_bits cp STATUS_DESCRIPTOR_WRITABLE False) else channel_put w q cq')"
    proof (cases "lp = NULL")
      case True
      have "channel_put w q cq = w" using e(2) by (cases w) (auto simp: channel_put_def)
      moreover have "channel_adjustStatus cb w p STATUS_DESCRIPTOR_WRITABLE False =
          Some (channel_put w p (with_bits cp STATUS_DESCRIPTOR_WRITABLE False))"
        using channel_adjustStatus_eq [OF cb e(1)] e(3) by (simp add: end_ok_def)
      ultimately show thesis using that [of cq] snd desc ty n lk True e(4)
        by (simp add: channel_sendUserData_def EPIPE_def)
    next
      case False
      then have l: "lp = q" using e(8) by simp
      have tq: "ch_type cq \<noteq> CT_WRITEONLY"
        using snd desc ty n lk False l e(2) by (auto simp: channel_sendUserData_def channel_linkedWrite_def)
      obtain cq' r' where q: "channel_linkedWrite cb w q readPtr n = Some (channel_put w q cq', r')" "end_ok (snd w) cq' lq"
        "bq_bytes (ch_buffer cq') = bq_bytes (ch_buffer cq) @ (if r' > 0 then the (readPtr (word_of_int r')) else [])"
        "\<And>k. k \<noteq> 1 \<Longrightarrow> bit (ds_status (ch_super cq')) k = bit (ds_status (ch_super cq)) k" "ch_type cq' = ch_type cq"
        by (rule linkedWrite_ok [OF cb mem e(2,4) tq n]) (rule that)
      have adj: "channel_adjustStatus cb (channel_put w q cq') p STATUS_DESCRIPTOR_WRITABLE False =
          Some (channel_put (channel_put w q cq') p (with_bits cp STATUS_DESCRIPTOR_WRITABLE False))"
        using channel_adjustStatus_eq [OF cb, of "channel_put w q cq'" p cp] e(1,3,7) by (simp add: end_ok_def)
      have "channel_sendUserData cb w p readPtr n = Some (if r' \<le> 0 then
          channel_put (channel_put w q cq') p (with_bits cp STATUS_DESCRIPTOR_WRITABLE False) else channel_put w q cq', r')"
        using desc ty n lk False l q(1) adj e(5,6) by (simp add: channel_sendUserData_def)
      then show thesis using that [of cq'] q(2-5) snd by simp
    qed
    have "end_ok (snd w) (with_bits cp STATUS_DESCRIPTOR_WRITABLE False) lp"
      using e(3) by (simp add: end_ok_def bit_statuses)
    then have "pair_ok p q w'" using e cq'(1) unfolding w'
      by (cases "r \<le> 0") (auto intro!: pair_okI [of _ p _ q _ lp lq])
    moreover have "chan_buf w' q = chan_buf w q @ (if r > 0 then the (readPtr (word_of_int r)) else [])"
      "chan_buf w' p = chan_buf w p"
      using cq'(2) e(1,2,7) by (simp_all add: w') (simp_all add: chan_buf_def)
    moreover have "bit (chan_status w x) 2" if "bit (chan_status w' x) 2"
      using that cq'(3) e(1,2,7) by (auto simp: w' bit_statuses split: if_splits) (simp_all add: chan_status_def)
    moreover have "chan_type w' x = chan_type w x" using cq'(4) e(1,2,7) by (simp add: w') (simp add: chan_type_def)
    moreover have "chan_link w' x = chan_link w x"
    proof -
      have "ch_linkedChannel cq' = ch_linkedChannel cq" using cq'(1) e(4) by (simp add: end_ok_def)
      then show ?thesis using e(1,2,7) by (simp add: w') (simp add: chan_link_def)
    qed
    ultimately show ?thesis by (simp add: w' bit_statuses)
  qed
  then show "pair_ok p q w'" "chan_buf w' q = chan_buf w q @ (if r > 0 then the (readPtr (word_of_int r)) else [])"
    "chan_buf w' p = chan_buf w p" "bit (chan_status w' x) 2 \<Longrightarrow> bit (chan_status w x) 2"
    "n \<noteq> 0 \<Longrightarrow> r \<le> 0 \<Longrightarrow> \<not> bit (chan_status w' p) 2" "chan_type w' x = chan_type w x"
    "chan_link w' x = chan_link w x" by blast+
qed

lemma send_result:
  assumes cb: "idle_callback cb" and mem: "sane_memory readPtr" and ok: "pair_ok p q w" and lk: "chan_link w p = q"
    and ty: "chan_type w p \<noteq> CT_READONLY" "chan_type w q \<noteq> CT_WRITEONLY" and n: "n \<noteq> 0"
  shows "\<exists>w'. channel_sendUserData cb w p readPtr n = Some (w',
     if length (chan_buf w q) = CONFIG_PIPE_BUFFER_SIZE then - EWOULDBLOCK
     else let k = min n (of_nat (CONFIG_PIPE_BUFFER_SIZE - length (chan_buf w q)))
          in if readPtr k = None then - EFAULT else uint k)"
proof -
  obtain cp cq lp lq where e: "fst w p = Some cp" "fst w q = Some cq" "end_ok (snd w) cp lp" "end_ok (snd w) cq lq"
    "p \<noteq> NULL" "q \<noteq> NULL" "p \<noteq> q" by (rule pair_okE [OF ok])
  have tq: "ch_type cq \<noteq> CT_WRITEONLY" using ty(2) e(2) by (simp add: chan_type_def)
  obtain cq' r where r: "channel_linkedWrite cb w q readPtr n = Some (channel_put w q cq', r)"
    "r = (if length (bq_bytes (ch_buffer cq)) = CONFIG_PIPE_BUFFER_SIZE then - EWOULDBLOCK
          else let k = min n (of_nat (CONFIG_PIPE_BUFFER_SIZE - length (bq_bytes (ch_buffer cq))))
               in if readPtr k = None then - EFAULT else uint k)"
    by (rule linkedWrite_ok [OF cb mem e(2,4) tq n]) (rule that)
  have adj: "channel_adjustStatus cb (channel_put w q cq') p STATUS_DESCRIPTOR_WRITABLE False =
      Some (channel_put (channel_put w q cq') p (with_bits cp STATUS_DESCRIPTOR_WRITABLE False))"
    using channel_adjustStatus_eq [OF cb, of "channel_put w q cq'" p cp] e(1,3,7) by (simp add: end_ok_def)
  have "ch_linkedChannel cp = q" "ch_type cp \<noteq> CT_READONLY" using lk ty(1) e(1) by (simp_all add: chan_link_def chan_type_def)
  then have "\<exists>w'. channel_sendUserData cb w p readPtr n = Some (w', r)"
    using fromLegacyDescriptor_eq [OF e(1,3)] n r(1) adj e(6) by (simp add: channel_sendUserData_def)
  then show ?thesis unfolding r(2) chan_buf_def e(2) option.sel .
qed

lemma receive_result:
  assumes cb: "idle_callback cb" and ok: "pair_ok p q w" and ty: "chan_type w p \<noteq> CT_WRITEONLY"
    and wr: "\<And>k. writePtr k" and n: "n \<noteq> 0" and data: "chan_buf w p \<noteq> [] \<or> chan_link w p = NULL"
  shows "\<exists>w'. channel_receiveUserData cb w p writePtr n =
     Some (w', int (length (take (unat n) (chan_buf w p))), take (unat n) (chan_buf w p))"
proof -
  obtain cp cq lp lq where e: "fst w p = Some cp" "end_ok (snd w) cp lp" by (rule pair_okE [OF ok])
  have tp: "ch_type cp \<noteq> CT_WRITEONLY" using ty e(1) by (simp add: chan_type_def)
  obtain ch' r bytes where r: "channel_receiveUserData cb w p writePtr n = Some (channel_put w p ch', r, bytes)"
    "r = (if n = 0 then 0
        else if bq_bytes (ch_buffer cp) = [] then (if lp = NULL then 0 else - EWOULDBLOCK)
        else if writePtr (min n (of_nat (length (bq_bytes (ch_buffer cp))))) then int (length bytes) else - EFAULT)"
    "bytes = (if n = 0 \<or> bq_bytes (ch_buffer cp) = [] \<or> \<not> writePtr (min n (of_nat (length (bq_bytes (ch_buffer cp)))))
              then [] else take (unat n) (bq_bytes (ch_buffer cp)))"
    by (rule receive_ok [OF cb e tp, of writePtr n]) (rule that)
  have buf: "chan_buf w p = bq_bytes (ch_buffer cp)" using e(1) by (simp add: chan_buf_def)
  have lp: "chan_link w p = lp" using e by (simp add: chan_link_def end_ok_def)
  have "bytes = take (unat n) (chan_buf w p)" unfolding r(3) buf using wr n by simp
  moreover from this have "r = int (length bytes)" unfolding r(2) using data wr n lp buf by (cases "chan_buf w p = []") simp_all
  ultimately show ?thesis using r(1) by blast
qed

lemma close_pair:
  assumes ok: "pair_ok p q w"
  obtains w' where "channel_close w p = Some (w', True)" "pair_ok p q w'" "chan_buf w' = chan_buf w"
    "chan_status w' = chan_status w" "chan_link w' q = NULL" "chan_type w' = chan_type w"
proof -
  obtain cp cq lp lq where e: "fst w p = Some cp" "fst w q = Some cq" "end_ok (snd w) cp lp" "end_ok (snd w) cq lq"
    "p \<noteq> NULL" "q \<noteq> NULL" "p \<noteq> q" "lp = q \<and> lq = p \<or> lp = NULL \<and> lq = NULL" by (rule pair_okE [OF ok])
  have desc: "channel_fromLegacyDescriptor w p = Some cp" by (rule fromLegacyDescriptor_eq [OF e(1,3)])
  have lk: "ch_linkedChannel cp = lp" "ch_linkedChannel cq = lq" using e(3,4) by (simp_all add: end_ok_def)
  show thesis
  proof (cases "lp = NULL")
    case True
    then have "channel_close w p = Some (w, True)" using desc lk by (simp add: channel_close_def)
    then show thesis by (rule that) (use ok True e(2,6,8) lk in \<open>simp_all add: chan_link_def\<close>)
  next
    case False
    then have l: "lp = q" "lq = p" using e(8) by simp_all
    have refs: "2 \<le> ds_referenceCount (ch_super cp)" "2 \<le> ds_referenceCount (ch_super cq)"
      using e(3-6) l by (simp_all add: end_ok_def)
    let ?cp = "cp\<lparr>ch_super := (ch_super cp)\<lparr>ds_referenceCount := ds_referenceCount (ch_super cp) - 1\<rparr>, ch_linkedChannel := NULL\<rparr>"
    let ?cq = "cq\<lparr>ch_linkedChannel := NULL, ch_super := (ch_super cq)\<lparr>ds_referenceCount := ds_referenceCount (ch_super cq) - 1\<rparr>\<rparr>"
    let ?w = "((fst w)(p \<mapsto> ?cp, q \<mapsto> ?cq), snd w)"
    have res: "channel_close w p = Some (?w, True)"
      using desc lk l e(1,2,5-7) refs
      by (simp add: channel_close_def channel_unref_def channel_put_def Let_def fun_upd_twist)
    have "end_ok (snd w) ?cp NULL" "end_ok (snd w) ?cq NULL"
      using e(3,4) by (simp_all add: end_ok_def desc_ok_def)
    then have "pair_ok p q ?w" using e(5-7) by (intro pair_okI [of _ p ?cp q ?cq NULL NULL]) simp_all
    with res show thesis
      by (rule that) (use e(1,2,7) in \<open>auto simp: chan_buf_def chan_status_def chan_link_def chan_type_def fun_eq_iff\<close>)
  qed
qed

section \<open>Properties\<close>

text \<open>The two ends as \<^verbatim>\<open>pipe\<close> and \<^verbatim>\<open>socketpair\<close> make them.\<close>

definition channel_pair ::
  "desc_callback \<Rightarrow> listener_store \<Rightarrow> gpointer \<Rightarrow> gpointer \<Rightarrow> ChannelType \<Rightarrow> ChannelType \<Rightarrow> LegacyDescriptorType \<Rightarrow> chan_world option" where
  "channel_pair cb ls a b typeA typeB dtype = do {
     w1 \<leftarrow> channel_new cb (Map.empty, ls) a typeA dtype;
     w2 \<leftarrow> channel_new cb w1 b typeB dtype;
     w3 \<leftarrow> channel_setLinkedChannel w2 a b;
     channel_setLinkedChannel w3 b a
   }"

lemma channel_new_ok:
  assumes cb: "idle_callback cb" and "dtype = DT_PIPE \<or> dtype = DT_UNIXSOCKET"
  obtains ch where "channel_new cb w p type dtype = Some (channel_put w p ch)" "end_ok (snd w) ch NULL"
    "bq_bytes (ch_buffer ch) = []" "ch_type ch = type" "ds_referenceCount (ch_super ch) = 1"
proof -
  let ?c0 = "\<lparr>ch_super = descriptor_init dtype, ch_type = type, ch_linkedChannel = NULL,
          ch_buffer = bytequeue_new 8192, ch_bufferSize = of_nat CONFIG_PIPE_BUFFER_SIZE, ch_bufferLength = 0\<rparr>"
  let ?c1 = "with_bits ?c0 STATUS_DESCRIPTOR_ACTIVE True"
  define ch where "ch = (if type \<noteq> CT_READONLY then with_bits ?c1 STATUS_DESCRIPTOR_WRITABLE True else ?c1)"
  have d: "desc_ok (ch_super ?c0, snd w)" by (simp add: desc_ok_def descriptor_init_def)
  have a1: "channel_adjustStatus cb (channel_put w p ?c0) p STATUS_DESCRIPTOR_ACTIVE True = Some (channel_put w p ?c1)"
    using channel_adjustStatus_eq [OF cb, of "channel_put w p ?c0" p ?c0] d by simp
  have a2: "channel_adjustStatus cb (channel_put w p ?c1) p STATUS_DESCRIPTOR_WRITABLE True =
      Some (channel_put w p (with_bits ?c1 STATUS_DESCRIPTOR_WRITABLE True))"
    using channel_adjustStatus_eq [OF cb, of "channel_put w p ?c1" p ?c1] d by simp
  have "channel_new cb w p type dtype = Some (channel_put w p ch)"
    using a1 a2 by (simp add: channel_new_def ch_def)
  moreover have "end_ok (snd w) ch NULL"
    using assms(2) d by (auto simp: ch_def end_ok_def bq_ok_new bit_statuses descriptor_init_def)
  ultimately show thesis by (rule that) (simp_all add: ch_def bq_ok_new descriptor_init_def)
qed

lemma channel_pair_ok:
  assumes cb: "idle_callback cb" and dt: "dtype = DT_PIPE \<or> dtype = DT_UNIXSOCKET"
    and ne: "a \<noteq> NULL" "b \<noteq> NULL" "a \<noteq> b"
  obtains w where "channel_pair cb ls a b typeA typeB dtype = Some w" "pair_ok a b w" "chan_buf w a = []" "chan_buf w b = []"
    "chan_type w a = typeA" "chan_type w b = typeB" "chan_link w a = b"
proof -
  obtain ca where ca: "channel_new cb (Map.empty, ls) a typeA dtype = Some (channel_put (Map.empty, ls) a ca)" "end_ok ls ca NULL"
    "bq_bytes (ch_buffer ca) = []" "ch_type ca = typeA" "ds_referenceCount (ch_super ca) = 1"
    using channel_new_ok [OF cb dt, of "(Map.empty, ls)"] by auto
  let ?w1 = "channel_put (Map.empty, ls) a ca"
  obtain c where c: "channel_new cb ?w1 b typeB dtype = Some (channel_put ?w1 b c)" "end_ok ls c NULL"
    "bq_bytes (ch_buffer c) = []" "ch_type c = typeB" "ds_referenceCount (ch_super c) = 1"
    using channel_new_ok [OF cb dt, of ?w1 b typeB] by (auto simp: channel_put_def)
  let ?ca = "ca\<lparr>ch_linkedChannel := b, ch_super := descriptor_ref (ch_super ca)\<rparr>"
  let ?c = "c\<lparr>ch_super := descriptor_ref (ch_super c), ch_linkedChannel := a\<rparr>"
  let ?w = "([a \<mapsto> ?ca, b \<mapsto> ?c], ls)"
  have "channel_pair cb ls a b typeA typeB dtype = Some ?w"
    using ca(1,2) c(1,2) ne unfolding channel_pair_def
    by (simp add: channel_setLinkedChannel_def end_ok_def channel_put_def Let_def fun_upd_twist)
  moreover have "end_ok ls ?ca b" "end_ok ls ?c a"
    using ca(2,5) c(2,5) by (simp_all add: end_ok_def descriptor_ref_def desc_ok_def)
  then have "pair_ok a b ?w" using ne by (intro pair_okI [of _ a ?ca b ?c b a]) simp_all
  ultimately show thesis
    by (rule that) (use ca(3,4) c(3,4) ne in \<open>simp_all add: chan_buf_def chan_type_def chan_link_def\<close>)
qed

lemma chan_step_ok:
  assumes cb: "idle_callback cb" and step: "chan_step cb a b (w, sent, got) (w', sent', got')" and ok: "pair_ok a b w"
  shows "pair_ok a b w' \<and> (sent = got @ chan_buf w b \<longrightarrow> sent' = got' @ chan_buf w' b) \<and>
    (bit (chan_status w' a) 2 \<longrightarrow> bit (chan_status w a) 2)"
  using step
proof (cases rule: chan_step.cases)
  case (send readPtr n r)
  then show ?thesis using send_pair [OF cb send(4) ok send(3)] by auto
next
  case (receive writePtr n r bytes)
  then show ?thesis using receive_pair [OF cb pair_ok_sym [OF ok] receive(3)] by (auto dest: pair_ok_sym)
next
  case (send_back readPtr n r)
  then show ?thesis using send_pair [OF cb send_back(4) pair_ok_sym [OF ok] send_back(3)] by (auto dest: pair_ok_sym)
next
  case (receive_back writePtr n r bytes)
  then show ?thesis using receive_pair [OF cb ok receive_back(3)] by auto
next
  case (close p r)
  have "pair_ok p (if p = a then b else a) w" using ok pair_ok_sym [OF ok] close(4) by auto
  then obtain w1 where "channel_close w p = Some (w1, True)" "pair_ok p (if p = a then b else a) w1"
    "chan_buf w1 = chan_buf w" "chan_status w1 = chan_status w" by (rule close_pair)
  then show ?thesis using close ok by (cases "p = a") (auto dest: pair_ok_sym)
next
  case (elsewhere p ch d)
  obtain ca c la lb where e: "fst w a = Some ca" "fst w b = Some c" "end_ok (snd w) ca la" "end_ok (snd w) c lb"
    "a \<noteq> NULL" "b \<noteq> NULL" "a \<noteq> b" "la = b \<and> lb = a \<or> la = NULL \<and> lb = NULL" by (rule pair_okE [OF ok])
  let ?ch = "ch\<lparr>ch_super := d\<rparr>"
  have upd: "end_ok (snd w) ?ch l" if "end_ok (snd w) ch l" for l
    using that elsewhere by (auto simp: end_ok_def)
  have "pair_ok a b w'"
  proof (cases "p = a")
    case True
    then show ?thesis using e elsewhere upd by (intro pair_okI [of _ a ?ch b c la lb]) simp_all
  next
    case False
    then have "p = b" using elsewhere by blast
    then show ?thesis using e elsewhere upd by (intro pair_okI [of _ a ca b ?ch la lb]) simp_all
  qed
  moreover have "chan_buf w' x = chan_buf w x" "chan_status w' x = chan_status w x" for x
    using elsewhere by (auto simp: chan_buf_def chan_status_def channel_put_def)
  ultimately show ?thesis using elsewhere by simp
qed

lemma chan_steps_ok:
  assumes cb: "idle_callback cb" and steps: "chan_steps cb a b s s'" and ok: "pair_ok a b (fst s)"
  shows "pair_ok a b (fst s') \<and>
    (fst (snd s) = snd (snd s) @ chan_buf (fst s) b \<longrightarrow> fst (snd s') = snd (snd s') @ chan_buf (fst s') b) \<and>
    (bit (chan_status (fst s') a) 2 \<longrightarrow> bit (chan_status (fst s) a) 2)"
  using steps
proof (induction rule: rtranclp_induct)
  case (step s1 s2)
  have "chan_step cb a b (fst s1, fst (snd s1), snd (snd s1)) (fst s2, fst (snd s2), snd (snd s2))"
    using step.hyps(2) by simp
  from chan_step_ok [OF cb this] show ?case using step.IH by blast
qed (use ok in simp)


text \<open>
  Once one end is closed the other one still receives what is buffered, and then the end of the file, a
  length of zero, at once; sending from it fails with a broken pipe.
\<close>

lemma channel_close_outcome:
  assumes "idle_callback cb" and "pair_ok a b w" and "channel_close w a = Some (w1, r)"
    and "\<And>k. writePtr k" and "n \<noteq> 0"
  shows "(chan_type w b = CT_WRITEONLY \<or>
      (\<exists>w2. channel_receiveUserData cb w1 b writePtr n =
         Some (w2, int (length (take (unat n) (chan_buf w b))), take (unat n) (chan_buf w b)))) \<and>
    (chan_type w b = CT_READONLY \<or> (\<exists>w2. channel_sendUserData cb w1 b readPtr n = Some (w2, - EPIPE)))"
proof -
  obtain w' where "channel_close w a = Some (w', True)" "pair_ok a b w'" "chan_buf w' = chan_buf w"
    "chan_link w' b = NULL" "chan_type w' = chan_type w" by (rule close_pair [OF assms(2)])
  then have c: "pair_ok a b w1" "chan_buf w1 = chan_buf w" "chan_link w1 b = NULL" "chan_type w1 = chan_type w"
    using assms(3) by simp_all
  obtain ca cq la lb where e: "fst w1 b = Some cq" "end_ok (snd w1) cq lb" by (rule pair_okE [OF c(1)])
  have "channel_adjustStatus cb w1 b STATUS_DESCRIPTOR_WRITABLE False =
        Some (channel_put w1 b (with_bits cq STATUS_DESCRIPTOR_WRITABLE False))"
    using channel_adjustStatus_eq [OF assms(1) e(1)] e(2) by (simp add: end_ok_def)
  moreover have "ch_linkedChannel cq = NULL" using c(3) e(1) by (simp add: chan_link_def)
  moreover have "ch_type cq = chan_type w b" using c(4) e(1) by (metis chan_type_def option.sel)
  ultimately have "chan_type w b = CT_READONLY \<or> (\<exists>w2. channel_sendUserData cb w1 b readPtr n = Some (w2, - EPIPE))"
    using assms(5) fromLegacyDescriptor_eq [OF e] by (simp add: channel_sendUserData_def EPIPE_def)
  moreover have "\<exists>w2. channel_receiveUserData cb w1 b writePtr n =
      Some (w2, int (length (take (unat n) (chan_buf w1 b))), take (unat n) (chan_buf w1 b))"
    if "chan_type w b \<noteq> CT_WRITEONLY"
    by (rule receive_result [OF assms(1) pair_ok_sym [OF c(1)]]) (use that c(3,4) assms(4,5) in simp_all)
  ultimately show ?thesis unfolding c(2) by blast
qed

text \<open>
  C35: a writer that finds the pipe full is never told that it can write again. After a send that fails, in
  every later state, also when the other end has emptied its buffer, the sending end is not writable: no operation of
  \<^verbatim>\<open>channel.c\<close> sets the bit again.
\<close>

theorem channel_stays_unwritable:
  assumes "idle_callback cb" and "dtype = DT_PIPE \<or> dtype = DT_UNIXSOCKET" and "a \<noteq> NULL" "b \<noteq> NULL" "a \<noteq> b"
    and "channel_pair cb ls a b typeA typeB dtype = Some w0" and "chan_steps cb a b (w0, [], []) (w1, sent, got)"
    and "sane_memory readPtr" and "channel_sendUserData cb w1 a readPtr n = Some (w2, r)" and "r < 0"
    and "chan_steps cb a b (w2, sent, got) (w3, sent', got')"
  shows "\<not> bit (chan_status w3 a) 2"
proof -
  obtain w where "channel_pair cb ls a b typeA typeB dtype = Some w" "pair_ok a b w"
    using channel_pair_ok [OF assms(1-5)] by metis
  then have "pair_ok a b w0" using assms(6) by simp
  then have ok: "pair_ok a b w1" using chan_steps_ok [OF assms(1,7)] by simp
  have n: "n \<noteq> 0"
  proof
    assume "n = 0"
    then have "r = 0" using assms(9) by (auto simp: channel_sendUserData_def split: bind_splits)
    then show False using assms(10) by simp
  qed
  note s = send_pair [OF assms(1,8) ok assms(9)]
  show ?thesis using chan_steps_ok [OF assms(1,11)] s(1) s(5) [OF n] assms(10) by simp
qed

section \<open>Witnesses\<close>

text \<open>A pair of unix sockets, with memory full of zeros.\<close>

definition chan_cb :: desc_callback where "chan_cb l w = w"
definition zero_memory :: "u64 \<Rightarrow> byte list option" where "zero_memory n = Some (replicate (unat n) 0)"
definition no_listeners :: listener_store where "no_listeners p = None"

lemma chan_cb_idle: "idle_callback chan_cb"
  by (simp add: idle_callback_def chan_cb_def)

lemma zero_memory_sane: "sane_memory zero_memory"
  by (simp add: sane_memory_def zero_memory_def)

lemma sockets_new:
  obtains w where "channel_pair chan_cb no_listeners 1 2 CT_NONE CT_NONE DT_UNIXSOCKET = Some w" "pair_ok 1 2 w"
    "chan_buf w 1 = []" "chan_buf w 2 = []" "chan_type w 1 = CT_NONE" "chan_type w 2 = CT_NONE" "chan_link w 1 = 2"
    "chan_steps chan_cb 1 2 (w, [], []) (w, [], [])"
  by (rule channel_pair_ok [OF chan_cb_idle, of DT_UNIXSOCKET 1 2 no_listeners CT_NONE CT_NONE])
     (simp_all add: that)


text \<open>The sender fills the buffer, finds it full, and the receiver empties it.\<close>

theorem channel_stays_unwritable_witness:
  "\<exists>w0 w1 w2 w3. channel_pair chan_cb no_listeners 1 2 CT_NONE CT_NONE DT_UNIXSOCKET = Some w0 \<and>
     channel_sendUserData chan_cb w0 1 zero_memory 65536 = Some (w1, 65536) \<and>
     channel_sendUserData chan_cb w1 1 zero_memory 1 = Some (w2, - EWOULDBLOCK) \<and>
     channel_receiveUserData chan_cb w2 2 (\<lambda>_. True) 65536 = Some (w3, 65536, replicate CONFIG_PIPE_BUFFER_SIZE 0) \<and>
     chan_buf w3 2 = [] \<and> \<not> bit (chan_status w3 1) 2"
proof -
  note send = send_pair [OF chan_cb_idle zero_memory_sane] and result = send_result [OF chan_cb_idle zero_memory_sane]
  let ?z = "replicate CONFIG_PIPE_BUFFER_SIZE (0 :: byte)"
  obtain w0 where w0: "channel_pair chan_cb no_listeners 1 2 CT_NONE CT_NONE DT_UNIXSOCKET = Some w0" "pair_ok 1 2 w0"
    "chan_buf w0 2 = []" "chan_type w0 1 = CT_NONE" "chan_type w0 2 = CT_NONE" "chan_link w0 1 = 2" by (rule sockets_new)
  obtain w1 where w1: "channel_sendUserData chan_cb w0 1 zero_memory 65536 = Some (w1, 65536)"
    using result [OF w0(2,6), of 65536] w0(3-5) by (auto simp: CONFIG_PIPE_BUFFER_SIZE_def zero_memory_def)
  note s1 = send [OF w0(2) w1]
  have "the (zero_memory (word_of_int 65536)) = ?z" by (simp add: zero_memory_def CONFIG_PIPE_BUFFER_SIZE_def)
  then have b1: "chan_buf w1 2 = ?z" using s1(2) w0(3) by simp
  obtain w2 where w2: "channel_sendUserData chan_cb w1 1 zero_memory 1 = Some (w2, - EWOULDBLOCK)"
    using result [OF s1(1), of 1] s1(6,7) w0(4-6) b1 by auto
  note s2 = send [OF s1(1) w2]
  have b2: "chan_buf w2 2 = ?z" using s2(2) b1 by (simp add: EWOULDBLOCK_def)
  have full: "take (unat (65536 :: u64)) ?z = ?z" "length ?z = 65536" "?z \<noteq> []" by (simp_all add: CONFIG_PIPE_BUFFER_SIZE_def)
  have "chan_type w2 2 \<noteq> CT_WRITEONLY" using s1(6) s2(6) w0(5) by simp
  then obtain w3 where w3: "channel_receiveUserData chan_cb w2 2 (\<lambda>_. True) 65536 = Some (w3, 65536, ?z)"
    using receive_result [OF chan_cb_idle pair_ok_sym [OF s2(1)], of "\<lambda>_. True" 65536] b2 full by auto
  have "chan_step chan_cb 1 2 (w0, [], []) (w1, ?z, [])"
    using chan_step.send [OF w1 zero_memory_sane, of 2 "[]" "[]"] by (simp add: zero_memory_def CONFIG_PIPE_BUFFER_SIZE_def)
  then have steps1: "chan_steps chan_cb 1 2 (w0, [], []) (w1, ?z, [])" by (rule r_into_rtranclp)
  have steps2: "chan_steps chan_cb 1 2 (w2, ?z, []) (w3, ?z, [] @ ?z)"
    using chan_step.receive [OF w3, of 1 ?z "[]"] by (rule r_into_rtranclp)
  have "\<not> bit (chan_status w3 1) 2"
    using channel_stays_unwritable [OF chan_cb_idle _ _ _ _ w0(1) steps1 zero_memory_sane w2 _ steps2]
    by (simp add: EWOULDBLOCK_def)
  moreover have "chan_buf w3 2 = []"
    using receive_pair(2) [OF chan_cb_idle pair_ok_sym [OF s2(1)] w3] b2 by simp
  ultimately show ?thesis using w0(1) w1 w2 w3 by blast
qed

end
