(* ===== verification/Tcp_Reno.thy ===== *)
theory Tcp_Reno
  imports Prelude "HOL-Library.Monad_Syntax"
begin

text \<open>
  \<^verbatim>\<open>host/descriptor/tcp_cong_reno.c\<close>: the Reno congestion control of a TCP socket, behind the hooks of
  \<^verbatim>\<open>host/descriptor/tcp_cong.h\<close>. The table of hooks that \<^verbatim>\<open>state_hooks\<close> points to is the state of the
  machine. All counters are unsigned 32-bit integers that wrap, except the number of duplicate
  acknowledgements, a \<^verbatim>\<open>size_t\<close>.
\<close>

section \<open>Model\<close>

datatype reno_hooks = slow_start_hooks | fast_recovery_hooks | cong_avoid_hooks

record ca_reno =
  rn_state_hooks :: reno_hooks
  rn_duplicate_ack_n :: u64
  rn_cong_avoid_nacked :: u32
  rn_ssthresh :: u32

record tcp_cong =
  tc_cwnd :: u32
  tc_ca :: ca_reno

definition INT32_MAX :: u32 where "INT32_MAX = 2147483647"

definition ssthresh_halve :: "tcp_cong \<Rightarrow> tcp_cong" where
  "ssthresh_halve c = c\<lparr>tc_ca := (tc_ca c)\<lparr>rn_ssthresh := tc_cwnd c div 2 + 1\<rparr>\<rparr>"

definition ca_reno_slow_start_duplicate_ack_ev :: "tcp_cong \<Rightarrow> tcp_cong" where
  "ca_reno_slow_start_duplicate_ack_ev c0 =
     (let c = c0\<lparr>tc_ca := (tc_ca c0)\<lparr>rn_duplicate_ack_n := rn_duplicate_ack_n (tc_ca c0) + 1\<rparr>\<rparr>
      in if rn_duplicate_ack_n (tc_ca c) = 3
         then let c1 = ssthresh_halve c;
                  c2 = c1\<lparr>tc_cwnd := rn_ssthresh (tc_ca c1) + 3\<rparr>
              in c2\<lparr>tc_ca := (tc_ca c2)\<lparr>rn_state_hooks := fast_recovery_hooks\<rparr>\<rparr>
         else c)"

text \<open>
  The loop that adds one to the window for each window of acknowledged packets. It ends also where
  the window wraps to zero, because it is one again in the next turn.
\<close>

function cong_avoid_loop :: "u32 \<Rightarrow> u32 \<Rightarrow> u32 \<times> u32" where
  "cong_avoid_loop nacked cwnd =
     (if nacked \<ge> cwnd then cong_avoid_loop (nacked - cwnd) (cwnd + 1) else (nacked, cwnd))"
  by pat_completeness auto
termination
proof (relation "measure (\<lambda>(nacked, cwnd). 2 * unat nacked + (if cwnd = 0 then 1 else 0))", goal_cases)
  case (2 nacked cwnd)
  then have "unat (nacked - cwnd) = unat nacked - unat cwnd" "unat cwnd \<le> unat nacked"
    by (simp_all add: unat_sub word_le_nat_alt)
  moreover have "cwnd = 0 \<or> 0 < unat cwnd" by (simp add: unat_gt_0)
  ultimately show ?case by auto
qed simp

declare cong_avoid_loop.simps [simp del]

definition ca_reno_cong_avoid_new_ack_ev :: "tcp_cong \<Rightarrow> u32 \<Rightarrow> tcp_cong" where
  "ca_reno_cong_avoid_new_ack_ev c n =
     (let (nacked, cwnd) = cong_avoid_loop (rn_cong_avoid_nacked (tc_ca c) + n) (tc_cwnd c)
      in c\<lparr>tc_cwnd := cwnd, tc_ca := (tc_ca c)\<lparr>rn_cong_avoid_nacked := nacked\<rparr>\<rparr>)"

definition transition_to_cong_avoid :: "tcp_cong \<Rightarrow> u32 \<Rightarrow> tcp_cong" where
  "transition_to_cong_avoid c n =
     ca_reno_cong_avoid_new_ack_ev
       (c\<lparr>tc_ca := (tc_ca c)\<lparr>rn_cong_avoid_nacked := 0, rn_state_hooks := cong_avoid_hooks\<rparr>\<rparr>) n"

definition ca_reno_slow_start_new_ack_ev :: "tcp_cong \<Rightarrow> u32 \<Rightarrow> tcp_cong" where
  "ca_reno_slow_start_new_ack_ev c0 n =
     (let c = c0\<lparr>tc_ca := (tc_ca c0)\<lparr>rn_duplicate_ack_n := 0\<rparr>\<rparr>;
          new_cwnd = tc_cwnd c + n
      in if new_cwnd \<ge> rn_ssthresh (tc_ca c)
         then let nleft = new_cwnd - rn_ssthresh (tc_ca c)
              in transition_to_cong_avoid (c\<lparr>tc_cwnd := rn_ssthresh (tc_ca c)\<rparr>) nleft
         else c\<lparr>tc_cwnd := new_cwnd\<rparr>)"

definition ca_reno_fast_recovery_duplicate_ack_ev :: "tcp_cong \<Rightarrow> tcp_cong" where
  "ca_reno_fast_recovery_duplicate_ack_ev c = c\<lparr>tc_cwnd := tc_cwnd c + 1\<rparr>"

definition ca_reno_fast_recovery_new_ack_ev :: "tcp_cong \<Rightarrow> u32 \<Rightarrow> tcp_cong" where
  "ca_reno_fast_recovery_new_ack_ev c n =
     transition_to_cong_avoid
       (c\<lparr>tc_ca := (tc_ca c)\<lparr>rn_duplicate_ack_n := 0\<rparr>, tc_cwnd := rn_ssthresh (tc_ca c)\<rparr>) n"

text \<open>The initial value of the window is overwritten by \<open>tcp_cong_reno_init\<close>.\<close>

definition ca_reno_init :: tcp_cong where
  "ca_reno_init = \<lparr>tc_cwnd = 10, tc_ca = \<lparr>rn_state_hooks = slow_start_hooks, rn_duplicate_ack_n = 0,
     rn_cong_avoid_nacked = 0, rn_ssthresh = INT32_MAX\<rparr>\<rparr>"

definition tcp_cong_reno_init :: tcp_cong where
  "tcp_cong_reno_init = ca_reno_init\<lparr>tc_cwnd := 1\<rparr>"

definition tcp_cong_reno_duplicate_ack_ev :: "tcp_cong \<Rightarrow> tcp_cong" where
  "tcp_cong_reno_duplicate_ack_ev c =
     (case rn_state_hooks (tc_ca c) of
        slow_start_hooks \<Rightarrow> ca_reno_slow_start_duplicate_ack_ev c
      | fast_recovery_hooks \<Rightarrow> ca_reno_fast_recovery_duplicate_ack_ev c
      | cong_avoid_hooks \<Rightarrow> ca_reno_slow_start_duplicate_ack_ev c)"

definition tcp_cong_reno_fast_recovery :: "tcp_cong \<Rightarrow> bool" where
  "tcp_cong_reno_fast_recovery c \<longleftrightarrow> rn_state_hooks (tc_ca c) = fast_recovery_hooks"

definition tcp_cong_reno_new_ack_ev :: "tcp_cong \<Rightarrow> u32 \<Rightarrow> tcp_cong" where
  "tcp_cong_reno_new_ack_ev c n =
     (case rn_state_hooks (tc_ca c) of
        slow_start_hooks \<Rightarrow> ca_reno_slow_start_new_ack_ev c n
      | fast_recovery_hooks \<Rightarrow> ca_reno_fast_recovery_new_ack_ev c n
      | cong_avoid_hooks \<Rightarrow> ca_reno_cong_avoid_new_ack_ev c n)"

definition tcp_cong_reno_timeout_ev :: "tcp_cong \<Rightarrow> tcp_cong" where
  "tcp_cong_reno_timeout_ev c0 =
     (let c = ssthresh_halve (c0\<lparr>tc_ca := (tc_ca c0)\<lparr>rn_duplicate_ack_n := 0\<rparr>\<rparr>)
      in c\<lparr>tc_cwnd := 10, tc_ca := (tc_ca c)\<lparr>rn_state_hooks := slow_start_hooks\<rparr>\<rparr>)"

definition tcp_cong_reno_ssthresh :: "tcp_cong \<Rightarrow> u32" where
  "tcp_cong_reno_ssthresh c = rn_ssthresh (tc_ca c)"

section \<open>The growth of the window in congestion avoidance\<close>

text \<open>
  The specification: the number of windows, of sizes \<open>cwnd\<close>, \<open>cwnd + 1\<close> and so on, that
  \<open>total_acked\<close> packets fill.
\<close>

fun windows_cost :: "nat \<Rightarrow> nat \<Rightarrow> nat" where
  "windows_cost cwnd 0 = 0"
| "windows_cost cwnd (Suc k) = cwnd + windows_cost (cwnd + 1) k"

lemma windows_cost_ge: "0 < cwnd \<Longrightarrow> k \<le> windows_cost cwnd k"
proof (induction k arbitrary: cwnd)
  case (Suc k)
  have "k \<le> windows_cost (cwnd + 1) k" by (rule Suc.IH) simp
  then show ?case using Suc.prems by simp
qed simp

lemma cong_avoid_loop_spec:
  assumes "0 < unat cwnd" and "unat cwnd + unat nacked < 2 ^ 32"
  shows "\<exists>k nacked' cwnd'. cong_avoid_loop nacked cwnd = (nacked', cwnd') \<and> unat cwnd' = unat cwnd + k \<and>
     unat nacked = windows_cost (unat cwnd) k + unat nacked' \<and> unat nacked' < unat cwnd'"
  using assms
proof (induction nacked cwnd rule: cong_avoid_loop.induct)
  case (1 nacked cwnd)
  show ?case
  proof (cases "nacked \<ge> cwnd")
    case True
    then have le: "unat cwnd \<le> unat nacked" and sub: "unat (nacked - cwnd) = unat nacked - unat cwnd"
      by (simp_all add: word_le_nat_alt unat_sub)
    have suc: "unat (cwnd + 1) = unat cwnd + 1"
      using add_no_wrap [of cwnd 1] "1.prems" le by simp
    have "unat (cwnd + 1) + unat (nacked - cwnd) < 2 ^ 32" using suc sub le "1.prems" by simp
    then obtain k n' c' where r: "cong_avoid_loop (nacked - cwnd) (cwnd + 1) = (n', c')" "unat c' = unat (cwnd + 1) + k"
      "unat (nacked - cwnd) = windows_cost (unat (cwnd + 1)) k + unat n'" "unat n' < unat c'"
      using "1.IH" [OF True] suc by (metis add_gr_0 zero_less_one)
    have "cong_avoid_loop nacked cwnd = (n', c')" using r(1) True by (simp add: cong_avoid_loop.simps [of nacked cwnd])
    moreover have "unat c' = unat cwnd + Suc k" using r(2) suc by simp
    moreover have "unat nacked = windows_cost (unat cwnd) (Suc k) + unat n'" using r(3) sub le suc by simp
    ultimately show ?thesis using r(4) by blast
  next
    case False
    then have "cong_avoid_loop nacked cwnd = (nacked, cwnd)" by (simp add: cong_avoid_loop.simps [of nacked cwnd])
    moreover have "unat nacked < unat cwnd" using False by (simp add: word_less_nat_alt word_le_nat_alt)
    ultimately show ?thesis by (intro exI [of _ 0] exI [of _ nacked] exI [of _ cwnd]) simp
  qed
qed

section \<open>Histories\<close>

datatype reno_event = NewAck u32 | DuplicateAck | Timeout

fun reno_handle :: "tcp_cong \<Rightarrow> reno_event \<Rightarrow> tcp_cong" where
  "reno_handle c (NewAck n) = tcp_cong_reno_new_ack_ev c n"
| "reno_handle c DuplicateAck = tcp_cong_reno_duplicate_ack_ev c"
| "reno_handle c Timeout = tcp_cong_reno_timeout_ev c"

fun reno_weight :: "reno_event \<Rightarrow> nat" where
  "reno_weight (NewAck n) = unat n"
| "reno_weight DuplicateAck = 1"
| "reno_weight Timeout = 0"

text \<open>\<open>t\<close> is the number of acknowledgements so far, plain and duplicate.\<close>

definition reno_ok :: "nat \<Rightarrow> tcp_cong \<Rightarrow> bool" where
  "reno_ok t c \<longleftrightarrow> 1 \<le> unat (tc_cwnd c) \<and> 1 \<le> unat (rn_ssthresh (tc_ca c)) \<and>
     (case rn_state_hooks (tc_ca c) of
        fast_recovery_hooks \<Rightarrow> rn_duplicate_ack_n (tc_ca c) = 3 \<and>
          unat (rn_ssthresh (tc_ca c)) + 3 \<le> unat (tc_cwnd c) \<and> unat (tc_cwnd c) \<le> 10 + t
      | slow_start_hooks \<Rightarrow> unat (rn_duplicate_ack_n (tc_ca c)) \<le> 2 \<and>
          unat (tc_cwnd c) + unat (rn_duplicate_ack_n (tc_ca c)) \<le> 10 + t
      | cong_avoid_hooks \<Rightarrow> unat (rn_duplicate_ack_n (tc_ca c)) \<le> 2 \<and>
          unat (tc_cwnd c) + unat (rn_duplicate_ack_n (tc_ca c)) \<le> 10 + t \<and>
          unat (rn_cong_avoid_nacked (tc_ca c)) < unat (tc_cwnd c))"

lemma unat_half: "unat (w div 2 :: u32) = unat w div 2"
  by (simp add: unat_div)

lemma unat_halved: "unat ((w :: u32) div 2 + 1) = unat w div 2 + 1"
proof -
  have "unat w < 2 ^ 32" using unsigned_less [of w, where 'a = nat] by simp
  then show ?thesis using add_no_wrap [of "w div 2" 1] by (simp add: unat_div)
qed

lemma ca_new_ack:
  fixes n :: u32 and c :: tcp_cong
  assumes "1 \<le> unat (tc_cwnd c)" and "unat (rn_cong_avoid_nacked (tc_ca c)) < unat (tc_cwnd c)"
    and "2 * (unat (tc_cwnd c) + unat n) < 2 ^ 32"
  defines "c' \<equiv> ca_reno_cong_avoid_new_ack_ev c n"
  shows "unat (tc_cwnd c) \<le> unat (tc_cwnd c')" and "unat (tc_cwnd c') \<le> unat (tc_cwnd c) + unat n"
    and "unat (rn_cong_avoid_nacked (tc_ca c')) < unat (tc_cwnd c')"
    and "rn_state_hooks (tc_ca c') = rn_state_hooks (tc_ca c)"
    and "rn_duplicate_ack_n (tc_ca c') = rn_duplicate_ack_n (tc_ca c)" and "rn_ssthresh (tc_ca c') = rn_ssthresh (tc_ca c)"
proof -
  let ?na = "rn_cong_avoid_nacked (tc_ca c)"
  have sum: "unat (?na + n) = unat ?na + unat n" using assms(2,3) by (intro add_no_wrap) simp
  then have "unat (tc_cwnd c) + unat (?na + n) < 2 ^ 32" using assms(2,3) by simp
  then obtain k n' w where r: "cong_avoid_loop (?na + n) (tc_cwnd c) = (n', w)" "unat w = unat (tc_cwnd c) + k"
    "unat (?na + n) = windows_cost (unat (tc_cwnd c)) k + unat n'" "unat n' < unat w"
    using cong_avoid_loop_spec [of "tc_cwnd c" "?na + n"] assms(1) by auto
  have "k \<le> unat n"
  proof (cases k)
    case (Suc j)
    have "j \<le> windows_cost (unat (tc_cwnd c) + 1) j" by (rule windows_cost_ge) simp
    then show ?thesis using r(3) Suc sum assms(2) by simp
  qed simp
  then show "unat (tc_cwnd c) \<le> unat (tc_cwnd c')" "unat (tc_cwnd c') \<le> unat (tc_cwnd c) + unat n"
    "unat (rn_cong_avoid_nacked (tc_ca c')) < unat (tc_cwnd c')" "rn_state_hooks (tc_ca c') = rn_state_hooks (tc_ca c)"
    "rn_duplicate_ack_n (tc_ca c') = rn_duplicate_ack_n (tc_ca c)" "rn_ssthresh (tc_ca c') = rn_ssthresh (tc_ca c)"
    using r(1,2,4) by (simp_all add: c'_def ca_reno_cong_avoid_new_ack_ev_def)
qed

text \<open>Entering congestion avoidance with a window of \<open>ssthresh\<close> and \<open>n\<close> acknowledgements left.\<close>

lemma transition_ok:
  fixes n :: u32 and c :: tcp_cong
  assumes "tc_cwnd c = rn_ssthresh (tc_ca c)" and "1 \<le> unat (tc_cwnd c)" and "rn_duplicate_ack_n (tc_ca c) = 0"
    and "unat (tc_cwnd c) + unat n \<le> 10 + t" and "2 * (10 + t) < 2 ^ 32"
  shows "reno_ok t (transition_to_cong_avoid c n)"
proof -
  let ?c = "c\<lparr>tc_ca := (tc_ca c)\<lparr>rn_cong_avoid_nacked := 0, rn_state_hooks := cong_avoid_hooks\<rparr>\<rparr>"
  have "2 * (unat (tc_cwnd ?c) + unat n) < 2 ^ 32" using assms(4,5) by simp
  moreover have "unat (rn_cong_avoid_nacked (tc_ca ?c)) < unat (tc_cwnd ?c)" "1 \<le> unat (tc_cwnd ?c)"
    using assms(2) by simp_all
  ultimately show ?thesis using ca_new_ack [of ?c n] assms(1-4)
    by (simp add: transition_to_cong_avoid_def reno_ok_def)
qed

lemma new_ack_ok:
  assumes ok: "reno_ok t c" and b: "2 * (10 + (t + unat n)) < 2 ^ 32"
  shows "reno_ok (t + unat n) (tcp_cong_reno_new_ack_ev c n)"
proof (cases "rn_state_hooks (tc_ca c)")
  case slow_start_hooks
  have h: "1 \<le> unat (tc_cwnd c)" "1 \<le> unat (rn_ssthresh (tc_ca c))" "unat (tc_cwnd c) \<le> 10 + t"
    using ok slow_start_hooks by (simp_all add: reno_ok_def)
  have sum: "unat (tc_cwnd c + n) = unat (tc_cwnd c) + unat n" using h(3) b by (intro add_no_wrap) simp
  show ?thesis
  proof (cases "tc_cwnd c + n \<ge> rn_ssthresh (tc_ca c)")
    case True
    let ?c = "c\<lparr>tc_ca := (tc_ca c)\<lparr>rn_duplicate_ack_n := 0\<rparr>, tc_cwnd := rn_ssthresh (tc_ca c)\<rparr>"
    have "unat (tc_cwnd c + n - rn_ssthresh (tc_ca c)) = unat (tc_cwnd c) + unat n - unat (rn_ssthresh (tc_ca c))"
      "unat (rn_ssthresh (tc_ca c)) \<le> unat (tc_cwnd c) + unat n"
      using True sum by (simp_all add: unat_sub word_le_nat_alt)
    then have "reno_ok (t + unat n) (transition_to_cong_avoid ?c (tc_cwnd c + n - rn_ssthresh (tc_ca c)))"
      using h b by (intro transition_ok) simp_all
    then show ?thesis using True slow_start_hooks
      by (simp add: tcp_cong_reno_new_ack_ev_def ca_reno_slow_start_new_ack_ev_def Let_def)
  next
    case False
    then show ?thesis using h sum slow_start_hooks
      by (simp add: tcp_cong_reno_new_ack_ev_def ca_reno_slow_start_new_ack_ev_def Let_def reno_ok_def)
  qed
next
  case fast_recovery_hooks
  let ?c = "c\<lparr>tc_ca := (tc_ca c)\<lparr>rn_duplicate_ack_n := 0\<rparr>, tc_cwnd := rn_ssthresh (tc_ca c)\<rparr>"
  have "1 \<le> unat (rn_ssthresh (tc_ca c))" "unat (rn_ssthresh (tc_ca c)) + 3 \<le> 10 + t"
    using ok fast_recovery_hooks by (simp_all add: reno_ok_def)
  then have "reno_ok (t + unat n) (transition_to_cong_avoid ?c n)" using b by (intro transition_ok) simp_all
  then show ?thesis using fast_recovery_hooks
    by (simp add: tcp_cong_reno_new_ack_ev_def ca_reno_fast_recovery_new_ack_ev_def)
next
  case cong_avoid_hooks
  have "2 * (unat (tc_cwnd c) + unat n) < 2 ^ 32" using ok b cong_avoid_hooks by (simp add: reno_ok_def)
  then show ?thesis using ca_new_ack [of c n] ok cong_avoid_hooks
    by (simp add: tcp_cong_reno_new_ack_ev_def reno_ok_def)
qed

lemma duplicate_ack_ok:
  assumes ok: "reno_ok t c" and b: "2 * (10 + (t + 1)) < 2 ^ 32"
  shows "reno_ok (t + 1) (tcp_cong_reno_duplicate_ack_ev c)"
proof (cases "rn_state_hooks (tc_ca c) = fast_recovery_hooks")
  case True
  then have "unat (tc_cwnd c + 1) = unat (tc_cwnd c) + 1"
    using ok b add_no_wrap [of "tc_cwnd c" 1] by (simp add: reno_ok_def)
  then show ?thesis using ok True
    by (simp add: tcp_cong_reno_duplicate_ack_ev_def ca_reno_fast_recovery_duplicate_ack_ev_def reno_ok_def)
next
  case False
  let ?d = "rn_duplicate_ack_n (tc_ca c)"
  have h: "unat ?d \<le> 2" "unat (tc_cwnd c) + unat ?d \<le> 10 + t" "1 \<le> unat (tc_cwnd c)"
    "1 \<le> unat (rn_ssthresh (tc_ca c))"
    "rn_state_hooks (tc_ca c) = cong_avoid_hooks \<Longrightarrow> unat (rn_cong_avoid_nacked (tc_ca c)) < unat (tc_cwnd c)"
    using ok False by (auto simp: reno_ok_def split: reno_hooks.splits)
  have d: "unat (?d + 1) = unat ?d + 1" using h(1) add_no_wrap [of ?d 1] by simp
  have e: "tcp_cong_reno_duplicate_ack_ev c = ca_reno_slow_start_duplicate_ack_ev c"
    using False by (simp add: tcp_cong_reno_duplicate_ack_ev_def split: reno_hooks.splits)
  show ?thesis
  proof (cases "?d + 1 = 3")
    case True
    then have "unat ?d = 2" using d by simp
    moreover have s: "unat (tc_cwnd c div 2 + 1) = unat (tc_cwnd c) div 2 + 1" by (rule unat_halved)
    moreover have "unat (tc_cwnd c div 2 + 1 + 3) = unat (tc_cwnd c) div 2 + 1 + 3"
      using s h(2) b add_no_wrap [of "tc_cwnd c div 2 + 1" 3] by simp
    ultimately show ?thesis using True h unfolding e
      by (simp add: ca_reno_slow_start_duplicate_ack_ev_def ssthresh_halve_def reno_ok_def Let_def)
  next
    case ne: False
    then have "unat (?d + 1) \<noteq> unat (3 :: u64)" using unsigned_word_eqI by blast
    then have "unat ?d + 1 \<noteq> 3" using d by simp
    then show ?thesis using ne d h False unfolding e
      by (auto simp: ca_reno_slow_start_duplicate_ack_ev_def reno_ok_def Let_def split: reno_hooks.splits)
  qed
qed

lemma timeout_ok: "reno_ok t c \<Longrightarrow> reno_ok t (tcp_cong_reno_timeout_ev c)"
  by (simp add: tcp_cong_reno_timeout_ev_def ssthresh_halve_def reno_ok_def Let_def unat_halved)

lemma reno_ok_history:
  assumes "reno_ok t c" and "2 * (10 + (t + sum_list (map reno_weight evs))) < 2 ^ 32"
  shows "reno_ok (t + sum_list (map reno_weight evs)) (foldl reno_handle c evs)"
  using assms
proof (induction evs arbitrary: t c)
  case (Cons e evs)
  have b: "2 * (10 + (t + reno_weight e)) < 2 ^ 32" using Cons.prems(2) by simp
  have "reno_ok (t + reno_weight e) (reno_handle c e)"
  proof (cases e)
    case (NewAck n)
    then show ?thesis using new_ack_ok [OF Cons.prems(1), of n] b by simp
  next
    case DuplicateAck
    then show ?thesis using duplicate_ack_ok [OF Cons.prems(1)] b by simp
  next
    case Timeout
    then show ?thesis using timeout_ok [OF Cons.prems(1)] by simp
  qed
  from Cons.IH [OF this] show ?case using Cons.prems(2) by (simp add: add.assoc)
qed simp

section \<open>Properties\<close>

text \<open>
  C20: in every history of acknowledgements, duplicate acknowledgements and timeouts of a new Reno controller
  the congestion window is at least one and at most ten plus the number of acknowledgements, so it never wraps; the
  threshold is at least one; outside fast recovery fewer than three duplicate acknowledgements are
  counted; in fast recovery exactly three, and the window is at least three above the threshold; in congestion
  avoidance less than a window of packets is pending.
\<close>

theorem reno_window_bounds:
  assumes "2 * (10 + sum_list (map reno_weight evs)) < 2 ^ 32"
    and "c = foldl reno_handle tcp_cong_reno_init evs"
  shows "1 \<le> unat (tc_cwnd c) \<and> unat (tc_cwnd c) \<le> 10 + sum_list (map reno_weight evs) \<and>
     1 \<le> unat (tcp_cong_reno_ssthresh c) \<and>
     (if tcp_cong_reno_fast_recovery c
      then rn_duplicate_ack_n (tc_ca c) = 3 \<and> unat (tcp_cong_reno_ssthresh c) + 3 \<le> unat (tc_cwnd c)
      else unat (rn_duplicate_ack_n (tc_ca c)) \<le> 2) \<and>
     (rn_state_hooks (tc_ca c) = cong_avoid_hooks \<longrightarrow> rn_cong_avoid_nacked (tc_ca c) < tc_cwnd c)"
proof -
  have "reno_ok 0 tcp_cong_reno_init"
    by (simp add: reno_ok_def tcp_cong_reno_init_def ca_reno_init_def INT32_MAX_def)
  from reno_ok_history [OF this, of evs] have "reno_ok (sum_list (map reno_weight evs)) c" using assms by simp
  then show ?thesis
    by (auto simp: reno_ok_def tcp_cong_reno_fast_recovery_def tcp_cong_reno_ssthresh_def word_less_nat_alt
        split: reno_hooks.splits)
qed

theorem reno_window_bounds_witness:
  "tcp_cong_reno_fast_recovery (foldl reno_handle tcp_cong_reno_init
       [NewAck 5, DuplicateAck, DuplicateAck, DuplicateAck]) \<and>
   unat (tc_cwnd (foldl reno_handle tcp_cong_reno_init [NewAck 5, DuplicateAck, DuplicateAck, DuplicateAck])) \<le> 18"
proof -
  let ?evs = "[NewAck 5, DuplicateAck, DuplicateAck, DuplicateAck]"
  have "tcp_cong_reno_fast_recovery (foldl reno_handle tcp_cong_reno_init ?evs)" by code_simp
  then show ?thesis using reno_window_bounds [of ?evs, OF _ refl] by simp
qed

text \<open>
  C36: the loop of congestion avoidance ends on every input, and computes what it means to: the window
  grows by the number \<open>k\<close> of successive windows, of sizes \<open>cwnd\<close>, \<open>cwnd + 1\<close>, \<open>...\<close>, that the
  packets acknowledged so far fill completely, and the rest, less than a window, stays pending.
\<close>

theorem cong_avoid_counts_windows:
  assumes "0 < unat (tc_cwnd c)"
    and "unat (tc_cwnd c) + (unat (rn_cong_avoid_nacked (tc_ca c)) + unat n) < 2 ^ 32"
    and "c' = ca_reno_cong_avoid_new_ack_ev c n"
  shows "\<exists>k. unat (tc_cwnd c') = unat (tc_cwnd c) + k \<and>
     unat (rn_cong_avoid_nacked (tc_ca c)) + unat n =
       windows_cost (unat (tc_cwnd c)) k + unat (rn_cong_avoid_nacked (tc_ca c')) \<and>
     unat (rn_cong_avoid_nacked (tc_ca c')) < unat (tc_cwnd c')"
proof -
  let ?na = "rn_cong_avoid_nacked (tc_ca c)"
  have sum: "unat (?na + n) = unat ?na + unat n" using assms(2) by (intro add_no_wrap) simp
  then obtain k n' w where "cong_avoid_loop (?na + n) (tc_cwnd c) = (n', w)" "unat w = unat (tc_cwnd c) + k"
    "unat (?na + n) = windows_cost (unat (tc_cwnd c)) k + unat n'" "unat n' < unat w"
    using cong_avoid_loop_spec [of "tc_cwnd c" "?na + n"] assms(1,2) by auto
  then show ?thesis using assms(3) sum by (auto simp: ca_reno_cong_avoid_new_ack_ev_def)
qed

theorem cong_avoid_counts_windows_witness:
  "\<exists>k. unat (tc_cwnd (ca_reno_cong_avoid_new_ack_ev tcp_cong_reno_init 7)) = 1 + k \<and>
     7 = windows_cost 1 k + unat (rn_cong_avoid_nacked (tc_ca (ca_reno_cong_avoid_new_ack_ev tcp_cong_reno_init 7)))"
proof -
  have i: "tc_cwnd tcp_cong_reno_init = 1" "rn_cong_avoid_nacked (tc_ca tcp_cong_reno_init) = 0"
    by (simp_all add: tcp_cong_reno_init_def ca_reno_init_def)
  show ?thesis using cong_avoid_counts_windows [of tcp_cong_reno_init 7, OF _ _ refl] unfolding i by auto
qed

end
