(* ===== verification/Shmem_Util.thy ===== *)
theory Shmem_Util
  imports Prelude "HOL-Library.Log_Nat"
begin

text \<open>
  \<^verbatim>\<open>shmem/shmem_util.h\<close> and \<^verbatim>\<open>shmem/shmem_util.c\<close>: powers of two and logarithms of 32-bit
  integers, computed with bit tricks and a table. They are proved to be the functions their names say;
  the buddy allocator rests on that.
\<close>

section \<open>Model\<close>

text \<open>The two compiler builtins the code uses; \<^verbatim>\<open>__builtin_clz\<close> is undefined at zero.\<close>

definition builtin_popcount :: "u32 \<Rightarrow> nat" where
  "builtin_popcount x = length (filter (bit x) [0..<32])"

definition builtin_clz :: "u32 \<Rightarrow> nat" where
  "builtin_clz x = length (takeWhile (\<lambda>i. \<not> bit x i) (rev [0..<32]))"

definition shmem_util_uintPow2k :: "nat \<Rightarrow> u32" where
  "shmem_util_uintPow2k k = push_bit k 1"

text \<open>\<open>None\<close> stands for the undefined behaviour at zero and above \<open>2\<^sup>3\<^sup>1\<close>, where the shift is too wide.\<close>

definition shmem_util_roundUpPow2 :: "u32 \<Rightarrow> u32 option" where
  "shmem_util_roundUpPow2 x =
     (let pc = builtin_popcount x;
          shift = of_bool (pc \<noteq> 1);
          width = shift + 32 - builtin_clz x - 1
      in if x = 0 \<or> 32 \<le> width then None else Some (push_bit width 1))"

definition LT :: "int \<Rightarrow> int list" where
  "LT n = replicate 16 n"

definition log_table_256 :: "int list" where
  "log_table_256 =
     [-1, 0, 1, 1, 2, 2, 2, 2, 3, 3, 3, 3, 3, 3, 3, 3] @ LT 4 @ LT 5 @ LT 5 @ LT 6 @ LT 6 @ LT 6 @
     LT 6 @ LT 7 @ LT 7 @ LT 7 @ LT 7 @ LT 7 @ LT 7 @ LT 7 @ LT 7"

definition shmem_util_uintLog2 :: "u32 \<Rightarrow> u32" where
  "shmem_util_uintLog2 v =
     (let tt = drop_bit 16 v
      in if tt \<noteq> 0
         then let t = drop_bit 8 tt
              in if t \<noteq> 0 then word_of_int (24 + log_table_256 ! unat t)
                 else word_of_int (16 + log_table_256 ! unat tt)
         else let t = drop_bit 8 v
              in if t \<noteq> 0 then word_of_int (8 + log_table_256 ! unat t)
                 else word_of_int (log_table_256 ! unat v))"

section \<open>The logarithm\<close>

lemma log_table_entries: "\<forall>i \<in> set [1..<256]. log_table_256 ! i = int (floorlog 2 i) - 1"
  by code_simp

lemma log_table: "0 < i \<Longrightarrow> i < 256 \<Longrightarrow> log_table_256 ! i = int (floorlog 2 i) - 1"
  using log_table_entries by auto

lemma floorlog_shift: "n div 2 ^ k \<noteq> 0 \<Longrightarrow> floorlog 2 n = floorlog 2 (n div 2 ^ k) + k"
proof (induction k)
  case (Suc k)
  have d: "n div 2 ^ Suc k = (n div 2 ^ k) div 2" by (metis div_mult2_eq power_Suc2)
  then have "n div 2 ^ k \<noteq> 0" using Suc.prems by (metis div_0)
  then show ?case
    using Suc.IH compute_floorlog [of 2 "n div 2 ^ k"] Suc.prems d by simp
qed simp

lemma shmem_util_uintLog2_floorlog:
  assumes "v \<noteq> 0" shows "shmem_util_uintLog2 v = of_nat (floorlog 2 (unat v) - 1)"
proof -
  let ?n = "unat v"
  have pos: "0 < ?n" using assms by (simp add: unat_gt_0)
  have b: "?n < 4294967296" using unsigned_less [of v, where 'a = nat] by simp
  have e: "word_of_int (int k + (int (floorlog 2 (m div 2 ^ k)) - 1)) = (of_nat (floorlog 2 m - 1) :: u32)"
    if "m div 2 ^ k \<noteq> 0" for k m
  proof -
    have "0 < floorlog 2 (m div 2 ^ k)" using that compute_floorlog [of 2 "m div 2 ^ k"] by simp
    then have "int k + (int (floorlog 2 (m div 2 ^ k)) - 1) = int (floorlog 2 m - 1)"
      using floorlog_shift [OF that] by simp
    then show ?thesis by simp
  qed
  have u: "unat (drop_bit k v) = ?n div 2 ^ k" for k by (simp only: unsigned_drop_bit_eq) (use b in \<open>simp add: drop_bit_eq_div take_bit_nat_eq_self\<close>)
  have dd: "drop_bit 8 (drop_bit 16 v) = drop_bit 24 v" by simp
  have z: "drop_bit k v \<noteq> 0 \<longleftrightarrow> ?n div 2 ^ k \<noteq> 0" for k using u [of k] by (metis unsigned_0 unat_0_iff)
  show ?thesis
  proof (cases "?n div 2 ^ 16 = 0")
    case True
    then have s: "?n < 65536" by simp
    show ?thesis
    proof (cases "?n div 2 ^ 8 = 0")
      case c: True
      then have "?n < 256" by simp
      then show ?thesis using True c pos e [of ?n 0] z [of 16] z [of 8] log_table [of ?n]
        by (simp add: shmem_util_uintLog2_def)
    next
      case c: False
      have "?n div 2 ^ 8 < 256" using s by simp
      then show ?thesis using True c e [of ?n 8] z [of 16] z [of 8] log_table [of "?n div 2 ^ 8"]
        by (simp add: shmem_util_uintLog2_def u)
    qed
  next
    case False
    show ?thesis
    proof (cases "?n div 2 ^ 24 = 0")
      case c: True
      then have "?n div 2 ^ 16 < 256" by simp
      then show ?thesis using False c e [of ?n 16] z [of 16] z [of 24] log_table [of "?n div 2 ^ 16"]
        by (simp add: shmem_util_uintLog2_def u dd)
    next
      case c: False
      have "?n div 2 ^ 24 < 256" using b by simp
      then show ?thesis using False c e [of ?n 24] z [of 16] z [of 24] log_table [of "?n div 2 ^ 24"]
        by (simp add: shmem_util_uintLog2_def u dd)
    qed
  qed
qed

lemma floorlog_power2 [simp]: "floorlog 2 (2 ^ k) = Suc k"
proof -
  have "floorlog 2 1 = 1" by code_simp
  then show ?thesis using floorlog_power [of 1 2 k] by simp
qed

lemma unat_of_nat_small: "n < 2 ^ 32 \<Longrightarrow> unat (of_nat n :: u32) = n"
  by (simp add: unsigned_of_nat take_bit_nat_eq_self)

lemma unat_power_2: "k < 32 \<Longrightarrow> unat (2 ^ k :: u32) = 2 ^ k"
  using unat_of_nat_small [of "2 ^ k"] power_strict_increasing [of k 32 "2 :: nat"] by simp

lemma unat_push_bit_1: "k < 32 \<Longrightarrow> unat (push_bit k (1 :: u32)) = 2 ^ k"
  by (simp add: unat_power_2)

lemma unat_pow2k: "k < 32 \<Longrightarrow> unat (shmem_util_uintPow2k k) = 2 ^ k"
  by (simp add: shmem_util_uintPow2k_def unat_power_2)

lemma unat_log2_pow2k: "k < 32 \<Longrightarrow> unat v = 2 ^ k \<Longrightarrow> unat (shmem_util_uintLog2 v) = k"
  by (subst shmem_util_uintLog2_floorlog) (auto simp: unat_of_nat_small)

section \<open>Rounding up to a power of two\<close>

lemma bit_unat: "bit v i \<longleftrightarrow> odd (unat v div 2 ^ i)" for v :: u32
proof -
  have "bit v i \<longleftrightarrow> bit (unat v) i" by (simp add: bit_unsigned_iff)
  then show ?thesis by (simp only: bit_iff_odd [where 'a = nat])
qed

lemma takeWhile_top:
  "f \<le> n \<Longrightarrow> (\<And>i. f \<le> i \<Longrightarrow> P i) \<Longrightarrow> 0 < f \<Longrightarrow> \<not> P (f - 1) \<Longrightarrow> length (takeWhile P (rev [0..<n])) = n - f"
proof (induction n)
  case (Suc n)
  show ?case
  proof (cases "f = Suc n")
    case True then show ?thesis using Suc.prems by simp
  next
    case False then show ?thesis using Suc by (simp add: Suc_diff_le)
  qed
qed simp

lemma builtin_clz_floorlog:
  assumes "x \<noteq> 0" shows "builtin_clz x = 32 - floorlog 2 (unat x)"
proof -
  let ?n = "unat x" let ?f = "floorlog 2 ?n"
  have pos: "0 < ?n" using assms by (simp add: unat_gt_0)
  then have b: "2 ^ (?f - 1) \<le> ?n" "?n < 2 ^ ?f" using floorlog_bounds [of ?n 2] by simp_all
  have f: "0 < ?f" using pos compute_floorlog [of 2 ?n] by simp
  have "?f \<le> 32" using unsigned_less [of x, where 'a = nat] by (intro floorlog_leI) simp_all
  moreover have "\<not> bit x i" if "?f \<le> i" for i
  proof -
    have "?n < 2 ^ i" using b(2) that by (meson less_le_trans one_le_numeral power_increasing)
    then show ?thesis by (simp add: bit_unat)
  qed
  moreover have "?n div 2 ^ (?f - 1) = 1"
  proof -
    have "?n < 2 * 2 ^ (?f - 1)" using b(2) power_minus_mult [OF f, of "2 :: nat"] by (simp only: mult.commute)
    then show ?thesis using b(1) by (intro div_nat_eqI) simp_all
  qed
  then have "bit x (?f - 1)" by (simp add: bit_unat)
  ultimately show ?thesis unfolding builtin_clz_def using f by (intro takeWhile_top) auto
qed

lemma popcount_1: "builtin_popcount x = 1 \<longleftrightarrow> (\<exists>k < 32. unat x = 2 ^ k)"
proof
  assume "builtin_popcount x = 1"
  then obtain k where k: "filter (bit x) [0..<32] = [k]"
    unfolding builtin_popcount_def One_nat_def length_Suc_conv length_0_conv by blast
  have s: "{i. i < 32 \<and> bit x i} = set (filter (bit x) [0..<32])" by (simp only: set_filter set_upt) auto
  have s: "{i. i < 32 \<and> bit x i} = {k}" unfolding s k by simp
  have "bit x i \<longleftrightarrow> i = k" if "i < 32" for i using s that by blast
  then have "x = push_bit k 1"
    by (intro bit_word_eqI) (auto simp: bit_push_bit_iff bit_1_iff simp del: push_bit_of_1)
  moreover have "k < 32" using s by blast
  ultimately show "\<exists>k < 32. unat x = 2 ^ k" using unat_push_bit_1 by blast
next
  assume "\<exists>k < 32. unat x = 2 ^ k"
  then obtain k where k: "k < 32" "unat x = 2 ^ k" by blast
  then have "x = push_bit k 1" by (metis unat_push_bit_1 unsigned_word_eqI)
  then have "{i. i < 32 \<and> bit x i} = {k}" using k(1) by (auto simp: bit_push_bit_iff bit_1_iff simp del: push_bit_of_1)
  moreover have "set (filter (bit x) [0..<32]) = {i. i < 32 \<and> bit x i}" by (simp only: set_filter set_upt) auto
  then have "builtin_popcount x = card {i. i < 32 \<and> bit x i}"
    unfolding builtin_popcount_def by (metis distinct_card distinct_filter distinct_upt)
  ultimately show "builtin_popcount x = 1" by simp
qed

lemma shmem_util_roundUpPow2_spec:
  assumes "x \<noteq> 0" "unat x \<le> 2 ^ 31"
  obtains y k where "shmem_util_roundUpPow2 x = Some y" "k < 32" "unat y = 2 ^ k" "unat x \<le> 2 ^ k" "2 ^ k < 2 * unat x"
proof -
  let ?n = "unat x" let ?f = "floorlog 2 ?n"
  have pos: "0 < ?n" using assms by (simp add: unat_gt_0)
  then have b: "2 ^ (?f - 1) \<le> ?n" "?n < 2 ^ ?f" using floorlog_bounds [of ?n 2] by simp_all
  have f: "0 < ?f" using pos compute_floorlog [of 2 ?n] by simp
  have f32: "?f \<le> 32" using unsigned_less [of x, where 'a = nat] by (intro floorlog_leI) simp_all
  show ?thesis
  proof (cases "\<exists>k < 32. ?n = 2 ^ k")
    case True
    then obtain k where k: "k < 32" "?n = 2 ^ k" by blast
    then have "shmem_util_roundUpPow2 x = Some (push_bit k 1)"
      using popcount_1 [of x] assms(1) builtin_clz_floorlog [OF assms(1)]
      by (auto simp: shmem_util_roundUpPow2_def Let_def)
    then show ?thesis using k by (intro that [of "push_bit k 1" k]) (simp_all add: unat_power_2)
  next
    case False
    have "?f < 32"
    proof (rule ccontr)
      assume "\<not> ?f < 32"
      then have "?f = 32" using f32 by simp
      then have "2 ^ 31 \<le> ?n" using b(1) by simp
      then show False using assms(2) False [simplified, rule_format, of 31] by simp
    qed
    moreover have "shmem_util_roundUpPow2 x = Some (push_bit ?f 1)"
      using False popcount_1 [of x] assms(1) builtin_clz_floorlog [OF assms(1)] f calculation
      by (auto simp: shmem_util_roundUpPow2_def Let_def)
    moreover have "2 ^ ?f < 2 * ?n"
    proof -
      have "?n \<noteq> 2 ^ (?f - 1)" using False calculation(1) by (metis less_imp_diff_less)
      then have "2 ^ (?f - 1) < ?n" using b(1) by simp
      then have "2 * 2 ^ (?f - 1) < 2 * ?n" by simp
      then show ?thesis using power_minus_mult [OF f, of "2 :: nat"] by (simp only: mult.commute)
    qed
    ultimately show ?thesis using b(2) by (intro that [of "push_bit ?f 1" ?f]) (simp_all add: unat_power_2)
  qed
qed

section \<open>Correctness\<close>

lemma ceiling_log_power:
  assumes "0 < n" "n \<le> 2 ^ k" "2 ^ k < 2 * n" shows "nat \<lceil>log 2 (real n)\<rceil> = k"
proof -
  have "log 2 (real n) \<le> log 2 (2 ^ k)" using assms(1,2) by (subst log_le_cancel_iff) (simp_all flip: of_nat_le_iff)
  moreover have "log 2 (2 ^ k) < log 2 (2 * real n)"
  proof -
    have "(2 :: real) ^ k < 2 * real n" using assms(3) by (metis of_nat_less_iff of_nat_mult of_nat_numeral of_nat_power)
    then show ?thesis using assms(1) by (subst log_less_cancel_iff) simp_all
  qed
  moreover have "log 2 (2 ^ k) = real k" by (simp add: log_nat_power)
  moreover have "log 2 (2 * real n) = 1 + log 2 (real n)" using assms(1) by (simp add: log_mult)
  ultimately have "\<lceil>log 2 (real n)\<rceil> = int k" by (simp add: ceiling_eq_iff)
  then show ?thesis by simp
qed

text \<open>
  C37: the bit tricks of the shared memory utilities agree with the mathematical functions: the table
  lookup computes the binary logarithm, rounded down, of every positive 32-bit integer; rounding up gives, up to
  \<open>2\<^sup>3\<^sup>1\<close>, the power of two with the rounded-up logarithm, whose logarithm the table gives back.
\<close>

theorem shmem_util_logarithms:
  assumes "v \<noteq> 0"
  shows "int (unat (shmem_util_uintLog2 v)) = \<lfloor>log 2 (real (unat v))\<rfloor> \<and>
     (unat v \<le> 2 ^ 31 \<longrightarrow>
       (\<exists>y. shmem_util_roundUpPow2 v = Some y \<and> y = shmem_util_uintPow2k (nat \<lceil>log 2 (real (unat v))\<rceil>) \<and>
          v \<le> y \<and> unat (shmem_util_uintLog2 y) = nat \<lceil>log 2 (real (unat v))\<rceil>))"
proof
  have pos: "0 < unat v" using assms by (simp add: unat_gt_0)
  have "floorlog 2 (unat v) \<le> 32" using unsigned_less [of v, where 'a = nat] by (intro floorlog_leI) simp_all
  then have "unat (shmem_util_uintLog2 v) = floorlog 2 (unat v) - 1"
    using assms by (simp add: shmem_util_uintLog2_floorlog unat_of_nat_small)
  moreover have "0 \<le> \<lfloor>log 2 (real n)\<rfloor>" if "0 < n" for n :: nat using that by simp
  from this [OF pos] have "0 \<le> \<lfloor>log 2 (real (unat v))\<rfloor>" .
  ultimately show "int (unat (shmem_util_uintLog2 v)) = \<lfloor>log 2 (real (unat v))\<rfloor>"
    using pos by (simp add: floorlog_def)
  show "unat v \<le> 2 ^ 31 \<longrightarrow>
       (\<exists>y. shmem_util_roundUpPow2 v = Some y \<and> y = shmem_util_uintPow2k (nat \<lceil>log 2 (real (unat v))\<rceil>) \<and>
          v \<le> y \<and> unat (shmem_util_uintLog2 y) = nat \<lceil>log 2 (real (unat v))\<rceil>)"
  proof
    assume "unat v \<le> 2 ^ 31"
    with assms obtain y k where y: "shmem_util_roundUpPow2 v = Some y" "k < 32" "unat y = 2 ^ k" "unat v \<le> 2 ^ k"
      "2 ^ k < 2 * unat v" by (rule shmem_util_roundUpPow2_spec)
    moreover have "nat \<lceil>log 2 (real (unat v))\<rceil> = k" by (rule ceiling_log_power [OF pos y(4,5)])
    moreover have "y = shmem_util_uintPow2k k" using y(2,3) by (metis unat_pow2k unsigned_word_eqI)
    ultimately show "\<exists>y. shmem_util_roundUpPow2 v = Some y \<and>
        y = shmem_util_uintPow2k (nat \<lceil>log 2 (real (unat v))\<rceil>) \<and> v \<le> y \<and>
        unat (shmem_util_uintLog2 y) = nat \<lceil>log 2 (real (unat v))\<rceil>"
      by (intro exI [of _ y]) (simp add: word_le_nat_alt unat_log2_pow2k)
  qed
qed

theorem shmem_util_logarithms_witness:
  "int (unat (shmem_util_uintLog2 4095)) = \<lfloor>log 2 (4095 :: real)\<rfloor> \<and> shmem_util_uintLog2 4095 = 11 \<and>
   shmem_util_roundUpPow2 4095 = Some 4096"
proof -
  have "shmem_util_uintLog2 4095 = 11" "shmem_util_roundUpPow2 4095 = Some 4096" by code_simp+
  then show ?thesis using shmem_util_logarithms [of 4095] by simp
qed

end
