(* ===== verification/Buddy.thy ===== *)
theory Buddy
  imports Shmem_Util
begin

text \<open>
  \<^verbatim>\<open>shmem/buddy.h\<close> and \<^verbatim>\<open>shmem/buddy.c\<close>: the buddy allocator of the shared memory pools. A pointer into the
  pool is its offset from the start of the pool; \<^verbatim>\<open>NULL\<close> is \<open>None\<close>. The memory of the pool is a
  function from offsets to control blocks, one for each cell of eight bytes: the cells inside a block hold whatever its owner
  wrote there. A control block packs the order of its block, the tag of a free block and the distances to
  its neighbours in the free list into two 32-bit words. \<open>None\<close> as the result of an operation is a failed
  \<^verbatim>\<open>assert\<close> or undefined behaviour: an access outside the array of lists, a shift that is too
  wide, a pointer below the pool. This theory holds the model; the laws of the packed
  fields and of the sorted, doubly linked free lists are in \<open>Buddy_Lists\<close>, the correctness of the allocator in
  \<open>Buddy_Heap\<close>.
\<close>

section \<open>Control blocks\<close>

record bcb =
  bcb_nxt :: u32
  bcb_prv :: u32

definition SHD_BUDDY_ORDER_BITS :: nat where "SHD_BUDDY_ORDER_BITS = 5"
definition SHD_BUDDY_ORDER_MASK :: u32 where "SHD_BUDDY_ORDER_MASK = 134217727"
definition SHD_BUDDY_TAG_BITS :: nat where "SHD_BUDDY_TAG_BITS = 1"
definition SHD_BUDDY_TAG_MASK :: u32 where "SHD_BUDDY_TAG_MASK = 2147483647"
definition SHD_BUDDY_POOL_MAX_NBYTES :: u32 where "SHD_BUDDY_POOL_MAX_NBYTES = 134217728"
definition SHD_BUDDY_PART_MIN_NBYTES :: u32 where "SHD_BUDDY_PART_MIN_NBYTES = 16"
definition SHD_BUDDY_PART_MIN_ORDER :: u32 where "SHD_BUDDY_PART_MIN_ORDER = 4"
definition sizeof_BuddyControlBlock :: nat where "sizeof_BuddyControlBlock = 8"

definition buddycontrolblock_order :: "bcb \<Rightarrow> nat" where
  "buddycontrolblock_order b = unat (drop_bit (32 - SHD_BUDDY_ORDER_BITS) (bcb_nxt b))"

definition buddycontrolblock_setOrder :: "bcb \<Rightarrow> nat \<Rightarrow> bcb option" where
  "buddycontrolblock_setOrder b v = do {
     utility_assert (v < 32);
     Some (b\<lparr>bcb_nxt := bcb_nxt b AND SHD_BUDDY_ORDER_MASK OR
               push_bit (32 - SHD_BUDDY_ORDER_BITS) (of_nat v)\<rparr>)
   }"

definition buddycontrolblock_nxt :: "bcb \<Rightarrow> u32" where
  "buddycontrolblock_nxt b = bcb_nxt b AND SHD_BUDDY_ORDER_MASK"

definition buddycontrolblock_setNxt :: "bcb \<Rightarrow> u32 \<Rightarrow> bcb option" where
  "buddycontrolblock_setNxt b v = do {
     utility_assert (v \<le> SHD_BUDDY_ORDER_MASK);
     Some (b\<lparr>bcb_nxt := bcb_nxt b AND NOT SHD_BUDDY_ORDER_MASK OR v\<rparr>)
   }"

definition buddycontrolblock_tag :: "bcb \<Rightarrow> bool" where
  "buddycontrolblock_tag b \<longleftrightarrow> drop_bit (32 - SHD_BUDDY_TAG_BITS) (bcb_prv b) \<noteq> 0"

definition buddycontrolblock_setTag :: "bcb \<Rightarrow> bool \<Rightarrow> bcb" where
  "buddycontrolblock_setTag b v =
     b\<lparr>bcb_prv := bcb_prv b AND SHD_BUDDY_TAG_MASK OR push_bit (32 - SHD_BUDDY_TAG_BITS) (of_bool v)\<rparr>"

definition buddycontrolblock_prv :: "bcb \<Rightarrow> u32" where
  "buddycontrolblock_prv b = bcb_prv b AND SHD_BUDDY_TAG_MASK"

definition buddycontrolblock_setPrv :: "bcb \<Rightarrow> u32 \<Rightarrow> bcb option" where
  "buddycontrolblock_setPrv b v = do {
     utility_assert (v \<le> SHD_BUDDY_TAG_MASK);
     Some (b\<lparr>bcb_prv := bcb_prv b AND NOT SHD_BUDDY_TAG_MASK OR v\<rparr>)
   }"

section \<open>Links between blocks\<close>

type_synonym pool_mem = "nat \<Rightarrow> bcb"

definition buddycontrolblock_nxtBlock :: "pool_mem \<Rightarrow> nat \<Rightarrow> nat option" where
  "buddycontrolblock_nxtBlock mem p =
     (let nxt = buddycontrolblock_nxt (mem p) in if nxt = 0 then None else Some (p + unat nxt))"

definition buddycontrolblock_setNxtBlock :: "pool_mem \<Rightarrow> nat \<Rightarrow> nat option \<Rightarrow> pool_mem option" where
  "buddycontrolblock_setNxtBlock mem p nxt = do {
     offset \<leftarrow> (case nxt of None \<Rightarrow> Some 0 | Some q \<Rightarrow> do { utility_assert (p \<le> q); Some (of_nat (q - p)) });
     b \<leftarrow> buddycontrolblock_setNxt (mem p) offset;
     Some (mem(p := b))
   }"

definition buddycontrolblock_prvBlock :: "pool_mem \<Rightarrow> nat \<Rightarrow> nat option option" where
  "buddycontrolblock_prvBlock mem p =
     (let prv = buddycontrolblock_prv (mem p)
      in if prv = 0 then Some None
         else if unat prv \<le> p then Some (Some (p - unat prv)) else None)"

definition buddycontrolblock_setPrvBlock :: "pool_mem \<Rightarrow> nat \<Rightarrow> nat option \<Rightarrow> pool_mem option" where
  "buddycontrolblock_setPrvBlock mem p prv = do {
     offset \<leftarrow> (case prv of None \<Rightarrow> Some 0 | Some q \<Rightarrow> do { utility_assert (q \<le> p); Some (of_nat (p - q)) });
     b \<leftarrow> buddycontrolblock_setPrv (mem p) offset;
     Some (mem(p := b))
   }"

definition buddy_retreiveBCB :: "nat \<Rightarrow> nat" where
  "buddy_retreiveBCB p = p - sizeof_BuddyControlBlock"

definition buddycontrolblock_computeBuddy :: "nat \<Rightarrow> nat \<Rightarrow> nat" where
  "buddycontrolblock_computeBuddy bcb order = bcb XOR unat (shmem_util_uintPow2k order)"

section \<open>The pool and its lists\<close>

definition buddy_poolMaxOrder :: "u32 \<Rightarrow> nat" where
  "buddy_poolMaxOrder pool_nbytes = unat (shmem_util_uintLog2 pool_nbytes)"

text \<open>The index of the list of an order: a subtraction of unsigned integers, which wraps.\<close>

definition buddy_listIdx :: "nat \<Rightarrow> nat" where
  "buddy_listIdx order = unat (of_nat order - SHD_BUDDY_PART_MIN_ORDER)"

definition buddy_metaNumLists :: "u32 \<Rightarrow> nat" where
  "buddy_metaNumLists pool_nbytes = unat (shmem_util_uintLog2 pool_nbytes - SHD_BUDDY_PART_MIN_ORDER + 1)"

definition buddy_goodPoolSizeNBytes :: "u32 \<Rightarrow> u32 option" where
  "buddy_goodPoolSizeNBytes requested_nbytes =
     (if requested_nbytes > SHD_BUDDY_POOL_MAX_NBYTES then Some 0
      else if requested_nbytes < SHD_BUDDY_PART_MIN_NBYTES then Some SHD_BUDDY_PART_MIN_NBYTES
      else shmem_util_roundUpPow2 requested_nbytes)"

definition buddy_metaSizeNBytes :: "u32 \<Rightarrow> nat" where
  "buddy_metaSizeNBytes pool_nbytes = buddy_metaNumLists pool_nbytes * 8"

definition buddy_poolInit :: "pool_mem \<Rightarrow> u32 \<Rightarrow> pool_mem option" where
  "buddy_poolInit mem pool_nbytes = do {
     b1 \<leftarrow> buddycontrolblock_setNxt (mem 0) 0;
     b2 \<leftarrow> buddycontrolblock_setPrv b1 0;
     b3 \<leftarrow> buddycontrolblock_setOrder (buddycontrolblock_setTag b2 True) (buddy_poolMaxOrder pool_nbytes);
     Some (mem(0 := b3))
   }"

definition buddy_metaInit :: "u32 \<Rightarrow> nat option list" where
  "buddy_metaInit pool_nbytes =
     (let nbcbs = buddy_metaNumLists pool_nbytes in (replicate nbcbs None)[nbcbs - 1 := Some 0])"

subsection \<open>Insertion into a list\<close>

text \<open>The links point upwards, so the scan of a list ends whatever the memory holds.\<close>

lemma nxtBlock_greater: "buddycontrolblock_nxtBlock mem p = Some q \<Longrightarrow> p < q"
  by (auto simp: buddycontrolblock_nxtBlock_def Let_def unat_gt_0 split: if_splits)

function buddy_insert_scan ::
    "pool_mem \<Rightarrow> nat option \<Rightarrow> nat option \<Rightarrow> nat \<Rightarrow> (nat option \<times> nat option) option" where
  "buddy_insert_scan mem prv nxt bcb =
     (case nxt of
        None \<Rightarrow> Some (prv, nxt)
      | Some n \<Rightarrow>
          if n < bcb
          then (case prv of
                  None \<Rightarrow> None
                | Some p \<Rightarrow> buddy_insert_scan mem (buddycontrolblock_nxtBlock mem p)
                              (buddycontrolblock_nxtBlock mem n) bcb)
          else Some (prv, nxt))"
  by pat_completeness auto
termination
  by (relation "measure (\<lambda>(mem, prv, nxt, bcb). case nxt of None \<Rightarrow> 0 | Some n \<Rightarrow> Suc (bcb - n))")
    (auto dest!: nxtBlock_greater split: option.splits)

declare buddy_insert_scan.simps [simp del]

definition buddy_listInsert :: "pool_mem \<Rightarrow> nat option \<Rightarrow> nat \<Rightarrow> (pool_mem \<times> nat option) option" where
  "buddy_listInsert mem list_head bcb =
     (case list_head of
        None \<Rightarrow> do {
          b1 \<leftarrow> buddycontrolblock_setNxt (mem bcb) 0;
          b2 \<leftarrow> buddycontrolblock_setPrv b1 0;
          Some (mem(bcb := b2), Some bcb)
        }
      | Some prv \<Rightarrow>
          let nxt = buddycontrolblock_nxtBlock mem prv
          in if bcb < prv
             then do {
               b \<leftarrow> buddycontrolblock_setPrv (mem bcb) 0;
               mem1 \<leftarrow> buddycontrolblock_setNxtBlock (mem(bcb := b)) bcb (Some prv);
               mem2 \<leftarrow> buddycontrolblock_setPrvBlock mem1 prv (Some bcb);
               Some (mem2, Some bcb)
             }
             else do {
               (prv', nxt') \<leftarrow> buddy_insert_scan mem (Some prv) nxt bcb;
               p \<leftarrow> prv';
               utility_assert (p < bcb);
               utility_assert (case nxt' of None \<Rightarrow> True | Some n \<Rightarrow> bcb < n);
               mem1 \<leftarrow> buddycontrolblock_setNxtBlock mem p (Some bcb);
               mem2 \<leftarrow> buddycontrolblock_setPrvBlock mem1 bcb (Some p);
               mem3 \<leftarrow> buddycontrolblock_setNxtBlock mem2 bcb nxt';
               mem4 \<leftarrow> (case nxt' of None \<Rightarrow> Some mem3
                         | Some n \<Rightarrow> buddycontrolblock_setPrvBlock mem3 n (Some bcb));
               Some (mem4, list_head)
             })"

subsection \<open>Removal from a list\<close>

definition buddy_assert_listed :: "pool_mem \<Rightarrow> nat \<Rightarrow> nat \<Rightarrow> unit option" where
  "buddy_assert_listed mem order p = do {
     utility_assert (order = buddycontrolblock_order (mem p));
     utility_assert (buddycontrolblock_tag (mem p))
   }"

definition buddy_listRemove :: "pool_mem \<Rightarrow> nat option \<Rightarrow> nat \<Rightarrow> (pool_mem \<times> nat option) option" where
  "buddy_listRemove mem list_head bcb =
     (let order = buddycontrolblock_order (mem bcb);
          nxt = buddycontrolblock_nxtBlock mem bcb
      in if list_head = Some bcb
         then (case nxt of
                 None \<Rightarrow> Some (mem, nxt)
               | Some n \<Rightarrow> do {
                   buddy_assert_listed mem order n;
                   mem1 \<leftarrow> buddycontrolblock_setPrvBlock mem n None;
                   Some (mem1, nxt)
                 })
         else do {
           prv \<leftarrow> buddycontrolblock_prvBlock mem bcb;
           p \<leftarrow> prv;
           buddy_assert_listed mem order p;
           mem1 \<leftarrow> buddycontrolblock_setNxtBlock mem p nxt;
           mem2 \<leftarrow> (case nxt of
                      None \<Rightarrow> Some mem1
                    | Some n \<Rightarrow> do {
                        buddy_assert_listed mem1 order n;
                        buddycontrolblock_setPrvBlock mem1 n (Some p)
                      });
           Some (mem2, list_head)
         })"

section \<open>Allocation\<close>

type_synonym buddy_state = "pool_mem \<times> nat option list"

definition buddy_listAt :: "nat option list \<Rightarrow> nat \<Rightarrow> nat option option" where
  "buddy_listAt bcbs idx = (if idx < length bcbs then Some (bcbs ! idx) else None)"

fun buddy_alloc_split_blocks :: "buddy_state \<Rightarrow> nat \<Rightarrow> nat \<Rightarrow> nat \<Rightarrow> buddy_state option" where
  "buddy_alloc_split_blocks (mem, bcbs) bcb k j =
     (if k < j
      then do {
        let j' = j - 1;
        let split = bcb + unat (shmem_util_uintPow2k j');
        b \<leftarrow> buddycontrolblock_setOrder (buddycontrolblock_setTag (mem split) True) j';
        let idx = buddy_listIdx j';
        list \<leftarrow> buddy_listAt bcbs idx;
        (mem1, list1) \<leftarrow> buddy_listInsert (mem(split := b)) list split;
        buddy_alloc_split_blocks (mem1, bcbs[idx := list1]) bcb k (j - 1)
      }
      else Some (mem, bcbs))"

declare buddy_alloc_split_blocks.simps [simp del]

function buddy_find_avail :: "nat option list \<Rightarrow> nat \<Rightarrow> nat \<Rightarrow> nat" where
  "buddy_find_avail bcbs nbcbs idx =
     (if idx < nbcbs \<and> bcbs ! idx = None then buddy_find_avail bcbs nbcbs (idx + 1) else idx)"
  by pat_completeness auto
termination by (relation "measure (\<lambda>(bcbs, nbcbs, idx). nbcbs - idx)") auto

declare buddy_find_avail.simps [simp del]

definition buddy_alloc :: "u64 \<Rightarrow> buddy_state \<Rightarrow> u32 \<Rightarrow> (nat option \<times> buddy_state) option" where
  "buddy_alloc requested_nbytes st pool_nbytes =
     (if requested_nbytes = 0 then Some (None, st)
      else do {
        let nbcbs = buddy_metaNumLists pool_nbytes;
        alloc_nbytes \<leftarrow> shmem_util_roundUpPow2
          (ucast (requested_nbytes + of_nat sizeof_BuddyControlBlock));
        let k = unat (shmem_util_uintLog2 alloc_nbytes);
        let idx = buddy_find_avail (snd st) nbcbs (buddy_listIdx k);
        if idx = nbcbs then Some (None, st)
        else do {
          avail \<leftarrow> buddy_listAt (snd st) idx;
          ret \<leftarrow> avail;
          (mem1, bcbs1) \<leftarrow> buddy_alloc_split_blocks st ret k (idx + unat SHD_BUDDY_PART_MIN_ORDER);
          list \<leftarrow> buddy_listAt bcbs1 idx;
          (mem2, list2) \<leftarrow> buddy_listRemove mem1 list ret;
          b \<leftarrow> buddycontrolblock_setOrder (buddycontrolblock_setTag (mem2 ret) False) k;
          Some (Some (ret + sizeof_BuddyControlBlock), (mem2(ret := b), bcbs1[idx := list2]))
        }
      })"

section \<open>Release\<close>

definition buddycontrolblock_buddy_available :: "bcb \<Rightarrow> nat \<Rightarrow> bool" where
  "buddycontrolblock_buddy_available buddy order \<longleftrightarrow>
     \<not> (\<not> buddycontrolblock_tag buddy \<or> buddycontrolblock_order buddy \<noteq> order)"

function buddy_merge :: "buddy_state \<Rightarrow> nat \<Rightarrow> nat \<Rightarrow> nat \<Rightarrow> (buddy_state \<times> nat \<times> nat) option" where
  "buddy_merge (mem, bcbs) bcb bcb_order max_order =
     (let buddy = buddycontrolblock_computeBuddy bcb bcb_order
      in if bcb_order < max_order \<and> buddycontrolblock_buddy_available (mem buddy) bcb_order
         then do {
           let idx = buddy_listIdx bcb_order;
           list \<leftarrow> buddy_listAt bcbs idx;
           (mem1, list1) \<leftarrow> buddy_listRemove mem list buddy;
           let bcb' = (if bcb < buddy then bcb else buddy);
           b \<leftarrow> buddycontrolblock_setOrder (mem1 bcb') (bcb_order + 1);
           buddy_merge (mem1(bcb' := b), bcbs[idx := list1]) bcb' (bcb_order + 1) max_order
         }
         else Some ((mem, bcbs), bcb, bcb_order))"
  by pat_completeness auto
termination by (relation "measure (\<lambda>(st, bcb, bcb_order, max_order). max_order - bcb_order)") auto

declare buddy_merge.simps [simp del]

definition buddy_free :: "nat option \<Rightarrow> buddy_state \<Rightarrow> u32 \<Rightarrow> buddy_state option" where
  "buddy_free p st pool_nbytes =
     (case p of
        None \<Rightarrow> Some st
      | Some q \<Rightarrow> do {
          let bcb = buddy_retreiveBCB q;
          ((mem, bcbs), bcb', order) \<leftarrow>
            buddy_merge st bcb (buddycontrolblock_order (fst st bcb)) (buddy_poolMaxOrder pool_nbytes);
          let mem1 = mem(bcb' := buddycontrolblock_setTag (mem bcb') True);
          let idx = buddy_listIdx order;
          list \<leftarrow> buddy_listAt bcbs idx;
          (mem2, list2) \<leftarrow> buddy_listInsert mem1 list bcb';
          Some (mem2, bcbs[idx := list2])
        })"

end
