(* ===== verification/Buddy_Lists.thy ===== *)
theory Buddy_Lists
  imports Buddy
begin

text \<open>
  The packed fields of a control block behave as four separate fields, and the free lists of the buddy allocator are
  doubly linked lists sorted by address: inserting and removing a block changes the list as a set, and nothing else.
\<close>

section \<open>Laws of the packed fields\<close>

lemma order_mask: "SHD_BUDDY_ORDER_MASK = mask 27" "SHD_BUDDY_TAG_MASK = mask 31"
  by (simp_all add: SHD_BUDDY_ORDER_MASK_def SHD_BUDDY_TAG_MASK_def mask_eq_exp_minus_1)

lemma small_no_bit: "unat (v :: u32) < 2 ^ n \<Longrightarrow> n \<le> i \<Longrightarrow> \<not> bit v i"
proof -
  assume "unat v < 2 ^ n" "n \<le> i"
  then have "unat v < 2 ^ i" by (meson less_le_trans one_le_numeral power_increasing)
  then show ?thesis by (simp add: bit_unat)
qed

lemma split_low: "((w :: u32) AND mask n OR push_bit n v) AND mask n = w AND mask n"
  by (rule bit_word_eqI) (auto simp: bit_simps)

lemma split_low': "unat v < 2 ^ n \<Longrightarrow> ((w :: u32) AND NOT (mask n) OR v) AND mask n = v"
  by (rule bit_word_eqI) (auto simp: bit_simps dest: small_no_bit [where n = n] leI)

lemma split_high':
  assumes "unat v < 2 ^ n" shows "drop_bit n ((w :: u32) AND NOT (mask n) OR v) = drop_bit n w"
proof (rule bit_word_eqI)
  fix i
  have "\<not> bit v (n + i)" using small_no_bit [OF assms] by simp
  then show "bit (drop_bit n (w AND NOT (mask n) OR v)) i \<longleftrightarrow> bit (drop_bit n w) i"
    using bit_imp_le_length [of w "n + i"] by (auto simp: bit_simps)
qed

lemma split_high:
  assumes "unat v < 2 ^ (32 - n)" shows "drop_bit n ((w :: u32) AND mask n OR push_bit n v) = v"
proof (rule bit_word_eqI)
  fix i
  have "bit v i \<Longrightarrow> n + i < 32" using small_no_bit [OF assms, of i] by (metis add.commute le_diff_conv not_le)
  then show "bit (drop_bit n (w AND mask n OR push_bit n v)) i \<longleftrightarrow> bit v i" by (auto simp: bit_simps)
qed

text \<open>The four packed fields behave as separate fields.\<close>

lemma setOrder_fields:
  assumes "v < 32"
  shows "\<exists>b'. buddycontrolblock_setOrder b v = Some b' \<and> buddycontrolblock_order b' = v \<and>
    buddycontrolblock_nxt b' = buddycontrolblock_nxt b \<and> bcb_prv b' = bcb_prv b"
proof -
  have "unat (of_nat v :: u32) < 2 ^ (32 - 27)"
    using assms by (simp add: unat_of_nat_small)
  from split_high [OF this] show ?thesis using assms
    by (simp add: buddycontrolblock_setOrder_def buddycontrolblock_order_def
        buddycontrolblock_nxt_def order_mask SHD_BUDDY_ORDER_BITS_def split_low unat_of_nat_small del: drop_bit_and drop_bit_or)
qed

lemma setNxt_fields:
  assumes "unat v < 2 ^ 27"
  shows "\<exists>b'. buddycontrolblock_setNxt b v = Some b' \<and> buddycontrolblock_nxt b' = v \<and>
    buddycontrolblock_order b' = buddycontrolblock_order b \<and> bcb_prv b' = bcb_prv b"
proof -
  have "v \<le> mask 27" using assms by (simp add: word_le_nat_alt mask_eq_exp_minus_1)
  then show ?thesis using assms
    by (simp add: buddycontrolblock_setNxt_def buddycontrolblock_order_def
        buddycontrolblock_nxt_def order_mask SHD_BUDDY_ORDER_BITS_def split_low' split_high' del: drop_bit_and drop_bit_or)
qed

lemma setPrv_fields:
  assumes "unat v < 2 ^ 27"
  shows "\<exists>b'. buddycontrolblock_setPrv b v = Some b' \<and> buddycontrolblock_prv b' = v \<and>
    buddycontrolblock_tag b' = buddycontrolblock_tag b \<and> bcb_nxt b' = bcb_nxt b"
proof -
  have "v \<le> mask 31" "unat v < 2 ^ 31" using assms by (simp_all add: word_le_nat_alt mask_eq_exp_minus_1)
  then show ?thesis
    by (simp add: buddycontrolblock_setPrv_def buddycontrolblock_tag_def
        buddycontrolblock_prv_def order_mask SHD_BUDDY_TAG_BITS_def split_low' split_high' del: drop_bit_and drop_bit_or)
qed

lemma setTag_fields [simp]:
  "buddycontrolblock_tag (buddycontrolblock_setTag b v) = v"
  "buddycontrolblock_prv (buddycontrolblock_setTag b v) = buddycontrolblock_prv b"
  "bcb_nxt (buddycontrolblock_setTag b v) = bcb_nxt b"
proof -
  have "unat (of_bool v :: u32) < 2 ^ (32 - 31)" by (cases v) simp_all
  from split_high [OF this] show "buddycontrolblock_tag (buddycontrolblock_setTag b v) = v"
    by (simp add: buddycontrolblock_setTag_def buddycontrolblock_tag_def order_mask SHD_BUDDY_TAG_BITS_def del: drop_bit_and drop_bit_or)
qed (simp_all add: buddycontrolblock_setTag_def buddycontrolblock_prv_def order_mask SHD_BUDDY_TAG_BITS_def split_low)

section \<open>Laws of the links\<close>

text \<open>What the links leave alone: the order and the tag of a control block.\<close>

definition bcb_head :: "bcb \<Rightarrow> nat \<times> bool" where
  "bcb_head b = (buddycontrolblock_order b, buddycontrolblock_tag b)"

abbreviation nb :: "pool_mem \<Rightarrow> nat \<Rightarrow> nat option" where "nb \<equiv> buddycontrolblock_nxtBlock"
abbreviation pb :: "pool_mem \<Rightarrow> nat \<Rightarrow> nat option option" where "pb \<equiv> buddycontrolblock_prvBlock"

lemma nb_upd: "nb (mem(p := b)) = (nb mem)(p := nb (\<lambda>_. b) p)"
  by (auto simp: buddycontrolblock_nxtBlock_def fun_eq_iff)

lemma pb_upd: "pb (mem(p := b)) = (pb mem)(p := pb (\<lambda>_. b) p)"
  by (auto simp: buddycontrolblock_prvBlock_def fun_eq_iff)

lemma nb_cong: "mem' x = mem x \<Longrightarrow> nb mem' x = nb mem x"
  by (simp add: buddycontrolblock_nxtBlock_def)

lemma pb_cong: "mem' x = mem x \<Longrightarrow> pb mem' x = pb mem x"
  by (simp add: buddycontrolblock_prvBlock_def)

lemma unat_of_nat_pos: "0 < d \<Longrightarrow> d < 2 ^ 27 \<Longrightarrow> unat (of_nat d :: u32) = d \<and> (of_nat d :: u32) \<noteq> 0"
proof -
  assume d: "0 < d" "d < 2 ^ 27"
  then have "unat (of_nat d :: u32) = d" by (intro unat_of_nat_small) simp
  then show ?thesis using d(1) by (metis less_irrefl unsigned_0)
qed

lemma setNxtBlock_ok:
  assumes "\<And>q. nxt = Some q \<Longrightarrow> p < q \<and> q < 2 ^ 27"
  obtains mem' where "buddycontrolblock_setNxtBlock mem p nxt = Some mem'" "nb mem' = (nb mem)(p := nxt)"
    "pb mem' = pb mem" "bcb_head \<circ> mem' = bcb_head \<circ> mem" "\<And>x. x \<noteq> p \<Longrightarrow> mem' x = mem x"
proof -
  define off :: u32 where "off = (case nxt of None \<Rightarrow> 0 | Some q \<Rightarrow> of_nat (q - p))"
  have off: "unat off < 2 ^ 27 \<and> nxt = (if off = 0 then None else Some (p + unat off))"
  proof (cases nxt)
    case (Some q)
    then have pq: "p < q" "q < 2 ^ 27" using assms by blast+
    then have "0 < q - p" "q - p < 2 ^ 27" by simp_all
    from unat_of_nat_pos [OF this] have "unat off = q - p" "off \<noteq> 0" unfolding off_def Some by simp_all
    then show ?thesis using Some pq by simp
  qed (simp add: off_def)
  from setNxt_fields [OF off [THEN conjunct1]] obtain b where b: "buddycontrolblock_setNxt (mem p) off = Some b"
    "buddycontrolblock_nxt b = off" "buddycontrolblock_order b = buddycontrolblock_order (mem p)" "bcb_prv b = bcb_prv (mem p)"
    by blast
  have "buddycontrolblock_setNxtBlock mem p nxt = Some (mem(p := b))"
    using assms b(1) by (auto simp: buddycontrolblock_setNxtBlock_def off_def less_imp_le split: option.splits)
  moreover have "nb (mem(p := b)) = (nb mem)(p := nxt)"
    using off by (simp add: nb_upd buddycontrolblock_nxtBlock_def b Let_def)
  moreover have "pb (mem(p := b)) = pb mem"
    by (auto simp: fun_eq_iff buddycontrolblock_prvBlock_def buddycontrolblock_prv_def b Let_def)
  moreover have "bcb_head \<circ> mem(p := b) = bcb_head \<circ> mem"
    by (auto simp: fun_eq_iff bcb_head_def buddycontrolblock_tag_def b)
  ultimately show ?thesis by (rule that) simp
qed

lemma setPrvBlock_ok:
  assumes "\<And>q. prv = Some q \<Longrightarrow> q < p" "p < 2 ^ 27"
  obtains mem' where "buddycontrolblock_setPrvBlock mem p prv = Some mem'" "pb mem' = (pb mem)(p := Some prv)"
    "nb mem' = nb mem" "bcb_head \<circ> mem' = bcb_head \<circ> mem" "\<And>x. x \<noteq> p \<Longrightarrow> mem' x = mem x"
proof -
  define off :: u32 where "off = (case prv of None \<Rightarrow> 0 | Some q \<Rightarrow> of_nat (p - q))"
  have off: "unat off < 2 ^ 27 \<and> prv = (if off = 0 then None else Some (p - unat off)) \<and> unat off \<le> p"
  proof (cases prv)
    case (Some q)
    then have pq: "q < p" using assms by blast
    then have "0 < p - q" "p - q < 2 ^ 27" using assms(2) by simp_all
    from unat_of_nat_pos [OF this] have "unat off = p - q" "off \<noteq> 0" unfolding off_def Some by simp_all
    then show ?thesis using Some pq assms(2) by simp
  qed (simp add: off_def)
  from setPrv_fields [OF off [THEN conjunct1]] obtain b where b: "buddycontrolblock_setPrv (mem p) off = Some b"
    "buddycontrolblock_prv b = off" "buddycontrolblock_tag b = buddycontrolblock_tag (mem p)" "bcb_nxt b = bcb_nxt (mem p)"
    by blast
  have "buddycontrolblock_setPrvBlock mem p prv = Some (mem(p := b))"
    using assms b(1) by (auto simp: buddycontrolblock_setPrvBlock_def off_def less_imp_le split: option.splits)
  moreover have "pb (mem(p := b)) = (pb mem)(p := Some prv)"
    using off by (simp add: pb_upd buddycontrolblock_prvBlock_def b Let_def)
  moreover have "nb (mem(p := b)) = nb mem"
    by (auto simp: fun_eq_iff buddycontrolblock_nxtBlock_def buddycontrolblock_nxt_def b Let_def)
  moreover have "bcb_head \<circ> mem(p := b) = bcb_head \<circ> mem"
    by (auto simp: fun_eq_iff bcb_head_def buddycontrolblock_order_def b)
  ultimately show ?thesis by (rule that) simp
qed

section \<open>Sorted, doubly linked lists\<close>

definition next_in :: "nat set \<Rightarrow> nat \<Rightarrow> nat option \<Rightarrow> bool" where
  "next_in S x n \<longleftrightarrow> (case n of None \<Rightarrow> \<forall>z \<in> S. z \<le> x | Some y \<Rightarrow> y \<in> S \<and> x < y \<and> (\<forall>z \<in> S. z \<le> x \<or> y \<le> z))"

definition prev_in :: "nat set \<Rightarrow> nat \<Rightarrow> nat option \<Rightarrow> bool" where
  "prev_in S x p \<longleftrightarrow> (case p of None \<Rightarrow> \<forall>z \<in> S. x \<le> z | Some y \<Rightarrow> y \<in> S \<and> y < x \<and> (\<forall>z \<in> S. x \<le> z \<or> z \<le> y))"

definition first_in :: "nat set \<Rightarrow> nat option \<Rightarrow> bool" where
  "first_in S h \<longleftrightarrow> (case h of None \<Rightarrow> S = {} | Some y \<Rightarrow> y \<in> S \<and> (\<forall>z \<in> S. y \<le> z))"

text \<open>The blocks of the set \<open>S\<close> are linked in the order of their addresses; \<open>h\<close> is the first.\<close>

definition dll :: "pool_mem \<Rightarrow> nat set \<Rightarrow> nat option \<Rightarrow> bool" where
  "dll mem S h \<longleftrightarrow> first_in S h \<and> S \<subseteq> {..<2 ^ 27} \<and>
     (\<forall>x \<in> S. next_in S x (nb mem x) \<and> (\<exists>q. pb mem x = Some q \<and> prev_in S x q))"

lemma dllD:
  assumes "dll mem S h"
  shows "first_in S h" "S \<subseteq> {..<2 ^ 27}" "x \<in> S \<Longrightarrow> next_in S x (nb mem x)"
    "x \<in> S \<Longrightarrow> \<exists>q. pb mem x = Some q \<and> prev_in S x q"
  using assms unfolding dll_def by blast+

lemma dll_cong: "dll mem S h \<Longrightarrow> (\<And>x. x \<in> S \<Longrightarrow> mem' x = mem x) \<Longrightarrow> dll mem' S h"
  unfolding dll_def using nb_cong [of mem' _ mem] pb_cong [of mem' _ mem] by metis

lemma dll_empty: "dll mem {} None"
  by (simp add: dll_def first_in_def)

lemma scan_ok:
  assumes "dll mem S h" "p \<in> S" "p < a" "a \<notin> S"
  obtains q n where "buddy_insert_scan mem (Some p) (nb mem p) a = Some (Some q, n)" "q \<in> S" "q < a"
    "nb mem q = n" "\<And>y. n = Some y \<Longrightarrow> a < y"
  using assms(2,3)
proof (induction "a - p" arbitrary: p thesis rule: less_induct)
  case less
  show ?case
  proof (cases "nb mem p")
    case None
    then show ?thesis using less.prems by (simp add: buddy_insert_scan.simps)
  next
    case (Some n)
    then have n: "n \<in> S" "p < n" using dllD(3) [OF assms(1) less.prems(2)] by (auto simp: next_in_def)
    show ?thesis
    proof (cases "n < a")
      case True
      have "a - n < a - p" using n True by simp
      from less.hyps [OF this _ n(1) True] obtain q m where
        "buddy_insert_scan mem (Some n) (nb mem n) a = Some (Some q, m)" "q \<in> S" "q < a" "nb mem q = m" "\<And>y. m = Some y \<Longrightarrow> a < y"
        by blast
      moreover have "buddy_insert_scan mem (Some p) (nb mem p) a = buddy_insert_scan mem (Some n) (nb mem n) a"
        using Some True by (subst buddy_insert_scan.simps) simp
      ultimately show ?thesis using less.prems(1) by metis
    next
      case False
      then have "a < n" using n(1) assms(4) by (metis linorder_neqE_nat)
      then show ?thesis using less.prems Some by (simp add: buddy_insert_scan.simps)
    qed
  qed
qed

lemma next_in_insert:
  "next_in S x n \<Longrightarrow> a \<le> x \<or> (\<exists>y. n = Some y \<and> y \<le> a) \<Longrightarrow> next_in (insert a S) x n"
  by (auto simp: next_in_def split: option.splits)

lemma prev_in_insert:
  "prev_in S x p \<Longrightarrow> x \<le> a \<or> (\<exists>y. p = Some y \<and> a \<le> y) \<Longrightarrow> prev_in (insert a S) x p"
  by (auto simp: prev_in_def split: option.splits)

lemma setNxt_0: "buddycontrolblock_setNxt (mem p) 0 \<bind> (\<lambda>b. f (mem(p := b))) = buddycontrolblock_setNxtBlock mem p None \<bind> f"
  by (simp add: buddycontrolblock_setNxtBlock_def)

lemma setPrv_0: "buddycontrolblock_setPrv (mem p) 0 \<bind> (\<lambda>b. f (mem(p := b))) = buddycontrolblock_setPrvBlock mem p None \<bind> f"
  by (simp add: buddycontrolblock_setPrvBlock_def)

lemma dll_insert_only:
  assumes "a < 2 ^ 27"
  obtains mem' where "buddy_listInsert mem None a = Some (mem', Some a)" "dll mem' {a} (Some a)"
    "bcb_head \<circ> mem' = bcb_head \<circ> mem" "\<And>x. x \<noteq> a \<Longrightarrow> mem' x = mem x"
proof -
  obtain m1 where m1: "buddycontrolblock_setNxtBlock mem a None = Some m1" "nb m1 = (nb mem)(a := None)"
    "pb m1 = pb mem" "bcb_head \<circ> m1 = bcb_head \<circ> mem" "\<And>x. x \<noteq> a \<Longrightarrow> m1 x = mem x"
    by (rule setNxtBlock_ok [of None a mem]) simp_all
  obtain m2 where m2: "buddycontrolblock_setPrvBlock m1 a None = Some m2" "pb m2 = (pb m1)(a := Some None)"
    "nb m2 = nb m1" "bcb_head \<circ> m2 = bcb_head \<circ> m1" "\<And>x. x \<noteq> a \<Longrightarrow> m2 x = m1 x"
    by (rule setPrvBlock_ok [of None a m1]) (use assms in simp_all)
  have "buddy_listInsert mem None a =
      buddycontrolblock_setNxt (mem a) 0 \<bind> (\<lambda>b1. buddycontrolblock_setPrv ((mem(a := b1)) a) 0 \<bind>
        (\<lambda>b2. Some ((mem(a := b1))(a := b2), Some a)))"
    by (simp add: buddy_listInsert_def)
  also have "\<dots> = Some (m2, Some a)"
    by (simp only: setPrv_0 [where f = "\<lambda>m. Some (m, Some a)"]
        setNxt_0 [where f = "\<lambda>m. buddycontrolblock_setPrvBlock m a None \<bind> (\<lambda>m'. Some (m', Some a))"] m1 m2 bind.bind_lunit)
  finally show ?thesis using assms m1 m2
    by (intro that [of m2]) (simp_all add: dll_def first_in_def next_in_def prev_in_def)
qed

lemma dll_insert_front:
  assumes "dll mem S (Some p)" "a < p"
  obtains mem' where "buddy_listInsert mem (Some p) a = Some (mem', Some a)" "dll mem' (insert a S) (Some a)"
    "bcb_head \<circ> mem' = bcb_head \<circ> mem" "\<And>x. x \<notin> insert a S \<Longrightarrow> mem' x = mem x"
proof -
  have p: "p \<in> S" "\<And>z. z \<in> S \<Longrightarrow> p \<le> z" "p < 2 ^ 27"
    using dllD(1,2) [OF assms(1)] by (auto simp: first_in_def)
  have az: "a \<le> z" if "z \<in> S" for z using p(2) [OF that] assms(2) by simp
  obtain m1 where m1: "buddycontrolblock_setPrvBlock mem a None = Some m1" "pb m1 = (pb mem)(a := Some None)"
    "nb m1 = nb mem" "bcb_head \<circ> m1 = bcb_head \<circ> mem" "\<And>x. x \<noteq> a \<Longrightarrow> m1 x = mem x"
    by (rule setPrvBlock_ok [of None a mem]) (use p assms(2) in simp_all)
  obtain m2 where m2: "buddycontrolblock_setNxtBlock m1 a (Some p) = Some m2" "nb m2 = (nb m1)(a := Some p)"
    "pb m2 = pb m1" "bcb_head \<circ> m2 = bcb_head \<circ> m1" "\<And>x. x \<noteq> a \<Longrightarrow> m2 x = m1 x"
    by (rule setNxtBlock_ok [of "Some p" a m1]) (use p assms(2) in simp_all)
  obtain m3 where m3: "buddycontrolblock_setPrvBlock m2 p (Some a) = Some m3" "pb m3 = (pb m2)(p := Some (Some a))"
    "nb m3 = nb m2" "bcb_head \<circ> m3 = bcb_head \<circ> m2" "\<And>x. x \<noteq> p \<Longrightarrow> m3 x = m2 x"
    by (rule setPrvBlock_ok [of "Some a" p m2]) (use p assms(2) in simp_all)
  have "buddy_listInsert mem (Some p) a = Some (m3, Some a)"
    using assms(2) setPrv_0 [of mem a "\<lambda>m. do { mem1 \<leftarrow> buddycontrolblock_setNxtBlock m a (Some p);
               mem2 \<leftarrow> buddycontrolblock_setPrvBlock mem1 p (Some a); Some (mem2, Some a) }"] m1(1) m2(1) m3(1)
    by (simp add: buddy_listInsert_def)
  moreover have "next_in (insert a S) x (nb m3 x) \<and> (\<exists>q. pb m3 x = Some q \<and> prev_in (insert a S) x q)"
    if "x \<in> insert a S" for x
  proof (cases "x = a")
    case True
    then show ?thesis using az p assms(2) m1 m2 m3 by (auto simp: next_in_def prev_in_def)
  next
    case False
    then have x: "x \<in> S" "p \<le> x" using that p(2) by auto
    obtain q where q: "pb mem x = Some q" "prev_in S x q" using dllD(4) [OF assms(1) x(1)] by blast
    have "next_in (insert a S) x (nb m3 x)"
      using False dllD(3) [OF assms(1) x(1)] x(2) assms(2) m1 m2 m3 by (auto intro!: next_in_insert)
    moreover have "\<exists>q. pb m3 x = Some q \<and> prev_in (insert a S) x q"
    proof (cases "x = p")
      case True
      then show ?thesis using p assms(2) m1 m2 m3 by (auto simp: prev_in_def)
    next
      case ne: False
      then have "\<exists>y. q = Some y \<and> a \<le> y"
        using q(2) x(2) p assms(2) by (auto simp: prev_in_def split: option.splits) (meson le_trans less_imp_le)
      then show ?thesis using False ne q m1 m2 m3 by (auto intro!: prev_in_insert)
    qed
    ultimately show ?thesis by blast
  qed
  then have "dll m3 (insert a S) (Some a)"
    using p az assms(2) dllD(2) [OF assms(1)] unfolding dll_def by (auto simp: first_in_def)
  moreover have "m3 x = mem x" if "x \<notin> insert a S" for x using that p(1) m1(5) m2(5) m3(5) by (metis insertCI)
  ultimately show ?thesis using m1(4) m2(4) m3(4) by (intro that [of m3]) simp_all
qed

lemma dll_insert_middle:
  assumes "dll mem S (Some p)" "p < a" "a \<notin> S" "a < 2 ^ 27"
  obtains mem' where "buddy_listInsert mem (Some p) a = Some (mem', Some p)" "dll mem' (insert a S) (Some p)"
    "bcb_head \<circ> mem' = bcb_head \<circ> mem" "\<And>x. x \<notin> insert a S \<Longrightarrow> mem' x = mem x"
proof -
  have p: "p \<in> S" "\<And>z. z \<in> S \<Longrightarrow> p \<le> z" "p < 2 ^ 27"
    using dllD(1,2) [OF assms(1)] by (auto simp: first_in_def)
  obtain q n where s: "buddy_insert_scan mem (Some p) (nb mem p) a = Some (Some q, n)" "q \<in> S" "q < a"
    "nb mem q = n" "\<And>y. n = Some y \<Longrightarrow> a < y"
    by (rule scan_ok [OF assms(1) p(1) assms(2,3)]) (rule that)
  have n: "\<And>y. n = Some y \<Longrightarrow> a < y \<and> y \<in> S \<and> y < 2 ^ 27" "next_in S q n"
    using dllD(2) [OF assms(1)] dllD(3) [OF assms(1) s(2)] s(4,5) by (auto simp: next_in_def)
  obtain m1 where m1: "buddycontrolblock_setNxtBlock mem q (Some a) = Some m1" "nb m1 = (nb mem)(q := Some a)"
    "pb m1 = pb mem" "bcb_head \<circ> m1 = bcb_head \<circ> mem" "\<And>x. x \<noteq> q \<Longrightarrow> m1 x = mem x"
    by (rule setNxtBlock_ok [of "Some a" q mem]) (use s(3) assms(4) in simp_all)
  obtain m2 where m2: "buddycontrolblock_setPrvBlock m1 a (Some q) = Some m2" "pb m2 = (pb m1)(a := Some (Some q))"
    "nb m2 = nb m1" "bcb_head \<circ> m2 = bcb_head \<circ> m1" "\<And>x. x \<noteq> a \<Longrightarrow> m2 x = m1 x"
    by (rule setPrvBlock_ok [of "Some q" a m1]) (use s(3) assms(4) in simp_all)
  obtain m3 where m3: "buddycontrolblock_setNxtBlock m2 a n = Some m3" "nb m3 = (nb m2)(a := n)"
    "pb m3 = pb m2" "bcb_head \<circ> m3 = bcb_head \<circ> m2" "\<And>x. x \<noteq> a \<Longrightarrow> m3 x = m2 x"
    by (rule setNxtBlock_ok [of n a m2]) (use n in simp_all)
  obtain m4 where m4: "(case n of None \<Rightarrow> Some m3 | Some y \<Rightarrow> buddycontrolblock_setPrvBlock m3 y (Some a)) = Some m4"
    "pb m4 = (case n of None \<Rightarrow> pb m3 | Some y \<Rightarrow> (pb m3)(y := Some (Some a)))"
    "nb m4 = nb m3" "bcb_head \<circ> m4 = bcb_head \<circ> m3" "\<And>x. n \<noteq> Some x \<Longrightarrow> m4 x = m3 x"
  proof (cases n)
    case (Some y)
    obtain m where "buddycontrolblock_setPrvBlock m3 y (Some a) = Some m" "pb m = (pb m3)(y := Some (Some a))"
      "nb m = nb m3" "bcb_head \<circ> m = bcb_head \<circ> m3" "\<And>x. x \<noteq> y \<Longrightarrow> m x = m3 x"
      by (rule setPrvBlock_ok [of "Some a" y m3]) (use n(1) [OF Some] in simp_all)
    then show ?thesis using Some by (intro that [of m]) auto
  qed (rule that [of m3], simp_all)
  have nb4: "nb m4 = (nb mem)(q := Some a, a := n)" using m1 m2 m3 m4 by simp
  have pb4: "pb m4 x = (if n = Some x then Some (Some a) else if x = a then Some (Some q) else pb mem x)" for x
    using m1 m2 m3 m4 by (cases n) auto
  have "buddy_listInsert mem (Some p) a = Some (m4, Some p)"
    using s n(1) assms(2) m1(1) m2(1) m3(1) m4(1)
    by (auto simp: buddy_listInsert_def split: option.splits)
  moreover have "next_in (insert a S) x (nb m4 x) \<and> (\<exists>q. pb m4 x = Some q \<and> prev_in (insert a S) x q)"
    if "x \<in> insert a S" for x
  proof (cases "x = a")
    case True
    have "next_in (insert a S) a n" using n s(3) by (auto simp: next_in_def split: option.splits)
    moreover have "prev_in (insert a S) a (Some q)" using n s(2,3) by (auto simp: next_in_def prev_in_def split: option.splits)
    moreover have "n \<noteq> Some a" using n(1) [of a] by auto
    ultimately show ?thesis using True by (simp add: nb4 pb4)
  next
    case False
    then have x: "x \<in> S" using that by simp
    obtain r where r: "pb mem x = Some r" "prev_in S x r" using dllD(4) [OF assms(1) x] by blast
    have split: "x \<le> q \<or> (\<exists>y. n = Some y \<and> y \<le> x)"
      using n(2) x by (auto simp: next_in_def split: option.splits)
    have "next_in (insert a S) x (nb m4 x)"
    proof (cases "x = q")
      case True
      then show ?thesis using False n s(3) by (auto simp: nb4 next_in_def split: option.splits)
    next
      case ne: False
      have "a \<le> x \<or> (\<exists>y. nb mem x = Some y \<and> y \<le> a)"
        using split n(1) ne dllD(3) [OF assms(1) x] s(2,3)
        by (auto simp: next_in_def split: option.splits)
      then show ?thesis using False ne dllD(3) [OF assms(1) x] by (auto simp: nb4 intro: next_in_insert)
    qed
    moreover have "\<exists>q. pb m4 x = Some q \<and> prev_in (insert a S) x q"
    proof (cases "n = Some x")
      case True
      then show ?thesis using n s(2,3) by (auto simp: pb4 prev_in_def next_in_def)
    next
      case ne: False
      have "x \<le> a \<or> (\<exists>y. r = Some y \<and> a \<le> y)"
        using split n ne r(2) s(2,3) x
        by (auto simp: prev_in_def split: option.splits) (meson le_trans less_imp_le not_le le_antisym)+
      then show ?thesis using False ne r by (auto simp: pb4 intro: prev_in_insert)
    qed
    ultimately show ?thesis by blast
  qed
  then have "dll m4 (insert a S) (Some p)"
    using p assms dllD(2) [OF assms(1)] unfolding dll_def by (auto simp: first_in_def)
  moreover have "m4 x = mem x" if "x \<notin> insert a S" for x
    using that s(2) n(1) m1(5) m2(5) m3(5) m4(5) by (metis insertCI)
  ultimately show ?thesis using m1(4) m2(4) m3(4) m4(4) by (intro that [of m4]) simp_all
qed

lemma dll_insert:
  assumes "dll mem S h" "a \<notin> S" "a < 2 ^ 27"
  obtains mem' h' where "buddy_listInsert mem h a = Some (mem', h')" "dll mem' (insert a S) h'"
    "bcb_head \<circ> mem' = bcb_head \<circ> mem" "\<And>x. x \<notin> insert a S \<Longrightarrow> mem' x = mem x"
proof (cases h)
  case None
  then have "S = {}" using dllD(1) [OF assms(1)] by (simp add: first_in_def)
  then show ?thesis using None assms(3) dll_insert_only that by (metis insertI1 singletonD)
next
  case (Some p)
  have "p \<in> S" using Some dllD(1) [OF assms(1)] by (auto simp: first_in_def)
  then consider "a < p" | "p < a" using assms(2) by (metis linorder_neqE_nat)
  then show ?thesis
    using dll_insert_front [of mem S p a] dll_insert_middle [of mem S p a] assms that unfolding Some by cases metis+
qed

subsection \<open>Removal\<close>

lemma next_in_remove: "next_in S x n \<Longrightarrow> n \<noteq> Some a \<Longrightarrow> next_in (S - {a}) x n"
  by (auto simp: next_in_def split: option.splits)

lemma prev_in_remove: "prev_in S x p \<Longrightarrow> p \<noteq> Some a \<Longrightarrow> prev_in (S - {a}) x p"
  by (auto simp: prev_in_def split: option.splits)

lemma next_prev: "next_in S x (Some y) \<Longrightarrow> x \<in> S \<Longrightarrow> y \<in> S \<Longrightarrow> prev_in S y q \<Longrightarrow> q = Some x"
  by (auto simp: next_in_def prev_in_def split: option.splits) (meson le_antisym not_le)+

lemma prev_next: "prev_in S y (Some x) \<Longrightarrow> x \<in> S \<Longrightarrow> y \<in> S \<Longrightarrow> next_in S x q \<Longrightarrow> q = Some y"
  by (auto simp: next_in_def prev_in_def split: option.splits) (meson le_antisym not_le)+

lemma next_in_skip: "next_in S x (Some a) \<Longrightarrow> next_in S a n \<Longrightarrow> next_in (S - {a}) x n"
  by (auto simp: next_in_def split: option.splits) (meson le_antisym not_le le_trans less_imp_le)+

lemma prev_in_skip: "prev_in S x (Some a) \<Longrightarrow> prev_in S a p \<Longrightarrow> prev_in (S - {a}) x p"
  by (auto simp: prev_in_def split: option.splits) (meson le_antisym not_le le_trans less_imp_le)+

text \<open>
  Unlinking \<open>a\<close>: its neighbours are linked with each other. The two functions describe the links after the
  update.
\<close>

lemma dll_unlink:
  assumes d: "dll mem S h" and a: "a \<in> S" and pa: "pb mem a = Some q"
    and n: "\<And>x. x \<in> S - {a} \<Longrightarrow> nb mem' x = (if q = Some x then nb mem a else nb mem x)"
    and p: "\<And>x. x \<in> S - {a} \<Longrightarrow> pb mem' x = (if nb mem a = Some x then Some q else pb mem x)"
  shows "dll mem' (S - {a}) (if h = Some a then nb mem a else h)"
proof -
  have na: "next_in S a (nb mem a)" and qa: "prev_in S a q" using dllD(3,4) [OF d a] pa by auto
  have "next_in (S - {a}) x (nb mem' x) \<and> (\<exists>r. pb mem' x = Some r \<and> prev_in (S - {a}) x r)" if x: "x \<in> S - {a}" for x
  proof
    have xS: "x \<in> S" using x by simp
    note nx = dllD(3) [OF d xS]
    obtain r where r: "pb mem x = Some r" "prev_in S x r" using dllD(4) [OF d xS] by blast
    show "next_in (S - {a}) x (nb mem' x)"
    proof (cases "q = Some x")
      case True
      then have "nb mem x = Some a" using prev_next [of S a x] qa xS a nx by simp
      then show ?thesis using True n [OF x] nx na by (simp add: next_in_skip)
    next
      case False
      then have "nb mem x \<noteq> Some a" using next_prev [of S x a q] nx xS a qa by auto
      then show ?thesis using False n [OF x] nx by (simp add: next_in_remove)
    qed
    show "\<exists>r. pb mem' x = Some r \<and> prev_in (S - {a}) x r"
    proof (cases "nb mem a = Some x")
      case True
      then have "r = Some a" using next_prev [of S a x r] na a xS r(2) by simp
      then show ?thesis using True p [OF x] r(2) qa by (auto intro: prev_in_skip)
    next
      case False
      then have "r \<noteq> Some a" using prev_next [of S x a] r(2) xS a na by auto
      then show ?thesis using False p [OF x] r by (auto intro: prev_in_remove)
    qed
  qed
  moreover have "first_in (S - {a}) (if h = Some a then nb mem a else h)"
  proof (cases "h = Some a")
    case True
    then have "\<forall>z \<in> S. a \<le> z" using dllD(1) [OF d] by (simp add: first_in_def)
    then show ?thesis using True na by (auto simp: first_in_def next_in_def split: option.splits) (meson le_antisym not_le)+
  next
    case False
    then show ?thesis using dllD(1) [OF d] a by (auto simp: first_in_def split: option.splits)
  qed
  ultimately show ?thesis using dllD(2) [OF d] unfolding dll_def by blast
qed

lemma dll_remove:
  assumes d: "dll mem S h" and a: "a \<in> S" and hd: "\<And>x. x \<in> S \<Longrightarrow> bcb_head (mem x) = (k, True)"
  obtains mem' h' where "buddy_listRemove mem h a = Some (mem', h')" "dll mem' (S - {a}) h'"
    "bcb_head \<circ> mem' = bcb_head \<circ> mem" "\<And>x. x \<notin> S \<Longrightarrow> mem' x = mem x"
proof -
  obtain q where q: "pb mem a = Some q" "prev_in S a q" using dllD(4) [OF d a] by blast
  have na: "next_in S a (nb mem a)" by (rule dllD(3) [OF d a])
  have nS: "y \<in> S \<and> a < y \<and> y < 2 ^ 27" if "nb mem a = Some y" for y
    using na that dllD(2) [OF d] by (auto simp: next_in_def)
  have ok: "buddy_assert_listed m (buddycontrolblock_order (mem a)) x = Some ()" if "bcb_head \<circ> m = bcb_head \<circ> mem" "x \<in> S" for m x
    using fun_cong [OF that(1), of x] hd [OF that(2)] hd [OF a] by (simp add: buddy_assert_listed_def bcb_head_def)
  show ?thesis
  proof (cases "h = Some a")
    case True
    then have qN: "q = None" using q(2) dllD(1) [OF d] a by (auto simp: first_in_def prev_in_def split: option.splits)
    obtain m where m: "buddy_listRemove mem h a = Some (m, nb mem a)" "nb m = nb mem"
      "\<And>x. pb m x = (if nb mem a = Some x then Some None else pb mem x)"
      "bcb_head \<circ> m = bcb_head \<circ> mem" "\<And>x. nb mem a \<noteq> Some x \<Longrightarrow> m x = mem x"
    proof (cases "nb mem a")
      case None
      then show ?thesis using True by (intro that [of mem]) (simp_all add: buddy_listRemove_def)
    next
      case (Some y)
      obtain m where "buddycontrolblock_setPrvBlock mem y None = Some m" "pb m = (pb mem)(y := Some None)"
        "nb m = nb mem" "bcb_head \<circ> m = bcb_head \<circ> mem" "\<And>x. x \<noteq> y \<Longrightarrow> m x = mem x"
        by (rule setPrvBlock_ok [of None y mem]) (use nS [OF Some] in simp_all)
      then show ?thesis using True Some ok [OF refl, of y] nS [OF Some]
        by (intro that [of m]) (auto simp: buddy_listRemove_def)
    qed
    moreover have "dll m (S - {a}) (nb mem a)"
      using dll_unlink [OF d a q(1), of m] m qN True by simp
    ultimately show ?thesis by (intro that [of m "nb mem a"]) (use nS in auto)
  next
    case False
    then obtain y where y: "q = Some y" "y \<in> S" "y < a"
      using q(2) dllD(1) [OF d] a by (auto simp: first_in_def prev_in_def split: option.splits) (metis le_antisym)
    obtain m1 where m1: "buddycontrolblock_setNxtBlock mem y (nb mem a) = Some m1" "nb m1 = (nb mem)(y := nb mem a)"
      "pb m1 = pb mem" "bcb_head \<circ> m1 = bcb_head \<circ> mem" "\<And>x. x \<noteq> y \<Longrightarrow> m1 x = mem x"
    proof (rule setNxtBlock_ok [of "nb mem a" y mem])
      show "y < z \<and> z < 2 ^ 27" if "nb mem a = Some z" for z using nS [OF that] y(3) by simp
    qed (rule that)
    obtain m where m: "buddy_listRemove mem h a = Some (m, h)" "nb m = nb m1"
      "\<And>x. pb m x = (if nb mem a = Some x then Some q else pb mem x)"
      "bcb_head \<circ> m = bcb_head \<circ> mem" "\<And>x. nb mem a \<noteq> Some x \<Longrightarrow> m x = m1 x"
    proof (cases "nb mem a")
      case None
      then show ?thesis using False q(1) y ok [OF refl, of y] m1 by (intro that [of m1]) (simp_all add: buddy_listRemove_def)
    next
      case (Some z)
      obtain m where "buddycontrolblock_setPrvBlock m1 z (Some y) = Some m" "pb m = (pb m1)(z := Some (Some y))"
        "nb m = nb m1" "bcb_head \<circ> m = bcb_head \<circ> m1" "\<And>x. x \<noteq> z \<Longrightarrow> m x = m1 x"
        by (rule setPrvBlock_ok [of "Some y" z m1]) (use nS [OF Some] y(3) in simp_all)
      then show ?thesis using False Some q(1) y ok [OF refl, of y] ok [OF m1(4), of z] nS [OF Some] m1
        by (intro that [of m]) (auto simp: buddy_listRemove_def)
    qed
    moreover have "dll m (S - {a}) h"
      using dll_unlink [OF d a q(1), of m] m m1 y(1) False by auto
    moreover have "m x = mem x" if "x \<notin> S" for x using that nS y(2) m(5) m1(5) by metis
    ultimately show ?thesis by (intro that [of m h])
  qed
qed

end
