(* ===== verification/Pool_Interface.thy ===== *)
theory Pool_Interface
  imports Prelude
begin

text \<open>
  What the shared memory allocator (\<^verbatim>\<open>shmem/shmem_allocator.c\<close>) relies on in the allocator of one pool: the
  interface of \<^verbatim>\<open>shmem/buddy.h\<close> as laws. \<open>heap s L\<close> says that the state \<open>s\<close> of a pool has the live allocations
  \<open>L\<close>, a map from offsets to requested bytes; \<open>limit\<close> bounds the requests it can take.
\<close>

locale pool_allocator =
  fixes heap :: "'s \<Rightarrow> (nat \<rightharpoonup> u64) \<Rightarrow> bool"
    and alloc :: "u64 \<Rightarrow> 's \<Rightarrow> (nat option \<times> 's) option"
    and free :: "nat option \<Rightarrow> 's \<Rightarrow> 's option"
    and nbytes :: nat
    and limit :: nat
  assumes alloc_returns: "heap s L \<Longrightarrow> unat r \<le> limit \<Longrightarrow> \<exists>p s'. alloc r s = Some (p, s')"
    and alloc_granted: "heap s L \<Longrightarrow> unat r \<le> limit \<Longrightarrow> alloc r s = Some (Some p, s') \<Longrightarrow> heap s' (L(p \<mapsto> r))"
    and alloc_refused: "heap s L \<Longrightarrow> unat r \<le> limit \<Longrightarrow> alloc r s = Some (None, s') \<Longrightarrow> heap s' L"
    and alloc_fresh: "heap s L \<Longrightarrow> unat r \<le> limit \<Longrightarrow> alloc r s = Some (Some p, s') \<Longrightarrow> L p = None"
    and alloc_empty: "heap s Map.empty \<Longrightarrow> r \<noteq> 0 \<Longrightarrow> unat r \<le> limit \<Longrightarrow> \<exists>p s'. alloc r s = Some (Some p, s')"
    and free_live: "heap s L \<Longrightarrow> L p = Some r \<Longrightarrow> \<exists>s'. free (Some p) s = Some s' \<and> heap s' (L(p := None))"
    and live_inside: "heap s L \<Longrightarrow> L p = Some r \<Longrightarrow> 0 < p \<and> p + unat r \<le> nbytes \<and> r \<noteq> 0"
    and live_disjoint: "heap s L \<Longrightarrow> L p = Some r \<Longrightarrow> L q = Some t \<Longrightarrow> p \<noteq> q \<Longrightarrow>
      {p..<p + unat r} \<inter> {q..<q + unat t} = {}"
begin

text \<open>What a client sees of one allocation: it is answered, and a grant is a new area apart from all live ones.\<close>

lemma alloc_outcome:
  assumes h: "heap s L" and r: "unat r \<le> limit"
  obtains (granted) p s' where "alloc r s = Some (Some p, s')" "heap s' (L(p \<mapsto> r))" "L p = None"
      "0 < p" "p + unat r \<le> nbytes" "r \<noteq> 0" "\<And>q t. L q = Some t \<Longrightarrow> {p..<p + unat r} \<inter> {q..<q + unat t} = {}"
    | (refused) s' where "alloc r s = Some (None, s')" "heap s' L" "r = 0 \<or> L \<noteq> Map.empty"
proof -
  obtain p s' where a: "alloc r s = Some (p, s')" using alloc_returns [OF h r] by blast
  show ?thesis
  proof (cases p)
    case None
    have "r = 0 \<or> L \<noteq> Map.empty" using alloc_empty [of s r] h r a None by auto
    then show ?thesis using refused [of s'] a None alloc_refused [OF h r] by simp
  next
    case (Some x)
    then have a: "alloc r s = Some (Some x, s')" using a by simp
    have h': "heap s' (L(x \<mapsto> r))" by (rule alloc_granted [OF h r a])
    have fresh: "L x = None" by (rule alloc_fresh [OF h r a])
    have "{x..<x + unat r} \<inter> {q..<q + unat t} = {}" if "L q = Some t" for q t
    proof (rule live_disjoint [OF h'])
      show "(L(x \<mapsto> r)) x = Some r" by simp
      show "(L(x \<mapsto> r)) q = Some t" "x \<noteq> q" using that fresh by auto
    qed
    moreover have "0 < x \<and> x + unat r \<le> nbytes \<and> r \<noteq> 0" using live_inside [OF h', of x r] by simp
    ultimately show ?thesis using granted [OF a h' fresh] by blast
  qed
qed

end

end
