(* ===== verification/Buddy_Heap.thy ===== *)
theory Buddy_Heap
  imports Buddy_Lists Pool_Interface
begin

text \<open>
  The correctness of the buddy allocator of \<^verbatim>\<open>shmem/buddy.c\<close>. The first section is about the blocks alone: aligned
  intervals whose lengths are powers of two and that tile the pool. The second joins the blocks with the
  free lists and the control blocks of the model. The third gives the properties for every history of allocations, releases and
  writes of the owners into their blocks.
\<close>

section \<open>Tilings of the pool\<close>

definition ivl :: "nat \<times> nat \<Rightarrow> nat set" where
  "ivl b = {fst b..<fst b + 2 ^ snd b}"

definition aligned :: "nat \<Rightarrow> nat \<times> nat \<Rightarrow> bool" where
  "aligned N b \<longleftrightarrow> 4 \<le> snd b \<and> snd b \<le> N \<and> 2 ^ snd b dvd fst b \<and> fst b + 2 ^ snd b \<le> 2 ^ N"

definition tiling :: "nat \<Rightarrow> (nat \<times> nat) set \<Rightarrow> bool" where
  "tiling N B \<longleftrightarrow> (\<forall>b \<in> B. aligned N b) \<and> (\<forall>b \<in> B. \<forall>c \<in> B. b \<noteq> c \<longrightarrow> ivl b \<inter> ivl c = {}) \<and>
     \<Union> (ivl ` B) = {..<2 ^ N}"

lemma tilingD:
  assumes "tiling N B"
  shows "b \<in> B \<Longrightarrow> aligned N b" "b \<in> B \<Longrightarrow> c \<in> B \<Longrightarrow> x \<in> ivl b \<Longrightarrow> x \<in> ivl c \<Longrightarrow> b = c"
    "x < 2 ^ N \<Longrightarrow> \<exists>b \<in> B. x \<in> ivl b"
proof -
  show "b \<in> B \<Longrightarrow> aligned N b" using assms unfolding tiling_def by blast
  show "b \<in> B \<Longrightarrow> c \<in> B \<Longrightarrow> x \<in> ivl b \<Longrightarrow> x \<in> ivl c \<Longrightarrow> b = c" using assms unfolding tiling_def by blast
  show "\<exists>b \<in> B. x \<in> ivl b" if "x < 2 ^ N"
  proof -
    have "x \<in> \<Union> (ivl ` B)" using assms that unfolding tiling_def by simp
    then show ?thesis by blast
  qed
qed

lemma start_in_ivl [simp]: "a \<in> ivl (a, k)"
  by (simp add: ivl_def)

lemma tiling_same_start: "tiling N B \<Longrightarrow> (a, k) \<in> B \<Longrightarrow> (a, m) \<in> B \<Longrightarrow> k = m"
  using tilingD(2) [of N B "(a, k)" "(a, m)" a] by simp

lemma tiling_replace:
  assumes "tiling N B" "R \<subseteq> B" "\<Union> (ivl ` R) = \<Union> (ivl ` Q)" "\<And>b. b \<in> Q \<Longrightarrow> aligned N b"
    "\<And>b c. b \<in> Q \<Longrightarrow> c \<in> Q \<Longrightarrow> b \<noteq> c \<Longrightarrow> ivl b \<inter> ivl c = {}"
  shows "tiling N (B - R \<union> Q)"
proof -
  have other: "ivl b \<inter> ivl q = {}" if "b \<in> B - R" "q \<in> Q" for b q
  proof -
    have "ivl q \<subseteq> \<Union> (ivl ` R)" using that(2) assms(3) by blast
    moreover have "x \<notin> ivl b" if "x \<in> ivl r" "r \<in> R" for x r
      using tilingD(2) [OF assms(1), of b r x] that assms(2) \<open>b \<in> B - R\<close> by blast
    ultimately show ?thesis by blast
  qed
  have "\<Union> (ivl ` (B - R \<union> Q)) = \<Union> (ivl ` (B - R)) \<union> \<Union> (ivl ` R)" using assms(3) by (simp add: image_Un)
  also have "\<dots> = \<Union> (ivl ` B)" using assms(2) by blast
  also have "\<dots> = {..<2 ^ N}" using assms(1) by (simp add: tiling_def)
  finally have "\<Union> (ivl ` (B - R \<union> Q)) = {..<2 ^ N}" .
  moreover have "ivl b \<inter> ivl c = {}" if b: "b \<in> B - R \<union> Q" and c: "c \<in> B - R \<union> Q" and "b \<noteq> c" for b c
  proof (cases "b \<in> Q")
    case bQ: True
    show ?thesis
    proof (cases "c \<in> Q")
      case True then show ?thesis using assms(5) bQ that(3) by simp
    next
      case False
      then show ?thesis using c other [of c b] bQ by auto
    qed
  next
    case bB: False
    then have bR: "b \<in> B - R" using b by simp
    show ?thesis
    proof (cases "c \<in> Q")
      case True then show ?thesis using other [OF bR] by simp
    next
      case False
      then have "c \<in> B" "b \<in> B" using c bR by simp_all
      then show ?thesis using tilingD(2) [OF assms(1), of b c] that(3) by auto
    qed
  qed
  moreover have "aligned N b" if "b \<in> B - R \<union> Q" for b using that assms(4) tilingD(1) [OF assms(1)] by blast
  ultimately show ?thesis unfolding tiling_def by simp
qed

subsection \<open>Buddies\<close>

lemma xor_aligned: "2 ^ k dvd (a :: nat) \<Longrightarrow> a XOR 2 ^ k = (if 2 ^ Suc k dvd a then a + 2 ^ k else a - 2 ^ k)"
proof -
  assume "2 ^ k dvd a"
  then obtain q where a: "a = 2 ^ k * q" by (elim dvdE)
  have "a XOR 2 ^ k = push_bit k (q XOR 1)" by (simp only: push_bit_xor) (simp add: a push_bit_eq_mult mult.commute)
  also have "\<dots> = (if even q then a + 2 ^ k else a - 2 ^ k)"
    by (auto simp: xor_Suc_0_eq a push_bit_eq_mult algebra_simps)
  also have "even q \<longleftrightarrow> 2 ^ Suc k dvd a" by (simp add: a)
  finally show ?thesis .
qed

lemma xor_cases:
  assumes "2 ^ k dvd (a :: nat)"
  obtains (low) "2 ^ Suc k dvd a" "a XOR 2 ^ k = a + 2 ^ k"
    | (high) c where "a = c + 2 ^ k" "2 ^ Suc k dvd c" "a XOR 2 ^ k = c"
proof (cases "2 ^ Suc k dvd a")
  case True then show ?thesis using xor_aligned [OF assms] low by simp
next
  case False
  obtain q where a: "a = 2 ^ k * q" using assms by (elim dvdE)
  have "odd q" using False by (simp add: a)
  then obtain r where "q = 2 * r + 1" by (elim oddE)
  then have "a = 2 ^ Suc k * r + 2 ^ k" by (simp add: a algebra_simps)
  then show ?thesis using False xor_aligned [OF assms] high by simp
qed

text \<open>Aligned intervals are nested or disjoint.\<close>

lemma in_ivl_div:
  assumes "2 ^ k dvd a" shows "x \<in> ivl (a, k) \<longleftrightarrow> x div 2 ^ k = a div 2 ^ k"
proof -
  obtain q where a: "a = 2 ^ k * q" using assms by (elim dvdE)
  have "x \<in> ivl (a, k) \<longleftrightarrow> 2 ^ k * q \<le> x \<and> x < 2 ^ k * Suc q" by (simp add: ivl_def a algebra_simps)
  also have "\<dots> \<longleftrightarrow> x div 2 ^ k = q"
    using dividend_less_times_div [of "2 ^ k" x] times_div_less_eq_dividend [of "2 ^ k" x] by (auto intro: div_nat_eqI)
  finally show ?thesis by (simp add: a)
qed

lemma ivl_nested:
  assumes "2 ^ k dvd a" "2 ^ m dvd c" "m \<le> k" "x \<in> ivl (a, k)" "x \<in> ivl (c, m)"
  shows "ivl (c, m) \<subseteq> ivl (a, k)"
proof
  fix y assume "y \<in> ivl (c, m)"
  then have "y div 2 ^ m = x div 2 ^ m" using assms(2,5) by (simp add: in_ivl_div)
  then have "y div 2 ^ m div 2 ^ (k - m) = x div 2 ^ m div 2 ^ (k - m)" by simp
  then have "y div 2 ^ k = x div 2 ^ k" using assms(3) by (simp flip: div_mult2_eq power_add)
  then show "y \<in> ivl (a, k)" using assms(1,4) by (simp add: in_ivl_div)
qed

text \<open>The buddy of a block is the start of a block that is not larger.\<close>

lemma buddy_is_block:
  assumes t: "tiling N B" and a: "(a, k) \<in> B" and k: "k < N"
  obtains m where "(a XOR 2 ^ k, m) \<in> B" "m \<le> k" "ivl (a XOR 2 ^ k, m) \<inter> ivl (a, k) = {}" "a XOR 2 ^ k < 2 ^ N"
proof -
  let ?b = "a XOR 2 ^ k"
  have al: "2 ^ k dvd a" "a + 2 ^ k \<le> 2 ^ N" using tilingD(1) [OF t a] by (simp_all add: aligned_def)
  have par: "\<exists>c. 2 ^ Suc k dvd c \<and> a \<in> ivl (c, Suc k) \<and> ?b \<in> ivl (c, Suc k) \<and> 2 ^ k dvd ?b \<and> ?b \<notin> ivl (a, k)"
    using al(1)
  proof (cases rule: xor_cases)
    case low
    then show ?thesis using al(1) by (intro exI [of _ a]) (simp add: ivl_def)
  next
    case (high c)
    then have "2 ^ k dvd c" using al(1) by (metis dvd_add_left_iff dvd_refl)
    then show ?thesis using high by (intro exI [of _ c]) (simp add: ivl_def)
  qed
  then obtain c where c: "2 ^ Suc k dvd c" "a \<in> ivl (c, Suc k)" "?b \<in> ivl (c, Suc k)" "2 ^ k dvd ?b" "?b \<notin> ivl (a, k)" by blast
  have bN: "?b < 2 ^ N"
  proof -
    have "ivl (c, Suc k) \<subseteq> ivl (0, N)" using k c(1,2) al(2) by (intro ivl_nested [of N 0 "Suc k" c a]) (auto simp: ivl_def)
    then show ?thesis using c(3) by (auto simp: ivl_def)
  qed
  obtain d m where dm: "(d, m) \<in> B" "?b \<in> ivl (d, m)" using tilingD(3) [OF t bN] by force
  have dal: "2 ^ m dvd d" using tilingD(1) [OF t dm(1)] by (simp add: aligned_def)
  have mk: "m \<le> k"
  proof (rule ccontr)
    assume "\<not> m \<le> k"
    then have "ivl (c, Suc k) \<subseteq> ivl (d, m)" using ivl_nested [OF dal c(1) _ dm(2) c(3)] by simp
    then have "a \<in> ivl (d, m)" using c(2) by blast
    then have "(d, m) = (a, k)" using tilingD(2) [OF t dm(1) a] by simp
    then show False using \<open>\<not> m \<le> k\<close> by simp
  qed
  have "2 ^ m dvd ?b" using c(4) mk by (meson le_imp_power_dvd dvd_trans)
  then have "?b = d" using dm(2) dal in_ivl_div [OF dal, of ?b] by (metis dvd_div_mult_self)
  moreover have "ivl (?b, m) \<inter> ivl (a, k) = {}" if "(?b, m) \<in> B"
    using tilingD(2) [OF t that a] c(5) by fastforce
  ultimately show ?thesis using that dm(1) mk bN by blast
qed

text \<open>Splitting a block down to a smaller order, and merging two buddies.\<close>

definition split_blocks :: "nat \<Rightarrow> nat \<Rightarrow> nat \<Rightarrow> (nat \<times> nat) set" where
  "split_blocks a k j = {(a + 2 ^ i, i) | i. k \<le> i \<and> i < j}"

lemma tiling_split1:
  assumes t: "tiling N B" and a: "(a, Suc j) \<in> B" and j: "4 \<le> j"
  shows "tiling N (B - {(a, Suc j)} \<union> {(a, j), (a + 2 ^ j, j)})"
proof (rule tiling_replace [OF t])
  have al: "aligned N (a, Suc j)" by (rule tilingD(1) [OF t a])
  then have d: "2 ^ j dvd a" by (simp add: aligned_def) (meson dvd_mult_right)
  show "\<Union> (ivl ` {(a, Suc j)}) = \<Union> (ivl ` {(a, j), (a + 2 ^ j, j)})" by (auto simp: ivl_def)
  show "aligned N b" if "b \<in> {(a, j), (a + 2 ^ j, j)}" for b using that al d j by (auto simp: aligned_def)
  show "ivl b \<inter> ivl c = {}" if "b \<in> {(a, j), (a + 2 ^ j, j)}" "c \<in> {(a, j), (a + 2 ^ j, j)}" "b \<noteq> c" for b c
    using that by (auto simp: ivl_def)
qed (use a in simp)

lemma tiling_split:
  assumes "tiling N B" "(a, j) \<in> B" "4 \<le> k" "k \<le> j"
  shows "tiling N (B - {(a, j)} \<union> insert (a, k) (split_blocks a k j))"
  using assms
proof (induction j arbitrary: B)
  case (Suc j)
  show ?case
  proof (cases "k = Suc j")
    case True
    then have "B - {(a, Suc j)} \<union> insert (a, k) (split_blocks a k (Suc j)) = B" using Suc.prems by (auto simp: split_blocks_def)
    then show ?thesis using Suc.prems by simp
  next
    case False
    let ?B = "B - {(a, Suc j)} \<union> {(a, j), (a + 2 ^ j, j)}"
    have "tiling N ?B" using Suc.prems False by (intro tiling_split1) simp_all
    from Suc.IH [OF this] have "tiling N (?B - {(a, j)} \<union> insert (a, k) (split_blocks a k j))"
      using Suc.prems False by simp
    moreover have "(a, j) \<notin> B" using tiling_same_start [OF Suc.prems(1,2), of j] by auto
    then have "?B - {(a, j)} \<union> insert (a, k) (split_blocks a k j) = B - {(a, Suc j)} \<union> insert (a, k) (split_blocks a k (Suc j))"
      using Suc.prems(4) False by (auto simp: split_blocks_def less_Suc_eq)
    ultimately show ?thesis by simp
  qed
qed (auto simp: split_blocks_def insert_absorb)

lemma tiling_merge:
  assumes t: "tiling N B" and a: "(a, k) \<in> B" and b: "(a XOR 2 ^ k, k) \<in> B" and k: "k < N"
  shows "tiling N (B - {(a, k), (a XOR 2 ^ k, k)} \<union> {(min a (a XOR 2 ^ k), Suc k)})"
proof (rule tiling_replace [OF t])
  let ?b = "a XOR 2 ^ k"
  have al: "aligned N (a, k)" "aligned N (?b, k)" using tilingD(1) [OF t] a b by simp_all
  then have d: "2 ^ k dvd a" by (simp add: aligned_def)
  have m: "2 ^ Suc k dvd min a ?b \<and> ivl (a, k) \<union> ivl (?b, k) = ivl (min a ?b, Suc k)"
    using d by (cases rule: xor_cases) (auto simp: ivl_def min_def)
  then show "\<Union> (ivl ` {(a, k), (?b, k)}) = \<Union> (ivl ` {(min a ?b, Suc k)})" by simp
  have "min a ?b + 2 ^ Suc k \<le> 2 ^ N"
    using d al by (cases rule: xor_cases) (auto simp: aligned_def min_def)
  then show "aligned N c" if "c \<in> {(min a ?b, Suc k)}" for c using that al k m by (auto simp: aligned_def)
qed (use a b in auto)

section \<open>The free lists\<close>

text \<open>\<open>F i\<close> is the set of the free blocks of order \<open>i\<close>, \<open>A\<close> maps the allocated blocks to their orders.\<close>

definition lists_ok :: "nat \<Rightarrow> buddy_state \<Rightarrow> (nat \<Rightarrow> nat set) \<Rightarrow> bool" where
  "lists_ok N st F \<longleftrightarrow> length (snd st) = N - 3 \<and>
     (\<forall>i. 4 \<le> i \<and> i \<le> N \<longrightarrow> dll (fst st) (F i) (snd st ! (i - 4))) \<and>
     (\<forall>i. \<forall>a \<in> F i. bcb_head (fst st a) = (i, True))"

lemma lists_okD:
  assumes "lists_ok N st F"
  shows "length (snd st) = N - 3" "4 \<le> i \<Longrightarrow> i \<le> N \<Longrightarrow> dll (fst st) (F i) (snd st ! (i - 4))"
    "a \<in> F i \<Longrightarrow> bcb_head (fst st a) = (i, True)"
  using assms unfolding lists_ok_def by auto

lemma lists_disj: "lists_ok N st F \<Longrightarrow> a \<in> F i \<Longrightarrow> a \<in> F j \<Longrightarrow> i = j"
  using lists_okD(3) [of N st F a i] lists_okD(3) [of N st F a j] by simp

lemma listIdx: "4 \<le> i \<Longrightarrow> i < 32 \<Longrightarrow> buddy_listIdx i = i - 4"
proof -
  assume i: "4 \<le> i" "i < 32"
  then have "(4 :: u32) \<le> of_nat i" by (simp add: word_le_nat_alt unat_of_nat_small)
  then show ?thesis using i by (simp add: buddy_listIdx_def SHD_BUDDY_PART_MIN_ORDER_def unat_sub unat_of_nat_small)
qed

lemma listAt: "lists_ok N st F \<Longrightarrow> 4 \<le> i \<Longrightarrow> i \<le> N \<Longrightarrow> N \<le> 27 \<Longrightarrow>
  buddy_listAt (snd st) (buddy_listIdx i) = Some (snd st ! (i - 4))"
  using lists_okD(1) [of N st F] by (simp add: listIdx buddy_listAt_def)

lemma lists_frame:
  assumes "lists_ok N (mem, bcbs) F" "\<And>i a. a \<in> F i \<Longrightarrow> mem' a = mem a"
  shows "lists_ok N (mem', bcbs) F"
  using assms lists_okD [OF assms(1)] unfolding lists_ok_def by (auto intro: dll_cong)

lemma lists_upd: "lists_ok N (mem, bcbs) F \<Longrightarrow> (\<And>i. a \<notin> F i) \<Longrightarrow> lists_ok N (mem(a := b), bcbs) F"
  by (erule lists_frame) auto

lemma lists_set:
  assumes l: "lists_ok N (mem, bcbs) F" and i: "4 \<le> i" "i \<le> N"
    and d: "dll mem' S h" and S: "\<And>a. a \<in> S \<Longrightarrow> bcb_head (mem' a) = (i, True)"
    and frame: "\<And>x j. j \<noteq> i \<Longrightarrow> x \<in> F j \<Longrightarrow> mem' x = mem x"
  shows "lists_ok N (mem', bcbs[i - 4 := h]) (F(i := S))"
  unfolding lists_ok_def
proof (intro conjI allI impI ballI)
  show "length (snd (mem', bcbs[i - 4 := h])) = N - 3" using lists_okD(1) [OF l] by simp
  fix j
  show "dll (fst (mem', bcbs[i - 4 := h])) ((F(i := S)) j) (snd (mem', bcbs[i - 4 := h]) ! (j - 4))" if "4 \<le> j \<and> j \<le> N"
  proof (cases "j = i")
    case True then show ?thesis using d i lists_okD(1) [OF l] by simp
  next
    case False
    then have "j - 4 \<noteq> i - 4" using that i by (simp add: eq_diff_iff)
    then show ?thesis using False lists_okD(2) [OF l, of j] that frame [OF False] by (auto intro: dll_cong)
  qed
  fix a assume "a \<in> (F(i := S)) j"
  then show "bcb_head (fst (mem', bcbs[i - 4 := h]) a) = (j, True)"
    using S frame [of j a] lists_okD(3) [OF l, of a j] by (auto split: if_splits)
qed

lemma lists_insert:
  assumes l: "lists_ok N (mem, bcbs) F" and i: "4 \<le> i" "i \<le> N"
    and a: "bcb_head (mem a) = (i, True)" "a \<notin> F i" "a < 2 ^ 27"
  obtains mem' h where "buddy_listInsert mem (bcbs ! (i - 4)) a = Some (mem', h)"
    "lists_ok N (mem', bcbs[i - 4 := h]) (F(i := insert a (F i)))"
    "bcb_head \<circ> mem' = bcb_head \<circ> mem" "\<And>x. x \<notin> insert a (F i) \<Longrightarrow> mem' x = mem x"
proof -
  have "dll mem (F i) (bcbs ! (i - 4))" using lists_okD(2) [OF l i] by simp
  then obtain mem' h where m: "buddy_listInsert mem (bcbs ! (i - 4)) a = Some (mem', h)" "dll mem' (insert a (F i)) h"
    "bcb_head \<circ> mem' = bcb_head \<circ> mem" "\<And>x. x \<notin> insert a (F i) \<Longrightarrow> mem' x = mem x"
    by (rule dll_insert [OF _ a(2,3)]) (rule that)
  have "lists_ok N (mem', bcbs[i - 4 := h]) (F(i := insert a (F i)))"
  proof (rule lists_set [OF l i m(2)])
    show "bcb_head (mem' x) = (i, True)" if "x \<in> insert a (F i)" for x
      using that a(1) fun_cong [OF m(3), of x] lists_okD(3) [OF l, of x i] by (cases "x = a") simp_all
    show "mem' x = mem x" if "j \<noteq> i" "x \<in> F j" for x j
    proof (rule m(4))
      have "x \<noteq> a" using that(1) lists_okD(3) [OF l that(2)] a(1) by auto
      moreover have "x \<notin> F i" using that(1) lists_disj [OF l that(2)] by blast
      ultimately show "x \<notin> insert a (F i)" by simp
    qed
  qed
  from m(1) this m(3,4) show ?thesis by (rule that)
qed

lemma lists_remove:
  assumes l: "lists_ok N (mem, bcbs) F" and i: "4 \<le> i" "i \<le> N" and a: "a \<in> F i"
  obtains mem' h where "buddy_listRemove mem (bcbs ! (i - 4)) a = Some (mem', h)"
    "lists_ok N (mem', bcbs[i - 4 := h]) (F(i := F i - {a}))"
    "bcb_head \<circ> mem' = bcb_head \<circ> mem" "\<And>x. x \<notin> F i \<Longrightarrow> mem' x = mem x"
proof -
  have d: "dll mem (F i) (bcbs ! (i - 4))" using lists_okD(2) [OF l i] by simp
  have "bcb_head (mem x) = (i, True)" if "x \<in> F i" for x using lists_okD(3) [OF l that] by simp
  from dll_remove [OF d a this] obtain mem' h where m: "buddy_listRemove mem (bcbs ! (i - 4)) a = Some (mem', h)"
    "dll mem' (F i - {a}) h" "bcb_head \<circ> mem' = bcb_head \<circ> mem" "\<And>x. x \<notin> F i \<Longrightarrow> mem' x = mem x" by metis
  have "lists_ok N (mem', bcbs[i - 4 := h]) (F(i := F i - {a}))"
  proof (rule lists_set [OF l i m(2)])
    show "bcb_head (mem' x) = (i, True)" if "x \<in> F i - {a}" for x
      using that fun_cong [OF m(3), of x] lists_okD(3) [OF l, of x i] by auto
    show "mem' x = mem x" if "j \<noteq> i" "x \<in> F j" for x j using that lists_disj [OF l that(2)] m(4) by blast
  qed
  from m(1) this m(3,4) show ?thesis by (rule that)
qed

lemma setHead_ok:
  assumes "v < 32"
  obtains b' where "buddycontrolblock_setOrder (buddycontrolblock_setTag b t) v = Some b'" "bcb_head b' = (v, t)"
  using setOrder_fields [OF assms, of "buddycontrolblock_setTag b t"] setTag_fields(1) [of b t]
  by (auto simp: bcb_head_def buddycontrolblock_tag_def)

subsection \<open>Splitting\<close>

lemma split_ok:
  assumes "lists_ok N (mem, bcbs) F" "4 \<le> k" "k \<le> j" "j \<le> N" "N \<le> 27" "a + 2 ^ j \<le> 2 ^ N"
    "\<And>i m. k \<le> i \<Longrightarrow> i < j \<Longrightarrow> a + 2 ^ i \<notin> F m"
  shows "\<exists>mem' bcbs'. buddy_alloc_split_blocks (mem, bcbs) a k j = Some (mem', bcbs') \<and>
     lists_ok N (mem', bcbs') (\<lambda>i. if k \<le> i \<and> i < j then insert (a + 2 ^ i) (F i) else F i) \<and>
     (\<forall>x. (\<forall>i. k \<le> i \<and> i < j \<longrightarrow> x \<noteq> a + 2 ^ i) \<longrightarrow> bcb_head (mem' x) = bcb_head (mem x))"
  using assms
proof (induction j arbitrary: mem bcbs F)
  case (Suc j)
  show ?case
  proof (cases "k = Suc j")
    case True
    then have "(\<lambda>i. if k \<le> i \<and> i < Suc j then insert (a + 2 ^ i) (F i) else F i) = F" by (auto simp: fun_eq_iff)
    then show ?thesis using True Suc.prems(1) by (subst buddy_alloc_split_blocks.simps) simp
  next
    case False
    then have kj: "k \<le> j" "j < 32" "4 \<le> j" "j \<le> N" using Suc.prems by simp_all
    let ?s = "a + 2 ^ j"
    have sF: "?s \<notin> F m" for m using Suc.prems(7) [of j m] kj by simp
    have "(2 :: nat) ^ N \<le> 2 ^ 27" using Suc.prems(5) by (rule power_increasing) simp
    moreover have "a + 2 ^ Suc j \<le> 2 ^ N" "?s < a + 2 ^ Suc j" using Suc.prems(6) by simp_all
    ultimately have s: "?s < 2 ^ 27" "a + 2 ^ j \<le> 2 ^ N" by linarith+
    obtain b where b: "buddycontrolblock_setOrder (buddycontrolblock_setTag (mem ?s) True) j = Some b" "bcb_head b = (j, True)"
      using setHead_ok [OF kj(2)] by blast
    have l1: "lists_ok N (mem(?s := b), bcbs) F" using Suc.prems(1) sF by (rule lists_upd)
    have hb: "bcb_head ((mem(?s := b)) ?s) = (j, True)" using b(2) by simp
    obtain mem1 h where m: "buddy_listInsert (mem(?s := b)) (bcbs ! (j - 4)) ?s = Some (mem1, h)"
      "lists_ok N (mem1, bcbs[j - 4 := h]) (F(j := insert ?s (F j)))"
      "bcb_head \<circ> mem1 = bcb_head \<circ> mem(?s := b)" "\<And>x. x \<notin> insert ?s (F j) \<Longrightarrow> mem1 x = (mem(?s := b)) x"
      by (rule lists_insert [OF l1 kj(3,4) hb sF s(1)]) (rule that)
    have new: "a + 2 ^ i \<notin> (F(j := insert ?s (F j))) m" if "k \<le> i" "i < j" for i m
      using that Suc.prems(7) [of i] power_strict_increasing [OF that(2), of "2 :: nat"] by auto
    from Suc.IH [OF m(2) Suc.prems(2) kj(1,4) Suc.prems(5) s(2) new] obtain mem' bcbs' where
      r: "buddy_alloc_split_blocks (mem1, bcbs[j - 4 := h]) a k j = Some (mem', bcbs')"
      "lists_ok N (mem', bcbs') (\<lambda>i. if k \<le> i \<and> i < j then insert (a + 2 ^ i) ((F(j := insert ?s (F j))) i) else (F(j := insert ?s (F j))) i)"
      "\<forall>x. (\<forall>i. k \<le> i \<and> i < j \<longrightarrow> x \<noteq> a + 2 ^ i) \<longrightarrow> bcb_head (mem' x) = bcb_head (mem1 x)" by blast
    have "buddy_alloc_split_blocks (mem, bcbs) a k (Suc j) = Some (mem', bcbs')"
      using kj b(1) m(1) r(1) listAt [OF Suc.prems(1) kj(3,4) Suc.prems(5)] listIdx [OF kj(3,2)]
      by (subst buddy_alloc_split_blocks.simps) (simp add: unat_pow2k)
    moreover have "(\<lambda>i. if k \<le> i \<and> i < j then insert (a + 2 ^ i) ((F(j := insert ?s (F j))) i) else (F(j := insert ?s (F j))) i) =
        (\<lambda>i. if k \<le> i \<and> i < Suc j then insert (a + 2 ^ i) (F i) else F i)" using kj by (auto simp: fun_eq_iff)
    moreover have "bcb_head (mem' x) = bcb_head (mem x)" if "\<forall>i. k \<le> i \<and> i < Suc j \<longrightarrow> x \<noteq> a + 2 ^ i" for x
      using that r(3) fun_cong [OF m(3), of x] kj(1) by simp
    ultimately show ?thesis using r(2) by simp
  qed
qed simp

section \<open>The invariant of the allocator\<close>

definition blocks :: "(nat \<Rightarrow> nat set) \<Rightarrow> (nat \<rightharpoonup> nat) \<Rightarrow> (nat \<times> nat) set" where
  "blocks F A = {(a, k). a \<in> F k} \<union> {(a, k). A a = Some k}"

text \<open>
  \<open>core_ok\<close> is the part that also holds while a released block is being merged; it then counts as
  allocated, but its control block is not constrained. The last conjunct says that free buddies are always merged.
\<close>

definition core_ok :: "nat \<Rightarrow> buddy_state \<Rightarrow> (nat \<Rightarrow> nat set) \<Rightarrow> (nat \<rightharpoonup> nat) \<Rightarrow> bool" where
  "core_ok N st F A \<longleftrightarrow> 4 \<le> N \<and> N \<le> 27 \<and> lists_ok N st F \<and> tiling N (blocks F A) \<and>
     (\<forall>i. \<forall>a \<in> F i. A a = None) \<and> (\<forall>i < N. \<forall>a \<in> F i. a XOR 2 ^ i \<notin> F i)"

definition heads_ok :: "pool_mem \<Rightarrow> (nat \<rightharpoonup> nat) \<Rightarrow> bool" where
  "heads_ok mem A \<longleftrightarrow> (\<forall>a k. A a = Some k \<longrightarrow> bcb_head (mem a) = (k, False))"

definition heap_ok :: "nat \<Rightarrow> buddy_state \<Rightarrow> (nat \<Rightarrow> nat set) \<Rightarrow> (nat \<rightharpoonup> nat) \<Rightarrow> bool" where
  "heap_ok N st F A \<longleftrightarrow> core_ok N st F A \<and> heads_ok (fst st) A"

lemma core_okD:
  assumes "core_ok N st F A"
  shows "4 \<le> N" "N \<le> 27" "lists_ok N st F" "tiling N (blocks F A)" "a \<in> F i \<Longrightarrow> A a = None"
    "i < N \<Longrightarrow> a \<in> F i \<Longrightarrow> a XOR 2 ^ i \<notin> F i"
  using assms unfolding core_ok_def by blast+

lemma blocks_iff: "(a, k) \<in> blocks F A \<longleftrightarrow> a \<in> F k \<or> A a = Some k"
  by (simp add: blocks_def)

lemma free_aligned: "core_ok N st F A \<Longrightarrow> a \<in> F k \<Longrightarrow> aligned N (a, k)"
  using tilingD(1) [OF core_okD(4), of N st F A "(a, k)"] by (simp add: blocks_iff)

subsection \<open>Allocation\<close>

lemma find_avail_spec:
  assumes "s \<le> n" shows "s \<le> buddy_find_avail l n s \<and> buddy_find_avail l n s \<le> n \<and>
    (\<forall>i. s \<le> i \<and> i < buddy_find_avail l n s \<longrightarrow> l ! i = None) \<and>
    (buddy_find_avail l n s < n \<longrightarrow> l ! buddy_find_avail l n s \<noteq> None)"
  using assms
proof (induction "n - s" arbitrary: s)
  case 0
  then have "buddy_find_avail l n s = s" by (subst buddy_find_avail.simps) simp
  then show ?case using 0 by auto
next
  case (Suc d)
  show ?case
  proof (cases "l ! s = None")
    case True
    have "s < n" using Suc.hyps(2) by linarith
    then have "buddy_find_avail l n s = buddy_find_avail l n (Suc s)" using True by (subst buddy_find_avail.simps) simp
    moreover have "d = n - Suc s" "Suc s \<le> n" using Suc.hyps(2) by simp_all
    note ih = Suc.hyps(1) [OF this]
    moreover have "l ! i = None" if "s \<le> i" "i < buddy_find_avail l n (Suc s)" for i
      using ih that True by (cases "i = s") auto
    ultimately show ?thesis by simp
  next
    case False
    then have "buddy_find_avail l n s = s" by (subst buddy_find_avail.simps) auto
    then show ?thesis using Suc.prems False by auto
  qed
qed

lemma inside_not_start:
  assumes "tiling N B" "(a, j) \<in> B" "i < j" shows "(a + 2 ^ i, m) \<notin> B"
proof
  assume b: "(a + 2 ^ i, m) \<in> B"
  have "a + 2 ^ i \<in> ivl (a, j)" using power_strict_increasing [OF assms(3), of "2 :: nat"] by (simp add: ivl_def)
  then have "(a + 2 ^ i, m) = (a, j)" using tilingD(2) [OF assms(1) b assms(2), of "a + 2 ^ i"] by simp
  then show False by simp
qed

text \<open>Taking the free block \<open>a\<close> of order \<open>j\<close> for a request of order \<open>k\<close>.\<close>

lemma take_block_ok:
  assumes h: "heap_ok N (mem, bcbs) F A" and a: "a \<in> F j" and k: "4 \<le> k" "k \<le> j" and j: "j \<le> N"
  obtains mem1 bcbs1 mem2 l2 b F' where
    "buddy_alloc_split_blocks (mem, bcbs) a k j = Some (mem1, bcbs1)"
    "buddy_listAt bcbs1 (j - 4) = Some (bcbs1 ! (j - 4))"
    "buddy_listRemove mem1 (bcbs1 ! (j - 4)) a = Some (mem2, l2)"
    "buddycontrolblock_setOrder (buddycontrolblock_setTag (mem2 a) False) k = Some b"
    "heap_ok N (mem2(a := b), bcbs1[j - 4 := l2]) F' (A(a \<mapsto> k))"
proof -
  have c: "core_ok N (mem, bcbs) F A" and hd: "heads_ok mem A" using h by (simp_all add: heap_ok_def)
  note l = core_okD(3) [OF c] and t = core_okD(4) [OF c] and N = core_okD(1,2) [OF c]
  have aB: "(a, j) \<in> blocks F A" using a by (simp add: blocks_iff)
  have al: "aligned N (a, j)" by (rule free_aligned [OF c a])
  have in1: "a + 2 ^ i \<notin> F m" "A (a + 2 ^ i) = None" if "i < j" for i m
    using inside_not_start [OF t aB that] by (auto simp: blocks_iff) (metis option.exhaust)
  let ?F1 = "\<lambda>i. if k \<le> i \<and> i < j then insert (a + 2 ^ i) (F i) else F i"
  obtain mem1 bcbs1 where s: "buddy_alloc_split_blocks (mem, bcbs) a k j = Some (mem1, bcbs1)"
    "lists_ok N (mem1, bcbs1) ?F1"
    "\<forall>x. (\<forall>i. k \<le> i \<and> i < j \<longrightarrow> x \<noteq> a + 2 ^ i) \<longrightarrow> bcb_head (mem1 x) = bcb_head (mem x)"
    using split_ok [OF l k j N(2), of a] al in1 by (auto simp: aligned_def)
  have aj: "a \<in> ?F1 j" using a by simp
  have j4: "4 \<le> j" using k by simp
  obtain mem2 l2 where r: "buddy_listRemove mem1 (bcbs1 ! (j - 4)) a = Some (mem2, l2)"
    "lists_ok N (mem2, bcbs1[j - 4 := l2]) (?F1(j := ?F1 j - {a}))"
    "bcb_head \<circ> mem2 = bcb_head \<circ> mem1" "\<And>x. x \<notin> ?F1 j \<Longrightarrow> mem2 x = mem1 x"
    by (rule lists_remove [OF s(2) j4 j aj]) (rule that)
  let ?F2 = "?F1(j := ?F1 j - {a})"
  have "k < 32" using k j N by simp
  then obtain b where b: "buddycontrolblock_setOrder (buddycontrolblock_setTag (mem2 a) False) k = Some b" "bcb_head b = (k, False)"
    using setHead_ok by blast
  have anot: "a \<notin> ?F2 i" for i
    using lists_disj [OF l a, of i] by (auto split: if_splits)
  have l3: "lists_ok N (mem2(a := b), bcbs1[j - 4 := l2]) ?F2"
    using r(2) anot by (rule lists_upd)
  have f2: "x \<in> ?F2 m \<longleftrightarrow> x \<in> F m \<and> (x, m) \<noteq> (a, j) \<or> k \<le> m \<and> m < j \<and> x = a + 2 ^ m" for x m
    using lists_disj [OF l a, of m] by auto
  have bl: "blocks ?F2 (A(a \<mapsto> k)) = blocks F A - {(a, j)} \<union> insert (a, k) (split_blocks a k j)"
  proof (rule set_eqI)
    fix y :: "nat \<times> nat" obtain x m where y: "y = (x, m)" by (cases y)
    have "(A(a \<mapsto> k)) x = Some m \<longleftrightarrow> (x, m) = (a, k) \<or> A x = Some m \<and> (x, m) \<noteq> (a, j)"
      using core_okD(5) [OF c a] by auto
    then show "y \<in> blocks ?F2 (A(a \<mapsto> k)) \<longleftrightarrow> y \<in> blocks F A - {(a, j)} \<union> insert (a, k) (split_blocks a k j)"
      unfolding y blocks_iff f2 by (auto simp: blocks_iff split_blocks_def)
  qed
  have t3: "tiling N (blocks ?F2 (A(a \<mapsto> k)))" unfolding bl by (rule tiling_split [OF t aB k])
  have free: "(A(a \<mapsto> k)) x = None" if "x \<in> ?F2 i" for x i
    using that anot [of i] core_okD(5) [OF c, of x] in1 by (auto split: if_splits)
  have merged: "x XOR 2 ^ i \<notin> ?F2 i" if "i < N" "x \<in> ?F2 i" for x i
  proof
    assume buddy: "x XOR 2 ^ i \<in> ?F2 i"
    have twin: "2 ^ i dvd y \<and> 2 ^ i dvd a + 2 ^ i \<and> (y = (a + 2 ^ i) XOR 2 ^ i \<longrightarrow> y = a)"
      if "k \<le> i" "i < j" "y \<in> ?F2 i" for y
    proof -
      have "2 ^ Suc i dvd (2 :: nat) ^ j" using that(2) by (intro le_imp_power_dvd) simp
      then have d: "2 ^ Suc i dvd a" using al by (auto simp: aligned_def intro: dvd_trans)
      then have d': "2 ^ i dvd a" by (metis dvd_mult_right power_Suc)
      have "aligned N (y, i)" using tilingD(1) [OF t3, of "(y, i)"] that(3) by (simp add: blocks_iff)
      moreover have "\<not> 2 ^ Suc i dvd a + 2 ^ i" using d by (simp add: dvd_add_right_iff nat_dvd_not_less)
      ultimately show ?thesis using d' xor_aligned [of i "a + 2 ^ i"] by (simp add: aligned_def)
    qed
    show False
    proof (cases "k \<le> i \<and> i < j \<and> (x = a + 2 ^ i \<or> x XOR 2 ^ i = a + 2 ^ i)")
      case True
      then have "x XOR 2 ^ i = (a + 2 ^ i) XOR 2 ^ i \<or> x = (a + 2 ^ i) XOR 2 ^ i"
        by (metis xor.assoc xor.right_neutral xor_self_eq)
      then have "x = a \<or> x XOR 2 ^ i = a" using True twin [of x] twin [of "x XOR 2 ^ i"] that(2) buddy by auto
      then show False using anot [of i] that(2) buddy by auto
    next
      case False
      then show False using that buddy core_okD(6) [OF c that(1), of x] unfolding f2 by auto
    qed
  qed
  have "core_ok N (mem2(a := b), bcbs1[j - 4 := l2]) ?F2 (A(a \<mapsto> k))"
    using N l3 t3 free merged unfolding core_ok_def by blast
  moreover have "heads_ok (mem2(a := b)) (A(a \<mapsto> k))"
    unfolding heads_ok_def
  proof (intro allI impI)
    fix x m assume x: "(A(a \<mapsto> k)) x = Some m"
    show "bcb_head ((mem2(a := b)) x) = (m, False)"
    proof (cases "x = a")
      case True then show ?thesis using x b(2) by simp
    next
      case False
      then have "A x = Some m" using x by simp
      moreover have "bcb_head (mem2 x) = bcb_head (mem x)"
        using s(3) in1(2) \<open>A x = Some m\<close> fun_cong [OF r(3), of x] by (metis comp_apply option.distinct(1))
      ultimately show ?thesis using hd False by (simp add: heads_ok_def)
    qed
  qed
  moreover have "buddy_listAt bcbs1 (j - 4) = Some (bcbs1 ! (j - 4))"
    using lists_okD(1) [OF s(2)] j4 j by (simp add: buddy_listAt_def)
  ultimately show ?thesis using s(1) r(1) b(1)
    by (intro that [of mem1 bcbs1 mem2 l2 b ?F2]) (simp_all add: heap_ok_def)
qed

text \<open>The order of the block for a request, and the requests the allocator can take.\<close>

definition request_order :: "u64 \<Rightarrow> nat \<Rightarrow> bool" where
  "request_order r k \<longleftrightarrow> (\<exists>y. shmem_util_roundUpPow2 (ucast (r + of_nat sizeof_BuddyControlBlock)) = Some y \<and>
     unat (shmem_util_uintLog2 y) = k) \<and> 4 \<le> k \<and> k < 32 \<and> unat r + 8 \<le> 2 ^ k \<and> 2 ^ k < 2 * (unat r + 8)"

lemma request_order_ex:
  assumes "r \<noteq> 0" "unat r + 8 \<le> 2 ^ 31"
  obtains k where "request_order r k"
proof -
  have u: "unat (r + of_nat sizeof_BuddyControlBlock) = unat r + 8"
    using assms(2) by (subst add_no_wrap) (simp_all add: sizeof_BuddyControlBlock_def)
  have "unat (ucast (r + of_nat sizeof_BuddyControlBlock) :: u32) = unat r + 8"
    using assms(2) u by (simp add: unsigned_ucast_eq take_bit_nat_eq_self)
  moreover have "0 < unat r" using assms(1) by (simp add: unat_gt_0)
  ultimately obtain y k where y: "shmem_util_roundUpPow2 (ucast (r + of_nat sizeof_BuddyControlBlock)) = Some y" "k < 32"
    "unat y = 2 ^ k" "unat r + 8 \<le> 2 ^ k" "2 ^ k < 2 * (unat r + 8)" "8 < unat r + 8"
    using shmem_util_roundUpPow2_spec [of "ucast (r + of_nat sizeof_BuddyControlBlock)"] assms(2)
    by (metis add.commute add_gr_0 less_add_same_cancel1 less_irrefl unsigned_0 zero_less_numeral)
  have "2 ^ 3 < (2 :: nat) ^ k" using y(4,6) by simp
  then have "3 < k" by (rule power_less_imp_less_exp [rotated]) simp
  then show ?thesis using y by (intro that [of k]) (auto simp: request_order_def unat_log2_pow2k)
qed

lemma pool_orders:
  assumes "unat pool = 2 ^ N" "4 \<le> N" "N \<le> 27"
  shows "buddy_poolMaxOrder pool = N" "buddy_metaNumLists pool = N - 3"
proof -
  have n: "unat (shmem_util_uintLog2 pool) = N" using assms by (intro unat_log2_pow2k) simp_all
  then show "buddy_poolMaxOrder pool = N" by (simp add: buddy_poolMaxOrder_def)
  have e: "shmem_util_uintLog2 pool = of_nat N" using n by (metis of_nat_unat ucast_id)
  have le: "(4 :: u32) \<le> of_nat N" using assms by (simp add: word_le_nat_alt unat_of_nat_small)
  have u: "unat (of_nat N - 4 :: u32) = N - 4" using le assms by (simp add: unat_sub unat_of_nat_small)
  then have "unat (of_nat N - 4 + 1 :: u32) = N - 4 + 1" using assms by (subst add_no_wrap) simp_all
  then show "buddy_metaNumLists pool = N - 3"
    using assms by (simp add: buddy_metaNumLists_def e SHD_BUDDY_PART_MIN_ORDER_def)
qed

lemma head_mem: "dll mem S (Some a) \<Longrightarrow> a \<in> S"
  using dllD(1) [of mem S "Some a"] by (simp add: first_in_def)

lemma head_none: "dll mem S None \<Longrightarrow> S = {}"
  using dllD(1) [of mem S None] by (simp add: first_in_def)

lemma alloc_ok:
  assumes h: "heap_ok N st F A" and pool: "unat pool = 2 ^ N" and r: "r \<noteq> 0" "request_order r k" "k \<le> Suc N"
  shows "buddy_alloc r st pool = Some (None, st) \<and> (\<forall>i. k \<le> i \<and> i \<le> N \<longrightarrow> F i = {}) \<or>
    (\<exists>a st' F'. buddy_alloc r st pool = Some (Some (a + 8), st') \<and> heap_ok N st' F' (A(a \<mapsto> k)) \<and> A a = None)"
proof -
  obtain mem bcbs where st: "st = (mem, bcbs)" by (cases st)
  have c: "core_ok N st F A" using h by (simp add: heap_ok_def)
  note l = core_okD(3) [OF c] and N = core_okD(1,2) [OF c]
  obtain y where y: "shmem_util_roundUpPow2 (ucast (r + of_nat sizeof_BuddyControlBlock)) = Some y"
    "unat (shmem_util_uintLog2 y) = k" and k: "4 \<le> k" "k < 32" using r(2) by (auto simp: request_order_def)
  let ?idx = "buddy_find_avail bcbs (N - 3) (k - 4)"
  have fa: "k - 4 \<le> ?idx" "?idx \<le> N - 3" "\<And>i. k - 4 \<le> i \<Longrightarrow> i < ?idx \<Longrightarrow> bcbs ! i = None"
    "?idx < N - 3 \<Longrightarrow> bcbs ! ?idx \<noteq> None"
    using find_avail_spec [of "k - 4" "N - 3" bcbs] r(3) N k by auto
  have nl: "buddy_metaNumLists pool = N - 3" using pool_orders [OF pool N] by simp
  have len: "length bcbs = N - 3" using lists_okD(1) [OF l] st by simp
  show ?thesis
  proof (cases "?idx = N - 3")
    case True
    then have "buddy_alloc r st pool = Some (None, st)"
      using r(1) y nl k listIdx [OF k] st by (simp add: buddy_alloc_def Let_def)
    moreover have "F i = {}" if "k \<le> i" "i \<le> N" for i
    proof -
      have "bcbs ! (i - 4) = None" using fa(3) [of "i - 4"] True that k by simp
      then show ?thesis using lists_okD(2) [OF l, of i] that k st head_none by simp
    qed
    ultimately show ?thesis by blast
  next
    case False
    then have lt: "?idx < N - 3" using fa(2) by simp
    then obtain a where a: "bcbs ! ?idx = Some a" using fa(4) by auto
    let ?j = "?idx + 4"
    have j: "k \<le> ?j" "?j \<le> N" "4 \<le> ?j" using fa(1) lt by simp_all
    have "dll mem (F ?j) (bcbs ! ?idx)" using lists_okD(2) [OF l j(3,2)] st by simp
    then have aF: "a \<in> F ?j" using a by (simp add: head_mem)
    obtain mem1 bcbs1 mem2 l2 b F' where t: "buddy_alloc_split_blocks (mem, bcbs) a k ?j = Some (mem1, bcbs1)"
      "buddy_listAt bcbs1 (?j - 4) = Some (bcbs1 ! (?j - 4))"
      "buddy_listRemove mem1 (bcbs1 ! (?j - 4)) a = Some (mem2, l2)"
      "buddycontrolblock_setOrder (buddycontrolblock_setTag (mem2 a) False) k = Some b"
      "heap_ok N (mem2(a := b), bcbs1[?j - 4 := l2]) F' (A(a \<mapsto> k))"
      by (rule take_block_ok [OF h [unfolded st] aF k(1) j(1,2)]) (rule that)
    have "buddy_alloc r st pool = Some (Some (a + 8), (mem2(a := b), bcbs1[?idx := l2]))"
      using False r(1) y nl k listIdx [OF k] t(1-4) a lt len st
      by (simp add: buddy_alloc_def Let_def buddy_listAt_def [of bcbs] SHD_BUDDY_PART_MIN_ORDER_def sizeof_BuddyControlBlock_def)
    then show ?thesis using t(5) core_okD(5) [OF c aF] by (intro disjI2) auto
  qed
qed

subsection \<open>Release\<close>

lemma computeBuddy: "k < 32 \<Longrightarrow> buddycontrolblock_computeBuddy a k = a XOR 2 ^ k"
  by (simp add: buddycontrolblock_computeBuddy_def unat_pow2k)

lemma available_iff: "buddycontrolblock_buddy_available b k \<longleftrightarrow> bcb_head b = (k, True)"
  by (auto simp: buddycontrolblock_buddy_available_def bcb_head_def)

lemma xor_twice: "(a XOR b) XOR b = (a :: nat)"
  by (simp add: xor.assoc)

lemma xor_self: "a XOR 2 ^ k \<noteq> (a :: nat)"
proof
  assume "a XOR 2 ^ k = a"
  then have "a XOR (a XOR 2 ^ k) = 0" by simp
  then show False by (simp flip: xor.assoc)
qed

text \<open>The released block \<open>c\<close> absorbs its buddy.\<close>

lemma merge_step:
  assumes c: "core_ok N (mem, bcbs) F (A(c \<mapsto> k))" and A: "A c = None" and hd: "heads_ok mem A" and k: "k < N"
    and av: "buddycontrolblock_buddy_available (mem (c XOR 2 ^ k)) k"
  obtains mem1 h b c' F' where "buddy_listRemove mem (bcbs ! (k - 4)) (c XOR 2 ^ k) = Some (mem1, h)"
    "c' = (if c < c XOR 2 ^ k then c else c XOR 2 ^ k)"
    "buddycontrolblock_setOrder (mem1 c') (Suc k) = Some b" "buddycontrolblock_order b = Suc k"
    "core_ok N (mem1(c' := b), bcbs[k - 4 := h]) F' (A(c' \<mapsto> Suc k))" "A c' = None" "heads_ok (mem1(c' := b)) A"
proof -
  let ?b = "c XOR 2 ^ k" let ?A = "A(c \<mapsto> k)"
  note l = core_okD(3) [OF c] and t = core_okD(4) [OF c] and N = core_okD(1,2) [OF c]
  have cB: "(c, k) \<in> blocks F ?A" by (simp add: blocks_iff)
  have k4: "4 \<le> k" using tilingD(1) [OF t cB] by (simp add: aligned_def)
  obtain m where m: "(?b, m) \<in> blocks F ?A" "m \<le> k" by (rule buddy_is_block [OF t cB k])
  have bF: "?b \<in> F k"
  proof -
    have hb: "bcb_head (mem ?b) = (k, True)" using av by (simp add: available_iff)
    from m(1) consider "?b \<in> F m" | "A ?b = Some m" using xor_self [of c k] by (auto simp: blocks_iff)
    then show ?thesis
    proof cases
      case 1 then show ?thesis using lists_okD(3) [OF l, of ?b m] hb by simp
    next
      case 2 then show ?thesis using hd hb by (simp add: heads_ok_def)
    qed
  qed
  obtain mem1 h where r: "buddy_listRemove mem (bcbs ! (k - 4)) ?b = Some (mem1, h)"
    "lists_ok N (mem1, bcbs[k - 4 := h]) (F(k := F k - {?b}))"
    "bcb_head \<circ> mem1 = bcb_head \<circ> mem" "\<And>x. x \<notin> F k \<Longrightarrow> mem1 x = mem x"
    by (rule lists_remove [OF l k4 less_imp_le [OF k] bF]) (rule that)
  let ?F = "F(k := F k - {?b})"
  define c' where "c' = (if c < ?b then c else ?b)"
  have c': "c' = min c ?b" "c' = c \<or> c' = ?b" by (auto simp: c'_def)
  have AB: "A ?b = None" using core_okD(5) [OF c bF] by (auto split: if_splits)
  have Ac': "A c' = None" using c'(2) A AB by auto
  have cF: "c \<notin> F i" for i using core_okD(5) [OF c, of c i] by auto
  have c'F: "c' \<notin> ?F i" for i using c'(2) cF [of i] lists_disj [OF l bF, of i] by auto
  obtain b where b: "buddycontrolblock_setOrder (mem1 c') (Suc k) = Some b" "buddycontrolblock_order b = Suc k"
    using setOrder_fields [of "Suc k" "mem1 c'"] k N by auto
  have l2: "lists_ok N (mem1(c' := b), bcbs[k - 4 := h]) ?F" using r(2) c'F by (rule lists_upd)
  have bl: "blocks ?F (A(c' \<mapsto> Suc k)) = blocks F ?A - {(c, k), (?b, k)} \<union> {(min c ?b, Suc k)}"
  proof (rule set_eqI)
    fix y :: "nat \<times> nat" obtain x n where y: "y = (x, n)" by (cases y)
    have f: "x \<in> ?F n \<longleftrightarrow> x \<in> F n \<and> (x, n) \<noteq> (?b, k)" by auto
    have p: "(A(c' \<mapsto> Suc k)) x = Some n \<longleftrightarrow> (x, n) = (c', Suc k) \<or> A x = Some n" using Ac' by auto
    have q: "?A x = Some n \<longleftrightarrow> (x, n) = (c, k) \<or> A x = Some n" using A by auto
    have "x \<in> F n \<Longrightarrow> x \<noteq> c" "A x = Some n \<Longrightarrow> x \<noteq> c \<and> x \<noteq> ?b" using cF A AB by auto
    then show "y \<in> blocks ?F (A(c' \<mapsto> Suc k)) \<longleftrightarrow> y \<in> blocks F ?A - {(c, k), (?b, k)} \<union> {(min c ?b, Suc k)}"
      unfolding y Un_iff Diff_iff blocks_iff f p q c'(1) by auto
  qed
  have "tiling N (blocks ?F (A(c' \<mapsto> Suc k)))"
    unfolding bl using bF by (intro tiling_merge [OF t cB _ k]) (simp add: blocks_iff)
  moreover have "(A(c' \<mapsto> Suc k)) a = None" if "a \<in> ?F i" for a i
    using that c'F [of i] core_okD(5) [OF c, of a i] by (auto split: if_splits)
  moreover have "a XOR 2 ^ i \<notin> ?F i" if "i < N" "a \<in> ?F i" for a i
    using that core_okD(6) [OF c that(1), of a] by (auto split: if_splits)
  ultimately have "core_ok N (mem1(c' := b), bcbs[k - 4 := h]) ?F (A(c' \<mapsto> Suc k))"
    using N l2 unfolding core_ok_def by blast
  moreover have "heads_ok (mem1(c' := b)) A"
    using hd Ac' fun_cong [OF r(3)] by (auto simp: heads_ok_def)
  ultimately show ?thesis using r(1) c'_def b Ac' by (intro that [of mem1 h c' b ?F])
qed

lemma merge_ok:
  assumes "core_ok N (mem, bcbs) F (A(c \<mapsto> k))" "A c = None" "heads_ok mem A" "buddycontrolblock_order (mem c) = k"
  shows "\<exists>mem' bcbs' c' k' F'. buddy_merge (mem, bcbs) c k N = Some ((mem', bcbs'), c', k') \<and>
    core_ok N (mem', bcbs') F' (A(c' \<mapsto> k')) \<and> A c' = None \<and> heads_ok mem' A \<and>
    buddycontrolblock_order (mem' c') = k' \<and> (k' < N \<longrightarrow> c' XOR 2 ^ k' \<notin> F' k')"
  using assms
proof (induction "N - k" arbitrary: mem bcbs F c k rule: less_induct)
  case less
  note N = core_okD(1,2) [OF less.prems(1)]
  have kN: "4 \<le> k" "k \<le> N" using tilingD(1) [OF core_okD(4) [OF less.prems(1)], of "(c, k)"] by (auto simp: blocks_iff aligned_def)
  have cb: "buddycontrolblock_computeBuddy c k = c XOR 2 ^ k" using kN N by (intro computeBuddy) simp
  show ?case
  proof (cases "k < N \<and> buddycontrolblock_buddy_available (mem (c XOR 2 ^ k)) k")
    case True
    then have k: "k < N" and av: "buddycontrolblock_buddy_available (mem (c XOR 2 ^ k)) k" by simp_all
    obtain mem1 h b c' F' where s: "buddy_listRemove mem (bcbs ! (k - 4)) (c XOR 2 ^ k) = Some (mem1, h)"
      "c' = (if c < c XOR 2 ^ k then c else c XOR 2 ^ k)"
      "buddycontrolblock_setOrder (mem1 c') (Suc k) = Some b" "buddycontrolblock_order b = Suc k"
      "core_ok N (mem1(c' := b), bcbs[k - 4 := h]) F' (A(c' \<mapsto> Suc k))" "A c' = None" "heads_ok (mem1(c' := b)) A"
      by (rule merge_step [OF less.prems(1-3) k av]) (rule that)
    have "buddy_merge (mem, bcbs) c k N = buddy_merge (mem1(c' := b), bcbs[k - 4 := h]) c' (Suc k) N"
      using True cb s(1-3) listAt [OF core_okD(3) [OF less.prems(1)] kN N(2)] listIdx [OF kN(1)] kN N
      by (subst buddy_merge.simps) (simp add: Let_def)
    moreover have "N - Suc k < N - k" using k by simp
    ultimately show ?thesis using less.hyps [OF _ s(5-7)] s(4) by simp
  next
    case False
    then have "buddy_merge (mem, bcbs) c k N = Some ((mem, bcbs), c, k)"
      using cb by (subst buddy_merge.simps) (auto simp: Let_def)
    moreover have "c XOR 2 ^ k \<notin> F k" if "k < N"
      using that False lists_okD(3) [OF core_okD(3) [OF less.prems(1)], of "c XOR 2 ^ k" k] by (auto simp: available_iff)
    ultimately show ?thesis using less.prems by (intro exI [of _ mem] exI [of _ bcbs] exI [of _ c] exI [of _ k] exI [of _ F]) simp
  qed
qed

lemma put_block_ok:
  assumes c: "core_ok N (mem, bcbs) F (A(a \<mapsto> k))" and A: "A a = None" and hd: "heads_ok mem A"
    and ord: "buddycontrolblock_order (mem a) = k" and buddy: "k < N \<longrightarrow> a XOR 2 ^ k \<notin> F k"
  obtains mem' h where "buddy_listInsert (mem(a := buddycontrolblock_setTag (mem a) True)) (bcbs ! (k - 4)) a = Some (mem', h)"
    "heap_ok N (mem', bcbs[k - 4 := h]) (F(k := insert a (F k))) A"
proof -
  note l = core_okD(3) [OF c] and t = core_okD(4) [OF c] and N = core_okD(1,2) [OF c]
  have al: "aligned N (a, k)" using tilingD(1) [OF t, of "(a, k)"] by (simp add: blocks_iff)
  then have k: "4 \<le> k" "k \<le> N" and "a + 2 ^ k \<le> 2 ^ N" by (simp_all add: aligned_def)
  moreover have "(2 :: nat) ^ N \<le> 2 ^ 27" using N(2) by (rule power_increasing) simp
  moreover have "a < a + 2 ^ k" by simp
  ultimately have a27: "a < 2 ^ 27" by linarith
  let ?mem = "mem(a := buddycontrolblock_setTag (mem a) True)"
  have aF: "a \<notin> F i" for i using core_okD(5) [OF c, of a i] by auto
  have l1: "lists_ok N (?mem, bcbs) F" using l aF by (rule lists_upd)
  have hb: "bcb_head (?mem a) = (k, True)" using ord by (simp add: bcb_head_def buddycontrolblock_order_def)
  obtain mem' h where r: "buddy_listInsert ?mem (bcbs ! (k - 4)) a = Some (mem', h)"
    "lists_ok N (mem', bcbs[k - 4 := h]) (F(k := insert a (F k)))"
    "bcb_head \<circ> mem' = bcb_head \<circ> ?mem" "\<And>x. x \<notin> insert a (F k) \<Longrightarrow> mem' x = ?mem x"
    by (rule lists_insert [OF l1 k hb aF a27]) (rule that)
  let ?F = "F(k := insert a (F k))"
  have "(x, m) \<in> blocks ?F A \<longleftrightarrow> (x, m) \<in> blocks F (A(a \<mapsto> k))" for x m
    using A by (auto simp: blocks_iff)
  then have "blocks ?F A = blocks F (A(a \<mapsto> k))" by auto
  then have "tiling N (blocks ?F A)" using t by simp
  moreover have "A x = None" if "x \<in> ?F i" for x i
    using that A core_okD(5) [OF c, of x i] by (auto split: if_splits)
  moreover have "x XOR 2 ^ i \<notin> ?F i" if i: "i < N" and x: "x \<in> ?F i" for x i
  proof (cases "i = k")
    case True
    then have b: "a XOR 2 ^ k \<notin> F k" using buddy i by simp
    have "x XOR 2 ^ k \<noteq> a" if "x \<in> F k" using that b xor_twice [of x "2 ^ k"] by auto
    then show ?thesis using True x b core_okD(6) [OF c i, of x] xor_self [of a k] by auto
  next
    case False then show ?thesis using x core_okD(6) [OF c i, of x] by simp
  qed
  ultimately have "core_ok N (mem', bcbs[k - 4 := h]) ?F A" using N r(2) unfolding core_ok_def by blast
  moreover have "heads_ok mem' A"
    unfolding heads_ok_def
  proof (intro allI impI)
    fix x m assume "A x = Some m"
    then show "bcb_head (mem' x) = (m, False)" using A hd fun_cong [OF r(3), of x] by (auto simp: heads_ok_def)
  qed
  ultimately show ?thesis using r(1) by (intro that [of mem' h]) (simp_all add: heap_ok_def)
qed

lemma free_ok:
  assumes h: "heap_ok N st F A" and pool: "unat pool = 2 ^ N" and a: "A a = Some k"
  obtains st' F' where "buddy_free (Some (a + 8)) st pool = Some st'" "heap_ok N st' F' (A(a := None))"
proof -
  obtain mem bcbs where st: "st = (mem, bcbs)" by (cases st)
  have c: "core_ok N (mem, bcbs) F ((A(a := None))(a \<mapsto> k))" and hd: "heads_ok mem A"
    using h a st by (simp_all add: heap_ok_def map_upd_triv)
  then have ord: "buddycontrolblock_order (mem a) = k" using a by (simp add: heads_ok_def bcb_head_def)
  have "heads_ok mem (A(a := None))" using hd by (auto simp: heads_ok_def split: if_splits)
  from merge_ok [OF c _ this ord] obtain mem' bcbs' c' k' F' where
    m: "buddy_merge (mem, bcbs) a k N = Some ((mem', bcbs'), c', k')"
    "core_ok N (mem', bcbs') F' ((A(a := None))(c' \<mapsto> k'))" "(A(a := None)) c' = None" "heads_ok mem' (A(a := None))"
    "buddycontrolblock_order (mem' c') = k'" "k' < N \<longrightarrow> c' XOR 2 ^ k' \<notin> F' k'" by auto
  obtain mem2 h2 where p: "buddy_listInsert (mem'(c' := buddycontrolblock_setTag (mem' c') True)) (bcbs' ! (k' - 4)) c' = Some (mem2, h2)"
    "heap_ok N (mem2, bcbs'[k' - 4 := h2]) (F'(k' := insert c' (F' k'))) (A(a := None))"
    by (rule put_block_ok [OF m(2-6)]) (rule that)
  have N: "4 \<le> N" "N \<le> 27" using core_okD(1,2) [OF c] .
  have k': "4 \<le> k'" "k' \<le> N" using tilingD(1) [OF core_okD(4) [OF m(2)], of "(c', k')"] by (auto simp: blocks_iff aligned_def)
  have "buddy_free (Some (a + 8)) st pool = Some (mem2, bcbs'[k' - 4 := h2])"
    using m(1) p(1) ord pool_orders(1) [OF pool N] listAt [OF core_okD(3) [OF m(2)] k' N(2)] listIdx [OF k'(1)] k' N st
    by (simp add: buddy_free_def buddy_retreiveBCB_def sizeof_BuddyControlBlock_def Let_def)
  then show ?thesis using p(2) by (rule that)
qed

section \<open>Histories\<close>

text \<open>
  The states that allocations, releases of live allocations, and writes of the owners into the bytes they asked
  for can reach. The ghost \<open>L\<close> maps the pointer of each live allocation to the number of bytes of its
  request.
\<close>

inductive buddy_reach :: "u32 \<Rightarrow> buddy_state \<Rightarrow> (nat \<rightharpoonup> u64) \<Rightarrow> bool" for pool where
  init: "buddy_poolInit mem pool = Some mem' \<Longrightarrow> buddy_reach pool (mem', buddy_metaInit pool) Map.empty"
| alloc: "buddy_reach pool st L \<Longrightarrow> unat r + 8 \<le> 2 * unat pool \<Longrightarrow> buddy_alloc r st pool = Some (Some p, st') \<Longrightarrow>
    buddy_reach pool st' (L(p \<mapsto> r))"
| exhausted: "buddy_reach pool st L \<Longrightarrow> unat r + 8 \<le> 2 * unat pool \<Longrightarrow> buddy_alloc r st pool = Some (None, st') \<Longrightarrow>
    buddy_reach pool st' L"
| release: "buddy_reach pool st L \<Longrightarrow> L p = Some r \<Longrightarrow> buddy_free (Some p) st pool = Some st' \<Longrightarrow>
    buddy_reach pool st' (L(p := None))"
| store: "buddy_reach pool (mem, bcbs) L \<Longrightarrow>
    (\<And>x. mem' x \<noteq> mem x \<Longrightarrow> \<exists>p r. L p = Some r \<and> p \<le> x \<and> x < p + unat r) \<Longrightarrow>
    buddy_reach pool (mem', bcbs) L"

text \<open>The live allocations are the allocated blocks, each with the order of its request.\<close>

definition live_ok :: "(nat \<rightharpoonup> nat) \<Rightarrow> (nat \<rightharpoonup> u64) \<Rightarrow> bool" where
  "live_ok A L \<longleftrightarrow> (\<forall>a k. A a = Some k \<longrightarrow> (\<exists>r. L (a + 8) = Some r \<and> r \<noteq> 0 \<and> request_order r k)) \<and>
     (\<forall>p r. L p = Some r \<longrightarrow> (\<exists>a k. p = a + 8 \<and> A a = Some k))"

lemma live_ok_alloc:
  assumes "live_ok A L" "r \<noteq> 0" "request_order r k" shows "live_ok (A(a \<mapsto> k)) (L(a + 8 \<mapsto> r))"
  unfolding live_ok_def
proof (intro conjI allI impI)
  show "\<exists>s. (L(a + 8 \<mapsto> r)) (b + 8) = Some s \<and> s \<noteq> 0 \<and> request_order s m" if "(A(a \<mapsto> k)) b = Some m" for b m
    using that assms by (cases "b = a") (simp_all add: live_ok_def)
  show "\<exists>b m. p = b + 8 \<and> (A(a \<mapsto> k)) b = Some m" if "(L(a + 8 \<mapsto> r)) p = Some s" for p s
  proof (cases "p = a + 8")
    case False
    then have "L p = Some s" using that by simp
    then obtain b m where "p = b + 8" "A b = Some m" using assms(1) unfolding live_ok_def by blast
    then show ?thesis using False by (intro exI [of _ b] exI [of _ m]) auto
  qed auto
qed

lemma live_ok_free:
  assumes "live_ok A L" shows "live_ok (A(a := None)) (L(a + 8 := None))"
  unfolding live_ok_def
proof (intro conjI allI impI)
  show "\<exists>s. (L(a + 8 := None)) (b + 8) = Some s \<and> s \<noteq> 0 \<and> request_order s m" if "(A(a := None)) b = Some m" for b m
    using that assms by (cases "b = a") (simp_all add: live_ok_def)
  show "\<exists>b m. p = b + 8 \<and> (A(a := None)) b = Some m" if p: "(L(a + 8 := None)) p = Some s" for p s
  proof -
    have ne: "p \<noteq> a + 8" using p by auto
    then have "L p = Some s" using p by simp
    then obtain b m where "p = b + 8" "A b = Some m" using assms unfolding live_ok_def by blast
    then show ?thesis using ne by (intro exI [of _ b] exI [of _ m]) auto
  qed
qed

lemma init_ok:
  assumes "unat pool = 2 ^ N" "4 \<le> N" "N \<le> 27" "buddy_poolInit mem pool = Some mem'"
  shows "heap_ok N (mem', buddy_metaInit pool) (\<lambda>i. if i = N then {0} else {}) Map.empty"
proof -
  note o = pool_orders [OF assms(1-3)]
  obtain b1 where b1: "buddycontrolblock_setNxt (mem 0) 0 = Some b1" "buddycontrolblock_nxt b1 = 0" using setNxt_fields [of 0 "mem 0"] by auto
  obtain b2 where b2: "buddycontrolblock_setPrv b1 0 = Some b2" "buddycontrolblock_prv b2 = 0" "bcb_nxt b2 = bcb_nxt b1"
    using setPrv_fields [of 0 b1] by auto
  obtain b3 where b3: "buddycontrolblock_setOrder (buddycontrolblock_setTag b2 True) N = Some b3" "buddycontrolblock_order b3 = N"
    "buddycontrolblock_nxt b3 = buddycontrolblock_nxt (buddycontrolblock_setTag b2 True)" "bcb_prv b3 = bcb_prv (buddycontrolblock_setTag b2 True)"
    using setOrder_fields [of N "buddycontrolblock_setTag b2 True"] assms(3) by auto
  have m: "mem' = mem(0 := b3)" using assms(4) b1(1) b2(1) b3(1) o by (simp add: buddy_poolInit_def)
  have b: "buddycontrolblock_nxt b3 = 0" "buddycontrolblock_prv b3 = 0" "buddycontrolblock_tag b3"
    using b1(2) b2(2,3) b3(3,4) setTag_fields(1,2) [of b2 True]
    by (simp_all add: buddycontrolblock_nxt_def buddycontrolblock_prv_def buddycontrolblock_tag_def)
  have "dll mem' {0} (Some 0)"
    using b m by (simp add: dll_def first_in_def next_in_def prev_in_def buddycontrolblock_nxtBlock_def buddycontrolblock_prvBlock_def)
  moreover have "buddy_metaInit pool ! (i - 4) = (if i = N then Some 0 else None)" if "4 \<le> i" "i \<le> N" for i
  proof -
    have "N - 3 - 1 = N - 4" "i - 4 < N - 3" "N - 4 = i - 4 \<longleftrightarrow> i = N" using that assms(2) by auto
    then show ?thesis unfolding buddy_metaInit_def o Let_def by (simp add: nth_list_update)
  qed
  moreover have "length (buddy_metaInit pool) = N - 3" using o by (simp add: buddy_metaInit_def Let_def)
  moreover have "bcb_head (mem' 0) = (N, True)" using b b3(2) m by (simp add: bcb_head_def)
  ultimately have "lists_ok N (mem', buddy_metaInit pool) (\<lambda>i. if i = N then {0} else {})"
    unfolding lists_ok_def fst_conv snd_conv by (simp add: dll_empty)
  moreover have bl: "blocks (\<lambda>i. if i = N then {0} else {}) Map.empty = {(0, N)}" by (auto simp: blocks_def split: if_splits)
  have "tiling N {(0, N)}" using assms(2) by (simp add: tiling_def aligned_def ivl_def lessThan_atLeast0)
  then have "tiling N (blocks (\<lambda>i. if i = N then {0} else {}) Map.empty)" unfolding bl .
  ultimately show ?thesis using assms(2,3) by (simp add: heap_ok_def core_ok_def heads_ok_def)
qed

lemma store_ok:
  assumes h: "heap_ok N (mem, bcbs) F A" and L: "live_ok A L"
    and w: "\<And>x. mem' x \<noteq> mem x \<Longrightarrow> \<exists>p r. L p = Some r \<and> p \<le> x \<and> x < p + unat r"
  shows "heap_ok N (mem', bcbs) F A"
proof -
  have c: "core_ok N (mem, bcbs) F A" using h by (simp add: heap_ok_def)
  have same: "mem' x = mem x" if x: "(x, m) \<in> blocks F A" for x m
  proof (rule ccontr)
    assume "mem' x \<noteq> mem x"
    then obtain p r where p: "L p = Some r" "p \<le> x" "x < p + unat r" using w by blast
    then obtain a k where a: "p = a + 8" "A a = Some k" using L unfolding live_ok_def by blast
    then have "request_order r k" using L p(1) unfolding live_ok_def by (metis option.inject)
    then have "x \<in> ivl (a, k)" using p a by (simp add: ivl_def request_order_def)
    moreover have "(a, k) \<in> blocks F A" using a by (simp add: blocks_iff)
    ultimately have "(x, m) = (a, k)" using tilingD(2) [OF core_okD(4) [OF c] x, of "(a, k)" x] by simp
    then show False using p(2) a(1) by simp
  qed
  have "lists_ok N (mem', bcbs) F"
    using core_okD(3) [OF c] by (rule lists_frame) (use same in \<open>auto simp: blocks_iff\<close>)
  moreover have "heads_ok mem' A"
    unfolding heads_ok_def
  proof (intro allI impI)
    fix a k assume a: "A a = Some k"
    then have "mem' a = mem a" using same [of a k] by (simp add: blocks_iff)
    then show "bcb_head (mem' a) = (k, False)" using h a by (simp add: heap_ok_def heads_ok_def)
  qed
  ultimately show ?thesis using c by (simp add: heap_ok_def core_ok_def)
qed

lemma request_bound:
  assumes "r \<noteq> 0" "unat r + 8 \<le> 2 * 2 ^ N" "N \<le> 27"
  obtains k where "request_order r k" "k \<le> Suc N"
proof -
  have "(2 :: nat) ^ Suc N \<le> 2 ^ 28" using assms(3) by (intro power_increasing) simp_all
  then have "unat r + 8 \<le> 2 ^ 31" using assms(2) by simp
  then obtain k where k: "request_order r k" by (rule request_order_ex [OF assms(1)])
  then have "(2 :: nat) ^ k < 2 ^ Suc (Suc N)" using assms(2) by (simp add: request_order_def)
  then have "k < Suc (Suc N)" by (rule power_less_imp_less_exp [rotated]) simp
  then show ?thesis using k by (intro that [of k]) simp_all
qed

lemma reach_ok:
  assumes "buddy_reach pool st L" "unat pool = 2 ^ N" "4 \<le> N" "N \<le> 27"
  shows "\<exists>F A. heap_ok N st F A \<and> live_ok A L"
  using assms
proof (induction rule: buddy_reach.induct)
  case (init mem mem')
  have "live_ok Map.empty Map.empty" by (simp add: live_ok_def)
  then show ?case using init_ok [OF init(2-4,1)] by blast
next
  case (alloc st L r p st')
  then obtain F A where h: "heap_ok N st F A" "live_ok A L" by blast
  have r: "r \<noteq> 0" using alloc(3) by (auto simp: buddy_alloc_def)
  obtain k where k: "request_order r k" "k \<le> Suc N"
    by (rule request_bound [OF r, of N]) (use alloc in simp_all)
  obtain a F' where a: "p = a + 8" "heap_ok N st' F' (A(a \<mapsto> k))" "A a = None"
    using alloc_ok [OF h(1) alloc.prems(1) r k] alloc(3) by auto
  have "live_ok (A(a \<mapsto> k)) (L(p \<mapsto> r))" unfolding a(1) by (rule live_ok_alloc [OF h(2) r k(1)])
  then show ?case using a(2) by blast
next
  case (exhausted st L r st')
  then obtain F A where h: "heap_ok N st F A" "live_ok A L" by blast
  have "st' = st"
  proof (cases "r = 0")
    case True then show ?thesis using exhausted(3) by (simp add: buddy_alloc_def)
  next
    case False
    obtain k where k: "request_order r k" "k \<le> Suc N"
      by (rule request_bound [OF False, of N]) (use exhausted in simp_all)
    then show ?thesis using alloc_ok [OF h(1) exhausted.prems(1) False k] exhausted(3) by auto
  qed
  then show ?case using h by blast
next
  case (release st L p r st')
  then obtain F A where h: "heap_ok N st F A" "live_ok A L" by blast
  then obtain a k where a: "p = a + 8" "A a = Some k" using release(2) unfolding live_ok_def by blast
  obtain F' where "heap_ok N st' F' (A(a := None))"
    using free_ok [OF h(1) release.prems(1) a(2)] release(3) a(1) by (metis option.inject)
  moreover have "live_ok (A(a := None)) (L(p := None))" unfolding a(1) by (rule live_ok_free [OF h(2)])
  ultimately show ?case by blast
next
  case (store mem bcbs L mem')
  then obtain F A where h: "heap_ok N (mem, bcbs) F A" "live_ok A L" by blast
  then show ?case using store_ok [OF h store(2)] by blast
qed

section \<open>Correctness\<close>

text \<open>The number of bytes of the block that serves a request: control block included, rounded up.\<close>

definition block_nbytes :: "u64 \<Rightarrow> nat" where
  "block_nbytes r = unat (the (shmem_util_roundUpPow2 (ucast (r + of_nat sizeof_BuddyControlBlock))))"

lemma block_nbytes_order: "request_order r k \<Longrightarrow> r \<noteq> 0 \<Longrightarrow> block_nbytes r = 2 ^ k"
proof -
  assume k: "request_order r k" and r: "r \<noteq> 0"
  let ?x = "ucast (r + of_nat sizeof_BuddyControlBlock) :: u32"
  obtain y where y: "shmem_util_roundUpPow2 ?x = Some y" "unat (shmem_util_uintLog2 y) = k" using k by (auto simp: request_order_def)
  have "?x \<noteq> 0" using y(1) by (auto simp: shmem_util_roundUpPow2_def Let_def split: if_splits)
  have "\<exists>m < 32. unat y = 2 ^ m"
    using y(1) unat_push_bit_1 by (auto simp: shmem_util_roundUpPow2_def Let_def split: if_splits simp del: push_bit_of_1)
  then obtain m where "m < 32" "unat y = 2 ^ m" by blast
  then show ?thesis using y unat_log2_pow2k by (simp add: block_nbytes_def)
qed

lemma live_block:
  assumes h: "heap_ok N st F A" and L: "live_ok A L" and p: "L p = Some r"
  obtains a k where "p = a + 8" "A a = Some k" "(a, k) \<in> blocks F A" "aligned N (a, k)" "request_order r k" "r \<noteq> 0"
proof -
  obtain a k where a: "p = a + 8" "A a = Some k" using L p unfolding live_ok_def by blast
  then have b: "(a, k) \<in> blocks F A" by (simp add: blocks_iff)
  moreover have "core_ok N st F A" using h by (simp add: heap_ok_def)
  from tilingD(1) [OF core_okD(4) [OF this] b] have "aligned N (a, k)" .
  moreover have "request_order r k \<and> r \<noteq> 0" using L a p unfolding live_ok_def by (metis option.inject)
  ultimately show ?thesis using a that by blast
qed

text \<open>A pool of 64 bytes with one live allocation of ten bytes, for the witnesses.\<close>

lemma buddy_example: "\<exists>st. buddy_reach 64 st [8 \<mapsto> 10]"
proof -
  have "map_option fst (buddy_poolInit (\<lambda>_. \<lparr>bcb_nxt = 0, bcb_prv = 0\<rparr>) 64 \<bind>
      (\<lambda>m. buddy_alloc 10 (m, buddy_metaInit 64) 64)) = Some (Some 8)" by code_simp
  then obtain m st where "buddy_poolInit (\<lambda>_. \<lparr>bcb_nxt = 0, bcb_prv = 0\<rparr>) 64 = Some m"
    "buddy_alloc 10 (m, buddy_metaInit 64) 64 = Some (Some 8, st)" by (auto simp: bind_eq_Some_conv)
  from buddy_reach.alloc [OF buddy_reach.init [OF this(1)] _ this(2)] have "buddy_reach 64 st [8 \<mapsto> 10]" by simp
  then show ?thesis by blast
qed

lemma reach_alloc_returns:
  assumes "buddy_reach pool st L" "unat pool = 2 ^ N" "4 \<le> N" "N \<le> 27"
    and bound: "unat r + 8 \<le> 2 * unat pool"
  shows "\<exists>p st'. buddy_alloc r st pool = Some (p, st')"
proof (cases "r = 0")
  case False
  obtain F A where h: "heap_ok N st F A" "live_ok A L" using reach_ok [OF assms(1-4)] by blast
  obtain k where k: "request_order r k" "k \<le> Suc N"
    by (rule request_bound [OF False, of N]) (use assms in simp_all)
  show ?thesis using alloc_ok [OF h(1) assms(2) False k] by blast
qed (simp add: buddy_alloc_def)

lemma reach_free_returns:
  assumes "buddy_reach pool st L" "unat pool = 2 ^ N" "4 \<le> N" "N \<le> 27"
    and "L p = Some r"
  shows "\<exists>st'. buddy_free (Some p) st pool = Some st'"
proof -
  obtain F A where h: "heap_ok N st F A" "live_ok A L" using reach_ok [OF assms(1-4)] by blast
  obtain a k where "p = a + 8" "A a = Some k" using live_block [OF h assms(5)] by metis
  then show ?thesis using free_ok [OF h(1) assms(2), of a k] by metis
qed

lemma reach_live_area:
  assumes "buddy_reach pool st L" "unat pool = 2 ^ N" "4 \<le> N" "N \<le> 27"
    and "L p = Some r"
  shows "p mod 16 = 8" "p + unat r \<le> unat pool" "r \<noteq> 0"
proof -
  obtain F A where h: "heap_ok N st F A" "live_ok A L" using reach_ok [OF assms(1-4)] by blast
  obtain a k where a: "p = a + 8" "aligned N (a, k)" "request_order r k" "r \<noteq> 0" using live_block [OF h assms(5)] by metis
  have "(2 :: nat) ^ 4 dvd 2 ^ k" using a(2) by (intro le_imp_power_dvd) (simp add: aligned_def)
  then have "16 dvd a" using a(2) by (auto simp: aligned_def intro: dvd_trans)
  then show "p mod 16 = 8" using a(1) by (auto elim!: dvdE)
  show "p + unat r \<le> unat pool" using a assms(2) by (simp add: aligned_def request_order_def)
  show "r \<noteq> 0" by (rule a(4))
qed

lemma reach_live_disjoint:
  assumes "buddy_reach pool st L" "unat pool = 2 ^ N" "4 \<le> N" "N \<le> 27"
    and "L p = Some r" "L q = Some s" "p \<noteq> q"
  shows "{p - sizeof_BuddyControlBlock..<p + unat r} \<inter> {q - sizeof_BuddyControlBlock..<q + unat s} = {}"
proof -
  obtain F A where h: "heap_ok N st F A" "live_ok A L" using reach_ok [OF assms(1-4)] by blast
  have "core_ok N st F A" using h by (simp add: heap_ok_def)
  note t = core_okD(4) [OF this]
  obtain a k where a: "p = a + 8" "(a, k) \<in> blocks F A" "request_order r k" using live_block [OF h assms(5)] by metis
  obtain b m where b: "q = b + 8" "(b, m) \<in> blocks F A" "request_order s m" using live_block [OF h assms(6)] by metis
  have "ivl (a, k) \<inter> ivl (b, m) = {}" using tilingD(2) [OF t a(2) b(2)] assms(7) a(1) b(1) by auto
  moreover have "{p - sizeof_BuddyControlBlock..<p + unat r} \<subseteq> ivl (a, k)" "{q - sizeof_BuddyControlBlock..<q + unat s} \<subseteq> ivl (b, m)"
    using a b by (auto simp: ivl_def request_order_def sizeof_BuddyControlBlock_def)
  ultimately show ?thesis by blast
qed

lemma reach_alloc_fresh:
  assumes "buddy_reach pool st L" "unat pool = 2 ^ N" "4 \<le> N" "N \<le> 27"
    and r: "unat r + 8 \<le> 2 * unat pool" and al: "buddy_alloc r st pool = Some (Some p, st')"
  shows "L p = None"
proof (rule ccontr)
  obtain F A where h: "heap_ok N st F A" "live_ok A L" using reach_ok [OF assms(1-4)] by blast
  assume "L p \<noteq> None"
  then obtain s where s: "L p = Some s" by blast
  have r0: "r \<noteq> 0" using al by (auto simp: buddy_alloc_def)
  obtain k where k: "request_order r k" "k \<le> Suc N"
    by (rule request_bound [OF r0, of N]) (use assms in simp_all)
  obtain a where "p = a + 8" "A a = None" using alloc_ok [OF h(1) assms(2) r0 k] al by auto
  then show False using live_block [OF h s] by (metis add_right_cancel option.distinct(1))
qed

text \<open>
  C12: in every history of allocations, releases and writes of the owners into their own bytes, on a pool whose size is
  a power of two between \<open>2\<^sup>4\<close> and \<open>2\<^sup>2\<^sup>7\<close>, no assertion of the allocator fails and no access leaves its
  tables: every request of at most twice the pool is answered and every live pointer can be released.
\<close>

theorem buddy_never_aborts:
  assumes "buddy_reach pool st L" "unat pool = 2 ^ N" "4 \<le> N" "N \<le> 27"
  shows "(\<forall>r. unat r + 8 \<le> 2 * unat pool \<longrightarrow> (\<exists>p st'. buddy_alloc r st pool = Some (p, st'))) \<and>
     (\<forall>p \<in> dom L. \<exists>st'. buddy_free (Some p) st pool = Some st')"
  using reach_alloc_returns [OF assms] reach_free_returns [OF assms] by blast

theorem buddy_never_aborts_witness:
  "\<exists>st. buddy_reach 64 st [8 \<mapsto> 10] \<and> (\<exists>p st'. buddy_alloc 20 st 64 = Some (p, st')) \<and>
     (\<exists>st'. buddy_free (Some 8) st 64 = Some st')"
proof -
  obtain st where st: "buddy_reach 64 st [8 \<mapsto> 10]" using buddy_example by blast
  have "(\<exists>p st'. buddy_alloc 20 st 64 = Some (p, st')) \<and> (\<exists>st'. buddy_free (Some 8) st 64 = Some st')"
    using buddy_never_aborts [OF st, of 6] by simp
  then show ?thesis using st by blast
qed

text \<open>
  C7: live allocations are safe from each other and from the allocator: each lies inside the pool at an address that is eight
  above a multiple of sixteen, with its control block before it, the areas of two allocations never overlap, and a
  new allocation is not one that is live.
\<close>

theorem buddy_live_disjoint:
  assumes "buddy_reach pool st L" "unat pool = 2 ^ N" "4 \<le> N" "N \<le> 27"
  shows "(\<forall>p r. L p = Some r \<longrightarrow> p mod 16 = 8 \<and> p + unat r \<le> unat pool) \<and>
     (\<forall>p r q s. L p = Some r \<longrightarrow> L q = Some s \<longrightarrow> p \<noteq> q \<longrightarrow>
        {p - sizeof_BuddyControlBlock..<p + unat r} \<inter> {q - sizeof_BuddyControlBlock..<q + unat s} = {}) \<and>
     (\<forall>r p st'. unat r + 8 \<le> 2 * unat pool \<longrightarrow> buddy_alloc r st pool = Some (Some p, st') \<longrightarrow> L p = None)"
  using reach_live_area [OF assms] reach_live_disjoint [OF assms] reach_alloc_fresh [OF assms] by blast

theorem buddy_live_disjoint_witness:
  "\<exists>st. buddy_reach 64 st [8 \<mapsto> 10] \<and> (\<forall>p st'. buddy_alloc 20 st 64 = Some (Some p, st') \<longrightarrow> p \<noteq> 8)"
proof -
  obtain st where st: "buddy_reach 64 st [8 \<mapsto> 10]" using buddy_example by blast
  have "[8 \<mapsto> 10] p = (None :: u64 option)" if "buddy_alloc 20 st 64 = Some (Some p, st')" for p st'
    using buddy_live_disjoint [OF st, of 6, THEN conjunct2, THEN conjunct2, rule_format, OF _ _ _ _ that] by simp
  then have "p \<noteq> 8" if "buddy_alloc 20 st 64 = Some (Some p, st')" for p st' using that by fastforce
  then show ?thesis using st by blast
qed

text \<open>An area that no allocated block touches lies in a free block.\<close>

lemma buddy_inside:
  assumes "2 ^ m dvd a" "2 ^ k dvd c" "m < k" "a \<in> ivl (c, k)" shows "a XOR 2 ^ m \<in> ivl (c, k)"
  using assms(1)
proof (cases rule: xor_cases)
  case low
  have "ivl (a, Suc m) \<subseteq> ivl (c, k)" using assms(3) by (intro ivl_nested [OF assms(2) low(1) _ assms(4)]) simp_all
  moreover have "a + 2 ^ m \<in> ivl (a, Suc m)" by (simp add: ivl_def)
  ultimately show ?thesis using low(2) by auto
next
  case (high d)
  have "ivl (d, Suc m) \<subseteq> ivl (c, k)" using assms(3) high(1) by (intro ivl_nested [OF assms(2) high(2) _ assms(4)]) (simp_all add: ivl_def)
  then show ?thesis using high(3) by auto
qed

lemma free_area:
  assumes c: "core_ok N st F A" and d: "2 ^ k dvd d" "d + 2 ^ k \<le> 2 ^ N"
    and no: "\<And>a m. A a = Some m \<Longrightarrow> ivl (a, m) \<inter> ivl (d, k) = {}"
  shows "\<exists>i. k \<le> i \<and> i \<le> N \<and> F i \<noteq> {}"
proof -
  note t = core_okD(4) [OF c]
  define P where "P = {b \<in> blocks F A. ivl b \<inter> ivl (d, k) \<noteq> {}}"
  have free: "a \<in> F m" if "(a, m) \<in> P" for a m using that no [of a m] by (auto simp: P_def blocks_iff)
  have "d < d + 2 ^ k" by simp
  then have "d < 2 ^ N" using d(2) by linarith
  then obtain b0 where "b0 \<in> P" using tilingD(3) [OF t] unfolding P_def by fastforce
  from ex_has_least_nat [of "\<lambda>b. b \<in> P" b0 snd, OF this]
  obtain a m where am: "(a, m) \<in> P" and least: "\<And>b. b \<in> P \<Longrightarrow> m \<le> snd b" by fastforce
  have aB: "(a, m) \<in> blocks F A" using am by (simp add: P_def)
  have al: "2 ^ m dvd a" "m \<le> N" using tilingD(1) [OF t aB] by (simp_all add: aligned_def)
  show ?thesis
  proof (cases "k \<le> m")
    case True then show ?thesis using free [OF am] al(2) by blast
  next
    case False
    have "2 ^ k \<le> (2 :: nat) ^ N" using d(2) by linarith
    then have kN: "k \<le> N" by (rule power_le_imp_le_exp [rotated]) simp
    obtain x where x: "x \<in> ivl (a, m)" "x \<in> ivl (d, k)" using am by (auto simp: P_def)
    have "ivl (a, m) \<subseteq> ivl (d, k)" using False by (intro ivl_nested [OF d(1) al(1) _ x(2,1)]) simp
    then have a: "a \<in> ivl (d, k)" by auto
    have "m < N" using False kN by simp
    obtain m' where m': "(a XOR 2 ^ m, m') \<in> blocks F A" "m' \<le> m" by (rule buddy_is_block [OF t aB \<open>m < N\<close>])
    have "a XOR 2 ^ m \<in> ivl (d, k)" using False by (intro buddy_inside [OF al(1) d(1) _ a]) simp
    then have b: "(a XOR 2 ^ m, m') \<in> P" using m'(1) start_in_ivl [of "a XOR 2 ^ m" m'] unfolding P_def by blast
    then have "m' = m" using least [OF b] m'(2) by simp
    then show ?thesis using free [OF am] free [OF b] core_okD(6) [OF c \<open>m < N\<close>] by blast
  qed
qed

lemma alloc_complete:
  assumes "buddy_reach pool st L" "unat pool = 2 ^ N" "4 \<le> N" "N \<le> 27"
    and "r \<noteq> 0" "unat r + 8 \<le> unat pool" "block_nbytes r dvd d" "d + block_nbytes r \<le> unat pool"
    and "\<forall>p s. L p = Some s \<longrightarrow> {p - 8..<p - 8 + block_nbytes s} \<inter> {d..<d + block_nbytes r} = {}"
  shows "\<exists>p st'. buddy_alloc r st pool = Some (Some p, st')"
proof -
  obtain F A where h: "heap_ok N st F A" "live_ok A L" using reach_ok [OF assms(1-4)] by blast
  obtain k where k: "request_order r k" "k \<le> Suc N"
    by (rule request_bound [OF assms(5), of N]) (use assms(2,4,6) in simp_all)
  have bk: "block_nbytes r = 2 ^ k" by (rule block_nbytes_order [OF k(1) assms(5)])
  have c: "core_ok N st F A" using h(1) by (simp add: heap_ok_def)
  have no: "ivl (a, m) \<inter> ivl (d, k) = {}" if "A a = Some m" for a m
  proof -
    obtain s where s: "L (a + 8) = Some s" "s \<noteq> 0" "request_order s m" using h(2) \<open>A a = Some m\<close> unfolding live_ok_def by blast
    then have "block_nbytes s = 2 ^ m" by (intro block_nbytes_order)
    then show ?thesis using assms(9) [rule_format, OF s(1)] bk by (simp add: ivl_def)
  qed
  have "\<exists>i. k \<le> i \<and> i \<le> N \<and> F i \<noteq> {}"
    using assms(2,7,8) bk by (intro free_area [OF c _ _ no]) simp_all
  then show ?thesis using alloc_ok [OF h(1) assms(2,5) k] by blast
qed

text \<open>
  C8: the allocator never fails without need: if some aligned area of the size the request rounds up to is not touched
  by the blocks of the live allocations, the request is granted. So all splitting is undone by the
  releases, and a pool without live allocations grants every request that fits into it.
\<close>

theorem buddy_alloc_complete:
  assumes "buddy_reach pool st L" "unat pool = 2 ^ N" "4 \<le> N" "N \<le> 27"
    and "r \<noteq> 0" "unat r + 8 \<le> unat pool" "block_nbytes r dvd d" "d + block_nbytes r \<le> unat pool"
    and "\<forall>p s. L p = Some s \<longrightarrow> {p - 8..<p - 8 + block_nbytes s} \<inter> {d..<d + block_nbytes r} = {}"
  shows "\<exists>p st'. buddy_alloc r st pool = Some (Some p, st')"
  using assms by (rule alloc_complete)

theorem buddy_alloc_complete_witness:
  "\<exists>st. buddy_reach 64 st [8 \<mapsto> 10] \<and> (\<exists>p st'. buddy_alloc 20 st 64 = Some (Some p, st'))"
proof -
  obtain st where st: "buddy_reach 64 st [8 \<mapsto> 10]" using buddy_example by blast
  have "block_nbytes 20 = 32" "block_nbytes 10 = 32" by code_simp+
  then have "\<exists>p st'. buddy_alloc 20 st 64 = Some (Some p, st')"
    by (intro buddy_alloc_complete [OF st, of 6 20 32]) auto
  then show ?thesis using st by blast
qed

text \<open>
  A request of more than twice the pool reads behind the table of the free lists, because the end of the search is
  tested for equality with the number of lists: the model of such a call is undefined behaviour.
\<close>

lemma buddy_alloc_out_of_bounds:
  assumes "buddy_reach pool st L" "unat pool = 2 ^ N" "4 \<le> N" "N \<le> 27"
    and "2 * unat pool < unat r + 8" "unat r + 8 \<le> 2 ^ 31"
  shows "buddy_alloc r st pool = None"
proof -
  obtain F A where h: "heap_ok N st F A" using reach_ok [OF assms(1-4)] by blast
  have r: "r \<noteq> 0" using assms(2,3,5) power_increasing [OF assms(3), of "2 :: nat"] by auto
  obtain k where k: "request_order r k" by (rule request_order_ex [OF r assms(6)])
  then obtain y where y: "shmem_util_roundUpPow2 (ucast (r + of_nat sizeof_BuddyControlBlock)) = Some y"
    "unat (shmem_util_uintLog2 y) = k" and k4: "4 \<le> k" "k < 32" by (auto simp: request_order_def)
  have "(2 :: nat) ^ Suc N < 2 ^ k" using k assms(2,5) by (simp add: request_order_def)
  then have kN: "Suc N < k" by (rule power_less_imp_less_exp [rotated]) simp
  have len: "length (snd st) = N - 3" using h lists_okD(1) [OF core_okD(3)] by (metis heap_ok_def)
  have nl: "buddy_metaNumLists pool = N - 3" using pool_orders [OF assms(2-4)] by simp
  have ne: "\<not> k - 4 < N - 3" "k - 4 \<noteq> N - 3" using kN assms(3) by auto
  then have "buddy_find_avail (snd st) (N - 3) (k - 4) = k - 4" by (subst buddy_find_avail.simps) simp
  then show ?thesis using r y nl listIdx [OF k4] ne len
    by (simp add: buddy_alloc_def Let_def buddy_listAt_def)
qed


section \<open>The interface of a pool\<close>

lemma pool_max: "unat SHD_BUDDY_POOL_MAX_NBYTES = 2 ^ 27"
  by (simp add: SHD_BUDDY_POOL_MAX_NBYTES_def)

lemma block_nbytes_le:
  assumes "r \<noteq> 0" "unat r + 8 \<le> unat pool" "unat pool = 2 ^ N" "N \<le> 27"
  shows "block_nbytes r \<le> unat pool"
proof -
  obtain k where k: "request_order r k" "k \<le> Suc N" by (rule request_bound [OF assms(1) _ assms(4)]) (use assms in simp_all)
  have "k \<le> N"
  proof (rule ccontr)
    assume "\<not> k \<le> N"
    then have "k = Suc N" using k(2) by simp
    then show False using k(1) assms(2,3) by (simp add: request_order_def)
  qed
  then show ?thesis using block_nbytes_order [OF k(1) assms(1)] assms(3) by (simp add: power_increasing)
qed

interpretation pool: pool_allocator "buddy_reach SHD_BUDDY_POOL_MAX_NBYTES"
  "\<lambda>r st. buddy_alloc r st SHD_BUDDY_POOL_MAX_NBYTES" "\<lambda>p st. buddy_free p st SHD_BUDDY_POOL_MAX_NBYTES"
  "2 ^ 27" "2 ^ 27 - 8"
proof
  fix s :: buddy_state and L :: "nat \<rightharpoonup> u64" and r :: u64
  assume h: "buddy_reach SHD_BUDDY_POOL_MAX_NBYTES s L"
  have N: "(4 :: nat) \<le> 27" "(27 :: nat) \<le> 27" by simp_all
  note hN = h pool_max N
  {
    assume "unat r \<le> 2 ^ 27 - 8"
    then have r: "unat r + 8 \<le> unat SHD_BUDDY_POOL_MAX_NBYTES"
      "unat r + 8 \<le> 2 * unat SHD_BUDDY_POOL_MAX_NBYTES" by (simp_all add: pool_max)
    show "\<exists>p s'. buddy_alloc r s SHD_BUDDY_POOL_MAX_NBYTES = Some (p, s')"
      by (rule reach_alloc_returns [OF hN r(2)])
    show "buddy_reach SHD_BUDDY_POOL_MAX_NBYTES s' (L(p \<mapsto> r))"
      if "buddy_alloc r s SHD_BUDDY_POOL_MAX_NBYTES = Some (Some p, s')" for p s' by (rule buddy_reach.alloc [OF h r(2) that])
    show "buddy_reach SHD_BUDDY_POOL_MAX_NBYTES s' L"
      if "buddy_alloc r s SHD_BUDDY_POOL_MAX_NBYTES = Some (None, s')" for s' by (rule buddy_reach.exhausted [OF h r(2) that])
    show "L p = None"
      if "buddy_alloc r s SHD_BUDDY_POOL_MAX_NBYTES = Some (Some p, s')" for p s' by (rule reach_alloc_fresh [OF hN r(2) that])
  }
  show "\<exists>s'. buddy_free (Some p) s SHD_BUDDY_POOL_MAX_NBYTES = Some s' \<and> buddy_reach SHD_BUDDY_POOL_MAX_NBYTES s' (L(p := None))"
    if "L p = Some r" for p using reach_free_returns [OF hN that] buddy_reach.release [OF h that] by blast
  show "0 < p \<and> p + unat r \<le> 2 ^ 27 \<and> r \<noteq> 0" if "L p = Some r" for p
    using reach_live_area [OF hN that] by (auto simp: pool_max intro: Nat.gr0I)
  show "{p..<p + unat r} \<inter> {q..<q + unat t} = {}" if "L p = Some r" "L q = Some t" "p \<noteq> q" for p q t
    using reach_live_disjoint [OF hN that] by (auto simp: disjoint_iff)
next
  fix s :: buddy_state and r :: u64
  assume h: "buddy_reach SHD_BUDDY_POOL_MAX_NBYTES s Map.empty" and r: "r \<noteq> 0" "unat r \<le> 2 ^ 27 - 8"
  have le: "unat r + 8 \<le> unat SHD_BUDDY_POOL_MAX_NBYTES" using r(2) by (simp add: pool_max)
  then have "block_nbytes r \<le> unat SHD_BUDDY_POOL_MAX_NBYTES" by (rule block_nbytes_le [OF r(1) _ pool_max]) simp
  then show "\<exists>p s'. buddy_alloc r s SHD_BUDDY_POOL_MAX_NBYTES = Some (Some p, s')"
    using alloc_complete [OF h pool_max _ _ r(1) le, of 0] by simp
qed

end
