(* ===== verification/Shmem_Allocator.thy ===== *)
theory Shmem_Allocator
  imports Buddy_Heap Address
begin

text \<open>
  \<^verbatim>\<open>shmem/shmem_allocator.c\<close>: the shared memory allocator of the simulator and the serializer of the processes it
  drives. Small requests are served from pools of \<open>2\<^sup>2\<^sup>7\<close> bytes by the buddy allocator, large ones by a file
  of their own. The circular lists of nodes are lists that start at the head. A pointer is an address; a pool keeps its buddy
  state with offsets from its base. The files themselves come from \<^verbatim>\<open>shmemfile_alloc\<close> and
  \<^verbatim>\<open>shmemfile_map\<close>, which wrap \<^verbatim>\<open>shm_open\<close> and \<^verbatim>\<open>mmap\<close>: each operation takes the list of
  their answers, \<open>None\<close> for a failure. The mutexes make every operation atomic and are left out. \<open>None\<close> as the result of an
  operation is a failed assertion or the use of a null pointer.
\<close>

section \<open>Model\<close>

definition SHD_SHMEM_FILE_NAME_NBYTES :: nat where "SHD_SHMEM_FILE_NAME_NBYTES = 255"

record shmem_file =
  shmf_p :: nat
  shmf_nbytes :: nat
  shmf_name :: string

definition SHD_SHMEM_ALLOCATOR_POOL_NBYTES :: u32 where
  "SHD_SHMEM_ALLOCATOR_POOL_NBYTES = SHD_BUDDY_POOL_MAX_NBYTES"

definition SHD_SHMEM_ALLOCATOR_CUTOVER_NBYTES :: u64 where
  "SHD_SHMEM_ALLOCATOR_CUTOVER_NBYTES =
     ucast (SHD_SHMEM_ALLOCATOR_POOL_NBYTES div 2) - of_nat sizeof_BuddyControlBlock"

record pool_node =
  pn_file :: shmem_file
  pn_heap :: buddy_state

record shmem_allocator =
  sa_big_alloc_nodes :: "shmem_file list"
  sa_little_alloc_nodes :: "pool_node list"

record shmem_serializer =
  ss_nodes :: "shmem_file list"

record shmem_block =
  blk_p :: "nat option"
  blk_nbytes :: u64

record shmem_block_serialized =
  ser_offset :: nat
  ser_nbytes :: nat
  ser_block_nbytes :: u64
  ser_name :: string

definition null_block :: shmem_block where
  "null_block = \<lparr>blk_p = None, blk_nbytes = 0\<rparr>"

fun shmemfilenode_findPtr :: "shmem_file list \<Rightarrow> nat \<Rightarrow> nat option" where
  "shmemfilenode_findPtr [] p = None"
| "shmemfilenode_findPtr (node # nodes) p =
     (if p \<ge> shmf_p node \<and> p < shmf_p node + shmf_nbytes node then Some 0
      else map_option Suc (shmemfilenode_findPtr nodes p))"

fun shmemfilenode_findName :: "shmem_file list \<Rightarrow> string \<Rightarrow> nat option" where
  "shmemfilenode_findName [] name = None"
| "shmemfilenode_findName (node # nodes) name =
     (if shmf_name node = name then Some 0 else map_option Suc (shmemfilenode_findName nodes name))"

subsection \<open>Pools\<close>

text \<open>An answer of \<^verbatim>\<open>shmemfile_alloc\<close>: the mapped file and the content of its memory.\<close>

type_synonym file_answer = "(shmem_file \<times> pool_mem) option"

fun next_answer :: "file_answer list \<Rightarrow> file_answer \<times> file_answer list" where
  "next_answer [] = (None, [])"
| "next_answer (a # as) = (a, as)"

definition shmempoolnode_create :: "file_answer \<Rightarrow> pool_node option option" where
  "shmempoolnode_create answer =
     (case answer of
        None \<Rightarrow> Some None
      | Some (shmf, mem) \<Rightarrow> do {
          mem' \<leftarrow> buddy_poolInit mem SHD_SHMEM_ALLOCATOR_POOL_NBYTES;
          Some (Some \<lparr>pn_file = shmf, pn_heap = (mem', buddy_metaInit SHD_SHMEM_ALLOCATOR_POOL_NBYTES)\<rparr>)
        })"

definition shmemallocator_create :: shmem_allocator where
  "shmemallocator_create = \<lparr>sa_big_alloc_nodes = [], sa_little_alloc_nodes = []\<rparr>"

subsection \<open>Allocation\<close>

definition shmemallocator_bigAlloc ::
    "shmem_allocator \<Rightarrow> u64 \<Rightarrow> file_answer list \<Rightarrow> shmem_block \<times> shmem_allocator \<times> file_answer list" where
  "shmemallocator_bigAlloc allocator n answers =
     (case next_answer answers of
        (None, rest) \<Rightarrow> (null_block, allocator, rest)
      | (Some (shmf, mem), rest) \<Rightarrow>
          (\<lparr>blk_p = Some (shmf_p shmf), blk_nbytes = n\<rparr>,
           allocator\<lparr>sa_big_alloc_nodes := sa_big_alloc_nodes allocator @ [shmf]\<rparr>, rest))"

text \<open>
  One call of \<^verbatim>\<open>_shmemallocator_littleAlloc\<close> up to its recursive call: \<open>Inr\<close> asks for the call on the allocator with
  a new pool in front. The loop over the pools runs once, because it never leaves the head it starts from.
\<close>

type_synonym little_outcome =
  "(shmem_block \<times> shmem_allocator \<times> file_answer list) + (shmem_allocator \<times> file_answer list)"

definition littleAlloc_nodes :: "shmem_allocator \<Rightarrow> file_answer list \<Rightarrow> (pool_node list \<times> file_answer list) option" where
  "littleAlloc_nodes allocator answers =
     (if sa_little_alloc_nodes allocator = []
      then do {
        node \<leftarrow> shmempoolnode_create (fst (next_answer answers));
        Some (case node of None \<Rightarrow> [] | Some nd \<Rightarrow> [nd], snd (next_answer answers))
      }
      else Some (sa_little_alloc_nodes allocator, answers))"

definition littleAlloc_grow :: "shmem_allocator \<Rightarrow> file_answer list \<Rightarrow> little_outcome option" where
  "littleAlloc_grow allocator answers = do {
     new_head \<leftarrow> shmempoolnode_create (fst (next_answer answers));
     Some (case new_head of
             None \<Rightarrow> Inl (null_block, allocator, snd (next_answer answers))
           | Some nd \<Rightarrow> Inr (allocator\<lparr>sa_little_alloc_nodes := nd # sa_little_alloc_nodes allocator\<rparr>,
                           snd (next_answer answers)))
   }"

definition littleAlloc_try :: "shmem_allocator \<Rightarrow> u64 \<Rightarrow> file_answer list \<Rightarrow> little_outcome option" where
  "littleAlloc_try allocator n answers = do {
     (nodes, rest) \<leftarrow> littleAlloc_nodes allocator answers;
     (case nodes of
        [] \<Rightarrow> None
      | pool_node # others \<Rightarrow> do {
          (p, heap) \<leftarrow> buddy_alloc n (pn_heap pool_node) SHD_SHMEM_ALLOCATOR_POOL_NBYTES;
          let allocator' = allocator\<lparr>sa_little_alloc_nodes := pool_node\<lparr>pn_heap := heap\<rparr> # others\<rparr>;
          (case p of
             None \<Rightarrow> littleAlloc_grow allocator' rest
           | Some q \<Rightarrow>
               Some (Inl (\<lparr>blk_p = Some (shmf_p (pn_file pool_node) + q), blk_nbytes = n\<rparr>, allocator', rest)))
        })
   }"

lemma grow_consumes:
  "littleAlloc_grow allocator answers = Some (Inr (allocator', answers')) \<Longrightarrow> length answers' < length answers"
  by (cases answers) (auto simp: littleAlloc_grow_def shmempoolnode_create_def bind_eq_Some_conv split: option.splits prod.splits)

lemma nodes_consume: "littleAlloc_nodes allocator answers = Some (nodes, rest) \<Longrightarrow> length rest \<le> length answers"
  by (cases answers) (auto simp: littleAlloc_nodes_def bind_eq_Some_conv split: if_splits)

lemma littleAlloc_try_consumes:
  assumes "littleAlloc_try allocator n answers = Some (Inr (allocator', answers'))"
  shows "length answers' < length answers"
proof -
  obtain nodes rest where n: "littleAlloc_nodes allocator answers = Some (nodes, rest)"
    using assms by (auto simp: littleAlloc_try_def bind_eq_Some_conv)
  then obtain al where "littleAlloc_grow al rest = Some (Inr (allocator', answers'))"
    using assms by (auto simp: littleAlloc_try_def bind_eq_Some_conv Let_def split: list.splits option.splits)
  then show ?thesis using grow_consumes nodes_consume [OF n] by fastforce
qed

function shmemallocator_littleAlloc ::
    "shmem_allocator \<Rightarrow> u64 \<Rightarrow> file_answer list \<Rightarrow> (shmem_block \<times> shmem_allocator \<times> file_answer list) option" where
  "shmemallocator_littleAlloc allocator n answers =
     (case littleAlloc_try allocator n answers of
        None \<Rightarrow> None
      | Some (Inl result) \<Rightarrow> Some result
      | Some (Inr (allocator', answers')) \<Rightarrow> shmemallocator_littleAlloc allocator' n answers')"
  by pat_completeness auto
termination
  by (relation "measure (\<lambda>(allocator, n, answers). length answers)") (auto intro: littleAlloc_try_consumes)

declare shmemallocator_littleAlloc.simps [simp del]

definition shmemallocator_alloc ::
    "shmem_allocator \<Rightarrow> u64 \<Rightarrow> file_answer list \<Rightarrow> (shmem_block \<times> shmem_allocator \<times> file_answer list) option" where
  "shmemallocator_alloc allocator n answers =
     (if n = 0 then Some (null_block, allocator, answers)
      else if n > SHD_SHMEM_ALLOCATOR_CUTOVER_NBYTES then Some (shmemallocator_bigAlloc allocator n answers)
      else shmemallocator_littleAlloc allocator n answers)"

subsection \<open>Release\<close>

fun big_find :: "shmem_file list \<Rightarrow> nat \<Rightarrow> nat option" where
  "big_find [] p = None"
| "big_find (node # nodes) p = (if shmf_p node = p then Some 0 else map_option Suc (big_find nodes p))"

definition shmemallocator_bigFree :: "shmem_allocator \<Rightarrow> nat \<Rightarrow> shmem_allocator option" where
  "shmemallocator_bigFree allocator p = do {
     utility_assert (sa_big_alloc_nodes allocator \<noteq> []);
     needle \<leftarrow> big_find (sa_big_alloc_nodes allocator) p;
     Some (allocator\<lparr>sa_big_alloc_nodes :=
       take needle (sa_big_alloc_nodes allocator) @ drop (Suc needle) (sa_big_alloc_nodes allocator)\<rparr>)
   }"

definition shmemallocator_littleFree :: "shmem_allocator \<Rightarrow> nat \<Rightarrow> shmem_allocator option" where
  "shmemallocator_littleFree allocator p = do {
     i \<leftarrow> shmemfilenode_findPtr (map pn_file (sa_little_alloc_nodes allocator)) p;
     let pool_node = sa_little_alloc_nodes allocator ! i;
     heap \<leftarrow> buddy_free (Some (p - shmf_p (pn_file pool_node))) (pn_heap pool_node) SHD_SHMEM_ALLOCATOR_POOL_NBYTES;
     Some (allocator\<lparr>sa_little_alloc_nodes := (sa_little_alloc_nodes allocator)[i := pool_node\<lparr>pn_heap := heap\<rparr>]\<rparr>)
   }"

text \<open>A block to release has a pointer: the callers pass blocks they were given.\<close>

definition shmemallocator_free :: "shmem_allocator \<Rightarrow> shmem_block \<Rightarrow> shmem_allocator option" where
  "shmemallocator_free allocator blk = do {
     p \<leftarrow> blk_p blk;
     if blk_nbytes blk > SHD_SHMEM_ALLOCATOR_CUTOVER_NBYTES
     then shmemallocator_bigFree allocator p
     else shmemallocator_littleFree allocator p
   }"

subsection \<open>Serialization\<close>

definition shmemblockserialized_populate :: "shmem_block \<Rightarrow> nat \<Rightarrow> shmem_file \<Rightarrow> shmem_block_serialized" where
  "shmemblockserialized_populate blk p shmf =
     \<lparr>ser_offset = p - shmf_p shmf, ser_nbytes = shmf_nbytes shmf, ser_block_nbytes = blk_nbytes blk,
      ser_name = take SHD_SHMEM_FILE_NAME_NBYTES (shmf_name shmf)\<rparr>"

definition shmemallocator_blockSerialize :: "shmem_allocator \<Rightarrow> shmem_block \<Rightarrow> shmem_block_serialized option" where
  "shmemallocator_blockSerialize allocator blk = do {
     p \<leftarrow> blk_p blk;
     let nodes = (if blk_nbytes blk > SHD_SHMEM_ALLOCATOR_CUTOVER_NBYTES then sa_big_alloc_nodes allocator
                  else map pn_file (sa_little_alloc_nodes allocator));
     node \<leftarrow> shmemfilenode_findPtr nodes p;
     Some (shmemblockserialized_populate blk p (nodes ! node))
   }"

definition shmemblock_populate :: "shmem_block_serialized \<Rightarrow> shmem_file \<Rightarrow> shmem_block" where
  "shmemblock_populate serial shmf =
     \<lparr>blk_p = Some (shmf_p shmf + ser_offset serial), blk_nbytes = ser_block_nbytes serial\<rparr>"

definition shmemallocator_blockDeserialize :: "shmem_allocator \<Rightarrow> shmem_block_serialized \<Rightarrow> shmem_block option" where
  "shmemallocator_blockDeserialize allocator serial =
     (case shmemfilenode_findName (sa_big_alloc_nodes allocator) (ser_name serial) of
        Some node \<Rightarrow> Some (shmemblock_populate serial (sa_big_alloc_nodes allocator ! node))
      | None \<Rightarrow> do {
          node \<leftarrow> shmemfilenode_findName (map pn_file (sa_little_alloc_nodes allocator)) (ser_name serial);
          Some (shmemblock_populate serial (pn_file (sa_little_alloc_nodes allocator ! node)))
        })"

definition shmemserializer_create :: shmem_serializer where
  "shmemserializer_create = \<lparr>ss_nodes = []\<rparr>"

definition shmemserializer_blockSerialize :: "shmem_serializer \<Rightarrow> shmem_block \<Rightarrow> shmem_block_serialized option" where
  "shmemserializer_blockSerialize serializer blk = do {
     p \<leftarrow> blk_p blk;
     node \<leftarrow> shmemfilenode_findPtr (ss_nodes serializer) p;
     Some (shmemblockserialized_populate blk p (ss_nodes serializer ! node))
   }"

text \<open>\<open>mapped\<close> is the answer of \<^verbatim>\<open>shmemfile_map\<close> for the name and the size of the serialized block.\<close>

definition shmemserializer_blockDeserialize ::
    "shmem_serializer \<Rightarrow> shmem_block_serialized \<Rightarrow> shmem_file option \<Rightarrow> shmem_block \<times> shmem_serializer" where
  "shmemserializer_blockDeserialize serializer serial mapped =
     (case shmemfilenode_findName (ss_nodes serializer) (ser_name serial) of
        Some node \<Rightarrow> (shmemblock_populate serial (ss_nodes serializer ! node), serializer)
      | None \<Rightarrow>
          (case mapped of
             None \<Rightarrow> (null_block, serializer)
           | Some shmf \<Rightarrow>
               (shmemblock_populate serial shmf, serializer\<lparr>ss_nodes := ss_nodes serializer @ [shmf]\<rparr>)))"

subsection \<open>The text form\<close>

definition shmemblockserialized_toString :: "shmem_block_serialized \<Rightarrow> string" where
  "shmemblockserialized_toString serial =
     dec_nat (ser_offset serial) @ '','' @ dec_nat (ser_nbytes serial) @ '','' @
     dec_nat (unat (ser_block_nbytes serial)) @ '','' @ ser_name serial"

text \<open>
  The conversions of \<^verbatim>\<open>sscanf\<close>: \<^verbatim>\<open>%zu\<close> skips white space, takes an optional sign and decimal digits and saturates at the largest
  64-bit value; a comma matches itself; \<^verbatim>\<open>%s\<close> skips white space and takes what is before the next.
\<close>

definition isspace :: "char \<Rightarrow> bool" where
  "isspace c = (c = CHR '' '' \<or> 9 \<le> (of_char c :: nat) \<and> (of_char c :: nat) \<le> 13)"

definition scan_zu :: "string \<Rightarrow> (u64 \<times> string) option" where
  "scan_zu s =
     (let s1 = dropWhile isspace s;
          neg = (s1 \<noteq> [] \<and> hd s1 = CHR ''-'');
          s2 = (if s1 \<noteq> [] \<and> (hd s1 = CHR ''-'' \<or> hd s1 = CHR ''+'') then tl s1 else s1);
          ds = takeWhile isdigit s2;
          v = (if digits_value ds < 2 ^ 64 then (if neg then - of_nat (digits_value ds) else of_nat (digits_value ds)) else - 1)
      in if ds = [] then None else Some (v, dropWhile isdigit s2))"

definition scan_comma :: "string \<Rightarrow> string option" where
  "scan_comma s = (case s of [] \<Rightarrow> None | c # cs \<Rightarrow> if c = CHR '','' then Some cs else None)"

definition scan_s :: "string \<Rightarrow> string option" where
  "scan_s s = (let w = takeWhile (\<lambda>c. \<not> isspace c) (dropWhile isspace s) in if w = [] then None else Some w)"

text \<open>
  The result and the error flag; fields that are not reached stay zero. \<open>None\<close> is the overflow of the array
  of the name, which \<^verbatim>\<open>%s\<close> does not bound.
\<close>

definition shmemblockserialized_fromString :: "string \<Rightarrow> (shmem_block_serialized \<times> bool) option" where
  "shmemblockserialized_fromString buf =
     (let rv = \<lparr>ser_offset = 0, ser_nbytes = 0, ser_block_nbytes = 0, ser_name = ''''\<rparr>
      in case scan_zu buf of
           None \<Rightarrow> Some (rv, True)
         | Some (offset, s1) \<Rightarrow>
             let rv1 = rv\<lparr>ser_offset := unat offset\<rparr>
             in case scan_comma s1 \<bind> scan_zu of
                  None \<Rightarrow> Some (rv1, True)
                | Some (nbytes, s2) \<Rightarrow>
                    let rv2 = rv1\<lparr>ser_nbytes := unat nbytes\<rparr>
                    in case scan_comma s2 \<bind> scan_zu of
                         None \<Rightarrow> Some (rv2, True)
                       | Some (blk_n, s3) \<Rightarrow>
                           let rv3 = rv2\<lparr>ser_block_nbytes := blk_n\<rparr>
                           in case scan_comma s3 \<bind> scan_s of
                                None \<Rightarrow> Some (rv3, True)
                              | Some name \<Rightarrow>
                                  if SHD_SHMEM_FILE_NAME_NBYTES \<le> length name then None
                                  else Some (rv3\<lparr>ser_name := name\<rparr>, False))"

section \<open>The nodes\<close>

text \<open>A name of a shared memory file as the simulator makes it: not empty, no white space, fitting its array.\<close>

definition name_ok :: "string \<Rightarrow> bool" where
  "name_ok name \<longleftrightarrow> name \<noteq> [] \<and> list_all (\<lambda>c. \<not> isspace c) name \<and> length name < SHD_SHMEM_FILE_NAME_NBYTES"

definition file_range :: "shmem_file \<Rightarrow> nat set" where
  "file_range f = {shmf_p f..<shmf_p f + shmf_nbytes f}"

text \<open>What the operating system grants: mapped files do not overlap and have names of their own, in the address space of 64 bits.\<close>

definition files_ok :: "shmem_file list \<Rightarrow> bool" where
  "files_ok fs \<longleftrightarrow> distinct fs \<and>
     (\<forall>f \<in> set fs. 0 < shmf_p f \<and> 0 < shmf_nbytes f \<and> shmf_p f + shmf_nbytes f \<le> 2 ^ 64 \<and> name_ok (shmf_name f)) \<and>
     (\<forall>f \<in> set fs. \<forall>g \<in> set fs. f \<noteq> g \<longrightarrow> file_range f \<inter> file_range g = {} \<and> shmf_name f \<noteq> shmf_name g)"

lemma findPtr_Some:
  "shmemfilenode_findPtr fs p = Some i \<Longrightarrow> i < length fs \<and> p \<in> file_range (fs ! i)"
  by (induction fs arbitrary: i) (auto simp: file_range_def split: if_splits)

lemma findPtr_ex: "f \<in> set fs \<Longrightarrow> p \<in> file_range f \<Longrightarrow> \<exists>i. shmemfilenode_findPtr fs p = Some i"
  by (induction fs) (auto simp: file_range_def)

lemma findName_Some: "shmemfilenode_findName fs n = Some i \<Longrightarrow> i < length fs \<and> shmf_name (fs ! i) = n"
  by (induction fs arbitrary: i) (auto split: if_splits)

lemma findName_ex: "f \<in> set fs \<Longrightarrow> \<exists>i. shmemfilenode_findName fs (shmf_name f) = Some i"
  by (induction fs) auto

lemma findName_None: "shmemfilenode_findName fs n = None \<Longrightarrow> f \<in> set fs \<Longrightarrow> shmf_name f \<noteq> n"
  by (induction fs) (auto split: if_splits)

lemma big_find_Some: "big_find fs p = Some i \<Longrightarrow> i < length fs \<and> shmf_p (fs ! i) = p"
  by (induction fs arbitrary: i) (auto split: if_splits)

lemma big_find_ex: "f \<in> set fs \<Longrightarrow> \<exists>i. big_find fs (shmf_p f) = Some i"
  by (induction fs) auto

lemma files_okD:
  assumes "files_ok fs" "f \<in> set fs"
  shows "0 < shmf_p f" "shmf_p f \<in> file_range f" "take SHD_SHMEM_FILE_NAME_NBYTES (shmf_name f) = shmf_name f"
    "g \<in> set fs \<Longrightarrow> p \<in> file_range f \<Longrightarrow> p \<in> file_range g \<Longrightarrow> g = f" "g \<in> set fs \<Longrightarrow> shmf_name g = shmf_name f \<Longrightarrow> g = f"
proof -
  show "0 < shmf_p f" "shmf_p f \<in> file_range f" "take SHD_SHMEM_FILE_NAME_NBYTES (shmf_name f) = shmf_name f"
    using assms by (auto simp: files_ok_def file_range_def name_ok_def)
  show "g \<in> set fs \<Longrightarrow> p \<in> file_range f \<Longrightarrow> p \<in> file_range g \<Longrightarrow> g = f" using assms unfolding files_ok_def by blast
  show "g \<in> set fs \<Longrightarrow> shmf_name g = shmf_name f \<Longrightarrow> g = f" using assms unfolding files_ok_def by metis
qed

lemma findPtr_unique:
  assumes "files_ok gs" "set fs \<subseteq> set gs" "f \<in> set fs" "p \<in> file_range f"
  obtains i where "shmemfilenode_findPtr fs p = Some i" "i < length fs" "fs ! i = f"
proof -
  obtain i where i: "shmemfilenode_findPtr fs p = Some i" using findPtr_ex [OF assms(3,4)] by blast
  then have "i < length fs" "p \<in> file_range (fs ! i)" using findPtr_Some by blast+
  moreover have "fs ! i = f" using files_okD(4) [OF assms(1), of f "fs ! i" p] assms calculation by (meson nth_mem subsetD)
  ultimately show ?thesis using i that by blast
qed

lemma findName_unique:
  assumes "files_ok gs" "set fs \<subseteq> set gs" "f \<in> set fs"
  obtains i where "shmemfilenode_findName fs (shmf_name f) = Some i" "i < length fs" "fs ! i = f"
proof -
  obtain i where i: "shmemfilenode_findName fs (shmf_name f) = Some i" using findName_ex [OF assms(3)] by blast
  then have "i < length fs" "shmf_name (fs ! i) = shmf_name f" using findName_Some by blast+
  moreover have "fs ! i = f" using files_okD(5) [OF assms(1), of f "fs ! i"] assms calculation by (meson nth_mem subsetD)
  ultimately show ?thesis using i that by blast
qed

section \<open>The text form is read back\<close>

lemma isdigit_not_space: "isdigit c \<Longrightarrow> \<not> isspace c \<and> c \<noteq> CHR ''-'' \<and> c \<noteq> CHR ''+''"
  by (auto simp: isdigit_def isspace_def)

lemma scan_zu_dec:
  assumes "n < 2 ^ 64" "rest = [] \<or> \<not> isdigit (hd rest)"
  shows "scan_zu (dec_nat n @ rest) = Some (of_nat n, rest)"
proof -
  have d: "list_all isdigit (dec_nat n)" "dec_nat n \<noteq> []" by (rule dec_nat_isdigit, rule dec_nat_not_Nil)
  then obtain c cs where c: "dec_nat n = c # cs" "isdigit c" by (cases "dec_nat n") auto
  then have h: "\<not> isspace c" "c \<noteq> CHR ''-''" "c \<noteq> CHR ''+''" using isdigit_not_space by auto
  have "dropWhile isspace (dec_nat n @ rest) = dec_nat n @ rest" using c h by simp
  moreover have "takeWhile isdigit (dec_nat n @ rest) = dec_nat n" "dropWhile isdigit (dec_nat n @ rest) = rest"
  proof -
    have all: "\<And>x. x \<in> set (dec_nat n) \<Longrightarrow> isdigit x" using d(1) by (simp add: list_all_iff)
    have "takeWhile isdigit rest = [] \<and> dropWhile isdigit rest = rest" using assms(2) by (cases rest) auto
    then show "takeWhile isdigit (dec_nat n @ rest) = dec_nat n" "dropWhile isdigit (dec_nat n @ rest) = rest"
      using takeWhile_append2 [of "dec_nat n" isdigit rest, OF all] dropWhile_append2 [of "dec_nat n" isdigit rest, OF all] by auto
  qed
  moreover have "hd (dec_nat n @ rest) = c" "dec_nat n @ rest \<noteq> []" using c by simp_all
  ultimately show ?thesis using d(2) h assms(1) by (simp add: scan_zu_def Let_def dec_nat_value)
qed

lemma scan_s_name: "name_ok name \<Longrightarrow> scan_s name = Some name"
proof -
  assume n: "name_ok name"
  then have "dropWhile isspace name = name" by (cases name) (auto simp: name_ok_def)
  moreover have "takeWhile (\<lambda>c. \<not> isspace c) name = name" using n by (auto simp: name_ok_def list_all_iff)
  ultimately show ?thesis using n by (simp only: scan_s_def Let_def) (simp add: name_ok_def)
qed

lemma fromString_toString:
  assumes "ser_offset s < 2 ^ 64" "ser_nbytes s < 2 ^ 64" "name_ok (ser_name s)"
  shows "shmemblockserialized_fromString (shmemblockserialized_toString s) = Some (s, False)"
proof -
  have b: "unat (ser_block_nbytes s) < 2 ^ 64" using unsigned_less [of "ser_block_nbytes s", where 'a = nat] by simp
  have comma: "\<not> isdigit (CHR '','')" by (simp add: isdigit_def)
  have u: "unat (of_nat n :: u64) = n" if "n < 2 ^ 64" for n using that by (simp add: unsigned_of_nat take_bit_nat_eq_self)
  have w: "(of_nat (unat x) :: u64) = x" for x by (metis of_nat_unat ucast_id)
  show ?thesis
    using assms b comma
    by (simp add: shmemblockserialized_fromString_def shmemblockserialized_toString_def scan_zu_dec scan_comma_def
        scan_s_name u w name_ok_def [symmetric] Let_def) (auto simp: name_ok_def)
qed

section \<open>The invariant of the allocator\<close>

definition files_of :: "shmem_allocator \<Rightarrow> shmem_file list" where
  "files_of al = map pn_file (sa_little_alloc_nodes al) @ sa_big_alloc_nodes al"

text \<open>The live blocks inside one file, by their offsets.\<close>

definition live_in :: "(nat \<rightharpoonup> u64) \<Rightarrow> shmem_file \<Rightarrow> nat \<rightharpoonup> u64" where
  "live_in L f = (\<lambda>q. if q < shmf_nbytes f then L (shmf_p f + q) else None)"

definition pool_ok :: "(nat \<rightharpoonup> u64) \<Rightarrow> pool_node \<Rightarrow> bool" where
  "pool_ok L nd \<longleftrightarrow> shmf_nbytes (pn_file nd) = 2 ^ 27 \<and> buddy_reach SHD_BUDDY_POOL_MAX_NBYTES (pn_heap nd) (live_in L (pn_file nd)) \<and>
     (\<forall>q r. live_in L (pn_file nd) q = Some r \<longrightarrow> r \<le> SHD_SHMEM_ALLOCATOR_CUTOVER_NBYTES)"

definition big_ok :: "(nat \<rightharpoonup> u64) \<Rightarrow> shmem_file \<Rightarrow> bool" where
  "big_ok L f \<longleftrightarrow> (\<exists>n. live_in L f = [0 \<mapsto> n] \<and> SHD_SHMEM_ALLOCATOR_CUTOVER_NBYTES < n \<and> unat n \<le> shmf_nbytes f)"

definition shmem_ok :: "shmem_allocator \<Rightarrow> (nat \<rightharpoonup> u64) \<Rightarrow> bool" where
  "shmem_ok al L \<longleftrightarrow> files_ok (files_of al) \<and> list_all (pool_ok L) (sa_little_alloc_nodes al) \<and>
     list_all (big_ok L) (sa_big_alloc_nodes al) \<and> (\<forall>p \<in> dom L. \<exists>f \<in> set (files_of al). p \<in> file_range f)"

lemma files_ok_subset:
  assumes "files_ok fs" "mset gs \<subseteq># mset fs" shows "files_ok gs"
proof -
  have "set gs \<subseteq> set fs" using assms(2) by (metis set_mset_mono set_mset_mset)
  moreover have "distinct gs"
  proof -
    have "count (mset fs) a \<le> 1" for a using assms(1) by (auto simp: files_ok_def distinct_count_atmost_1)
    then have "count (mset gs) a \<le> 1" for a using mset_subset_eq_count [OF assms(2), of a] le_trans by blast
    moreover have "0 < count (mset gs) a" if "a \<in> set gs" for a using that by simp
    ultimately show ?thesis by (simp add: distinct_count_atmost_1 count_mset_0_iff le_antisym Suc_leI)
  qed
  ultimately show ?thesis using assms(1) unfolding files_ok_def by blast
qed

lemma cutover: "unat SHD_SHMEM_ALLOCATOR_CUTOVER_NBYTES = 2 ^ 26 - 8"
  by (simp add: SHD_SHMEM_ALLOCATOR_CUTOVER_NBYTES_def SHD_SHMEM_ALLOCATOR_POOL_NBYTES_def SHD_BUDDY_POOL_MAX_NBYTES_def
      sizeof_BuddyControlBlock_def)

lemma small_limit: "n \<le> SHD_SHMEM_ALLOCATOR_CUTOVER_NBYTES \<Longrightarrow> unat n \<le> 2 ^ 27 - 8"
  using cutover by (simp add: word_le_nat_alt)

lemma live_in_range: "p \<in> file_range f \<Longrightarrow> live_in L f (p - shmf_p f) = L p"
  by (auto simp: live_in_def file_range_def)

lemma live_in_upd:
  assumes "files_ok fs" "f \<in> set fs" "g \<in> set fs" "p \<in> file_range f"
  shows "live_in (L(p := x)) g = (if g = f then (live_in L f)(p - shmf_p f := x) else live_in L g)"
proof (cases "g = f")
  case True
  then show ?thesis using assms(4) by (auto simp: live_in_def file_range_def fun_eq_iff)
next
  case False
  have "p \<notin> file_range g" using files_okD(4) [OF assms(1,2,3,4)] False by blast
  then show ?thesis using False by (auto simp: live_in_def file_range_def fun_eq_iff)
qed

lemma live_in_outside: "p \<notin> file_range g \<Longrightarrow> live_in (L(p := x)) g = live_in L g"
  by (auto simp: live_in_def file_range_def fun_eq_iff)

lemma shmem_okD:
  assumes "shmem_ok al L"
  shows "files_ok (files_of al)" "nd \<in> set (sa_little_alloc_nodes al) \<Longrightarrow> pool_ok L nd"
    "f \<in> set (sa_big_alloc_nodes al) \<Longrightarrow> big_ok L f" "L p = Some n \<Longrightarrow> \<exists>f \<in> set (files_of al). p \<in> file_range f"
  using assms by (auto simp: shmem_ok_def list_all_iff)

text \<open>Changing the block at \<open>p\<close> and the heap of the pool it is in.\<close>

lemma pool_update:
  assumes ok: "shmem_ok al L" and i: "i < length (sa_little_alloc_nodes al)" and nd: "nd = sa_little_alloc_nodes al ! i"
    and p: "p \<in> file_range (pn_file nd)"
    and heap: "buddy_reach SHD_BUDDY_POOL_MAX_NBYTES heap ((live_in L (pn_file nd))(p - shmf_p (pn_file nd) := x))"
    and x: "\<And>r. x = Some r \<Longrightarrow> r \<le> SHD_SHMEM_ALLOCATOR_CUTOVER_NBYTES"
  shows "shmem_ok (al\<lparr>sa_little_alloc_nodes := (sa_little_alloc_nodes al)[i := nd\<lparr>pn_heap := heap\<rparr>]\<rparr>) (L(p := x))"
proof -
  let ?nodes = "sa_little_alloc_nodes al" let ?al = "al\<lparr>sa_little_alloc_nodes := ?nodes[i := nd\<lparr>pn_heap := heap\<rparr>]\<rparr>"
  note f = shmem_okD(1) [OF ok]
  have fs: "files_of ?al = files_of al" using i nd by (simp add: files_of_def map_update list_update_same_conv)
  have ndf: "pn_file nd \<in> set (files_of al)" using i nd by (simp add: files_of_def)
  have "pool_ok (L(p := x)) m" if m: "m \<in> set (?nodes[i := nd\<lparr>pn_heap := heap\<rparr>])" for m
  proof -
    obtain j where j: "j < length ?nodes" "m = ?nodes[i := nd\<lparr>pn_heap := heap\<rparr>] ! j"
      using m by (auto simp: in_set_conv_nth)
    show ?thesis
    proof (cases "j = i")
      case True
      then have m: "m = nd\<lparr>pn_heap := heap\<rparr>" using j i by simp
      have "pool_ok L nd" using shmem_okD(2) [OF ok] i nd by simp
      then show ?thesis using heap x live_in_upd [OF f ndf ndf p, of L x] unfolding m pool_ok_def by (auto split: if_splits)
    next
      case False
      then have m: "m = ?nodes ! j" using j by simp
      have "distinct (map pn_file ?nodes)" using f by (simp add: files_ok_def files_of_def)
      then have "pn_file m \<noteq> pn_file nd" using False i j m nd by (metis length_map nth_eq_iff_index_eq nth_map)
      moreover have "pn_file m \<in> set (files_of al)" using m j by (simp add: files_of_def)
      ultimately have "live_in (L(p := x)) (pn_file m) = live_in L (pn_file m)" using live_in_upd [OF f ndf _ p, of "pn_file m" L x] by simp
      then show ?thesis using shmem_okD(2) [OF ok, of m] m j by (simp add: pool_ok_def)
    qed
  qed
  moreover have "big_ok (L(p := x)) g" if "g \<in> set (sa_big_alloc_nodes al)" for g
  proof -
    have "nd \<in> set ?nodes" using i nd by simp
    then have "g \<noteq> pn_file nd" using f that by (auto simp: files_ok_def files_of_def)
    then have "live_in (L(p := x)) g = live_in L g" using live_in_upd [OF f ndf _ p, of g L x] that by (simp add: files_of_def)
    then show ?thesis using shmem_okD(3) [OF ok that] by (simp add: big_ok_def)
  qed
  moreover have "\<exists>g \<in> set (files_of al). q \<in> file_range g" if "q \<in> dom (L(p := x))" for q
    using that shmem_okD(4) [OF ok, of q] ndf p by (auto split: if_splits)
  ultimately show ?thesis using f unfolding shmem_ok_def fs by (simp add: list_all_iff)
qed

text \<open>A new pool in front, and a new file for a large block.\<close>

lemma poolInit_returns: "\<exists>mem'. buddy_poolInit mem SHD_BUDDY_POOL_MAX_NBYTES = Some mem'"
proof -
  have o: "buddy_poolMaxOrder SHD_BUDDY_POOL_MAX_NBYTES = 27" using pool_orders(1) [OF pool_max] by simp
  obtain b1 where b1: "buddycontrolblock_setNxt (mem 0) 0 = Some b1" using setNxt_fields [of 0 "mem 0"] by auto
  obtain b2 where b2: "buddycontrolblock_setPrv b1 0 = Some b2" using setPrv_fields [of 0 b1] by auto
  obtain b3 where "buddycontrolblock_setOrder (buddycontrolblock_setTag b2 True) 27 = Some b3"
    using setOrder_fields [of 27 "buddycontrolblock_setTag b2 True"] by auto
  then show ?thesis using b1 b2 o by (simp add: buddy_poolInit_def)
qed

lemma files_fresh:
  assumes "files_ok (f # fs)" "\<And>p n. L p = Some n \<Longrightarrow> \<exists>g \<in> set fs. p \<in> file_range g"
  shows "live_in L f = Map.empty"
proof
  fix q
  have "f \<notin> set fs" using assms(1) by (simp add: files_ok_def)
  then have "p \<notin> file_range f" if "g \<in> set fs" "p \<in> file_range g" for g p
    using files_okD(4) [OF assms(1), of f g p] that by auto
  then have "L p = None" if "p \<in> file_range f" for p using assms(2) [of p] that by (cases "L p") auto
  then show "live_in L f q = None" by (simp add: live_in_def file_range_def)
qed

lemma add_pool:
  assumes ok: "shmem_ok al L" and f: "files_ok (f # files_of al)" "shmf_nbytes f = 2 ^ 27"
  obtains nd where "shmempoolnode_create (Some (f, mem)) = Some (Some nd)" "pn_file nd = f"
    "shmem_ok (al\<lparr>sa_little_alloc_nodes := nd # sa_little_alloc_nodes al\<rparr>) L" "live_in L f = Map.empty"
proof -
  obtain mem' where m: "buddy_poolInit mem SHD_BUDDY_POOL_MAX_NBYTES = Some mem'" using poolInit_returns by blast
  define nd where "nd = \<lparr>pn_file = f, pn_heap = (mem', buddy_metaInit SHD_BUDDY_POOL_MAX_NBYTES)\<rparr>"
  have c: "shmempoolnode_create (Some (f, mem)) = Some (Some nd)"
    using m by (simp add: shmempoolnode_create_def SHD_SHMEM_ALLOCATOR_POOL_NBYTES_def nd_def)
  have e: "live_in L f = Map.empty" by (rule files_fresh [OF f(1)]) (rule shmem_okD(4) [OF ok])
  have "pool_ok L nd" using buddy_reach.init [OF m] e f(2) by (simp add: pool_ok_def nd_def)
  moreover have "files_of (al\<lparr>sa_little_alloc_nodes := nd # sa_little_alloc_nodes al\<rparr>) = f # files_of al"
    by (simp add: files_of_def nd_def)
  ultimately have "shmem_ok (al\<lparr>sa_little_alloc_nodes := nd # sa_little_alloc_nodes al\<rparr>) L"
    using ok f(1) unfolding shmem_ok_def by auto
  then show ?thesis using c e by (intro that [of nd]) (simp_all add: nd_def)
qed

lemma head_alloc:
  assumes ok: "shmem_ok al L" and nodes: "sa_little_alloc_nodes al = nd # others" and n: "n \<le> SHD_SHMEM_ALLOCATOR_CUTOVER_NBYTES"
  obtains (granted) q heap where "buddy_alloc n (pn_heap nd) SHD_SHMEM_ALLOCATOR_POOL_NBYTES = Some (Some q, heap)"
      "shmem_ok (al\<lparr>sa_little_alloc_nodes := nd\<lparr>pn_heap := heap\<rparr> # others\<rparr>) (L(shmf_p (pn_file nd) + q \<mapsto> n))"
      "L (shmf_p (pn_file nd) + q) = None"
    | (refused) heap where "buddy_alloc n (pn_heap nd) SHD_SHMEM_ALLOCATOR_POOL_NBYTES = Some (None, heap)"
      "shmem_ok (al\<lparr>sa_little_alloc_nodes := nd\<lparr>pn_heap := heap\<rparr> # others\<rparr>) L" "n = 0 \<or> live_in L (pn_file nd) \<noteq> Map.empty"
proof -
  have p: "pool_ok L nd" using shmem_okD(2) [OF ok, of nd] nodes by simp
  then have nb: "shmf_nbytes (pn_file nd) = 2 ^ 27" by (simp add: pool_ok_def)
  have r: "buddy_reach SHD_BUDDY_POOL_MAX_NBYTES (pn_heap nd) (live_in L (pn_file nd))" using p by (simp add: pool_ok_def)
  have i: "0 < length (sa_little_alloc_nodes al)" "nd = sa_little_alloc_nodes al ! 0" using nodes by simp_all
  from r small_limit [OF n] show ?thesis
  proof (cases rule: pool.alloc_outcome)
    case g: (granted q heap)
    let ?p = "shmf_p (pn_file nd) + q"
    have lt: "unat n > 0" using g(6) by (simp add: unat_gt_0)
    have range: "?p \<in> file_range (pn_file nd)" using g(5) nb lt by (simp add: file_range_def)
    have "buddy_reach SHD_BUDDY_POOL_MAX_NBYTES heap ((live_in L (pn_file nd))(?p - shmf_p (pn_file nd) := Some n))" using g(2) by simp
    from pool_update [OF ok i range this] n nodes
    have "shmem_ok (al\<lparr>sa_little_alloc_nodes := nd\<lparr>pn_heap := heap\<rparr> # others\<rparr>) (L(?p \<mapsto> n))" by simp
    moreover have "L ?p = None" using g(3) live_in_range [OF range, of L] by simp
    ultimately show ?thesis using granted g(1) by (simp add: SHD_SHMEM_ALLOCATOR_POOL_NBYTES_def)
  next
    case g: (refused heap)
    let ?p = "shmf_p (pn_file nd)"
    have range: "?p \<in> file_range (pn_file nd)" using nb by (simp add: file_range_def)
    have same: "live_in L (pn_file nd) 0 = L ?p" using live_in_range [OF range, of L] by simp
    then have "buddy_reach SHD_BUDDY_POOL_MAX_NBYTES heap ((live_in L (pn_file nd))(?p - shmf_p (pn_file nd) := L ?p))"
      using g(2) by (simp add: fun_upd_idem)
    moreover have "r \<le> SHD_SHMEM_ALLOCATOR_CUTOVER_NBYTES" if "L ?p = Some r" for r
      using p same that by (simp add: pool_ok_def)
    ultimately have "shmem_ok (al\<lparr>sa_little_alloc_nodes := (sa_little_alloc_nodes al)[0 := nd\<lparr>pn_heap := heap\<rparr>]\<rparr>) (L(?p := L ?p))"
      by (rule pool_update [OF ok i range])
    then have "shmem_ok (al\<lparr>sa_little_alloc_nodes := nd\<lparr>pn_heap := heap\<rparr> # others\<rparr>) L" using nodes by (simp add: fun_upd_idem)
    then show ?thesis using refused g(1,3) by (simp add: SHD_SHMEM_ALLOCATOR_POOL_NBYTES_def)
  qed
qed

section \<open>Operations keep the invariant\<close>

definition answered :: "file_answer list \<Rightarrow> shmem_file list" where
  "answered answers = map fst (List.map_filter id answers)"

text \<open>
  What the documentation of \<^verbatim>\<open>shm_open\<close> and \<^verbatim>\<open>mmap\<close> grants for the answers: new files with new names,
  mapped where nothing else is, and of the size that was asked for.
\<close>

definition answers_ok :: "shmem_allocator \<Rightarrow> u64 \<Rightarrow> file_answer list \<Rightarrow> bool" where
  "answers_ok al n answers \<longleftrightarrow> files_ok (answered answers @ files_of al) \<and>
     (\<forall>f \<in> set (answered answers).
        if n \<le> SHD_SHMEM_ALLOCATOR_CUTOVER_NBYTES then shmf_nbytes f = 2 ^ 27 else unat n \<le> shmf_nbytes f)"

lemma answered_Cons [simp]:
  "answered (Some (f, mem) # as) = f # answered as" "answered (None # as) = answered as" "answered [] = []"
  by (simp_all add: answered_def map_filter_simps)

lemma answers_okD:
  assumes "answers_ok al n (Some (f, mem) # as)"
  shows "files_ok (f # files_of al)"
    "n \<le> SHD_SHMEM_ALLOCATOR_CUTOVER_NBYTES \<Longrightarrow> shmf_nbytes f = 2 ^ 27"
    "SHD_SHMEM_ALLOCATOR_CUTOVER_NBYTES < n \<Longrightarrow> unat n \<le> shmf_nbytes f"
proof -
  have "files_ok (answered (Some (f, mem) # as) @ files_of al)" using assms by (simp add: answers_ok_def)
  then show "files_ok (f # files_of al)" by (rule files_ok_subset) simp
  show "n \<le> SHD_SHMEM_ALLOCATOR_CUTOVER_NBYTES \<Longrightarrow> shmf_nbytes f = 2 ^ 27"
    "SHD_SHMEM_ALLOCATOR_CUTOVER_NBYTES < n \<Longrightarrow> unat n \<le> shmf_nbytes f"
    using assms by (auto simp: answers_ok_def split: if_splits)
qed

lemma granting:
  assumes ok: "shmem_ok al L" and nodes: "sa_little_alloc_nodes al = nd # others"
    and n: "n \<noteq> 0" "n \<le> SHD_SHMEM_ALLOCATOR_CUTOVER_NBYTES" and e: "live_in L (pn_file nd) = Map.empty"
  obtains p al' where "shmemallocator_littleAlloc al n answers = Some (\<lparr>blk_p = Some p, blk_nbytes = n\<rparr>, al', answers)"
    "L p = None" "shmem_ok al' (L(p \<mapsto> n))"
  using ok nodes n(2)
proof (cases rule: head_alloc)
  case (granted q heap)
  have "littleAlloc_try al n answers = Some (Inl (\<lparr>blk_p = Some (shmf_p (pn_file nd) + q), blk_nbytes = n\<rparr>,
      al\<lparr>sa_little_alloc_nodes := nd\<lparr>pn_heap := heap\<rparr> # others\<rparr>, answers))"
    using granted(1) nodes by (simp add: littleAlloc_try_def littleAlloc_nodes_def)
  then show ?thesis using granted(2,3) by (intro that) (simp_all add: shmemallocator_littleAlloc.simps [of al])
next
  case (refused heap)
  then show ?thesis using e n(1) by simp
qed

lemma little_alloc_ok:
  assumes ok: "shmem_ok al L" and n: "n \<noteq> 0" "n \<le> SHD_SHMEM_ALLOCATOR_CUTOVER_NBYTES" and a: "answers_ok al n answers"
  shows "(\<exists>p al' rest. shmemallocator_littleAlloc al n answers = Some (\<lparr>blk_p = Some p, blk_nbytes = n\<rparr>, al', rest) \<and>
       L p = None \<and> shmem_ok al' (L(p \<mapsto> n))) \<or>
     fst (next_answer answers) = None \<and>
       (shmemallocator_littleAlloc al n answers = None \<and> sa_little_alloc_nodes al = [] \<or>
        (\<exists>al' rest. shmemallocator_littleAlloc al n answers = Some (null_block, al', rest) \<and> shmem_ok al' L))"
proof (cases "sa_little_alloc_nodes al")
  case Nil
  show ?thesis
  proof (cases "fst (next_answer answers)")
    case None
    then have "littleAlloc_try al n answers = None"
      using Nil by (simp add: littleAlloc_try_def littleAlloc_nodes_def shmempoolnode_create_def)
    then show ?thesis using None Nil by (simp add: shmemallocator_littleAlloc.simps [of al])
  next
    case (Some x)
    obtain f mem where "x = (f, mem)" by (cases x)
    then obtain as where as: "answers = Some (f, mem) # as" using Some by (cases answers) auto
    note D = answers_okD [OF a [unfolded as]]
    obtain nd where nd: "shmempoolnode_create (Some (f, mem)) = Some (Some nd)" "pn_file nd = f"
      "shmem_ok (al\<lparr>sa_little_alloc_nodes := nd # sa_little_alloc_nodes al\<rparr>) L" "live_in L f = Map.empty"
      by (rule add_pool [OF ok D(1) D(2) [OF n(2)]]) (rule that)
    let ?al = "al\<lparr>sa_little_alloc_nodes := [nd]\<rparr>"
    have ok1: "shmem_ok ?al L" using nd(3) Nil by simp
    obtain p al' where g: "shmemallocator_littleAlloc ?al n as = Some (\<lparr>blk_p = Some p, blk_nbytes = n\<rparr>, al', as)"
      "L p = None" "shmem_ok al' (L(p \<mapsto> n))"
      by (rule granting [OF ok1 _ n]) (use nd in auto)
    have "littleAlloc_try al n answers = littleAlloc_try ?al n as"
      using Nil nd(1) as by (simp add: littleAlloc_try_def littleAlloc_nodes_def)
    then have "shmemallocator_littleAlloc al n answers = shmemallocator_littleAlloc ?al n as"
      by (simp add: shmemallocator_littleAlloc.simps [of al] shmemallocator_littleAlloc.simps [of ?al])
    then show ?thesis using g by auto
  qed
next
  case (Cons nd others)
  from ok Cons n(2) show ?thesis
  proof (cases rule: head_alloc)
    case (granted q heap)
    have "littleAlloc_try al n answers = Some (Inl (\<lparr>blk_p = Some (shmf_p (pn_file nd) + q), blk_nbytes = n\<rparr>,
        al\<lparr>sa_little_alloc_nodes := nd\<lparr>pn_heap := heap\<rparr> # others\<rparr>, answers))"
      using granted(1) Cons by (simp add: littleAlloc_try_def littleAlloc_nodes_def)
    then show ?thesis using granted(2,3) by (auto simp: shmemallocator_littleAlloc.simps [of al])
  next
    case (refused heap)
    let ?al = "al\<lparr>sa_little_alloc_nodes := nd\<lparr>pn_heap := heap\<rparr> # others\<rparr>"
    have tr: "littleAlloc_try al n answers = littleAlloc_grow ?al answers"
      using refused(1) Cons by (simp add: littleAlloc_try_def littleAlloc_nodes_def)
    show ?thesis
    proof (cases "fst (next_answer answers)")
      case None
      then have "littleAlloc_grow ?al answers = Some (Inl (null_block, ?al, snd (next_answer answers)))"
        by (simp add: littleAlloc_grow_def shmempoolnode_create_def)
      then show ?thesis using None tr refused(2) by (simp add: shmemallocator_littleAlloc.simps [of al])
    next
      case (Some x)
      obtain f mem where "x = (f, mem)" by (cases x)
      then obtain as where as: "answers = Some (f, mem) # as" using Some by (cases answers) auto
      note D = answers_okD [OF a [unfolded as]]
      have "files_of ?al = files_of al" using Cons by (simp add: files_of_def)
      then have f: "files_ok (f # files_of ?al)" using D(1) by simp
      obtain nd' where nd: "shmempoolnode_create (Some (f, mem)) = Some (Some nd')" "pn_file nd' = f"
        "shmem_ok (?al\<lparr>sa_little_alloc_nodes := nd' # sa_little_alloc_nodes ?al\<rparr>) L" "live_in L f = Map.empty"
        by (rule add_pool [OF refused(2) f D(2) [OF n(2)]]) (rule that)
      let ?al2 = "?al\<lparr>sa_little_alloc_nodes := nd' # sa_little_alloc_nodes ?al\<rparr>"
      obtain p al' where g: "shmemallocator_littleAlloc ?al2 n as = Some (\<lparr>blk_p = Some p, blk_nbytes = n\<rparr>, al', as)"
        "L p = None" "shmem_ok al' (L(p \<mapsto> n))"
        by (rule granting [OF nd(3) _ n]) (use nd in auto)
      have "littleAlloc_grow ?al answers = Some (Inr (?al2, as))" using as nd(1) by (simp add: littleAlloc_grow_def)
      then have "shmemallocator_littleAlloc al n answers = shmemallocator_littleAlloc ?al2 n as"
        using tr by (simp add: shmemallocator_littleAlloc.simps [of al])
      then show ?thesis using g by auto
    qed
  qed
qed

lemma big_alloc_ok:
  assumes ok: "shmem_ok al L" and n: "SHD_SHMEM_ALLOCATOR_CUTOVER_NBYTES < n" and a: "answers_ok al n answers"
  shows "(\<exists>p al' rest. shmemallocator_bigAlloc al n answers = (\<lparr>blk_p = Some p, blk_nbytes = n\<rparr>, al', rest) \<and>
       L p = None \<and> shmem_ok al' (L(p \<mapsto> n))) \<or>
     fst (next_answer answers) = None \<and>
       (\<exists>rest. shmemallocator_bigAlloc al n answers = (null_block, al, rest))"
proof (cases "fst (next_answer answers)")
  case None
  then show ?thesis by (cases "next_answer answers") (simp add: shmemallocator_bigAlloc_def)
next
  case (Some x)
  obtain f mem where "x = (f, mem)" by (cases x)
  then obtain as where as: "answers = Some (f, mem) # as" using Some by (cases answers) auto
  note D = answers_okD [OF a [unfolded as]]
  let ?al = "al\<lparr>sa_big_alloc_nodes := sa_big_alloc_nodes al @ [f]\<rparr>" let ?p = "shmf_p f"
  have e: "live_in L f = Map.empty" by (rule files_fresh [OF D(1)]) (rule shmem_okD(4) [OF ok])
  have fin: "f \<in> set (f # files_of al)" by simp
  have range: "?p \<in> file_range f" by (rule files_okD(2) [OF D(1) fin])
  have fresh: "L ?p = None" using e live_in_range [OF range, of L] by simp
  have fnot: "f \<notin> set (files_of al)" using D(1) by (simp add: files_ok_def)
  have other: "live_in (L(?p \<mapsto> n)) g = live_in L g" if "g \<in> set (files_of al)" for g
    using live_in_upd [OF D(1) fin _ range, of g L "Some n"] that fnot by auto
  have fs: "files_of ?al = files_of al @ [f]" by (simp add: files_of_def)
  have "files_ok (files_of ?al)" using D(1) by (rule files_ok_subset) (simp add: fs)
  moreover have "pool_ok (L(?p \<mapsto> n)) nd" if "nd \<in> set (sa_little_alloc_nodes al)" for nd
    using shmem_okD(2) [OF ok that] other [of "pn_file nd"] that by (simp add: pool_ok_def files_of_def)
  moreover have "big_ok (L(?p \<mapsto> n)) g" if "g \<in> set (sa_big_alloc_nodes al)" for g
    using shmem_okD(3) [OF ok that] other [of g] that by (simp add: big_ok_def files_of_def)
  moreover have "live_in (L(?p \<mapsto> n)) f = [0 \<mapsto> n]" using live_in_upd [OF D(1) fin fin range, of L "Some n"] e by simp
  then have "big_ok (L(?p \<mapsto> n)) f" using n D(3) [OF n] unfolding big_ok_def by blast
  moreover have "\<exists>g \<in> set (files_of ?al). q \<in> file_range g" if "q \<in> dom (L(?p \<mapsto> n))" for q
    using that shmem_okD(4) [OF ok, of q] range unfolding fs by (auto split: if_splits)
  ultimately have "shmem_ok ?al (L(?p \<mapsto> n))" unfolding shmem_ok_def by (auto simp: list_all_iff)
  then show ?thesis using fresh as by (simp add: shmemallocator_bigAlloc_def)
qed

text \<open>Where a live block is.\<close>

lemma live_place:
  assumes ok: "shmem_ok al L" and p: "L p = Some n"
  obtains (small) nd where "nd \<in> set (sa_little_alloc_nodes al)" "p \<in> file_range (pn_file nd)" "n \<le> SHD_SHMEM_ALLOCATOR_CUTOVER_NBYTES"
      "live_in L (pn_file nd) (p - shmf_p (pn_file nd)) = Some n"
    | (large) f where "f \<in> set (sa_big_alloc_nodes al)" "p = shmf_p f" "SHD_SHMEM_ALLOCATOR_CUTOVER_NBYTES < n"
      "live_in L f = [0 \<mapsto> n]" "unat n \<le> shmf_nbytes f"
proof -
  obtain f where f: "f \<in> set (files_of al)" "p \<in> file_range f" using shmem_okD(4) [OF ok p] by blast
  have l: "live_in L f (p - shmf_p f) = Some n" using live_in_range [OF f(2), of L] p by simp
  from f(1) consider nd where "nd \<in> set (sa_little_alloc_nodes al)" "f = pn_file nd" | "f \<in> set (sa_big_alloc_nodes al)"
    by (auto simp: files_of_def)
  then show ?thesis
  proof cases
    case 1
    then show ?thesis using small [of nd] f(2) l shmem_okD(2) [OF ok 1(1)] by (auto simp: pool_ok_def)
  next
    case 2
    then obtain m where m: "live_in L f = [0 \<mapsto> m]" "SHD_SHMEM_ALLOCATOR_CUTOVER_NBYTES < m" "unat m \<le> shmf_nbytes f"
      using shmem_okD(3) [OF ok 2] by (auto simp: big_ok_def)
    then have "p - shmf_p f = 0" "m = n" using l by (auto split: if_splits)
    then have "p = shmf_p f" using f(2) by (simp add: file_range_def)
    then show ?thesis using large [OF 2] m \<open>m = n\<close> by simp
  qed
qed

lemma big_free_ok:
  assumes ok: "shmem_ok al L" and f: "f \<in> set (sa_big_alloc_nodes al)" "live_in L f = [0 \<mapsto> n]"
  obtains al' where "shmemallocator_bigFree al (shmf_p f) = Some al'" "shmem_ok al' (L(shmf_p f := None))"
proof -
  let ?big = "sa_big_alloc_nodes al" let ?p = "shmf_p f"
  note fo = shmem_okD(1) [OF ok]
  have ff: "f \<in> set (files_of al)" using f(1) by (simp add: files_of_def)
  have range: "?p \<in> file_range f" by (rule files_okD(2) [OF fo ff])
  obtain i where i: "big_find ?big ?p = Some i" using big_find_ex [OF f(1)] by blast
  then have ib: "i < length ?big" "shmf_p (?big ! i) = ?p" using big_find_Some by blast+
  have bi: "?big ! i \<in> set (files_of al)" using ib(1) by (simp add: files_of_def)
  have fi: "?big ! i = f" using files_okD(4) [OF fo ff bi range] files_okD(2) [OF fo bi] ib(2) by simp
  let ?al = "al\<lparr>sa_big_alloc_nodes := take i ?big @ drop (Suc i) ?big\<rparr>"
  have free: "shmemallocator_bigFree al ?p = Some ?al" using i f(1) by (auto simp: shmemallocator_bigFree_def)
  have split: "?big = take i ?big @ f # drop (Suc i) ?big" using id_take_nth_drop [OF ib(1)] fi by simp
  have sets: "set ?big = insert f (set (take i ?big @ drop (Suc i) ?big))" by (subst split) auto
  have fs: "mset (files_of al) = add_mset f (mset (files_of ?al))" unfolding files_of_def by (subst split) simp
  have fo': "files_ok (files_of ?al)" using fo by (rule files_ok_subset) (simp add: fs)
  have "distinct (map pn_file (sa_little_alloc_nodes al) @ ?big)" using fo by (simp add: files_ok_def files_of_def)
  then have "distinct (map pn_file (sa_little_alloc_nodes al) @ take i ?big @ f # drop (Suc i) ?big)" using split by metis
  then have fnot: "f \<notin> set (files_of ?al)" by (simp add: files_of_def)
  have all: "set (files_of al) = insert f (set (files_of ?al))" using sets by (auto simp: files_of_def)
  have other: "live_in (L(?p := None)) g = live_in L g" if "g \<in> set (files_of ?al)" for g
    using live_in_upd [OF fo ff _ range, of g L None] that fnot all by auto
  have "pool_ok (L(?p := None)) nd" if "nd \<in> set (sa_little_alloc_nodes al)" for nd
    using shmem_okD(2) [OF ok that] other [of "pn_file nd"] that by (simp add: pool_ok_def files_of_def)
  moreover have "big_ok (L(?p := None)) g" if "g \<in> set (take i ?big @ drop (Suc i) ?big)" for g
    using shmem_okD(3) [OF ok, of g] other [of g] that sets by (auto simp: big_ok_def files_of_def)
  moreover have "\<exists>g \<in> set (files_of ?al). q \<in> file_range g" if q: "q \<in> dom (L(?p := None))" for q
  proof -
    obtain m where m: "L q = Some m" "q \<noteq> ?p" using q by (auto split: if_splits)
    obtain g where g: "g \<in> set (files_of al)" "q \<in> file_range g" using shmem_okD(4) [OF ok m(1)] by blast
    have "g \<noteq> f"
    proof
      assume "g = f"
      then have "live_in L f (q - ?p) = Some m" "?p \<le> q" using live_in_range [of q f L] g m by (auto simp: file_range_def)
      then show False using f(2) m(2) by (auto split: if_splits)
    qed
    then show ?thesis using g all by auto
  qed
  ultimately have "shmem_ok ?al (L(?p := None))" using fo' unfolding shmem_ok_def by (simp add: list_all_iff)
  then show ?thesis using free that by blast
qed

lemma little_free_ok:
  assumes ok: "shmem_ok al L" and nd: "nd \<in> set (sa_little_alloc_nodes al)" and p: "p \<in> file_range (pn_file nd)"
    and l: "live_in L (pn_file nd) (p - shmf_p (pn_file nd)) = Some n"
  obtains al' where "shmemallocator_littleFree al p = Some al'" "shmem_ok al' (L(p := None))"
proof -
  let ?nodes = "sa_little_alloc_nodes al"
  note fo = shmem_okD(1) [OF ok]
  obtain i where i: "shmemfilenode_findPtr (map pn_file ?nodes) p = Some i" "i < length ?nodes" "pn_file (?nodes ! i) = pn_file nd"
  proof (rule findPtr_unique [OF fo _ _ p, of "map pn_file ?nodes"])
    show "set (map pn_file ?nodes) \<subseteq> set (files_of al)" by (simp add: files_of_def)
    show "pn_file nd \<in> set (map pn_file ?nodes)" using nd by simp
  qed (use that in auto)
  have "pool_ok L (?nodes ! i)" using shmem_okD(2) [OF ok, of "?nodes ! i"] i(2) by simp
  then have "buddy_reach SHD_BUDDY_POOL_MAX_NBYTES (pn_heap (?nodes ! i)) (live_in L (pn_file nd))" using i(3) by (simp add: pool_ok_def)
  from pool.free_live [OF this l] obtain heap where
    h: "buddy_free (Some (p - shmf_p (pn_file nd))) (pn_heap (?nodes ! i)) SHD_BUDDY_POOL_MAX_NBYTES = Some heap"
    "buddy_reach SHD_BUDDY_POOL_MAX_NBYTES heap ((live_in L (pn_file nd))(p - shmf_p (pn_file nd) := None))" by blast
  have "shmem_ok (al\<lparr>sa_little_alloc_nodes := ?nodes[i := (?nodes ! i)\<lparr>pn_heap := heap\<rparr>]\<rparr>) (L(p := None))"
    using h(2) i p by (intro pool_update [OF ok i(2) refl]) simp_all
  moreover have "shmemallocator_littleFree al p = Some (al\<lparr>sa_little_alloc_nodes := ?nodes[i := (?nodes ! i)\<lparr>pn_heap := heap\<rparr>]\<rparr>)"
    using i h(1) by (simp add: shmemallocator_littleFree_def SHD_SHMEM_ALLOCATOR_POOL_NBYTES_def)
  ultimately show ?thesis using that by blast
qed

lemma free_block_ok:
  assumes ok: "shmem_ok al L" and p: "L p = Some n"
  obtains al' where "shmemallocator_free al \<lparr>blk_p = Some p, blk_nbytes = n\<rparr> = Some al'" "shmem_ok al' (L(p := None))"
  using ok p
proof (cases rule: live_place)
  case (small nd)
  obtain al' where "shmemallocator_littleFree al p = Some al'" "shmem_ok al' (L(p := None))"
    by (rule little_free_ok [OF ok small(1,2,4)]) (rule that)
  then show ?thesis using small(3) by (intro that [of al']) (simp_all add: shmemallocator_free_def leD)
next
  case (large f)
  obtain al' where "shmemallocator_bigFree al (shmf_p f) = Some al'" "shmem_ok al' (L(shmf_p f := None))"
    by (rule big_free_ok [OF ok large(1,4)]) (rule that)
  then show ?thesis using large(2,3) by (intro that [of al']) (simp_all add: shmemallocator_free_def)
qed

section \<open>Histories\<close>

text \<open>
  The states that allocations with any answers of the operating system, releases of live blocks, and writes of the
  owners into their blocks in a pool can reach; \<open>L\<close> maps the pointers of the live blocks to their sizes.
\<close>

definition add_live :: "(nat \<rightharpoonup> u64) \<Rightarrow> shmem_block \<Rightarrow> nat \<rightharpoonup> u64" where
  "add_live L blk = (case blk_p blk of None \<Rightarrow> L | Some p \<Rightarrow> L(p \<mapsto> blk_nbytes blk))"

lemma add_live_simps [simp]: "add_live L \<lparr>blk_p = Some p, blk_nbytes = n\<rparr> = L(p \<mapsto> n)" "add_live L null_block = L"
  by (simp_all add: add_live_def null_block_def)

inductive shmem_reach :: "shmem_allocator \<Rightarrow> (nat \<rightharpoonup> u64) \<Rightarrow> bool" where
  create: "shmem_reach shmemallocator_create Map.empty"
| alloc: "shmem_reach al L \<Longrightarrow> answers_ok al n answers \<Longrightarrow> shmemallocator_alloc al n answers = Some (blk, al', rest) \<Longrightarrow>
    shmem_reach al' (add_live L blk)"
| release: "shmem_reach al L \<Longrightarrow> L p = Some n \<Longrightarrow>
    shmemallocator_free al \<lparr>blk_p = Some p, blk_nbytes = n\<rparr> = Some al' \<Longrightarrow> shmem_reach al' (L(p := None))"
| store: "shmem_reach al L \<Longrightarrow> i < length (sa_little_alloc_nodes al) \<Longrightarrow> pn_heap (sa_little_alloc_nodes al ! i) = (mem, bcbs) \<Longrightarrow>
    (\<And>x. mem' x \<noteq> mem x \<Longrightarrow> \<exists>q r. live_in L (pn_file (sa_little_alloc_nodes al ! i)) q = Some r \<and> q \<le> x \<and> x < q + unat r) \<Longrightarrow>
    shmem_reach (al\<lparr>sa_little_alloc_nodes := (sa_little_alloc_nodes al)
      [i := (sa_little_alloc_nodes al ! i)\<lparr>pn_heap := (mem', bcbs)\<rparr>]\<rparr>) L"

lemma shmem_reach_ok: "shmem_reach al L \<Longrightarrow> shmem_ok al L"
proof (induction rule: shmem_reach.induct)
  case create
  then show ?case by (simp add: shmem_ok_def shmemallocator_create_def files_of_def files_ok_def)
next
  case (alloc al L n answers blk al' rest)
  consider "n = 0" | "n \<noteq> 0" "SHD_SHMEM_ALLOCATOR_CUTOVER_NBYTES < n" | "n \<noteq> 0" "n \<le> SHD_SHMEM_ALLOCATOR_CUTOVER_NBYTES"
    by (metis not_le)
  then show ?case
  proof cases
    case 1 then show ?thesis using alloc.hyps(3) alloc.IH by (auto simp: shmemallocator_alloc_def)
  next
    case 2
    then have res: "shmemallocator_bigAlloc al n answers = (blk, al', rest)"
      using alloc.hyps(3) by (simp add: shmemallocator_alloc_def)
    from big_alloc_ok [OF alloc.IH 2(2) alloc.hyps(2)] show ?thesis
      unfolding res by (elim disjE exE conjE) (insert alloc.IH, simp_all add: fun_upd_def)
  next
    case 3
    then have res: "shmemallocator_littleAlloc al n answers = Some (blk, al', rest)"
      using alloc.hyps(3) by (simp add: shmemallocator_alloc_def leD)
    from little_alloc_ok [OF alloc.IH 3 alloc.hyps(2)] show ?thesis
      unfolding res by (elim disjE exE conjE) (simp_all add: fun_upd_def)
  qed
next
  case (release al L p n al')
  then show ?case using free_block_ok [OF release.IH release.hyps(2)] by (metis option.inject)
next
  case (store al L i mem bcbs mem')
  let ?nd = "sa_little_alloc_nodes al ! i" let ?p = "shmf_p (pn_file ?nd)"
  have ok: "pool_ok L ?nd" using shmem_okD(2) [OF store.IH] store.hyps(2) by simp
  have range: "?p \<in> file_range (pn_file ?nd)" using ok by (simp add: pool_ok_def file_range_def)
  have same: "live_in L (pn_file ?nd) 0 = L ?p" using live_in_range [OF range, of L] by simp
  have "buddy_reach SHD_BUDDY_POOL_MAX_NBYTES (mem, bcbs) (live_in L (pn_file ?nd))" using ok store.hyps(3) by (simp add: pool_ok_def)
  from buddy_reach.store [OF this store.hyps(4)]
  have "buddy_reach SHD_BUDDY_POOL_MAX_NBYTES (mem', bcbs) ((live_in L (pn_file ?nd))(?p - shmf_p (pn_file ?nd) := L ?p))"
    using same by (simp add: fun_upd_idem)
  moreover have "r \<le> SHD_SHMEM_ALLOCATOR_CUTOVER_NBYTES" if "L ?p = Some r" for r
    using ok same that by (simp add: pool_ok_def)
  ultimately have "shmem_ok (al\<lparr>sa_little_alloc_nodes := (sa_little_alloc_nodes al)[i := ?nd\<lparr>pn_heap := (mem', bcbs)\<rparr>]\<rparr>) (L(?p := L ?p))"
    by (rule pool_update [OF store.IH store.hyps(2) refl range])
  then show ?case by (simp add: fun_upd_idem)
qed

section \<open>Correctness\<close>

lemma live_blocks_disjoint:
  assumes ok: "shmem_ok al L" and p: "L p = Some n" and q: "L q = Some m" and ne: "p \<noteq> q"
  shows "{p..<p + unat n} \<inter> {q..<q + unat m} = {}"
proof -
  have place: "\<exists>f \<in> set (files_of al). {x..<x + unat k} \<subseteq> file_range f \<and> x \<in> file_range f" if x: "L x = Some k" for x k
    using ok x
  proof (cases rule: live_place)
    case (small nd)
    have "pool_ok L nd" using shmem_okD(2) [OF ok small(1)] .
    then have r: "buddy_reach SHD_BUDDY_POOL_MAX_NBYTES (pn_heap nd) (live_in L (pn_file nd))" and "shmf_nbytes (pn_file nd) = 2 ^ 27"
      by (simp_all add: pool_ok_def)
    moreover have "(x - shmf_p (pn_file nd)) + unat k \<le> 2 ^ 27" using pool.live_inside [OF r small(4)] by blast
    ultimately show ?thesis using small(1,2) by (intro bexI [of _ "pn_file nd"]) (auto simp: file_range_def files_of_def)
  next
    case (large f)
    then show ?thesis using files_okD(2) [OF shmem_okD(1) [OF ok], of f]
      by (intro bexI [of _ f]) (auto simp: file_range_def files_of_def)
  qed
  obtain f where f: "f \<in> set (files_of al)" "{p..<p + unat n} \<subseteq> file_range f" "p \<in> file_range f" using place [OF p] by blast
  obtain g where g: "g \<in> set (files_of al)" "{q..<q + unat m} \<subseteq> file_range g" "q \<in> file_range g" using place [OF q] by blast
  note fo = shmem_okD(1) [OF ok]
  show ?thesis
  proof (cases "f = g")
    case False
    then have "file_range f \<inter> file_range g = {}" using fo f(1) g(1) unfolding files_ok_def by blast
    then show ?thesis using f(2) g(2) by blast
  next
    case True
    from ok p show ?thesis
    proof (cases rule: live_place)
      case (small nd)
      have nf: "pn_file nd \<in> set (files_of al)" using small(1) by (simp add: files_of_def)
      have fn: "f = pn_file nd" using files_okD(4) [OF fo nf f(1) small(2) f(3)] .
      have "live_in L f (q - shmf_p f) = Some m" "live_in L f (p - shmf_p f) = Some n"
        using live_in_range [of q f L] live_in_range [of p f L] g(3) f(3) True p q by auto
      moreover have "p - shmf_p f \<noteq> q - shmf_p f" using ne f(3) g(3) True by (auto simp: file_range_def)
      moreover have "buddy_reach SHD_BUDDY_POOL_MAX_NBYTES (pn_heap nd) (live_in L f)"
        using shmem_okD(2) [OF ok small(1)] fn by (simp add: pool_ok_def)
      ultimately have "{p - shmf_p f..<p - shmf_p f + unat n} \<inter> {q - shmf_p f..<q - shmf_p f + unat m} = {}"
        by (intro pool.live_disjoint)
      then show ?thesis using f(3) g(3) True by (auto simp: file_range_def disjoint_iff)
    next
      case (large h)
      have hf: "h \<in> set (files_of al)" using large(1) by (simp add: files_of_def)
      have "f = h" using files_okD(4) [OF fo hf f(1) _ f(3)] files_okD(2) [OF fo hf] large(2) by simp
      then have "live_in L h (q - shmf_p h) = Some m" "shmf_p h \<le> q" using live_in_range [of q h L] g(3) True q by (auto simp: file_range_def)
      then have "q = shmf_p h" using large(4) by (auto split: if_splits)
      then show ?thesis using ne large(2) by simp
    qed
  qed
qed

text \<open>
  C9: in every history of the shared memory allocator a request is granted as soon as the operating system grants at
  most one new file, large and small requests alike, with a block that is not live; every live block can be released, without a failed
  assertion; and live blocks, in the same or in different pools or files, never overlap.
\<close>

theorem shmem_allocator_correct:
  assumes "shmem_reach al L"
  shows "(\<forall>n answers. n \<noteq> 0 \<longrightarrow> answers_ok al n answers \<longrightarrow> fst (next_answer answers) \<noteq> None \<longrightarrow>
       (\<exists>p al' rest. shmemallocator_alloc al n answers = Some (\<lparr>blk_p = Some p, blk_nbytes = n\<rparr>, al', rest) \<and> L p = None)) \<and>
     (\<forall>p n. L p = Some n \<longrightarrow> (\<exists>al'. shmemallocator_free al \<lparr>blk_p = Some p, blk_nbytes = n\<rparr> = Some al')) \<and>
     (\<forall>p n q m. L p = Some n \<longrightarrow> L q = Some m \<longrightarrow> p \<noteq> q \<longrightarrow> {p..<p + unat n} \<inter> {q..<q + unat m} = {})"
proof (intro conjI allI impI)
  note ok = shmem_reach_ok [OF assms]
  show "\<exists>p al' rest. shmemallocator_alloc al n answers = Some (\<lparr>blk_p = Some p, blk_nbytes = n\<rparr>, al', rest) \<and> L p = None"
    if n: "n \<noteq> 0" and a: "answers_ok al n answers" and nx: "fst (next_answer answers) \<noteq> None" for n answers
  proof (cases "SHD_SHMEM_ALLOCATOR_CUTOVER_NBYTES < n")
    case True
    then show ?thesis using big_alloc_ok [OF ok True a] n nx by (auto simp: shmemallocator_alloc_def)
  next
    case False
    then have "n \<le> SHD_SHMEM_ALLOCATOR_CUTOVER_NBYTES" by simp
    from little_alloc_ok [OF ok n this a] nx n False show ?thesis by (auto simp: shmemallocator_alloc_def)
  qed
  show "\<exists>al'. shmemallocator_free al \<lparr>blk_p = Some p, blk_nbytes = n\<rparr> = Some al'" if "L p = Some n" for p n
    using free_block_ok [OF ok that] by metis
  show "{p..<p + unat n} \<inter> {q..<q + unat m} = {}" if "L p = Some n" "L q = Some m" "p \<noteq> q" for p n q m
    by (rule live_blocks_disjoint [OF ok that])
qed

theorem shmem_allocator_correct_witness:
  "\<exists>p al' rest. shmemallocator_alloc shmemallocator_create 10
     [Some (\<lparr>shmf_p = 4096, shmf_nbytes = 2 ^ 27, shmf_name = ''/a''\<rparr>, \<lambda>_. \<lparr>bcb_nxt = 0, bcb_prv = 0\<rparr>)] =
     Some (\<lparr>blk_p = Some p, blk_nbytes = 10\<rparr>, al', rest)"
proof -
  let ?as = "[Some (\<lparr>shmf_p = 4096, shmf_nbytes = 2 ^ 27, shmf_name = ''/a''\<rparr>, \<lambda>_. \<lparr>bcb_nxt = 0, bcb_prv = 0\<rparr>)]"
  have "name_ok ''/a''" by code_simp
  moreover have "(10 :: u64) \<le> SHD_SHMEM_ALLOCATOR_CUTOVER_NBYTES" by (simp add: word_le_nat_alt cutover)
  ultimately have "answers_ok shmemallocator_create 10 ?as"
    by (simp add: answers_ok_def files_ok_def files_of_def shmemallocator_create_def)
  then show ?thesis using shmem_allocator_correct [OF shmem_reach.create] by fastforce
qed

text \<open>The file a live block is in, as the two searches find it.\<close>

lemma serialize_ok:
  assumes ok: "shmem_ok al L" and p: "L p = Some n"
  obtains f where "f \<in> set (files_of al)" "p \<in> file_range f"
    "shmemallocator_blockSerialize al \<lparr>blk_p = Some p, blk_nbytes = n\<rparr> =
       Some \<lparr>ser_offset = p - shmf_p f, ser_nbytes = shmf_nbytes f, ser_block_nbytes = n, ser_name = shmf_name f\<rparr>"
proof -
  note fo = shmem_okD(1) [OF ok]
  let ?nodes = "if SHD_SHMEM_ALLOCATOR_CUTOVER_NBYTES < n then sa_big_alloc_nodes al else map pn_file (sa_little_alloc_nodes al)"
  have sub: "set ?nodes \<subseteq> set (files_of al)" by (simp add: files_of_def)
  obtain f where f: "f \<in> set ?nodes" "p \<in> file_range f" using ok p
  proof (cases rule: live_place)
    case (small nd) then show ?thesis by (intro that [of "pn_file nd"]) (auto simp: leD)
  next
    case (large f)
    then show ?thesis using files_okD(2) [OF fo, of f] by (intro that [of f]) (auto simp: files_of_def)
  qed
  obtain i where i: "shmemfilenode_findPtr ?nodes p = Some i" "?nodes ! i = f"
    by (rule findPtr_unique [OF fo sub f]) (use that in auto)
  have ff: "f \<in> set (files_of al)" using f(1) sub by blast
  have "shmemallocator_blockSerialize al \<lparr>blk_p = Some p, blk_nbytes = n\<rparr> =
      Some (shmemblockserialized_populate \<lparr>blk_p = Some p, blk_nbytes = n\<rparr> p f)"
    using i by (simp add: shmemallocator_blockSerialize_def Let_def split: if_splits)
  then show ?thesis using that [OF ff f(2)] files_okD(3) [OF fo ff] by (simp add: shmemblockserialized_populate_def)
qed

lemma deserialize_ok:
  assumes ok: "shmem_ok al L" and f: "f \<in> set (files_of al)" and name: "ser_name ser = shmf_name f"
  shows "shmemallocator_blockDeserialize al ser = Some (shmemblock_populate ser f)"
proof -
  note fo = shmem_okD(1) [OF ok]
  show ?thesis
  proof (cases "shmemfilenode_findName (sa_big_alloc_nodes al) (shmf_name f)")
    case (Some i)
    then have i: "i < length (sa_big_alloc_nodes al)" "shmf_name (sa_big_alloc_nodes al ! i) = shmf_name f" using findName_Some by blast+
    then have "sa_big_alloc_nodes al ! i = f" using files_okD(5) [OF fo f] by (simp add: files_of_def)
    then show ?thesis using Some name by (simp add: shmemallocator_blockDeserialize_def)
  next
    case None
    then have "f \<notin> set (sa_big_alloc_nodes al)" using findName_None by blast
    then have fl: "f \<in> set (map pn_file (sa_little_alloc_nodes al))" using f by (simp add: files_of_def)
    obtain i where i: "shmemfilenode_findName (map pn_file (sa_little_alloc_nodes al)) (shmf_name f) = Some i"
      "i < length (map pn_file (sa_little_alloc_nodes al))" "map pn_file (sa_little_alloc_nodes al) ! i = f"
      by (rule findName_unique [OF fo _ fl]) (use that in \<open>auto simp: files_of_def\<close>)
    then show ?thesis using None name by (simp add: shmemallocator_blockDeserialize_def)
  qed
qed

lemma serializer_roundtrip:
  assumes fo: "files_ok (ss_nodes ss')" and g: "g \<in> set (ss_nodes ss')" "shmf_name g = ser_name ser" "shmf_nbytes g = ser_nbytes ser"
    and off: "ser_offset ser < ser_nbytes ser"
  shows "shmemserializer_blockSerialize ss' (shmemblock_populate ser g) = Some ser"
proof -
  have "shmf_p g + ser_offset ser \<in> file_range g" using off g(3) by (simp add: file_range_def)
  then obtain i where "shmemfilenode_findPtr (ss_nodes ss') (shmf_p g + ser_offset ser) = Some i" "ss_nodes ss' ! i = g"
    by (rule findPtr_unique [OF fo subset_refl g(1)]) (use that in auto)
  then show ?thesis using files_okD(3) [OF fo g(1)] g(2,3)
    by (simp add: shmemserializer_blockSerialize_def shmemblock_populate_def shmemblockserialized_populate_def)
qed

text \<open>
  C19: a live block crosses the boundary between processes unharmed. Its serialized form is turned back into the block by
  the allocator; printed and parsed it is the same; and the serializer of another process, which finds the file among its own or
  maps it at an address of its own, gets a block of the same size at the same offset of the file, which it serializes to the
  same form.
\<close>

theorem shmem_serialize_roundtrip:
  assumes "shmem_reach al L" "L p = Some n"
  shows "\<exists>ser. shmemallocator_blockSerialize al \<lparr>blk_p = Some p, blk_nbytes = n\<rparr> = Some ser \<and>
     shmemallocator_blockDeserialize al ser = Some \<lparr>blk_p = Some p, blk_nbytes = n\<rparr> \<and>
     shmemblockserialized_fromString (shmemblockserialized_toString ser) = Some (ser, False) \<and>
     (\<forall>ss f. files_ok (ss_nodes ss @ [f]) \<longrightarrow> shmf_name f = ser_name ser \<longrightarrow> shmf_nbytes f = ser_nbytes ser \<longrightarrow>
        (case shmemserializer_blockDeserialize ss ser (Some f) of (blk, ss') \<Rightarrow>
           blk = \<lparr>blk_p = Some (shmf_p f + ser_offset ser), blk_nbytes = n\<rparr> \<and>
           shmemserializer_blockSerialize ss' blk = Some ser \<and>
           shmemserializer_blockDeserialize ss' ser None = (blk, ss')))"
proof -
  note ok = shmem_reach_ok [OF assms(1)]
  note fo = shmem_okD(1) [OF ok]
  obtain f where f: "f \<in> set (files_of al)" "p \<in> file_range f"
    and s: "shmemallocator_blockSerialize al \<lparr>blk_p = Some p, blk_nbytes = n\<rparr> =
       Some \<lparr>ser_offset = p - shmf_p f, ser_nbytes = shmf_nbytes f, ser_block_nbytes = n, ser_name = shmf_name f\<rparr>"
    by (rule serialize_ok [OF ok assms(2)]) (rule that)
  let ?ser = "\<lparr>ser_offset = p - shmf_p f, ser_nbytes = shmf_nbytes f, ser_block_nbytes = n, ser_name = shmf_name f\<rparr>"
  have d: "shmemallocator_blockDeserialize al ?ser = Some \<lparr>blk_p = Some p, blk_nbytes = n\<rparr>"
    using deserialize_ok [OF ok f(1), of ?ser] f(2) by (simp add: shmemblock_populate_def file_range_def)
  have off: "p - shmf_p f < shmf_nbytes f" using f(2) by (auto simp: file_range_def)
  have "shmf_p f + shmf_nbytes f \<le> 2 ^ 64" "0 < shmf_p f" "name_ok (shmf_name f)" using fo f(1) by (auto simp: files_ok_def)
  then have t: "shmemblockserialized_fromString (shmemblockserialized_toString ?ser) = Some (?ser, False)"
    using off by (intro fromString_toString) simp_all
  have "case shmemserializer_blockDeserialize ss ?ser (Some g) of (blk, ss') \<Rightarrow>
      blk = \<lparr>blk_p = Some (shmf_p g + ser_offset ?ser), blk_nbytes = n\<rparr> \<and>
      shmemserializer_blockSerialize ss' blk = Some ?ser \<and> shmemserializer_blockDeserialize ss' ?ser None = (blk, ss')"
    if g: "files_ok (ss_nodes ss @ [g])" "shmf_name g = shmf_name f" "shmf_nbytes g = shmf_nbytes f" for ss g
  proof -
    have "shmf_name h \<noteq> shmf_name f" if "h \<in> set (ss_nodes ss)" for h
      using g(1,2) that by (auto simp: files_ok_def)
    then have none: "shmemfilenode_findName (ss_nodes ss) (shmf_name f) = None"
      using findName_Some [of "ss_nodes ss" "shmf_name f"] by (cases "shmemfilenode_findName (ss_nodes ss) (shmf_name f)") auto
    let ?ss = "ss\<lparr>ss_nodes := ss_nodes ss @ [g]\<rparr>"
    have "shmemserializer_blockDeserialize ss ?ser (Some g) = (shmemblock_populate ?ser g, ?ss)"
      using none by (simp add: shmemserializer_blockDeserialize_def)
    moreover have "shmemserializer_blockSerialize ?ss (shmemblock_populate ?ser g) = Some ?ser"
      using g off by (intro serializer_roundtrip) simp_all
    moreover have "\<exists>i. shmemfilenode_findName (ss_nodes ss @ [g]) (shmf_name f) = Some i \<and> (ss_nodes ss @ [g]) ! i = g"
      using findName_unique [OF g(1) subset_refl, of g] g(2) by auto
    then have "shmemserializer_blockDeserialize ?ss ?ser None = (shmemblock_populate ?ser g, ?ss)"
      by (auto simp: shmemserializer_blockDeserialize_def)
    ultimately show ?thesis by (simp add: shmemblock_populate_def)
  qed
  then show ?thesis using s d t by (intro exI [of _ ?ser]) simp
qed

theorem shmem_serialize_roundtrip_witness:
  "\<exists>al ser. shmem_reach al [4096 \<mapsto> 134217728] \<and>
     shmemallocator_blockSerialize al \<lparr>blk_p = Some 4096, blk_nbytes = 134217728\<rparr> = Some ser \<and>
     shmemblockserialized_fromString (shmemblockserialized_toString ser) = Some (ser, False)"
proof -
  let ?f = "\<lparr>shmf_p = 4096, shmf_nbytes = 2 ^ 27, shmf_name = ''/a''\<rparr>"
  let ?as = "[Some (?f, \<lambda>_. \<lparr>bcb_nxt = 0, bcb_prv = 0\<rparr>)]"
  have big: "\<not> (134217728 :: u64) \<le> SHD_SHMEM_ALLOCATOR_CUTOVER_NBYTES" by (simp add: word_le_nat_alt cutover)
  have "name_ok ''/a''" by code_simp
  then have a: "answers_ok shmemallocator_create 134217728 ?as"
    using big by (simp add: answers_ok_def files_ok_def files_of_def shmemallocator_create_def)
  have "shmemallocator_alloc shmemallocator_create 134217728 ?as =
      Some (\<lparr>blk_p = Some 4096, blk_nbytes = 134217728\<rparr>, shmemallocator_create\<lparr>sa_big_alloc_nodes := [?f]\<rparr>, [])"
    using big [unfolded not_le] by (simp add: shmemallocator_alloc_def shmemallocator_bigAlloc_def shmemallocator_create_def)
  from shmem_reach.alloc [OF shmem_reach.create a this]
  have r: "shmem_reach (shmemallocator_create\<lparr>sa_big_alloc_nodes := [?f]\<rparr>) [4096 \<mapsto> 134217728]" by (simp only: add_live_simps)
  show ?thesis using r shmem_serialize_roundtrip [OF r, of 4096 134217728] by auto
qed

section \<open>Shortcomings\<close>

text \<open>
  Only the newest pool is asked: when it refuses a request and the operating system gives no new file, the request fails, whatever the
  older pools hold. And when the very first file is refused, a null pointer is used.
\<close>

lemma littleAlloc_only_newest_pool:
  assumes "sa_little_alloc_nodes al = nd # others" "fst (next_answer answers) = None"
    and "buddy_alloc n (pn_heap nd) SHD_SHMEM_ALLOCATOR_POOL_NBYTES = Some (None, heap)"
  shows "\<exists>al' rest. shmemallocator_littleAlloc al n answers = Some (null_block, al', rest)"
  using assms
  by (subst shmemallocator_littleAlloc.simps)
    (simp add: littleAlloc_try_def littleAlloc_nodes_def littleAlloc_grow_def shmempoolnode_create_def)

lemma littleAlloc_first_file_refused:
  assumes "sa_little_alloc_nodes al = []" "fst (next_answer answers) = None"
  shows "shmemallocator_littleAlloc al n answers = None"
  using assms
  by (subst shmemallocator_littleAlloc.simps) (simp add: littleAlloc_try_def littleAlloc_nodes_def shmempoolnode_create_def)

end
