(* ===== verification/Spec2Isabelle.thy ===== *)
theory Spec2Isabelle
  imports Udp Simulation_Runs Policy_Mailbox Event_Order Router Timer Eventd Futex Channel Tcp_Reno Shmem_Allocator
begin

text \<open>
  Verification of the discrete-event core of the network simulator in \<^verbatim>\<open>src/phantom/src/main\<close>. All paths below
  are relative to that directory.

  \<^bold>\<open>The program.\<close> The simulator runs native processes on virtual hosts in simulated time. A controller
  (\<^verbatim>\<open>core/controller.c\<close>) picks execution windows no longer than the smallest network latency; the manager
  (\<^verbatim>\<open>core/manager.c\<close>) runs one round per window; the scheduler (\<^verbatim>\<open>core/scheduler/scheduler.c\<close>) spreads the hosts
  over worker threads (\<^verbatim>\<open>core/worker.c\<close>) and keeps the pending events in a policy, a table of operations with several
  implementations. Events (\<^verbatim>\<open>core/work\<close>) wait in a binary heap (\<^verbatim>\<open>utility/priority_queue.c\<close>). Hosts exchange
  packets (\<^verbatim>\<open>routing/packet.c\<close>, \<^verbatim>\<open>routing/payload.c\<close>): a packet that is sent becomes an event for the destination
  host and enters the queue of its upstream router (\<^verbatim>\<open>routing/router.c\<close>). Inside a host, descriptors
  (\<^verbatim>\<open>host/descriptor\<close>) with status bits notify listeners: timers, event counters, channels, sockets with congestion
  control. Futexes wake waiting threads. The processes share memory with the simulator through pools
  (\<^verbatim>\<open>shmem\<close>), each managed by a buddy allocator.

  \<^bold>\<open>Conventions.\<close> A C integer is a word of its width (\<open>u32\<close>, \<open>u64\<close> and so on in \<open>Prelude\<close>); counters and
  sizes that are bounded by allocated memory are naturals. A struct is a record, an enum a datatype, a table of
  function pointers a record of functions. An operation takes the state it reads and returns the state it leaves. A
  failed assertion, a null dereference, a use of a freed object or a lock that is never released is the result
  \<open>None\<close>; results of the code that report errors stay ordinary values. All recursion is structural or has a
  termination proof, so no definition takes fuel and every claim that an operation returns is a claim that its result is
  \<open>Some\<close>. Code outside the program is an argument: the answers of the operating system to the creation of
  shared memory files, the random numbers of the shuffle, the callbacks of listeners, the address GLib gives a
  reallocated array. Objects that are shared by reference (tasks, payloads, packets, addresses, descriptors) live in a
  store, a map from identifiers to records, in which a freed object is absent.

  \<^bold>\<open>Theories.\<close>

  \<^item> \<open>Prelude\<close>: words, times, assertions, shared lemmas on lists, maps and words.

  \<^item> Events. \<open>Priority_Queue\<close> (\<^verbatim>\<open>utility/priority_queue.c\<close>): heap and index map, the order they need as locale
    \<open>pq_order\<close>. \<open>Work\<close> (\<^verbatim>\<open>core/work/task.c\<close>, \<^verbatim>\<open>core/work/event.c\<close>): reference counts, the comparison of
    events, which interprets \<open>pq_order\<close> as \<open>evq\<close>. \<open>Event_Queue\<close>: the queue with its clock that the policies
    keep. \<open>Event_Order\<close>: the event queue is a sorted list.

  \<^item> Scheduling. \<open>Scheduler_Policy\<close> (\<^verbatim>\<open>scheduler_policy.h\<close>): the table of operations, with its contract as locale
    \<open>scheduler_policy\<close>. \<open>Scheduler\<close>: \<^verbatim>\<open>scheduler.c\<close>, \<^verbatim>\<open>worker.c\<close>, and the windows of \<^verbatim>\<open>controller.c\<close>.
    \<open>Simulation\<close>: the rounds of \<^verbatim>\<open>manager_run\<close> as the step relation \<open>sim_step\<close>, and their safety for any policy
    that keeps the contract. \<open>Policy_Host_Single\<close> and \<open>Policy_Thread_Single\<close>: two policies, the
    interpretations \<open>hs\<close> and \<open>ts\<close>. \<open>Simulation_Runs\<close>: the theorems on whole runs. \<open>Policy_Mailbox\<close>: the two
    policies whose threads mail events to each other (\<^verbatim>\<open>scheduler_policy_thread_perthread.c\<close> and
    \<^verbatim>\<open>scheduler_policy_thread_perhost.c\<close>), which do not keep the contract.

  \<^item> Network. \<open>Address\<close> (\<^verbatim>\<open>routing/address.c\<close>). \<open>Packet\<close> and \<open>Packet_Lifecycle\<close>
    (\<^verbatim>\<open>routing/payload.c\<close>, \<^verbatim>\<open>routing/packet.c\<close>). \<open>Router_Queues\<close>, the three queue managers;
    \<open>Router_Queue_Laws\<close> and \<open>Router_CoDel\<close>, the interface \<open>queue_hooks_laws\<close> and its interpretations
    \<open>single\<close>, \<open>static\<close> and \<open>codel\<close>. \<open>Router\<close> (\<^verbatim>\<open>routing/router.c\<close>, \<^verbatim>\<open>worker_sendPacket\<close>) with the step
    relations \<open>router_step\<close> and \<open>net_step\<close>.

  \<^item> Host. \<open>Descriptor\<close> (\<^verbatim>\<open>host/status_listener.c\<close>, \<^verbatim>\<open>descriptor.c\<close>). \<open>Timer\<close> (\<^verbatim>\<open>timer.c\<close>).
    \<open>Eventd\<close> (\<^verbatim>\<open>eventd.c\<close>). \<open>Futex\<close> (\<^verbatim>\<open>host/futex.c\<close>, \<^verbatim>\<open>host/futex_table.c\<close>). \<open>Byte_Queue\<close>
    (\<^verbatim>\<open>utility/byte_queue.rs\<close>) and \<open>Channel\<close> (\<^verbatim>\<open>channel.c\<close>). \<open>Tcp_Reno\<close> (\<^verbatim>\<open>tcp_cong_reno.c\<close>).
    \<open>Socket\<close> (\<^verbatim>\<open>socket.c\<close>): names and the buffers of packets. \<open>Udp\<close> (\<^verbatim>\<open>udp.c\<close>): what a datagram socket promises as
    locale \<open>datagram_socket\<close>, interpreted as \<open>udp_idle\<close> on the UDP socket. The relations
    \<open>timer_step\<close>, \<open>eventd_step\<close>, \<open>chan_step\<close> and \<open>udp_step\<close> interleave their operations.

  \<^item> Shared memory. \<open>Shmem_Util\<close> (\<^verbatim>\<open>shmem/shmem_util.c\<close>). \<open>Buddy\<close> (\<^verbatim>\<open>shmem/buddy.c\<close>), \<open>Buddy_Lists\<close> and
    \<open>Buddy_Heap\<close>, its proofs. \<open>Pool_Interface\<close>: what the allocator of a pool promises, locale
    \<open>pool_allocator\<close>, interpreted as \<open>pool\<close> on the buddy allocator. \<open>Shmem_Allocator\<close>
    (\<^verbatim>\<open>shmem/shmem_allocator.c\<close>).

  \<^bold>\<open>What is shown.\<close>

  \<^item> A run of the simulator with either policy never fails an assertion, gives every host its events in time order and
    none in its past, and ends a round only when no event of the window is left. Every host is assigned to exactly one
    thread. The event order is total, the event queue answers like a sorted list.

  \<^item> A router with any of the three queues hands packets on in arrival order, drops the ones it refuses and releases
    all of them in the end. Reference counts of payloads are exact, a packet arrives with the bytes it was sent with,
    addresses print and parse back.

  \<^item> An armed timer always has its expiration pending and expires on time; event counters conserve what is written;
    listeners are notified exactly on the changes they watch; a futex wakes as many waiters as asked; a channel
    delivers the stream of bytes that entered it; the congestion window of Reno stays within its bounds. A UDP socket is a
    queue of datagrams with a capacity, delivers them in order, and what is sent from one socket is received from another.

  \<^item> The buddy allocator never aborts, its live blocks never overlap and it refuses a request only when no free block is
    large enough; the allocator built on it gives out disjoint blocks, and a block survives serialization.

  \<^item> Where the code falls short of its intent, the theorem states what it does: the CoDel control law, the minimum
    time jump, pointers to threads that are cut to 32 bits, a payload that stays locked, a channel that never
    becomes writable again, events mailed to a thread that has ended its round, datagrams sent from memory that cannot be
    read.

  \<^bold>\<open>Not modelled.\<close> Code that only drives the operating system or prints: processes and threads under ptrace, system
  call translation, shared memory files, the tracker, configuration. The topology, which is a client of a graph library.
  The protocol machine of \<^verbatim>\<open>tcp.c\<close>, epoll, the network interface, name resolution and the scheduler policy in which
  threads steal hosts from each other.
\<close>

end
